(* ===== verification/Pv_Prelude.thy ===== *)
theory Pv_Prelude
  imports Main "HOL-Library.Word" "HOL-Library.Code_Target_Nat"
begin

text \<open>
  Shared vocabulary of the development: the machine types of the C sources, the status codes
  every operation returns (\<^verbatim>\<open>include/pvault/pvault.h\<close>), the named collections of
  facts, and the lemmas on words, byte lists and results the components share.

  A C function that returns \<^verbatim>\<open>pv_status\<close> and fills an output parameter is a HOL function
  into \<open>'a pv_result\<close>: \<open>Inl\<close> carries the error status, \<open>Inr\<close> the output of a
  call that returned \<^verbatim>\<open>PV_OK\<close>.
\<close>

unbundle bit_operations_syntax

section \<open>Machine types\<close>

type_synonym byte = "8 word"
type_synonym u16 = "16 word"
type_synonym u32 = "32 word"
type_synonym u64 = "64 word"
type_synonym size_t = "64 word"

text \<open>
  A signed 64-bit integer is the same word, read with \<open>sint\<close> where the code compares it
  with a signed constant; a cast between \<^verbatim>\<open>int64_t\<close> and \<^verbatim>\<open>uint64_t\<close> is
  the identity.
\<close>

type_synonym i64 = "64 word"

text \<open>C text is a byte list; \<open>ascii\<close> turns an Isabelle literal into one.\<close>

definition ascii :: "string \<Rightarrow> byte list" where
  "ascii s = map of_char s"

text \<open>Numbers as \<^verbatim>\<open>printf\<close> writes them in base 10\<close>

definition decimal_digit :: "nat \<Rightarrow> byte" where
  "decimal_digit n = 0x30 + word_of_nat n"

fun print_decimal :: "nat \<Rightarrow> byte list" where
  "print_decimal n = (if n < 10 then [decimal_digit n] else print_decimal (n div 10) @ [decimal_digit (n mod 10)])"

declare print_decimal.simps [simp del]

section \<open>Status codes\<close>

datatype pv_status =
    PV_OK
  | PV_ERR_USAGE
  | PV_ERR_AUTH
  | PV_ERR_IO
  | PV_ERR_SECURE_MEMORY
  | PV_ERR_LOCKED
  | PV_ERR_EXTERNAL
  | PV_ERR_FORMAT
  | PV_ERR_LIMIT
  | PV_ERR_NOT_FOUND
  | PV_ERR_EXISTS
  | PV_ERR_STATE
  | PV_ERR_DURABILITY
  | PV_ERR_NOMEM
  | PV_ERR_UNSUPPORTED

type_synonym 'a pv_result = "pv_status + 'a"

text \<open>
  The outcome of asking libsodium for guarded memory: \<^verbatim>\<open>sodium_malloc\<close> returned
  NULL, \<^verbatim>\<open>sodium_mlock\<close> failed, or both succeeded. It is an input of the operations
  that allocate.
\<close>

datatype alloc = Alloc_ok | Malloc_null | Mlock_failed

section \<open>Slices\<close>

text \<open>
  A \<^verbatim>\<open>pv_slice\<close> is a pointer and a length. \<open>Null n\<close> is a NULL pointer with length
  \<open>n\<close>; \<open>Bytes bs\<close> is a valid pointer to exactly the bytes \<open>bs\<close>.
\<close>

datatype pv_slice = Null nat | Bytes "byte list"

fun slice_len :: "pv_slice \<Rightarrow> nat" where
  "slice_len (Null n) = n"
| "slice_len (Bytes bs) = length bs"

fun slice_null :: "pv_slice \<Rightarrow> bool" where
  "slice_null (Null n) = True"
| "slice_null (Bytes bs) = False"

fun slice_bytes :: "pv_slice \<Rightarrow> byte list" where
  "slice_bytes (Null n) = []"
| "slice_bytes (Bytes bs) = bs"

section \<open>Named collections\<close>

named_theorems pv_len \<open>lengths of encoded fields\<close>
named_theorems pv_word \<open>word expressions of the code as arithmetic\<close>

section \<open>Words\<close>

lemma word_and_minus1 [pv_word]:
  fixes x :: "'a::len word"
  shows "x AND (2 ^ n - 1) = take_bit n x"
  by (simp add: take_bit_eq_mask mask_eq_exp_minus_1)

lemma unat_ucast_byte [pv_word]:
  "unat (ucast (b::byte) :: 'a::len word) = unat b" if "8 \<le> LENGTH('a)"
proof -
  have "unat b < 2 ^ 8" using unsigned_less [of b] by simp
  also have "\<dots> \<le> 2 ^ LENGTH('a)" using that by (rule power_increasing) simp
  finally show ?thesis by (simp add: unsigned_ucast_eq take_bit_nat_eq_self)
qed

lemma unat_push_bit:
  fixes v :: "'a::len word"
  assumes "unat v * 2 ^ k < 2 ^ LENGTH('a)"
  shows "unat (push_bit k v) = unat v * 2 ^ k"
proof -
  have "unat (push_bit k v) = take_bit LENGTH('a) (push_bit k (unat v))"
    by (rule unsigned_push_bit_eq)
  with assms show ?thesis by (simp add: push_bit_eq_mult take_bit_nat_eq_self)
qed

lemma bit_beyond:
  fixes w :: "'a::len word"
  assumes "unat w < 2 ^ k" and "k \<le> n"
  shows "\<not> bit w n"
proof -
  have "take_bit k w = w"
    using assms(1) by (simp add: word_unat_eq_iff unsigned_take_bit_eq take_bit_nat_eq_self)
  then have "bit w n \<longleftrightarrow> bit (take_bit k w) n" by simp
  with assms(2) show ?thesis by (simp add: bit_take_bit_iff)
qed

lemma unat_push_bit_or [pv_word]:
  fixes v w :: "'a::len word"
  assumes v: "unat v * 2 ^ k + unat w < 2 ^ LENGTH('a)" and w: "unat w < 2 ^ k"
  shows "unat (push_bit k v OR w) = unat v * 2 ^ k + unat w"
proof -
  have "push_bit k v OR w = push_bit k v + w"
    using w by (intro disjunctive_add [symmetric]) (auto simp: bit_push_bit_iff bit_beyond)
  moreover have "unat (push_bit k v) = unat v * 2 ^ k"
    using v by (intro unat_push_bit) simp
  ultimately show ?thesis
    using v by (simp add: unat_word_ariths)
qed

lemma unat_and_low [pv_word]:
  fixes x :: "'a::len word"
  shows "unat (x AND (2 ^ n - 1)) = unat x mod 2 ^ n"
proof -
  have "unat (take_bit n x) = take_bit n (unat x)" by (rule unsigned_take_bit_eq)
  then show ?thesis by (simp only: word_and_minus1 take_bit_eq_mod)
qed

lemma unat_and_high [pv_word]:
  fixes x :: "'a::len word"
  shows "unat (x AND NOT (2 ^ n - 1)) = unat x - unat x mod 2 ^ n"
proof -
  have "x AND NOT (2 ^ n - 1) = x AND NOT (x AND (2 ^ n - 1))"
    by (rule bit_eqI) (auto simp: bit_simps)
  also have "\<dots> = x - (x AND (2 ^ n - 1))"
    by (rule disjunctive_diff [symmetric]) (auto simp: bit_simps)
  moreover have "(x AND (2 ^ n - 1)) \<le> x" by (rule word_and_le2)
  ultimately show ?thesis by (simp add: unat_sub unat_and_low)
qed

lemma unat_drop_bit_div [pv_word]: "unat (drop_bit n x) = unat x div 2 ^ n"
  for x :: "'a::len word"
  using unat_drop_bit_eq [of n x] drop_bit_eq_div [of n "unat x"] by (rule trans)

lemma map_unat_bytes:
  "list_all (\<lambda>n. n < 256) ns \<Longrightarrow> map unat (map word_of_nat ns :: byte list) = ns"
  by (induction ns) (simp_all add: unat_of_nat)

lemma map_unat_eq: "map unat xs = map unat ys \<longleftrightarrow> xs = ys"
  for xs ys :: "'a::len word list"
  by (rule inj_map_eq_map) (simp add: inj_def word_unat_eq_iff)

section \<open>Sequencing with early return\<close>

text \<open>
  \<open>pv_bind m k\<close> runs \<open>m\<close>, returns its status if it failed and goes on with \<open>k\<close>
  otherwise; the state keeps the effects of a failed call.
\<close>

definition pv_return :: "'a \<Rightarrow> 's \<Rightarrow> 'a pv_result \<times> 's" where
  "pv_return x s = (Inr x, s)"

definition pv_raise :: "pv_status \<Rightarrow> 's \<Rightarrow> 'a pv_result \<times> 's" where
  "pv_raise e s = (Inl e, s)"

definition pv_bind ::
  "('s \<Rightarrow> 'a pv_result \<times> 's) \<Rightarrow> ('a \<Rightarrow> 's \<Rightarrow> 'b pv_result \<times> 's) \<Rightarrow> 's \<Rightarrow> 'b pv_result \<times> 's" where
  "pv_bind m k s = (case m s of (Inl e, s1) \<Rightarrow> (Inl e, s1) | (Inr x, s1) \<Rightarrow> k x s1)"

lemma pv_bind_Inr [simp]: "m s = (Inr x, s1) \<Longrightarrow> pv_bind m k s = k x s1"
  and pv_bind_Inl [simp]: "m s = (Inl e, s1) \<Longrightarrow> pv_bind m k s = (Inl e, s1)"
  by (simp_all add: pv_bind_def)

text \<open>The same for operations without a state.\<close>

definition res_bind :: "'a pv_result \<Rightarrow> ('a \<Rightarrow> 'b pv_result) \<Rightarrow> 'b pv_result" where
  "res_bind m k = (case m of Inl e \<Rightarrow> Inl e | Inr x \<Rightarrow> k x)"

lemma res_bind_simps [simp]: "res_bind (Inl e) k = Inl e" "res_bind (Inr x) k = k x"
  by (simp_all add: res_bind_def)

lemma res_bind_Inr: "res_bind m k = Inr y \<longleftrightarrow> (\<exists>x. m = Inr x \<and> k x = Inr y)"
  by (cases m) auto

section \<open>Loops that stop at the first error\<close>

text \<open>
  \<open>for_each f xs s\<close> is the C loop that applies a fallible operation to every element and
  returns its status as soon as it fails; the state keeps what the operations did until then.
\<close>

fun for_each :: "('x \<Rightarrow> 's \<Rightarrow> 'y pv_result \<times> 's) \<Rightarrow> 'x list \<Rightarrow> 's \<Rightarrow> 'y list pv_result \<times> 's" where
  "for_each f [] s = (Inr [], s)"
| "for_each f (x # xs) s =
     (case f x s of
        (Inl e, s1) \<Rightarrow> (Inl e, s1)
      | (Inr y, s1) \<Rightarrow>
          (case for_each f xs s1 of
             (Inl e, s2) \<Rightarrow> (Inl e, s2)
           | (Inr ys, s2) \<Rightarrow> (Inr (y # ys), s2)))"

text \<open>The runs of such a loop, whatever the form of its operation.\<close>

inductive loop :: "('x \<Rightarrow> 's \<Rightarrow> 'y pv_result \<Rightarrow> 's \<Rightarrow> bool) \<Rightarrow>
    'x list \<Rightarrow> 's \<Rightarrow> 'y list pv_result \<Rightarrow> 's \<Rightarrow> bool"
  for stp
  where
  loop_done: "loop stp [] s (Inr []) s"
| loop_stop: "stp x s (Inl e) s1 \<Longrightarrow> loop stp (x # xs) s (Inl e) s1"
| loop_next: "stp x s (Inr y) s1 \<Longrightarrow> loop stp xs s1 (Inr ys) s2 \<Longrightarrow>
    loop stp (x # xs) s (Inr (y # ys)) s2"
| loop_fail: "stp x s (Inr y) s1 \<Longrightarrow> loop stp xs s1 (Inl e) s2 \<Longrightarrow>
    loop stp (x # xs) s (Inl e) s2"

inductive_cases loop_NilE: "loop stp [] s r s'"
inductive_cases loop_ConsE: "loop stp (x # xs) s r s'"

lemma for_each_loop:
  "for_each f xs s = (r, s') \<Longrightarrow> loop (\<lambda>x s r s'. f x s = (r, s')) xs s r s'"
  by (induction f xs s arbitrary: r s' rule: for_each.induct)
    (auto split: prod.splits sum.splits intro: loop.intros)

lemma loop_mono: "loop stp xs s r t \<Longrightarrow> (\<And>x s r t. stp x s r t \<Longrightarrow> stp' x s r t) \<Longrightarrow> loop stp' xs s r t"
  by (induction rule: loop.induct) (blast intro: loop.intros)+

section \<open>Regions of memory\<close>

text \<open>
  \<open>laid_out lo rs hi\<close>: the regions (offset and length) follow one another between \<open>lo\<close> and
  \<open>hi\<close>, so they are within these bounds and pairwise disjoint.
\<close>

fun laid_out :: "nat \<Rightarrow> (nat \<times> nat) list \<Rightarrow> nat \<Rightarrow> bool" where
  "laid_out lo [] hi \<longleftrightarrow> lo \<le> hi"
| "laid_out lo ((off, len) # rs) hi \<longleftrightarrow> lo \<le> off \<and> laid_out (off + len) rs hi"

definition below :: "nat \<Rightarrow> (nat \<times> nat) list \<Rightarrow> bool" where
  "below hi rs \<longleftrightarrow> list_all (\<lambda>(off, len). off + len \<le> hi) rs"

definition apart :: "nat \<times> nat \<Rightarrow> nat \<times> nat \<Rightarrow> bool" where
  "apart p q \<longleftrightarrow> fst p + snd p \<le> fst q \<or> fst q + snd q \<le> fst p"

lemma below_Nil [simp]: "below hi []"
  and below_Cons [simp]: "below hi ((off, len) # rs) \<longleftrightarrow> off + len \<le> hi \<and> below hi rs"
  and below_append [simp]: "below hi (rs @ rs') \<longleftrightarrow> below hi rs \<and> below hi rs'"
  by (simp_all add: below_def)

lemma below_mono: "below hi rs \<Longrightarrow> hi \<le> hi' \<Longrightarrow> below hi' rs"
  by (induction rs) auto

lemma laid_out_le: "laid_out lo rs hi \<Longrightarrow> lo \<le> hi"
  by (induction lo rs hi rule: laid_out.induct) auto

lemma laid_out_below: "laid_out lo rs hi \<Longrightarrow> below hi rs"
  by (induction lo rs hi rule: laid_out.induct) (auto dest: laid_out_le)

lemma laid_out_append: "laid_out lo rs mid \<Longrightarrow> laid_out mid rs' hi \<Longrightarrow> laid_out lo (rs @ rs') hi"
proof (induction lo rs mid rule: laid_out.induct)
  case (1 lo mid)
  then show ?case by (cases rs') auto
qed auto

lemma laid_out_weaken: "laid_out lo rs hi \<Longrightarrow> lo' \<le> lo \<Longrightarrow> hi \<le> hi' \<Longrightarrow> laid_out lo' rs hi'"
proof (induction lo rs hi arbitrary: lo' rule: laid_out.induct)
  case (2 lo off len rs hi)
  then show ?case by (auto intro: "2.IH")
qed auto

lemma laid_out_starts: "laid_out lo rs hi \<Longrightarrow> list_all (\<lambda>(off, len). lo \<le> off) rs"
proof (induction lo rs hi rule: laid_out.induct)
  case (2 lo off len rs hi)
  then show ?case by (auto simp: list_all_iff)
qed simp

lemma laid_out_apart: "laid_out lo rs hi \<Longrightarrow> sorted_wrt apart rs"
proof (induction lo rs hi rule: laid_out.induct)
  case (2 lo off len rs hi)
  then show ?case using laid_out_starts [of "off + len" rs hi]
    by (auto simp: apart_def list_all_iff)
qed simp

lemma below_laid_out_apart:
  "below mid rs \<Longrightarrow> laid_out mid rs' hi \<Longrightarrow> sorted_wrt apart rs \<Longrightarrow> sorted_wrt apart (rs @ rs')"
  using laid_out_starts [of mid rs' hi] laid_out_apart [of mid rs' hi]
  by (fastforce simp: sorted_wrt_append apart_def below_def list_all_iff)

end
