(* ===== verification/Pv_Util.thy ===== *)
theory Pv_Util
  imports Pv_Prelude "HOL-Library.Sublist"
begin

text \<open>
  The utilities (\<^verbatim>\<open>src/util.c\<close>): UTF-8 validation, the sanitising printers, checked
  size arithmetic, the clock, hexadecimal text and ASCII case folding. A loop over a buffer with
  a growing index is a recursion over the bytes that are left.
\<close>

section \<open>Definitions\<close>

subsection \<open>UTF-8 validation\<close>

text \<open>The lead byte: the bits it carries and the number of continuation bytes.\<close>

definition utf8_lead :: "byte \<Rightarrow> (u32 \<times> nat) option" where
  "utf8_lead first =
     (if 0xc2 \<le> first \<and> first \<le> 0xdf then Some (ucast (first AND 0x1f), 1)
      else if 0xe0 \<le> first \<and> first \<le> 0xef then Some (ucast (first AND 0x0f), 2)
      else if 0xf0 \<le> first \<and> first \<le> 0xf4 then Some (ucast (first AND 0x07), 3)
      else None)"

text \<open>The inner loop over the continuation bytes.\<close>

fun utf8_continuation :: "nat \<Rightarrow> u32 \<Rightarrow> byte list \<Rightarrow> u32 option" where
  "utf8_continuation 0 codepoint ds = Some codepoint"
| "utf8_continuation (Suc j) codepoint [] = None"
| "utf8_continuation (Suc j) codepoint (next # ds) =
     (if next AND 0xc0 \<noteq> 0x80 then None
      else utf8_continuation j (push_bit 6 codepoint OR ucast (next AND 0x3f)) ds)"

lemma utf8_continuation_code [code]:
  "utf8_continuation n codepoint ds =
     (if n = 0 then Some codepoint
      else case ds of
        [] \<Rightarrow> None
      | d # ds \<Rightarrow>
          if d AND 0xc0 \<noteq> 0x80 then None
          else utf8_continuation (n - 1) (push_bit 6 codepoint OR ucast (d AND 0x3f)) ds)"
  by (cases n; cases ds) simp_all

function utf8_bytes_valid :: "byte list \<Rightarrow> bool" where
  "utf8_bytes_valid [] = True"
| "utf8_bytes_valid (first # rest) =
     (if first \<le> 0x7f then utf8_bytes_valid rest
      else case utf8_lead first of
        None \<Rightarrow> False
      | Some (codepoint, continuation) \<Rightarrow>
          if continuation > length rest then False
          else case utf8_continuation continuation codepoint rest of
            None \<Rightarrow> False
          | Some codepoint' \<Rightarrow>
              if (continuation = 2 \<and> codepoint' < 0x800) \<or>
                 (continuation = 3 \<and> codepoint' < 0x10000) \<or>
                 codepoint' > 0x10ffff \<or> (0xd800 \<le> codepoint' \<and> codepoint' \<le> 0xdfff)
              then False
              else utf8_bytes_valid (drop continuation rest))"
  by pat_completeness auto
termination
  by (relation "measure length") auto

definition pv_utf8_valid :: "pv_slice \<Rightarrow> bool" where
  "pv_utf8_valid sl =
     (if slice_null sl \<and> slice_len sl \<noteq> 0 then False
      else utf8_bytes_valid (slice_bytes sl))"

subsection \<open>Sanitised output\<close>

definition display_codepoint_unsafe :: "u32 \<Rightarrow> bool" where
  "display_codepoint_unsafe codepoint \<longleftrightarrow>
     codepoint \<le> 0x1f \<or> (0x7f \<le> codepoint \<and> codepoint \<le> 0x9f) \<or>
     codepoint = 0x061c \<or> (0x200b \<le> codepoint \<and> codepoint \<le> 0x200f) \<or>
     (0x2028 \<le> codepoint \<and> codepoint \<le> 0x202e) \<or>
     (0x2060 \<le> codepoint \<and> codepoint \<le> 0x2069) \<or> codepoint = 0xfeff"

text \<open>
  \<^verbatim>\<open>decode_codepoint\<close> returns the width, 0 when the bytes do not start with a
  well-formed sequence; \<open>None\<close> is the width 0.
\<close>

function decode_tail :: "byte list \<Rightarrow> nat \<Rightarrow> nat \<Rightarrow> u32 \<Rightarrow> u32 option" where
  "decode_tail data i width value =
     (if i < width
      then if (data ! i) AND 0xc0 \<noteq> 0x80 then None
           else decode_tail data (i + 1) width
                  (push_bit 6 value OR ucast ((data ! i) AND 0x3f))
      else Some value)"
  by pat_completeness auto
termination
  by (relation "measure (\<lambda>(data, i, width, value). width - i)") auto

declare decode_tail.simps [simp del]

definition decode_lead :: "byte \<Rightarrow> (u32 \<times> nat) option" where
  "decode_lead b =
     (if 0xc2 \<le> b \<and> b \<le> 0xdf then Some (ucast (b AND 0x1f), 2)
      else if 0xe0 \<le> b \<and> b \<le> 0xef then Some (ucast (b AND 0x0f), 3)
      else if 0xf0 \<le> b \<and> b \<le> 0xf4 then Some (ucast (b AND 0x07), 4)
      else None)"

definition decode_codepoint :: "byte list \<Rightarrow> (u32 \<times> nat) option" where
  "decode_codepoint data =
     (if length data = 0 then None
      else if data ! 0 \<le> 0x7f then Some (ucast (data ! 0), 1)
      else case decode_lead (data ! 0) of
        None \<Rightarrow> None
      | Some (value, width) \<Rightarrow>
          if width > length data then None
          else case decode_tail data 1 width value of
            None \<Rightarrow> None
          | Some value' \<Rightarrow>
              if (width = 3 \<and> value' < 0x800) \<or> (width = 4 \<and> value' < 0x10000) \<or>
                 value' > 0x10ffff \<or> (0xd800 \<le> value' \<and> value' \<le> 0xdfff)
              then None else Some (value', width))"

lemma decode_codepoint_width:
  assumes "decode_codepoint data = Some (cp, w)"
  shows "0 < w \<and> w \<le> length data"
  using assms
  by (cases data)
    (auto simp: decode_codepoint_def decode_lead_def Suc_le_eq split: if_splits option.splits)

definition question_mark :: byte where
  "question_mark = 0x3f"

function sanitize_from :: "byte list \<Rightarrow> byte list" where
  "sanitize_from data =
     (if data = [] then []
      else case decode_codepoint data of
        None \<Rightarrow> question_mark # sanitize_from (drop 1 data)
      | Some (codepoint, width) \<Rightarrow>
          if display_codepoint_unsafe codepoint
          then question_mark # sanitize_from (drop width data)
          else take width data @ sanitize_from (drop width data))"
  by pat_completeness auto
termination
  by (relation "measure length") (auto dest: decode_codepoint_width)

declare sanitize_from.simps [simp del]

text \<open>\<open>None\<close> is the return value false.\<close>

definition pv_text_sanitize :: "pv_slice \<Rightarrow> nat \<Rightarrow> byte list option" where
  "pv_text_sanitize sl capacity =
     (if (slice_null sl \<and> slice_len sl \<noteq> 0) \<or> capacity < slice_len sl then None
      else Some (sanitize_from (slice_bytes sl)))"

text \<open>
  The printer writes the safe bytes between \<open>safe_start\<close> and \<open>position\<close> in one piece;
  \<open>out\<close> is what the stream has received.
\<close>

function fprint_from :: "byte list \<Rightarrow> nat \<Rightarrow> nat \<Rightarrow> byte list \<Rightarrow> byte list" where
  "fprint_from data position safe_start out =
     (if position < length data then
        case decode_codepoint (drop position data) of
          None \<Rightarrow>
            fprint_from data (position + 1) (position + 1)
              ((if position > safe_start
                then out @ take (position - safe_start) (drop safe_start data) else out)
               @ [question_mark])
        | Some (codepoint, width) \<Rightarrow>
            if display_codepoint_unsafe codepoint
            then fprint_from data (position + width) (position + width)
                   ((if position > safe_start
                     then out @ take (position - safe_start) (drop safe_start data) else out)
                    @ [question_mark])
            else fprint_from data (position + width) safe_start out
      else if position > safe_start
           then out @ take (position - safe_start) (drop safe_start data)
           else out)"
  by pat_completeness auto
termination
  by (relation "measure (\<lambda>(data, position, safe_start, out). length data - position)")
    (auto dest!: decode_codepoint_width)

declare fprint_from.simps [simp del]

definition pv_text_fprint :: "pv_slice \<Rightarrow> byte list" where
  "pv_text_fprint sl =
     (if slice_null sl \<and> slice_len sl \<noteq> 0 then []
      else fprint_from (slice_bytes sl) 0 0 [])"

subsection \<open>Checked size arithmetic and the clock\<close>

abbreviation SIZE_MAX :: size_t where
  "SIZE_MAX \<equiv> - 1"

definition pv_size_add :: "size_t \<Rightarrow> size_t \<Rightarrow> size_t option" where
  "pv_size_add a b = (if b > SIZE_MAX - a then None else Some (a + b))"

definition pv_size_mul :: "size_t \<Rightarrow> size_t \<Rightarrow> size_t option" where
  "pv_size_mul a b = (if a \<noteq> 0 \<and> b > SIZE_MAX div a then None else Some (a * b))"

text \<open>\<open>clock\<close> is what \<^verbatim>\<open>clock_gettime\<close> returned: seconds and nanoseconds, or a failure.\<close>

definition pv_now_ms :: "(int \<times> nat) option \<Rightarrow> i64" where
  "pv_now_ms clock =
     (case clock of
        None \<Rightarrow> 0
      | Some (tv_sec, tv_nsec) \<Rightarrow> word_of_int (tv_sec * 1000 + int (tv_nsec div 1000000)))"

subsection \<open>Hexadecimal text\<close>

definition hex_alphabet :: "byte list" where
  "hex_alphabet = ascii ''0123456789abcdef''"

definition hex_pair :: "byte \<Rightarrow> byte list" where
  "hex_pair b = [hex_alphabet ! unat (drop_bit 4 b), hex_alphabet ! unat (b AND 0x0f)]"

text \<open>
  The C string left in the output buffer of \<open>output_len\<close> bytes; \<open>None\<close> when the buffer is
  not written at all.
\<close>

definition pv_hex_encode :: "byte list \<Rightarrow> nat \<Rightarrow> byte list option" where
  "pv_hex_encode input output_len =
     (if output_len = 0 then None
      else if length input > (output_len - 1) div 2 then Some []
      else Some (concat (map hex_pair input)))"

definition hex_value :: "byte \<Rightarrow> int" where
  "hex_value c =
     (if 0x30 \<le> c \<and> c \<le> 0x39 then uint c - 0x30
      else if 0x61 \<le> c \<and> c \<le> 0x66 then uint c - 0x61 + 10
      else if 0x41 \<le> c \<and> c \<le> 0x46 then uint c - 0x41 + 10
      else -1)"

fun hex_decode_pairs :: "byte list \<Rightarrow> byte list option" where
  "hex_decode_pairs (h # l # cs) =
     (if hex_value h < 0 \<or> hex_value l < 0 then None
      else case hex_decode_pairs cs of
        None \<Rightarrow> None
      | Some out \<Rightarrow>
          Some ((push_bit 4 (word_of_int (hex_value h)) OR word_of_int (hex_value l)) # out))"
| "hex_decode_pairs cs = Some []"

definition pv_hex_decode :: "byte list \<Rightarrow> nat \<Rightarrow> byte list option" where
  "pv_hex_decode input output_len =
     (if length input \<noteq> output_len * 2 then None else hex_decode_pairs input)"

subsection \<open>Case folding and search\<close>

definition ascii_fold :: "byte \<Rightarrow> byte" where
  "ascii_fold c = (if 0x41 \<le> c \<and> c \<le> 0x5a then c + (0x61 - 0x41) else c)"

definition fold_byte :: "bool \<Rightarrow> byte \<Rightarrow> byte" where
  "fold_byte casefold c = (if casefold then ascii_fold c else c)"

text \<open>The comparison loop: the bytes of \<open>text\<close> against the bytes at the cursor.\<close>

fun bytes_match :: "bool \<Rightarrow> byte list \<Rightarrow> byte list \<Rightarrow> bool" where
  "bytes_match casefold (t # ts) (d # ds) =
     (if fold_byte casefold d \<noteq> fold_byte casefold t then False
      else bytes_match casefold ts ds)"
| "bytes_match casefold [] ds = True"
| "bytes_match casefold (t # ts) [] = False"

definition pv_slice_equal_cstr :: "pv_slice \<Rightarrow> byte list \<Rightarrow> bool \<Rightarrow> bool" where
  "pv_slice_equal_cstr sl text casefold =
     (if slice_len sl \<noteq> length text then False
      else bytes_match casefold text (slice_bytes sl))"

function contains_from :: "bool \<Rightarrow> byte list \<Rightarrow> byte list \<Rightarrow> nat \<Rightarrow> bool" where
  "contains_from casefold text data i =
     (if i \<le> length data - length text
      then if bytes_match casefold text (drop i data) then True
           else contains_from casefold text data (i + 1)
      else False)"
  by pat_completeness auto
termination
  by (relation "measure (\<lambda>(casefold, text, data, i). Suc (length data) - i)") auto

declare contains_from.simps [simp del]

definition pv_slice_contains_cstr :: "pv_slice \<Rightarrow> byte list \<Rightarrow> bool \<Rightarrow> bool" where
  "pv_slice_contains_cstr sl text casefold =
     (if length text = 0 \<or> length text > slice_len sl then False
      else contains_from casefold text (slice_bytes sl) 0)"

section \<open>The bits of a UTF-8 sequence\<close>

lemma unat_cont:
  fixes v :: u32 and b :: byte
  assumes "unat v < 2 ^ 26"
  shows "unat (push_bit 6 v OR ucast (b AND 0x3f)) = unat v * 64 + unat b mod 64"
proof -
  have b: "unat (ucast (b AND 0x3f) :: u32) = unat b mod 64"
    using unat_and_low [of b 6] by (simp add: unat_ucast_byte)
  show ?thesis
    using assms by (subst unat_push_bit_or) (simp_all add: b)
qed

lemma byte_cont_iff: "(b::byte) AND 0xc0 = 0x80 \<longleftrightarrow> 0x80 \<le> unat b \<and> unat b < 0xc0"
proof -
  have c: "(0xc0::byte) = NOT (2 ^ 6 - 1)" by simp
  have "unat (b AND 0xc0) = unat b - unat b mod 2 ^ 6"
    unfolding c by (rule unat_and_high)
  then have "b AND 0xc0 = 0x80 \<longleftrightarrow> unat b - unat b mod 64 = 0x80"
    by (simp add: word_unat_eq_iff)
  also have "\<dots> \<longleftrightarrow> 64 * (unat b div 64) = 0x80" by (simp add: minus_mod_eq_mult_div)
  also have "\<dots> \<longleftrightarrow> 0x80 \<le> unat b \<and> unat b < 0xc0"
    by (auto simp: div_nat_eqI)
  finally show ?thesis .
qed

lemma unat_lead:
  fixes b :: byte
  shows "unat (ucast (b AND 0x1f) :: u32) = unat b mod 32"
    and "unat (ucast (b AND 0x0f) :: u32) = unat b mod 16"
    and "unat (ucast (b AND 0x07) :: u32) = unat b mod 8"
  using unat_and_low [of b 5] unat_and_low [of b 4] unat_and_low [of b 3]
  by (simp_all add: unat_ucast_byte)

definition unicode_scalar :: "nat \<Rightarrow> bool" where
  "unicode_scalar cp \<longleftrightarrow> cp < 0x110000 \<and> \<not> (0xd800 \<le> cp \<and> cp < 0xe000)"

definition utf8_encode_nat :: "nat \<Rightarrow> nat list" where
  "utf8_encode_nat cp =
     (if cp < 0x80 then [cp]
      else if cp < 0x800 then [0xc0 + cp div 64, 0x80 + cp mod 64]
      else if cp < 0x10000
      then [0xe0 + cp div 4096, 0x80 + cp div 64 mod 64, 0x80 + cp mod 64]
      else [0xf0 + cp div 262144, 0x80 + cp div 4096 mod 64, 0x80 + cp div 64 mod 64,
            0x80 + cp mod 64])"

definition utf8_encode :: "nat \<Rightarrow> byte list" where
  "utf8_encode cp = map word_of_nat (utf8_encode_nat cp)"

lemma map_unat_utf8_encode:
  assumes "unicode_scalar cp"
  shows "map unat (utf8_encode cp) = utf8_encode_nat cp"
proof -
  have "list_all (\<lambda>n. n < 256) (utf8_encode_nat cp)"
    using assms by (auto simp: utf8_encode_nat_def unicode_scalar_def)
  then show ?thesis unfolding utf8_encode_def by (rule map_unat_bytes)
qed

definition byte_cont :: "byte \<Rightarrow> bool" where
  "byte_cont b \<longleftrightarrow> 0x80 \<le> unat b \<and> unat b < 0xc0"

definition cont_value :: "nat \<Rightarrow> byte list \<Rightarrow> nat" where
  "cont_value = foldl (\<lambda>n b. n * 64 + (unat b - 0x80))"

lemma cont_value_Cons: "cont_value n (b # bs) = cont_value (n * 64 + (unat b - 0x80)) bs"
  by (simp add: cont_value_def)

lemma decode_tail_eq:
  "i \<le> width \<Longrightarrow> width \<le> length data \<Longrightarrow>
   decode_tail data i width v = utf8_continuation (width - i) v (drop i data)"
proof (induction data i width v rule: decode_tail.induct)
  case (1 data i width v)
  show ?case
  proof (cases "i < width")
    case True
    then have "width - i = Suc (width - (i + 1))" and "drop i data = data ! i # drop (i + 1) data"
      using "1.prems" by (simp_all add: Cons_nth_drop_Suc)
    with True "1.prems" "1.IH" show ?thesis
      by (simp add: decode_tail.simps [of data i])
  next
    case False
    with "1.prems" show ?thesis by (simp add: decode_tail.simps [of data width])
  qed
qed

lemma decode_codepoint_Cons:
  "decode_codepoint (a # r) =
     (if a \<le> 0x7f then Some (ucast a, 1)
      else case utf8_lead a of
        None \<Rightarrow> None
      | Some (v, k) \<Rightarrow>
          if k > length r then None
          else case utf8_continuation k v r of
            None \<Rightarrow> None
          | Some v' \<Rightarrow>
              if (k = 2 \<and> v' < 0x800) \<or> (k = 3 \<and> v' < 0x10000) \<or>
                 v' > 0x10ffff \<or> (0xd800 \<le> v' \<and> v' \<le> 0xdfff)
              then None else Some (v', Suc k))"
proof (cases "utf8_lead a")
  case None
  then have "decode_lead a = None"
    by (auto simp: utf8_lead_def decode_lead_def split: if_splits)
  with None show ?thesis by (simp add: decode_codepoint_def)
next
  case (Some p)
  obtain v k where p: "p = (v, k)" by (cases p)
  have lead: "decode_lead a = Some (v, Suc k)"
    using Some p by (auto simp: utf8_lead_def decode_lead_def split: if_splits)
  have tail: "decode_tail (a # r) 1 (Suc k) v = utf8_continuation k v r" if "k \<le> length r"
    using that by (subst decode_tail_eq) auto
  have width: "Suc k = 3 \<longleftrightarrow> k = 2" "Suc k = 4 \<longleftrightarrow> k = 3" by auto
  show ?thesis
  proof (cases "k \<le> length r")
    case True
    show ?thesis
      unfolding decode_codepoint_def nth_Cons_0 lead Some p option.case prod.case tail [OF True] width
      using True by simp
  next
    case False
    then show ?thesis
      unfolding decode_codepoint_def nth_Cons_0 lead Some p option.case prod.case by simp
  qed
qed

lemma utf8_bytes_valid_step:
  "utf8_bytes_valid xs \<longleftrightarrow> xs = [] \<or>
     (\<exists>cp w. decode_codepoint xs = Some (cp, w) \<and> utf8_bytes_valid (drop w xs))"
proof (cases xs)
  case (Cons a r)
  show ?thesis
    unfolding Cons decode_codepoint_Cons
    by (auto split: option.splits if_splits)
qed simp

lemma cont_mod: "128 \<le> n \<Longrightarrow> n < 192 \<Longrightarrow> n mod 64 = n - 128" for n :: nat
proof -
  assume n: "128 \<le> n" "n < 192"
  then have "n mod 64 = ((n - 128) + 64 * 2) mod 64" by simp
  also have "\<dots> = (n - 128) mod 64" by (rule mod_mult_self2)
  finally show ?thesis using n by simp
qed

lemma utf8_continuation_spec:
  assumes "unat v * 64 ^ k + 64 ^ k \<le> 2 ^ 32"
  shows "utf8_continuation k v ds = Some v' \<longleftrightarrow>
    k \<le> length ds \<and> list_all byte_cont (take k ds) \<and> unat v' = cont_value (unat v) (take k ds)"
  using assms
proof (induction k v ds rule: utf8_continuation.induct)
  case (1 v ds)
  then show ?case by (auto simp: cont_value_def word_unat_eq_iff)
next
  case (2 j v)
  then show ?case by simp
next
  case (3 j v b ds)
  show ?case
  proof (cases "byte_cont b")
    case True
    have "64 * ((unat v + 1) * 64 ^ j) \<le> 64 * 2 ^ 26"
      using "3.prems" by (simp add: algebra_simps)
    then have "(unat v + 1) * 64 ^ j \<le> 2 ^ 26"
      by (simp only: nat_mult_le_cancel1 zero_less_numeral)
    moreover have "(unat v + 1) * 1 \<le> (unat v + 1) * 64 ^ j" by (rule mult_le_mono) simp_all
    ultimately have "(unat v + 1) * 1 \<le> 2 ^ 26" by (rule order_trans [rotated])
    then have v: "unat v < 2 ^ 26" by simp
    have c: "b AND 0xc0 = 0x80" using True by (simp add: byte_cont_def byte_cont_iff)
    have m: "unat b mod 64 = unat b - 0x80"
      using True unfolding byte_cont_def by (intro cont_mod) auto
    define w :: u32 where "w = push_bit 6 v OR ucast (b AND 0x3f)"
    have u: "unat w = unat v * 64 + (unat b - 0x80)"
      unfolding w_def unat_cont [OF v] m ..
    have l: "unat b - 0x80 < 64" using True unfolding byte_cont_def by linarith
    have "unat w * 64 ^ j + 64 ^ j = (unat w + 1) * 64 ^ j" by simp
    also have "\<dots> \<le> (unat v * 64 + 64) * 64 ^ j"
      using l unfolding u by (intro mult_le_mono) simp_all
    also have "\<dots> = unat v * 64 ^ Suc j + 64 ^ Suc j" by (simp add: algebra_simps)
    also note "3.prems"
    finally have p: "unat w * 64 ^ j + 64 ^ j \<le> 2 ^ 32" .
    have "utf8_continuation (Suc j) v (b # ds) = utf8_continuation j w ds"
      by (simp add: c w_def)
    moreover have "utf8_continuation j w ds = Some v' \<longleftrightarrow>
        j \<le> length ds \<and> list_all byte_cont (take j ds) \<and> unat v' = cont_value (unat w) (take j ds)"
      unfolding w_def using c p [unfolded w_def] by (intro "3.IH") simp_all
    ultimately show ?thesis using True by (simp add: cont_value_Cons u)
  next
    case False
    then have "b AND 0xc0 \<noteq> 0x80" unfolding byte_cont_def byte_cont_iff .
    with False show ?thesis by simp
  qed
qed

text \<open>The lead byte as a number: offset of the range and width of the tail.\<close>

definition lead_base :: "nat \<Rightarrow> (nat \<times> nat) option" where
  "lead_base a =
     (if 0xc2 \<le> a \<and> a < 0xe0 then Some (0xc0, 1)
      else if 0xe0 \<le> a \<and> a < 0xf0 then Some (0xe0, 2)
      else if 0xf0 \<le> a \<and> a < 0xf5 then Some (0xf0, 3)
      else None)"

lemma mod_range: "b \<le> n \<Longrightarrow> n < b + m \<Longrightarrow> b mod m = 0 \<Longrightarrow> n mod m = n - b" for n b m :: nat
proof -
  assume h: "b \<le> n" "n < b + m" "b mod m = 0"
  then have "n mod m = ((n - b) + b) mod m" by simp
  also have "\<dots> = (n - b) mod m" using h(3) by (metis add.right_neutral mod_add_right_eq)
  finally show ?thesis using h by simp
qed

lemma utf8_lead_base:
  "utf8_lead a = Some (v, k) \<longleftrightarrow> (\<exists>c. lead_base (unat a) = Some (c, k) \<and> unat v = unat a - c)"
proof -
  have le: "(0xc2::byte) \<le> a \<longleftrightarrow> 0xc2 \<le> unat a" "a \<le> 0xdf \<longleftrightarrow> unat a < 0xe0"
    "(0xe0::byte) \<le> a \<longleftrightarrow> 0xe0 \<le> unat a" "a \<le> 0xef \<longleftrightarrow> unat a < 0xf0"
    "(0xf0::byte) \<le> a \<longleftrightarrow> 0xf0 \<le> unat a" "a \<le> 0xf4 \<longleftrightarrow> unat a < 0xf5"
    by (auto simp: word_le_nat_alt)
  have v: "v = ucast (a AND 0x1f) \<longleftrightarrow> unat v = unat a mod 32"
    "v = ucast (a AND 0x0f) \<longleftrightarrow> unat v = unat a mod 16"
    "v = ucast (a AND 0x07) \<longleftrightarrow> unat v = unat a mod 8"
    by (simp_all only: word_unat_eq_iff unat_lead)
  have m: "0xc2 \<le> unat a \<Longrightarrow> unat a < 0xe0 \<Longrightarrow> unat a mod 32 = unat a - 0xc0"
    "0xe0 \<le> unat a \<Longrightarrow> unat a < 0xf0 \<Longrightarrow> unat a mod 16 = unat a - 0xe0"
    "0xf0 \<le> unat a \<Longrightarrow> unat a < 0xf5 \<Longrightarrow> unat a mod 8 = unat a - 0xf0"
    by (rule mod_range; simp)+
  show ?thesis
    unfolding utf8_lead_def le lead_base_def
    by (auto simp: eq_commute [of _ v] v m split: if_splits)
qed

lemma decode_codepoint_Cons_iff:
  "decode_codepoint (a # r) = Some (cp, w) \<longleftrightarrow>
     unat a < 0x80 \<and> unat cp = unat a \<and> w = 1 \<or>
     (\<exists>c k. lead_base (unat a) = Some (c, k) \<and> w = Suc k \<and> k \<le> length r \<and>
        list_all byte_cont (take k r) \<and> unat cp = cont_value (unat a - c) (take k r) \<and>
        (k = 2 \<longrightarrow> 0x800 \<le> unat cp) \<and> (k = 3 \<longrightarrow> 0x10000 \<le> unat cp) \<and>
        unicode_scalar (unat cp))"
proof (cases "unat a < 0x80")
  case True
  then have "a \<le> 0x7f" "lead_base (unat a) = None"
    by (auto simp: word_le_nat_alt lead_base_def)
  with True show ?thesis
    by (auto simp: decode_codepoint_Cons word_unat_eq_iff unat_ucast_byte)
next
  case big: False
  then have a: "\<not> a \<le> 0x7f" by (simp add: word_le_nat_alt)
  show ?thesis
  proof (cases "utf8_lead a")
    case None
    then have "lead_base (unat a) = None"
      by (auto simp: utf8_lead_def lead_base_def word_le_nat_alt split: if_splits)
    with None a big show ?thesis by (simp add: decode_codepoint_Cons)
  next
    case (Some p)
    obtain v k where p: "p = (v, k)" by (cases p)
    with Some obtain c where c: "lead_base (unat a) = Some (c, k)" "unat v = unat a - c"
      by (auto simp: utf8_lead_base)
    then have k: "k \<le> 3" "unat v < 32" by (auto simp: lead_base_def split: if_splits)
    have "unat v * 64 ^ k + 64 ^ k = (unat v + 1) * 64 ^ k" by simp
    also have "\<dots> \<le> 32 * 64 ^ 3"
      using k by (intro mult_le_mono power_increasing) simp_all
    finally have pre: "unat v * 64 ^ k + 64 ^ k \<le> 2 ^ 32" by simp
    have bad: "(k = 2 \<and> x < 0x800) \<or> (k = 3 \<and> x < 0x10000) \<or>
                 x > 0x10ffff \<or> (0xd800 \<le> x \<and> x \<le> 0xdfff) \<longleftrightarrow>
        \<not> ((k = 2 \<longrightarrow> 0x800 \<le> unat x) \<and> (k = 3 \<longrightarrow> 0x10000 \<le> unat x) \<and>
           unicode_scalar (unat x))" for x :: u32
      by (auto simp: unicode_scalar_def word_le_nat_alt word_less_nat_alt)
    show ?thesis
      unfolding decode_codepoint_Cons Some p option.case prod.case bad
      using a big c utf8_continuation_spec [OF pre, of r cp]
      by (auto split: option.splits)
  qed
qed

lemma cont_value_Nil: "cont_value n [] = n"
  by (simp add: cont_value_def)

lemma unat_byte_of: "n < 256 \<Longrightarrow> unat (word_of_nat n :: byte) = n"
  by (simp add: unat_of_nat)

lemma split64: "n div 64 * 64 + n mod 64 = n" for n :: nat
  by simp

lemma div_4096: "n div 4096 = n div 64 div 64" "n div 262144 = n div 64 div 64 div 64" for n :: nat
  by (simp_all add: div_mult2_eq [symmetric])

lemma decode_utf8_encode:
  assumes c: "unicode_scalar c"
  shows "decode_codepoint (utf8_encode c @ r) = Some (word_of_nat c, length (utf8_encode c))"
proof -
  have u: "unat (word_of_nat c :: u32) = c"
    using c by (simp add: unat_of_nat unicode_scalar_def)
  have cont: "byte_cont (word_of_nat (0x80 + n))" "unat (word_of_nat (0x80 + n) :: byte) = 0x80 + n"
    if "n < 64" for n
    using that unat_byte_of [of "0x80 + n"] by (simp_all add: byte_cont_def)
  consider "c < 0x80" | "0x80 \<le> c" "c < 0x800" | "0x800 \<le> c" "c < 0x10000" | "0x10000 \<le> c"
    by linarith
  then show ?thesis
  proof cases
    case 1
    then show ?thesis
      by (simp add: utf8_encode_def utf8_encode_nat_def decode_codepoint_Cons_iff u unat_byte_of)
  next
    case 2
    have e: "utf8_encode c = [word_of_nat (0xc0 + c div 64), word_of_nat (0x80 + c mod 64)]"
      using 2 by (simp add: utf8_encode_def utf8_encode_nat_def)
    have l: "unat (word_of_nat (0xc0 + c div 64) :: byte) = 0xc0 + c div 64"
      using 2 by (intro unat_byte_of) linarith
    have b: "lead_base (0xc0 + c div 64) = Some (0xc0, 1)"
      using 2 by (auto simp: lead_base_def)
    show ?thesis
      unfolding e append_Cons append_Nil decode_codepoint_Cons_iff l b u
      using c by (simp add: cont cont_value_Cons cont_value_Nil del: of_nat_add)
  next
    case 3
    have e: "utf8_encode c = [word_of_nat (0xe0 + c div 4096), word_of_nat (0x80 + c div 64 mod 64),
        word_of_nat (0x80 + c mod 64)]"
      using 3 by (simp add: utf8_encode_def utf8_encode_nat_def)
    have l: "unat (word_of_nat (0xe0 + c div 4096) :: byte) = 0xe0 + c div 4096"
      using 3 by (intro unat_byte_of) linarith
    have b: "lead_base (0xe0 + c div 4096) = Some (0xe0, 2)"
      using 3 by (auto simp: lead_base_def)
    show ?thesis
      unfolding e append_Cons append_Nil decode_codepoint_Cons_iff l b u
      using c 3 by (simp add: cont cont_value_Cons cont_value_Nil div_4096 numeral_2_eq_2 del: of_nat_add)
        (use split64 [of c] split64 [of "c div 64"] in linarith)
  next
    case 4
    have c': "c < 0x110000" using c by (simp add: unicode_scalar_def)
    have e: "utf8_encode c = [word_of_nat (0xf0 + c div 262144), word_of_nat (0x80 + c div 4096 mod 64),
        word_of_nat (0x80 + c div 64 mod 64), word_of_nat (0x80 + c mod 64)]"
      using 4 by (simp add: utf8_encode_def utf8_encode_nat_def)
    have l: "unat (word_of_nat (0xf0 + c div 262144) :: byte) = 0xf0 + c div 262144"
      using 4 c' by (intro unat_byte_of) linarith
    have b: "lead_base (0xf0 + c div 262144) = Some (0xf0, 3)"
      using 4 c' by (auto simp: lead_base_def)
    show ?thesis
      unfolding e append_Cons append_Nil decode_codepoint_Cons_iff l b u
      using c 4 by (simp add: cont cont_value_Cons cont_value_Nil div_4096 numeral_3_eq_3 del: of_nat_add)
        (use split64 [of c] split64 [of "c div 64"] split64 [of "c div 64 div 64"] in linarith)
  qed
qed

lemma decode_codepoint_sound:
  assumes "decode_codepoint xs = Some (cp, w)"
  shows "unicode_scalar (unat cp) \<and> take w xs = utf8_encode (unat cp)"
proof (cases xs)
  case Nil
  with assms show ?thesis by (simp add: decode_codepoint_def)
next
  case (Cons a r)
  from assms [unfolded Cons decode_codepoint_Cons_iff]
  have "unicode_scalar (unat cp) \<and> map unat (take w xs) = utf8_encode_nat (unat cp)"
  proof (elim disjE exE conjE)
    assume "unat a < 0x80" "unat cp = unat a" "w = 1"
    then show ?thesis using Cons by (simp add: unicode_scalar_def utf8_encode_nat_def)
  next
    fix c k
    assume h: "lead_base (unat a) = Some (c, k)" "w = Suc k" "k \<le> length r"
      "list_all byte_cont (take k r)" "unat cp = cont_value (unat a - c) (take k r)"
      "k = 2 \<longrightarrow> 0x800 \<le> unat cp" "k = 3 \<longrightarrow> 0x10000 \<le> unat cp" "unicode_scalar (unat cp)"
    define ns where "ns = map (\<lambda>b. unat b - 0x80) (take k r)"
    have ns: "list_all (\<lambda>n. n < 64) ns" "length ns = k" "map unat (take k r) = map (\<lambda>n. 0x80 + n) ns"
      "unat cp = foldl (\<lambda>n m. n * 64 + m) (unat a - c) ns"
      using h(3,4,5) unfolding ns_def
      by (auto simp: list_all_iff byte_cont_def cont_value_def foldl_map)
    have "utf8_encode_nat (unat cp) = unat a # map (\<lambda>n. 0x80 + n) ns"
    proof -
      consider "k = 1" "c = 0xc0" "0xc2 \<le> unat a" "unat a < 0xe0"
        | "k = 2" "c = 0xe0" "0xe0 \<le> unat a" "unat a < 0xf0"
        | "k = 3" "c = 0xf0" "0xf0 \<le> unat a" "unat a < 0xf5"
        using h(1) by (auto simp: lead_base_def split: if_splits)
      then show ?thesis
      proof cases
        case 1
        with ns obtain n where "ns = [n]" "n < 64" by (auto simp: length_Suc_conv)
        with 1 ns(4) show ?thesis by (auto simp: utf8_encode_nat_def)
      next
        case 2
        with ns obtain n m where n: "ns = [n, m]" "n < 64" "m < 64"
          by (auto simp: length_Suc_conv numeral_2_eq_2)
        define q where "q = (unat a - 0xe0) * 64 + n"
        have cp: "unat cp = q * 64 + m" using n 2 ns(4) by (simp add: q_def)
        have "q < 1024" using n 2 by (simp add: q_def)
        with cp n have "unat cp < 0x10000" by simp
        moreover have "unat cp div 64 = q" "unat cp mod 64 = m" using cp n by simp_all
        moreover have "q div 64 = unat a - 0xe0" "q mod 64 = n" using n by (simp_all add: q_def)
        ultimately show ?thesis using n 2 h(6) by (simp add: utf8_encode_nat_def div_4096)
      next
        case 3
        with ns obtain n m l where n: "ns = [n, m, l]" "n < 64" "m < 64" "l < 64"
          by (auto simp: length_Suc_conv numeral_3_eq_3)
        define q where "q = (unat a - 0xf0) * 64 + n"
        define p where "p = q * 64 + m"
        have cp: "unat cp = p * 64 + l" using n 3 ns(4) by (simp add: p_def q_def)
        then have "unat cp div 64 = p" "unat cp mod 64 = l" using n by simp_all
        moreover have "p div 64 = q" "p mod 64 = m" using n by (simp_all add: p_def)
        moreover have "q div 64 = unat a - 0xf0" "q mod 64 = n" using n by (simp_all add: q_def)
        ultimately show ?thesis using n 3 h(7) by (simp add: utf8_encode_nat_def div_4096)
      qed
    qed
    then show ?thesis using h(2,8) ns(3) Cons by simp
  qed
  then show ?thesis
    using map_unat_utf8_encode map_unat_eq by metis
qed

section \<open>Validation and printing against the Unicode encoding\<close>

lemma utf8_encode_nonempty: "0 < length (utf8_encode c)"
  by (simp add: utf8_encode_def utf8_encode_nat_def)

lemma utf8_bytes_valid_concat:
  "list_all unicode_scalar cps \<Longrightarrow> utf8_bytes_valid (concat (map utf8_encode cps))"
proof (induction cps)
  case Nil
  show ?case by simp
next
  case (Cons c cps)
  then have "decode_codepoint (utf8_encode c @ concat (map utf8_encode cps)) =
      Some (word_of_nat c, length (utf8_encode c))"
    by (intro decode_utf8_encode) simp
  with Cons show ?case
    by (subst utf8_bytes_valid_step) auto
qed

lemma utf8_bytes_valid_decompose:
  "utf8_bytes_valid xs \<Longrightarrow>
     \<exists>cps. list_all unicode_scalar cps \<and> xs = concat (map utf8_encode cps)"
proof (induction xs rule: length_induct)
  case (1 xs)
  show ?case
  proof (cases "xs = []")
    case True
    then show ?thesis by (intro exI [of _ "[]"]) simp
  next
    case False
    with "1.prems" obtain cp w where d: "decode_codepoint xs = Some (cp, w)"
      and v: "utf8_bytes_valid (drop w xs)"
      by (subst (asm) utf8_bytes_valid_step) auto
    have "length (drop w xs) < length xs" using decode_codepoint_width [OF d] by auto
    with "1.IH" v obtain cps where
      "list_all unicode_scalar cps" "drop w xs = concat (map utf8_encode cps)" by blast
    with decode_codepoint_sound [OF d] show ?thesis
      using append_take_drop_id [of w xs] by (intro exI [of _ "unat cp # cps"]) simp
  qed
qed

text \<open>
  C28. The byte validator accepts exactly the UTF-8 encodings of sequences of Unicode scalar
  values: no overlong form, no surrogate, nothing above U+10FFFF, no truncated sequence.
\<close>

theorem pv_utf8_valid_spec:
  "pv_utf8_valid (Bytes bs) \<longleftrightarrow>
     (\<exists>cps. list_all unicode_scalar cps \<and> bs = concat (map utf8_encode cps))"
  using utf8_bytes_valid_concat utf8_bytes_valid_decompose
  by (auto simp: pv_utf8_valid_def)

definition displayable :: "nat \<Rightarrow> bool" where
  "displayable cp \<longleftrightarrow> unicode_scalar cp \<and> \<not> display_codepoint_unsafe (word_of_nat cp)"

lemma question_mark_displayable: "displayable 0x3f" "utf8_encode 0x3f = [question_mark]"
  by (simp_all add: displayable_def unicode_scalar_def display_codepoint_unsafe_def
      utf8_encode_def utf8_encode_nat_def question_mark_def)

lemma sanitize_from_displayable:
  "\<exists>cps. list_all displayable cps \<and> sanitize_from xs = concat (map utf8_encode cps)"
proof (induction xs rule: sanitize_from.induct)
  case (1 xs)
  have q: "\<exists>cps. list_all displayable cps \<and> question_mark # ys = concat (map utf8_encode cps)"
    if "\<exists>cps. list_all displayable cps \<and> ys = concat (map utf8_encode cps)" for ys
  proof -
    from that obtain cps where "list_all displayable cps" "ys = concat (map utf8_encode cps)"
      by blast
    then show ?thesis
      using question_mark_displayable by (intro exI [of _ "0x3f # cps"]) simp
  qed
  show ?case
  proof (cases "xs = []")
    case True
    then show ?thesis by (intro exI [of _ "[]"]) (simp add: sanitize_from.simps)
  next
    case ne: False
    show ?thesis
    proof (cases "decode_codepoint xs")
      case None
      then show ?thesis using q "1.IH"(1) [OF ne None] ne by (simp add: sanitize_from.simps [of xs])
    next
      case (Some p)
      obtain cp w where p: "p = (cp, w)" by (cases p)
      note d = Some [unfolded p]
      show ?thesis
      proof (cases "display_codepoint_unsafe cp")
        case True
        then show ?thesis
          using q "1.IH"(2) [OF ne d refl True] ne d by (simp add: sanitize_from.simps [of xs])
      next
        case False
        with decode_codepoint_sound [OF d] have "displayable (unat cp)"
          and t: "take w xs = utf8_encode (unat cp)" by (simp_all add: displayable_def)
        moreover obtain cps where "list_all displayable cps"
          "sanitize_from (drop w xs) = concat (map utf8_encode cps)"
          using "1.IH"(3) [OF ne d refl False] by blast
        ultimately show ?thesis
          using False ne d
          by (intro exI [of _ "unat cp # cps"]) (simp add: sanitize_from.simps [of xs])
      qed
    qed
  qed
qed

lemma length_sanitize_from: "length (sanitize_from xs) \<le> length xs"
proof (induction xs rule: sanitize_from.induct)
  case (1 xs)
  show ?case
  proof (cases "decode_codepoint xs")
    case None
    with 1 show ?thesis by (subst sanitize_from.simps) (cases xs; simp)
  next
    case (Some p)
    obtain cp w where p: "p = (cp, w)" by (cases p)
    with 1 Some decode_codepoint_width [of xs cp w] show ?thesis
      by (cases "display_codepoint_unsafe cp"; cases "xs = []")
        (force simp: sanitize_from.simps [of xs])+
  qed
qed

lemma sanitize_from_clean:
  "list_all displayable cps \<Longrightarrow>
     sanitize_from (concat (map utf8_encode cps)) = concat (map utf8_encode cps)"
proof (induction cps)
  case (Cons c cps)
  then have c: "unicode_scalar c" "\<not> display_codepoint_unsafe (word_of_nat c)"
    by (simp_all add: displayable_def)
  let ?xs = "utf8_encode c @ concat (map utf8_encode cps)"
  have "?xs \<noteq> []" using utf8_encode_nonempty [of c] by auto
  with Cons c decode_utf8_encode [OF c(1), of "concat (map utf8_encode cps)"] show ?case
    by (simp add: sanitize_from.simps [of ?xs])
qed (simp add: sanitize_from.simps)


lemma fprint_from_sanitize:
  "safe_start \<le> position \<Longrightarrow> position \<le> length data \<Longrightarrow>
     fprint_from data position safe_start out =
       out @ take (position - safe_start) (drop safe_start data) @
       sanitize_from (drop position data)"
proof (induction data position safe_start out rule: fprint_from.induct)
  case (1 data position safe_start out)
  let ?piece = "take (position - safe_start) (drop safe_start data)"
  show ?case
  proof (cases "position < length data")
    case False
    with "1.prems" show ?thesis
      by (simp add: fprint_from.simps [of data] sanitize_from.simps)
  next
    case True
    then have ne: "drop position data \<noteq> []" by simp
    show ?thesis
    proof (cases "decode_codepoint (drop position data)")
      case None
      from "1.IH"(1) [OF True None] None "1.prems" True ne show ?thesis
        by (subst fprint_from.simps, subst sanitize_from.simps) simp
    next
      case (Some p)
      obtain cp w where p: "p = (cp, w)" by (cases p)
      note d = Some [unfolded p]
      have w: "0 < w" "position + w \<le> length data"
        using decode_codepoint_width [OF d] True by auto
      have split: "take (position + w - safe_start) (drop safe_start data) =
          ?piece @ take w (drop position data)"
        using take_add [of "position - safe_start" w "drop safe_start data"] "1.prems" by simp
      show ?thesis
      proof (cases "display_codepoint_unsafe cp")
        case unsafe: True
        from "1.IH"(2) [OF True d refl unsafe] True ne d w unsafe "1.prems" show ?thesis
          by (subst fprint_from.simps, subst sanitize_from.simps) (simp add: add.commute)
      next
        case False
        from "1.IH"(3) [OF True d refl False] True ne d w False "1.prems" split show ?thesis
          by (subst fprint_from.simps, subst sanitize_from.simps) (simp add: add.commute)
      qed
    qed
  qed
qed

text \<open>
  C33. Printing a text to a terminal, which writes whole runs of safe bytes, sends exactly the
  bytes that sanitising the text produces.
\<close>

theorem pv_text_fprint_sanitize:
  "pv_text_fprint sl =
     (case pv_text_sanitize sl (slice_len sl) of None \<Rightarrow> [] | Some out \<Rightarrow> out)"
  by (cases sl) (simp_all add: pv_text_fprint_def pv_text_sanitize_def fprint_from_sanitize)

section \<open>Checked arithmetic, hexadecimal text and search\<close>

lemma unat_max64: "unat (SIZE_MAX :: size_t) = 2 ^ 64 - 1"
  by (simp add: unsigned_minus_1_eq_mask mask_eq_exp_minus_1)

lemma unat64_le_max: "unat a \<le> 2 ^ 64 - 1" for a :: size_t
  using unsigned_less [of a, where ?'a = nat] by simp

lemma not_le_word_max: "(b > SIZE_MAX - a) = (unat a + unat b \<ge> 2 ^ 64)" for a b :: size_t
proof -
  have "unat (SIZE_MAX - a) = 2 ^ 64 - 1 - unat a"
    using unat_sub [of a SIZE_MAX] by (simp only: unat_max64 word_order.extremum)
  then show ?thesis using unsigned_less [of a, where ?'a = nat]
    by (simp add: word_less_nat_alt) linarith
qed

lemma mul_guard: "(a \<noteq> 0 \<and> b > SIZE_MAX div a) = (unat a * unat b \<ge> 2 ^ 64)" for a b :: size_t
proof (cases "a = 0")
  case False
  then have a: "0 < unat a" by (simp add: unat_gt_0)
  have "unat (SIZE_MAX div a) = (2 ^ 64 - 1) div unat a"
    by (simp add: unat_div unat_max64)
  then have "b > SIZE_MAX div a \<longleftrightarrow> (2 ^ 64 - 1) div unat a < unat b"
    by (simp add: word_less_nat_alt)
  also have "\<dots> \<longleftrightarrow> 2 ^ 64 - 1 < unat b * unat a" using a by (simp add: div_less_iff_less_mult)
  finally show ?thesis using False by (simp add: mult.commute) linarith
qed simp

text \<open>
  The checked additions and multiplications of sizes succeed exactly when the mathematical
  result fits in a 64-bit \<^verbatim>\<open>size_t\<close>, and then return it.
\<close>

lemma pv_size_arith_exact:
  "map_option unat (pv_size_add a b) =
     (if unat a + unat b < 2 ^ 64 then Some (unat a + unat b) else None) \<and>
   map_option unat (pv_size_mul a b) =
     (if unat a * unat b < 2 ^ 64 then Some (unat a * unat b) else None)"
  unfolding pv_size_add_def pv_size_mul_def not_le_word_max mul_guard
  by (simp add: unat_word_ariths)

lemma hex_value_alphabet: "n < 16 \<Longrightarrow> hex_value (hex_alphabet ! n) = int n"
proof -
  have "list_all (\<lambda>n. hex_value (hex_alphabet ! n) = int n) [0..<16]" by code_simp
  then show "n < 16 \<Longrightarrow> ?thesis" by (simp add: list_all_iff)
qed

lemma nibbles: "push_bit 4 (drop_bit 4 b) OR (b AND 0x0f) = b" for b :: byte
proof -
  have "(0x0f :: byte) = mask 4" by (simp add: mask_eq_exp_minus_1)
  then show ?thesis by (auto simp: bit_eq_iff bit_simps)
qed

lemma nibble_range: "unat (drop_bit 4 b) < 16" "unat (b AND 0x0f) < 16" for b :: byte
  using unsigned_less [of b, where ?'a = nat] unat_and_low [of b 4]
  by (simp_all add: unat_drop_bit_div)

lemma hex_decode_pair:
  "\<exists>h l. hex_pair b = [h, l] \<and> 0 \<le> hex_value h \<and> 0 \<le> hex_value l \<and>
     push_bit 4 (word_of_int (hex_value h)) OR word_of_int (hex_value l) = b"
  using nibbles [of b] by (simp add: hex_pair_def hex_value_alphabet nibble_range)

lemma hex_decode_pairs_encode: "hex_decode_pairs (concat (map hex_pair bs)) = Some bs"
proof (induction bs)
  case (Cons b bs)
  obtain h l where "hex_pair b = [h, l]" "0 \<le> hex_value h" "0 \<le> hex_value l"
    "push_bit 4 (word_of_int (hex_value h)) OR word_of_int (hex_value l) = b"
    using hex_decode_pair [of b] by blast
  with Cons show ?case by simp
qed simp

lemma length_hex: "length (concat (map hex_pair bs)) = 2 * length bs"
  by (induction bs) (simp_all add: hex_pair_def)

text \<open>
  C39. Hexadecimal text round-trips: encoding bytes into a buffer with room for two digits per
  byte and the terminator, then decoding to the same number of bytes, gives the bytes back.
\<close>

theorem pv_hex_roundtrip:
  assumes "2 * length input < output_len"
  shows "\<exists>text. pv_hex_encode input output_len = Some text \<and>
           pv_hex_decode text (length input) = Some input"
  using assms length_hex [of input] hex_decode_pairs_encode [of input]
  by (auto simp: pv_hex_encode_def pv_hex_decode_def)

theorem pv_hex_roundtrip_witness:
  "2 * length [0xde, 0xad] < (33 :: nat) \<and>
   (\<exists>text. pv_hex_encode [0xde, 0xad] 33 = Some text \<and>
      pv_hex_decode text (length [0xde, 0xad]) = Some [0xde, 0xad])"
  using pv_hex_roundtrip [of "[0xde, 0xad]" 33] by simp

lemma bytes_match_prefix:
  "bytes_match cf ts ds \<longleftrightarrow> prefix (map (fold_byte cf) ts) (map (fold_byte cf) ds)"
  by (induction cf ts ds rule: bytes_match.induct) auto

lemma contains_from_iff:
  "contains_from cf t data i \<longleftrightarrow>
     (\<exists>j. i \<le> j \<and> j \<le> length data - length t \<and> bytes_match cf t (drop j data))"
proof (induction cf t data i rule: contains_from.induct)
  case (1 cf t data i)
  have split: "(\<exists>j. i \<le> j \<and> Q j) \<longleftrightarrow> Q i \<or> (\<exists>j. i + 1 \<le> j \<and> Q j)" for Q
    by (metis Suc_eq_plus1 Suc_leD Suc_leI order_le_less)
  show ?case
  proof (cases "i \<le> length data - length t \<and> \<not> bytes_match cf t (drop i data)")
    case True
    with 1 show ?thesis by (subst contains_from.simps, subst split) simp
  next
    case False
    then show ?thesis by (subst contains_from.simps) auto
  qed
qed

text \<open>
  C37. The search of a text in a field finds it exactly when the text is not empty and its bytes,
  folded to lower case when asked, are a contiguous part of the folded bytes of the field.
\<close>

theorem pv_slice_contains_cstr_spec:
  "pv_slice_contains_cstr (Bytes bs) needle casefold \<longleftrightarrow>
     needle \<noteq> [] \<and> sublist (map (fold_byte casefold) needle) (map (fold_byte casefold) bs)"
proof -
  let ?f = "map (fold_byte casefold)"
  have "sublist (?f needle) (?f bs) \<longleftrightarrow>
      (\<exists>j. j \<le> length bs - length needle \<and> bytes_match casefold needle (drop j bs)) \<and>
      length needle \<le> length bs" (is "?l \<longleftrightarrow> ?r")
  proof
    assume ?l
    then obtain ps ss where e: "?f bs = ps @ ?f needle @ ss" by (auto simp: sublist_def)
    then have "length bs = length ps + length needle + length ss"
      by (metis length_append length_map add.assoc)
    moreover have "?f (drop (length ps) bs) = ?f needle @ ss"
      using e by (simp add: drop_map [symmetric])
    ultimately show ?r
      by (auto simp: bytes_match_prefix intro!: exI [of _ "length ps"])
  next
    assume ?r
    then obtain j where "prefix (?f needle) (drop j (?f bs))"
      by (auto simp: bytes_match_prefix drop_map)
    then show ?l
      by (metis prefix_imp_sublist sublist_drop sublist_order.order_trans)
  qed
  then show ?thesis
    by (auto simp: pv_slice_contains_cstr_def contains_from_iff)
qed

end
