(* ===== verification/Pv_Arena.thy ===== *)
theory Pv_Arena
  imports Pv_Util
begin

text \<open>
  The bump allocator of \<^verbatim>\<open>src/arena.c\<close>: one guarded block, from which the vault takes all
  the memory of its records. The block is a function from offsets to bytes, \<open>None\<close> for a NULL
  base; a pointer into it is an offset. The outcomes of libsodium's \<^verbatim>\<open>sodium_malloc\<close>,
  \<^verbatim>\<open>sodium_mlock\<close> and \<^verbatim>\<open>sodium_mprotect_*\<close> are arguments.

  The laws of the allocator are the locale \<open>growing_store\<close>, interpreted here on
  \<open>pv_arena_copy\<close> and, in the theories that build on it, on the copies of custom fields and of
  whole records.
\<close>

section \<open>State and operations\<close>

definition PV_MAX_PLAINTEXT :: nat where
  "PV_MAX_PLAINTEXT = 2 * 1024 * 1024"

record pv_arena =
  arena_base :: "(nat \<Rightarrow> byte) option"
  arena_capacity :: size_t
  arena_used :: size_t
  arena_readonly :: bool

text \<open>A structure cleared by \<^verbatim>\<open>memset\<close>.\<close>

definition arena_zero :: pv_arena where
  "arena_zero = \<lparr>arena_base = None, arena_capacity = 0, arena_used = 0, arena_readonly = False\<rparr>"

definition memzero :: "(nat \<Rightarrow> byte) \<Rightarrow> nat \<Rightarrow> nat \<Rightarrow> nat \<Rightarrow> byte" where
  "memzero m off len = (\<lambda>i. if off \<le> i \<and> i < off + len then 0 else m i)"

definition memcpy :: "(nat \<Rightarrow> byte) \<Rightarrow> nat \<Rightarrow> byte list \<Rightarrow> nat \<Rightarrow> byte" where
  "memcpy m off bs = (\<lambda>i. if off \<le> i \<and> i < off + length bs then bs ! (i - off) else m i)"

definition pv_arena_init :: "alloc \<Rightarrow> size_t \<Rightarrow> pv_arena pv_result" where
  "pv_arena_init mem cap =
     (if cap = 0 \<or> PV_MAX_PLAINTEXT < unat cap then Inl PV_ERR_USAGE
      else case mem of
        Malloc_null \<Rightarrow> Inl PV_ERR_NOMEM
      | Mlock_failed \<Rightarrow> Inl PV_ERR_SECURE_MEMORY
      | Alloc_ok \<Rightarrow> Inr (arena_zero\<lparr>arena_base := Some (\<lambda>i. 0), arena_capacity := cap\<rparr>))"

text \<open>\<open>None\<close> is the NULL pointer; otherwise the offset of the new region.\<close>

definition pv_arena_alloc :: "pv_arena \<Rightarrow> size_t \<Rightarrow> size_t \<Rightarrow> (nat \<times> pv_arena) option" where
  "pv_arena_alloc a sz alignment =
     (case arena_base a of
        None \<Rightarrow> None
      | Some m \<Rightarrow>
          if arena_readonly a \<or> sz = 0 \<or> alignment = 0 \<or> alignment AND (alignment - 1) \<noteq> 0
          then None
          else let msk = alignment - 1 in
            case pv_size_add (arena_used a) msk of
              None \<Rightarrow> None
            | Some aligned0 \<Rightarrow>
                let aligned = aligned0 AND NOT msk in
                case pv_size_add aligned sz of
                  None \<Rightarrow> None
                | Some end_ \<Rightarrow>
                    if end_ > arena_capacity a then None
                    else Some (unat aligned,
                           a\<lparr>arena_base := Some (memzero m (unat aligned) (unat sz)),
                             arena_used := end_\<rparr>))"

text \<open>
  A slice whose bytes live in the arena: \<open>ANull\<close> is a NULL pointer with length zero,
  \<open>ASlice off len\<close> the \<open>len\<close> bytes from offset \<open>off\<close>.
\<close>

datatype aslice = ANull | ASlice nat nat

definition arena_write :: "pv_arena \<Rightarrow> nat \<Rightarrow> byte list \<Rightarrow> pv_arena" where
  "arena_write a off bs = a\<lparr>arena_base := map_option (\<lambda>m. memcpy m off bs) (arena_base a)\<rparr>"

definition pv_arena_copy :: "pv_arena \<Rightarrow> pv_slice \<Rightarrow> nat \<Rightarrow> aslice pv_result \<times> pv_arena" where
  "pv_arena_copy a sl max_len =
     (if (slice_null sl \<and> slice_len sl \<noteq> 0) \<or> slice_len sl > max_len
      then (Inl (if slice_len sl > max_len then PV_ERR_LIMIT else PV_ERR_USAGE), a)
      else if slice_len sl = 0 then (Inr ANull, a)
      else case pv_arena_alloc a (word_of_nat (slice_len sl) + 1) 1 of
        None \<Rightarrow> (Inl PV_ERR_LIMIT, a)
      | Some (destination, a1) \<Rightarrow>
          (Inr (ASlice destination (slice_len sl)),
           arena_write a1 destination (slice_bytes sl @ [0])))"

text \<open>\<open>mprotect\<close> tells whether libsodium could change the protection of the block.\<close>

definition pv_arena_set_readonly :: "bool \<Rightarrow> pv_arena \<Rightarrow> unit pv_result \<times> pv_arena" where
  "pv_arena_set_readonly mprotect a =
     (if arena_base a = None then (Inl PV_ERR_USAGE, a)
      else if \<not> mprotect then (Inl PV_ERR_SECURE_MEMORY, a)
      else (Inr (), a\<lparr>arena_readonly := True\<rparr>))"

definition pv_arena_set_readwrite :: "bool \<Rightarrow> pv_arena \<Rightarrow> unit pv_result \<times> pv_arena" where
  "pv_arena_set_readwrite mprotect a =
     (if arena_base a = None then (Inl PV_ERR_USAGE, a)
      else if \<not> mprotect then (Inl PV_ERR_SECURE_MEMORY, a)
      else (Inr (), a\<lparr>arena_readonly := False\<rparr>))"

text \<open>
  Clearing a block that is still read-only is a memory fault, the value \<open>None\<close>: the code ignores
  a failure to make it writable.
\<close>

definition pv_arena_reset :: "bool \<Rightarrow> pv_arena \<Rightarrow> pv_arena option" where
  "pv_arena_reset mprotect a =
     (case arena_base a of
        None \<Rightarrow> Some a
      | Some m \<Rightarrow>
          let a1 = (if arena_readonly a then snd (pv_arena_set_readwrite mprotect a) else a) in
          if arena_readonly a1 then None
          else Some (a1\<lparr>arena_base := Some (memzero m 0 (unat (arena_capacity a1))),
                        arena_used := 0\<rparr>))"

text \<open>\<^verbatim>\<open>sodium_free\<close> makes the block writable itself before it clears and unmaps it.\<close>

definition pv_arena_destroy :: "pv_arena \<Rightarrow> pv_arena" where
  "pv_arena_destroy a = arena_zero"

section \<open>Reading a slice back\<close>

definition arena_byte :: "pv_arena \<Rightarrow> nat \<Rightarrow> byte" where
  "arena_byte a i = (case arena_base a of None \<Rightarrow> 0 | Some m \<Rightarrow> m i)"

fun load_slice :: "pv_arena \<Rightarrow> aslice \<Rightarrow> pv_slice" where
  "load_slice a ANull = Null 0"
| "load_slice a (ASlice off len) = Bytes (map (arena_byte a) [off..<off + len])"

fun slice_live :: "pv_arena \<Rightarrow> aslice \<Rightarrow> bool" where
  "slice_live a ANull \<longleftrightarrow> True"
| "slice_live a (ASlice off len) \<longleftrightarrow> 0 < len \<and> off + len \<le> unat (arena_used a)"

text \<open>The well-formed arenas: nothing but zero bytes at and above the allocation mark.\<close>

definition arena_ok :: "pv_arena \<Rightarrow> bool" where
  "arena_ok a \<longleftrightarrow>
     arena_used a \<le> arena_capacity a \<and> unat (arena_capacity a) \<le> PV_MAX_PLAINTEXT \<and>
     (arena_base a = None \<longrightarrow> arena_capacity a = 0) \<and>
     (\<forall>i\<ge>unat (arena_used a). arena_byte a i = 0)"

text \<open>What a later arena keeps of an earlier one: every byte allocated so far.\<close>

definition arena_grows :: "pv_arena \<Rightarrow> pv_arena \<Rightarrow> bool" where
  "arena_grows a a' \<longleftrightarrow>
     arena_capacity a' = arena_capacity a \<and> arena_used a \<le> arena_used a' \<and>
     (arena_base a' = None \<longleftrightarrow> arena_base a = None) \<and>
     (\<forall>i<unat (arena_used a). arena_byte a' i = arena_byte a i)"

section \<open>Allocation\<close>

lemma power_of_two_alignment:
  fixes w :: size_t
  assumes "w \<noteq> 0" and "w AND (w - 1) = 0"
  obtains k where "k < 64" and "w = 2 ^ k" and "unat w = 2 ^ k"
proof -
  have pos: "1 \<le> unat w" using assms(1) by (simp add: Suc_le_eq unat_gt_0)
  obtain k where k: "2 ^ k \<le> unat w" "unat w < 2 ^ (k + 1)"
    using ex_power_ivl1 [of 2 "unat w"] pos by auto
  have k64: "k < 64"
  proof (rule ccontr)
    assume "\<not> k < 64"
    then have "(2::nat) ^ 64 \<le> 2 ^ k" by (intro power_increasing) simp_all
    with k(1) unsigned_less [of w, where ?'a = nat] show False by simp
  qed
  have bit: "bit v k" if "2 ^ k \<le> unat v" "unat v < 2 ^ (k + 1)" for v :: size_t
  proof -
    have "unat v div 2 ^ k = 1" using that by (intro div_nat_eqI) simp_all
    then have "bit (unat v) k" by (simp add: bit_iff_odd)
    then show ?thesis using k64 by (simp add: bit_unsigned_iff)
  qed
  have u: "unat w = 2 ^ k"
  proof (rule ccontr)
    assume "unat w \<noteq> 2 ^ k"
    with k have "2 ^ k \<le> unat w - 1" "unat w - 1 < 2 ^ (k + 1)" by auto
    moreover have "unat (w - 1) = unat w - 1"
      using assms(1) by (metis unat_minus_one)
    ultimately have "bit (w AND (w - 1)) k" using bit k by (simp add: bit_and_iff)
    with assms(2) show False by simp
  qed
  have "w = word_of_nat (unat w)" by simp
  also have "\<dots> = 2 ^ k" unfolding u by simp
  finally show ?thesis using k64 u that by blast
qed

lemma align_up:
  fixes n al :: nat
  assumes "0 < al"
  defines "r \<equiv> (n + (al - 1)) - (n + (al - 1)) mod al"
  shows "n \<le> r" "r < n + al" "al dvd r"
proof -
  have "(n + (al - 1)) mod al < al" using assms by simp
  then show "n \<le> r" "r < n + al" unfolding r_def using assms(1) by linarith+
  show "al dvd r" by (simp add: r_def dvd_minus_mod)
qed

lemma pv_size_add_Some:
  "pv_size_add a b = Some c \<longleftrightarrow> unat a + unat b < 2 ^ 64 \<and> c = a + b"
  by (auto simp: pv_size_add_def not_le_word_max not_le split: if_splits)

lemma unat_add64: "unat a + unat b < 2 ^ 64 \<Longrightarrow> unat (a + b) = unat a + unat b" for a b :: size_t
  by (simp add: unat_word_ariths)

lemma pv_arena_alloc_Some:
  assumes "pv_arena_alloc a sz al = Some (off, a')"
  shows "unat (arena_used a) \<le> off" "unat al dvd off" "off < unat (arena_used a) + unat al"
    and "off + unat sz \<le> unat (arena_capacity a)" "0 < unat sz" "\<not> arena_readonly a"
    and "\<exists>m. arena_base a = Some m \<and>
      a' = a\<lparr>arena_base := Some (memzero m off (unat sz)),
             arena_used := word_of_nat (off + unat sz)\<rparr>"
proof -
  obtain m where m: "arena_base a = Some m"
    and g: "\<not> arena_readonly a" "sz \<noteq> 0" "al \<noteq> 0" "al AND (al - 1) = 0"
    and s1: "unat (arena_used a) + unat (al - 1) < 2 ^ 64"
    and s2: "unat ((arena_used a + (al - 1)) AND NOT (al - 1)) + unat sz < 2 ^ 64"
    and c: "(arena_used a + (al - 1) AND NOT (al - 1)) + sz \<le> arena_capacity a"
    and off: "off = unat (arena_used a + (al - 1) AND NOT (al - 1))"
    and a': "a' = a\<lparr>arena_base := Some (memzero m off (unat sz)),
             arena_used := (arena_used a + (al - 1) AND NOT (al - 1)) + sz\<rparr>"
    using assms
    by (auto simp: pv_arena_alloc_def Let_def pv_size_add_Some split: option.splits if_splits)
  obtain k where k: "k < 64" "al = 2 ^ k" and ual: "unat al = 2 ^ k"
    using power_of_two_alignment g(3,4) by blast
  have um: "unat (al - 1) = unat al - 1" using g(3) by (simp add: unat_minus_one)
  have off': "off = (unat (arena_used a) + (unat al - 1)) -
      (unat (arena_used a) + (unat al - 1)) mod unat al"
    using off s1 unat_and_high [of "arena_used a + (al - 1)" k] k(1)
    by (simp only: k(2)[symmetric] ual unat_add64 um)
  have p: "0 < unat al" using ual by simp
  show "unat (arena_used a) \<le> off" "unat al dvd off" "off < unat (arena_used a) + unat al"
    unfolding off' by (rule align_up [OF p])+
  show "off + unat sz \<le> unat (arena_capacity a)"
    using c s2 off by (simp add: word_le_nat_alt unat_add64)
  show "0 < unat sz" "\<not> arena_readonly a" using g by (simp_all add: unat_gt_0)
  show "\<exists>m. arena_base a = Some m \<and> a' = a\<lparr>arena_base := Some (memzero m off (unat sz)),
      arena_used := word_of_nat (off + unat sz)\<rparr>"
    using m a' off by (simp add: of_nat_add)
qed

lemma unat_mark:
  fixes cap :: size_t
  assumes "n \<le> unat cap"
  shows "unat (word_of_nat n :: size_t) = n"
proof -
  have "n < 2 ^ 64" using assms unsigned_less [of cap, where ?'a = nat] by simp
  then show ?thesis by (simp add: unat_of_nat)
qed

lemma word_of_nat_le_capacity: "n \<le> unat cap \<Longrightarrow> word_of_nat n \<le> cap" for cap :: size_t
  by (simp add: word_le_nat_alt unat_mark)

lemma pv_arena_alloc_laws:
  assumes "pv_arena_alloc a sz al = Some (off, a')"
  shows "unat (arena_used a') = off + unat sz" "arena_grows a a'"
    and "\<forall>i. arena_byte a' i = (if off \<le> i \<and> i < off + unat sz then 0 else arena_byte a i)"
    and "arena_ok a \<Longrightarrow> arena_ok a'"
proof -
  note al = pv_arena_alloc_Some [OF assms]
  from al(7) obtain m where m: "arena_base a = Some m" and
    a': "a' = a\<lparr>arena_base := Some (memzero m off (unat sz)),
      arena_used := word_of_nat (off + unat sz)\<rparr>" by blast
  have u: "unat (word_of_nat (off + unat sz) :: size_t) = off + unat sz"
    by (rule unat_mark [OF al(4)])
  then show used: "unat (arena_used a') = off + unat sz" by (simp add: a' del: of_nat_add)
  show byte: "\<forall>i. arena_byte a' i = (if off \<le> i \<and> i < off + unat sz then 0 else arena_byte a i)"
    by (simp add: arena_byte_def a' m memzero_def)
  have "arena_used a \<le> arena_used a'" using al(1) used by (simp add: word_le_nat_alt)
  with byte al(1) show "arena_grows a a'" by (simp add: arena_grows_def a' m)
  show "arena_ok a'" if "arena_ok a"
    using that byte al(1,4) used word_of_nat_le_capacity [OF al(4)]
    by (auto simp: arena_ok_def a' m simp del: of_nat_add)
qed

text \<open>
  C29. A successful allocation returns a region that is aligned as asked, zeroed, within the
  capacity and above every region allocated before; it changes no other byte and keeps the
  arena well-formed, so nothing the arena gave out earlier is overwritten.
\<close>

theorem pv_arena_alloc_sound:
  assumes "arena_ok a" and "pv_arena_alloc a sz alignment = Some (off, a')"
  shows "unat alignment dvd off \<and> unat (arena_used a) \<le> off \<and>
    unat (arena_used a') = off + unat sz \<and> off + unat sz \<le> unat (arena_capacity a) \<and>
    arena_ok a' \<and> arena_grows a a' \<and>
    (\<forall>i. arena_byte a' i = (if off \<le> i \<and> i < off + unat sz then 0 else arena_byte a i))"
  using pv_arena_alloc_Some [OF assms(2)] pv_arena_alloc_laws [OF assms(2)] assms(1) by blast

definition sample_arena :: pv_arena where
  "sample_arena =
     \<lparr>arena_base = Some (\<lambda>i. if i < 5 then 0xaa else 0), arena_capacity = 64, arena_used = 5,
      arena_readonly = False\<rparr>"

lemma sample_arena_ok: "arena_ok sample_arena"
  by (simp add: arena_ok_def sample_arena_def arena_byte_def PV_MAX_PLAINTEXT_def)

theorem pv_arena_alloc_sound_witness:
  "\<exists>a'. pv_arena_alloc sample_arena 24 8 = Some (8, a') \<and> 8 dvd (8::nat) \<and>
     unat (arena_used a') = 32 \<and> arena_ok a' \<and> arena_byte a' 4 = 0xaa \<and> arena_byte a' 8 = 0"
proof -
  have off: "map_option fst (pv_arena_alloc sample_arena 24 8) = Some 8" by code_simp
  then obtain a' where a': "pv_arena_alloc sample_arena 24 8 = Some (8, a')" by auto
  from pv_arena_alloc_sound [OF sample_arena_ok a'] a' show ?thesis
    by (simp add: sample_arena_def arena_byte_def)
qed

definition align_up_nat :: "nat \<Rightarrow> nat \<Rightarrow> nat" where
  "align_up_nat n al = (n + (al - 1)) - (n + (al - 1)) mod al"

lemma align_up_unique:
  fixes al :: nat
  assumes "n \<le> r" "r < n + al" "al dvd r"
  shows "r = align_up_nat n al"
proof -
  have al: "0 < al" using assms by simp
  note u = align_up [OF al, of n, folded align_up_nat_def]
  have "al dvd (if r \<le> align_up_nat n al then align_up_nat n al - r else r - align_up_nat n al)"
    using assms(3) u(3) by (simp add: dvd_diff_nat)
  moreover have "(if r \<le> align_up_nat n al then align_up_nat n al - r else r - align_up_nat n al) < al"
    using assms(1,2) u(1,2) by (simp split: if_split) linarith
  ultimately show ?thesis by (auto split: if_splits dest: nat_dvd_not_less)
qed

lemma pv_arena_alloc_complete:
  assumes ok: "arena_ok a" "arena_base a = Some m" "\<not> arena_readonly a" "sz \<noteq> 0"
    and al: "k < 32" "al = 2 ^ k"
    and room: "align_up_nat (unat (arena_used a)) (2 ^ k) + unat sz \<le> unat (arena_capacity a)"
  shows "\<exists>a'. pv_arena_alloc a sz al = Some (align_up_nat (unat (arena_used a)) (2 ^ k), a')"
proof -
  have "(2::nat) ^ k < 2 ^ 32" using al(1) by (intro power_strict_increasing) simp_all
  then have "unat (word_of_nat (2 ^ k) :: size_t) = 2 ^ k"
    by (intro unat_mark [of _ SIZE_MAX]) (simp add: unat_max64)
  then have ual: "unat al = 2 ^ k" unfolding al(2) by simp
  have al0: "al \<noteq> 0" using ual by force
  have um: "unat (al - 1) = 2 ^ k - 1" using al0 ual by (simp add: unat_minus_one)
  have pow: "al AND (al - 1) = 0"
    unfolding al(2) word_and_minus1 by (simp add: take_bit_eq_mod)
  have cap: "unat (arena_capacity a) \<le> 2 * 1024 * 1024" and used: "unat (arena_used a) \<le> unat (arena_capacity a)"
    using ok(1) by (simp_all add: arena_ok_def PV_MAX_PLAINTEXT_def word_le_nat_alt)
  have s1: "unat (arena_used a) + unat (al - 1) < 2 ^ 64"
    using cap used um \<open>2 ^ k < 2 ^ 32\<close> by simp
  define aligned where "aligned = (arena_used a + (al - 1)) AND NOT (al - 1)"
  have off: "unat aligned = align_up_nat (unat (arena_used a)) (2 ^ k)"
    using unat_and_high [of "arena_used a + (al - 1)" k] s1
    unfolding aligned_def align_up_nat_def by (simp only: al(2)[symmetric] unat_add64 um)
  have s2: "unat aligned + unat sz < 2 ^ 64" using off room cap by simp
  have c: "\<not> aligned + sz > arena_capacity a"
    using room off s2 by (simp add: word_less_nat_alt unat_add64)
  have "pv_arena_alloc a sz al = Some (unat aligned,
      a\<lparr>arena_base := Some (memzero m (unat aligned) (unat sz)), arena_used := aligned + sz\<rparr>)"
    using ok al0 pow s1 s2 c
    by (simp add: pv_arena_alloc_def pv_size_add_def not_le_word_max Let_def aligned_def[symmetric])
  with off show ?thesis by simp
qed

section \<open>Copies\<close>

fun slice_regions :: "aslice \<Rightarrow> (nat \<times> nat) list" where
  "slice_regions ANull = []"
| "slice_regions (ASlice off len) = [(off, len)]"

lemma arena_grows_refl: "arena_grows a a"
  by (simp add: arena_grows_def)

lemma arena_grows_trans: "arena_grows a b \<Longrightarrow> arena_grows b c \<Longrightarrow> arena_grows a c"
  by (auto simp: arena_grows_def word_le_nat_alt)

lemma arena_grows_mark: "arena_grows a b \<Longrightarrow> unat (arena_used a) \<le> unat (arena_used b)"
  by (simp add: arena_grows_def word_le_nat_alt)

lemma load_slice_cong:
  assumes "below hi (slice_regions s)" and "\<forall>i<hi. arena_byte b i = arena_byte a i"
  shows "load_slice b s = load_slice a s"
  using assms by (cases s) auto

lemma arena_grows_load:
  assumes "arena_grows a b" and "below (unat (arena_used a)) (slice_regions s)"
  shows "load_slice b s = load_slice a s"
  using assms by (intro load_slice_cong [OF assms(2)]) (simp add: arena_grows_def)

lemma arena_byte_write:
  "arena_base a \<noteq> None \<Longrightarrow> arena_byte (arena_write a off bs) i =
     (if off \<le> i \<and> i < off + length bs then bs ! (i - off) else arena_byte a i)"
  by (auto simp: arena_write_def arena_byte_def memcpy_def)

lemma arena_write_fields [simp]:
  "arena_used (arena_write a off bs) = arena_used a"
  "arena_capacity (arena_write a off bs) = arena_capacity a"
  "arena_readonly (arena_write a off bs) = arena_readonly a"
  "arena_base (arena_write a off bs) = None \<longleftrightarrow> arena_base a = None"
  by (simp_all add: arena_write_def)

text \<open>A write below the mark, into memory above an earlier mark, is a growth from there.\<close>

lemma arena_write_grows:
  assumes "arena_grows a b" "unat (arena_used a) \<le> off" "off + length bs \<le> unat (arena_used b)"
    and "arena_base b \<noteq> None" "arena_ok b"
  shows "arena_grows a (arena_write b off bs)" "arena_ok (arena_write b off bs)"
  using assms by (auto simp: arena_grows_def arena_ok_def arena_byte_write)

lemma load_slice_write:
  assumes "arena_base b \<noteq> None"
  shows "load_slice (arena_write b off (bs @ [0])) (ASlice off (length bs)) = Bytes bs"
  using assms by (auto simp: arena_byte_write nth_append intro!: nth_equalityI)

lemma unat_len_plus_one:
  assumes "n \<le> PV_MAX_PLAINTEXT"
  shows "unat (word_of_nat n + 1 :: size_t) = n + 1"
  using unat_mark [of "n + 1" SIZE_MAX] assms
  by (simp add: unat_max64 PV_MAX_PLAINTEXT_def add.commute)

lemma pv_arena_copy_laws:
  assumes ok: "arena_ok a" and max: "max_len \<le> PV_MAX_PLAINTEXT"
    and copy: "pv_arena_copy a sl max_len = (r, a')"
  shows "arena_ok a' \<and> arena_grows a a' \<and>
    (case r of
       Inl e \<Rightarrow> e = PV_ERR_LIMIT \<or> e = PV_ERR_USAGE
     | Inr s \<Rightarrow> laid_out (unat (arena_used a)) (slice_regions s) (unat (arena_used a')) \<and>
         slice_bytes (load_slice a' s) = slice_bytes sl \<and> slice_len (load_slice a' s) = slice_len sl)"
proof -
  consider (fail) "\<exists>e. r = Inl e \<and> (e = PV_ERR_LIMIT \<or> e = PV_ERR_USAGE)" "a' = a"
    | (empty) "r = Inr ANull" "a' = a" "slice_len sl = 0"
    | (copied) off a1 bs where "sl = Bytes bs" "bs \<noteq> []" "length bs \<le> max_len"
        "pv_arena_alloc a (word_of_nat (length bs) + 1) 1 = Some (off, a1)"
        "r = Inr (ASlice off (length bs))" "a' = arena_write a1 off (bs @ [0])"
    using copy by (cases sl) (auto simp: pv_arena_copy_def split: if_splits option.splits)
  then show ?thesis
  proof cases
    case fail
    with ok show ?thesis by (auto simp: arena_grows_refl)
  next
    case empty
    with ok show ?thesis by (cases sl) (auto simp: arena_grows_refl)
  next
    case copied
    note al = pv_arena_alloc_Some [OF copied(4)] and laws = pv_arena_alloc_laws [OF copied(4)]
    have n: "unat (word_of_nat (length bs) + 1 :: size_t) = length bs + 1"
      using copied(3) max by (intro unat_len_plus_one) simp
    have base: "arena_base a1 \<noteq> None" using al(7) by auto
    note w = arena_write_grows [OF laws(2) al(1) _ base, of "bs @ [0]"]
    from w laws(1,4) n ok al(1) load_slice_write [OF base, of off bs] show ?thesis
      by (simp add: copied(1,5,6))
  qed
qed

section \<open>The contract of a store that only grows\<close>

text \<open>
  Clients of the arena copy values into it one after the other and keep handles to the copies.
  The contract: every copy lands above all earlier ones (\<open>mark\<close>), earlier handles still read
  the same, and the handle returned reads as the value copied. It is proved once here for the
  loops that copy lists.
\<close>

locale growing_store =
  fixes ok :: "'s \<Rightarrow> bool"
    and grows :: "'s \<Rightarrow> 's \<Rightarrow> bool"
    and mark :: "'s \<Rightarrow> nat"
    and regions :: "'h \<Rightarrow> (nat \<times> nat) list"
    and load :: "'s \<Rightarrow> 'h \<Rightarrow> 'v"
    and view :: "'x \<Rightarrow> 'v"
    and put :: "'x \<Rightarrow> 's \<Rightarrow> 'h pv_result \<Rightarrow> 's \<Rightarrow> bool"
  assumes grows_refl: "grows s s"
    and grows_trans: "grows s t \<Longrightarrow> grows t u \<Longrightarrow> grows s u"
    and grows_mark: "grows s t \<Longrightarrow> mark s \<le> mark t"
    and grows_load: "grows s t \<Longrightarrow> below (mark s) (regions h) \<Longrightarrow> load t h = load s h"
    and put_ok: "ok s \<Longrightarrow> put x s r t \<Longrightarrow> ok t \<and> grows s t"
    and put_load: "ok s \<Longrightarrow> put x s (Inr h) t \<Longrightarrow>
      laid_out (mark s) (regions h) (mark t) \<and> load t h = view x"
begin

lemma loop_grows: "loop put xs s r t \<Longrightarrow> ok s \<Longrightarrow> ok t \<and> grows s t"
proof (induction rule: loop.induct)
  case (loop_done s)
  then show ?case by (simp add: grows_refl)
next
  case (loop_stop x s e s1 xs)
  then show ?case using put_ok by blast
next
  case (loop_next x s y s1 xs ys s2)
  then show ?case using put_ok grows_trans by blast
next
  case (loop_fail x s y s1 xs e s2)
  then show ?case using put_ok grows_trans by blast
qed

lemma loop_load:
  "loop put xs s r t \<Longrightarrow> r = Inr hs \<Longrightarrow> ok s \<Longrightarrow>
     laid_out (mark s) (concat (map regions hs)) (mark t) \<and> map (load t) hs = map view xs"
proof (induction arbitrary: hs rule: loop.induct)
  case (loop_next x s y s1 xs ys s2)
  note p = put_ok [OF loop_next.prems(2) loop_next.hyps(1)]
    and l = put_load [OF loop_next.prems(2) loop_next.hyps(1)]
  have "grows s1 s2" using loop_grows [OF loop_next.hyps(2)] p by blast
  moreover have "below (mark s1) (regions y)" using l laid_out_below by blast
  ultimately have "load s2 y = view x" using grows_load l by simp
  with loop_next.IH [OF refl] p l loop_next.prems show ?case
    by (auto intro: laid_out_append)
qed auto

lemma loop_length: "loop put xs s r t \<Longrightarrow> r = Inr hs \<Longrightarrow> length hs = length xs"
  by (induction arbitrary: hs rule: loop.induct) auto

end

interpretation arena_copy: growing_store arena_ok arena_grows "\<lambda>a. unat (arena_used a)"
  slice_regions "\<lambda>a s. slice_bytes (load_slice a s)" slice_bytes
  "\<lambda>sl a r a'. \<exists>max_len\<le>PV_MAX_PLAINTEXT. pv_arena_copy a sl max_len = (r, a')"
proof unfold_locales
  show "arena_ok t \<and> arena_grows s t"
    if "arena_ok s" "\<exists>max_len\<le>PV_MAX_PLAINTEXT. pv_arena_copy s x max_len = (r, t)" for s x r t
    using that pv_arena_copy_laws by blast
  show "laid_out (unat (arena_used s)) (slice_regions h) (unat (arena_used t)) \<and>
      slice_bytes (load_slice t h) = slice_bytes x"
    if "arena_ok s" "\<exists>max_len\<le>PV_MAX_PLAINTEXT. pv_arena_copy s x max_len = (Inr h, t)" for s x h t
    using that pv_arena_copy_laws [of s _ x "Inr h" t] by auto
qed (auto simp: arena_grows_load intro: arena_grows_refl arena_grows_mark arena_grows_trans)

section \<open>The invariant over all operations\<close>

lemma arena_ok_zero: "arena_ok arena_zero"
  by (simp add: arena_ok_def arena_zero_def arena_byte_def)

lemma arena_ok_init: "pv_arena_init mem cap = Inr a \<Longrightarrow> arena_ok a"
  by (auto simp: pv_arena_init_def arena_ok_def arena_byte_def arena_zero_def
      split: if_splits alloc.splits)

lemma arena_ok_readonly [simp]: "arena_ok (a\<lparr>arena_readonly := b\<rparr>) \<longleftrightarrow> arena_ok a"
  by (simp add: arena_ok_def arena_byte_def)

lemma set_readwrite_cases:
  "pv_arena_set_readwrite mp a = (r, a') \<Longrightarrow>
     (\<exists>e. r = Inl e \<and> a' = a) \<or> (r = Inr () \<and> a' = a\<lparr>arena_readonly := False\<rparr>)"
  by (auto simp: pv_arena_set_readwrite_def split: if_splits)

lemma pv_arena_reset_Some:
  "pv_arena_reset mp a = Some a' \<Longrightarrow> arena_base a \<noteq> None \<Longrightarrow>
     arena_base a' \<noteq> None \<and> arena_used a' = 0 \<and> arena_capacity a' = arena_capacity a \<and>
     \<not> arena_readonly a' \<and>
     (\<forall>i. arena_byte a' i = (if i < unat (arena_capacity a) then 0 else arena_byte a i))"
  by (auto simp: pv_arena_reset_def pv_arena_set_readwrite_def arena_byte_def memzero_def Let_def
      split: option.splits if_splits)

text \<open>
  C31. Every operation of the arena keeps it well-formed: the mark stays within the capacity and
  no byte above the mark is anything but zero. Whatever a reset arena held is erased.
\<close>

theorem pv_arena_invariant:
  assumes "arena_ok a"
  shows "(case pv_arena_alloc a sz al of None \<Rightarrow> True | Some (off, a') \<Rightarrow> arena_ok a') \<and>
    (max_len \<le> PV_MAX_PLAINTEXT \<longrightarrow> arena_ok (snd (pv_arena_copy a sl max_len))) \<and>
    arena_ok (snd (pv_arena_set_readonly mp a)) \<and>
    arena_ok (snd (pv_arena_set_readwrite mp a)) \<and>
    (case pv_arena_init mem cap of Inl e \<Rightarrow> True | Inr a' \<Rightarrow> arena_ok a') \<and>
    (case pv_arena_reset mp a of
       None \<Rightarrow> arena_readonly a \<and> \<not> mp
     | Some a' \<Rightarrow> arena_ok a' \<and> (\<forall>i. arena_byte a' i = 0)) \<and>
    arena_ok (pv_arena_destroy a)"
proof (intro conjI)
  show "case pv_arena_alloc a sz al of None \<Rightarrow> True | Some (off, a') \<Rightarrow> arena_ok a'"
    using pv_arena_alloc_laws(4) assms by (auto split: option.split)
  show "max_len \<le> PV_MAX_PLAINTEXT \<longrightarrow> arena_ok (snd (pv_arena_copy a sl max_len))"
    using pv_arena_copy_laws [OF assms, of max_len sl] by (metis prod.collapse)
  show "arena_ok (snd (pv_arena_set_readonly mp a))" "arena_ok (snd (pv_arena_set_readwrite mp a))"
    using assms by (simp_all add: pv_arena_set_readonly_def pv_arena_set_readwrite_def)
  show "case pv_arena_init mem cap of Inl e \<Rightarrow> True | Inr a' \<Rightarrow> arena_ok a'"
    using arena_ok_init by (auto split: sum.split)
  show "arena_ok (pv_arena_destroy a)" by (simp add: pv_arena_destroy_def arena_ok_zero)
  have high: "arena_byte a i = 0" if "unat (arena_capacity a) \<le> i" for i
    using assms that by (auto simp: arena_ok_def word_le_nat_alt)
  show "case pv_arena_reset mp a of None \<Rightarrow> arena_readonly a \<and> \<not> mp
     | Some a' \<Rightarrow> arena_ok a' \<and> (\<forall>i. arena_byte a' i = 0)"
  proof (cases "arena_base a")
    case None
    then show ?thesis using assms by (simp add: pv_arena_reset_def arena_byte_def)
  next
    case (Some m)
    show ?thesis
    proof (cases "pv_arena_reset mp a")
      case None
      with Some show ?thesis
        by (auto simp: pv_arena_reset_def pv_arena_set_readwrite_def Let_def split: if_splits)
    next
      case reset: (Some a')
      from pv_arena_reset_Some [OF reset] Some high assms show ?thesis
        by (auto simp: arena_ok_def reset not_less)
    qed
  qed
qed

theorem pv_arena_invariant_witness:
  "arena_ok sample_arena \<and> arena_ok (snd (pv_arena_copy sample_arena (Bytes [1, 2, 3]) 16)) \<and>
   (case pv_arena_reset True sample_arena of None \<Rightarrow> False | Some a' \<Rightarrow> arena_byte a' 3 = 0)"
proof -
  have m: "(16::nat) \<le> PV_MAX_PLAINTEXT" by (simp add: PV_MAX_PLAINTEXT_def)
  have r: "pv_arena_reset True sample_arena \<noteq> None"
    by (simp add: pv_arena_reset_def sample_arena_def Let_def)
  note inv = pv_arena_invariant [OF sample_arena_ok, of 1 1 16 "Bytes [1, 2, 3]" True Alloc_ok 1]
  from inv m r sample_arena_ok show ?thesis by (auto split: option.splits)
qed

end
