(* ===== verification/Pv_Model.thy ===== *)
theory Pv_Model
  imports Pv_Arena
begin

text \<open>
  The vault in memory, \<^verbatim>\<open>src/model.c\<close>: records whose texts live in the arena, their
  validation, insertion, search, deletion and cloning.

  A \<^verbatim>\<open>pv_record\<close> is polymorphic in its slices. The vault's own records hold arena slices
  (\<^typ>\<open>aslice\<close>); a record a caller passes in holds the slices as values (\<^typ>\<open>pv_slice\<close>);
  the specification speaks of records of plain byte lists. The record array and the arrays of
  slices and fields are typed values kept beside the bytes of the arena, which accounts for their
  space; a \<^verbatim>\<open>pv_record *\<close> is an index into the array.
\<close>

section \<open>Records and vaults\<close>

record 's pv_custom_field =
  f_name :: 's
  f_value :: 's
  f_flags :: u32

record 's pv_record =
  r_id :: "byte list"
  r_revision :: u64
  r_created_ms :: i64
  r_updated_ms :: i64
  r_flags :: u32
  r_title :: 's
  r_username :: 's
  r_password :: 's
  r_notes :: 's
  r_urls :: "'s list"
  r_tags :: "'s list"
  r_fields :: "'s pv_custom_field list"

record pv_vault =
  v_arena :: pv_arena
  v_vault_id :: "byte list"
  v_device_id :: "byte list"
  v_generation :: u64
  v_created_ms :: i64
  v_updated_ms :: i64
  v_records :: "aslice pv_record list"
  v_record_capacity :: size_t
  v_vmk :: "byte list option"
  v_source_hash :: "byte list"
  v_dirty :: bool
  v_path :: "byte list"

definition map_field :: "('a \<Rightarrow> 'b) \<Rightarrow> 'a pv_custom_field \<Rightarrow> 'b pv_custom_field" where
  "map_field g f = \<lparr>f_name = g (f_name f), f_value = g (f_value f), f_flags = f_flags f\<rparr>"

definition map_record :: "('a \<Rightarrow> 'b) \<Rightarrow> 'a pv_record \<Rightarrow> 'b pv_record" where
  "map_record g r =
     \<lparr>r_id = r_id r, r_revision = r_revision r, r_created_ms = r_created_ms r,
      r_updated_ms = r_updated_ms r, r_flags = r_flags r, r_title = g (r_title r),
      r_username = g (r_username r), r_password = g (r_password r), r_notes = g (r_notes r),
      r_urls = map g (r_urls r), r_tags = map g (r_tags r),
      r_fields = map (map_field g) (r_fields r)\<rparr>"

definition load_record :: "pv_arena \<Rightarrow> aslice pv_record \<Rightarrow> pv_slice pv_record" where
  "load_record a = map_record (load_slice a)"

definition PV_RECORD_DELETED :: u32 where "PV_RECORD_DELETED = 1"
definition PV_RECORD_FAVORITE :: u32 where "PV_RECORD_FAVORITE = 2"
definition PV_FIELD_SECRET :: u32 where "PV_FIELD_SECRET = 1"

abbreviation PV_MAX_TITLE :: nat where "PV_MAX_TITLE \<equiv> 1024"
abbreviation PV_MAX_USERNAME :: nat where "PV_MAX_USERNAME \<equiv> 4096"
abbreviation PV_MAX_PASSWORD :: nat where "PV_MAX_PASSWORD \<equiv> 65536"
abbreviation PV_MAX_URL :: nat where "PV_MAX_URL \<equiv> 8192"
abbreviation PV_MAX_NOTES :: nat where "PV_MAX_NOTES \<equiv> 262144"
abbreviation PV_MAX_TAG :: nat where "PV_MAX_TAG \<equiv> 256"
abbreviation PV_MAX_FIELD_NAME :: nat where "PV_MAX_FIELD_NAME \<equiv> 256"
abbreviation PV_MAX_FIELD_VALUE :: nat where "PV_MAX_FIELD_VALUE \<equiv> 65536"
abbreviation PV_MAX_COLLECTION_ITEMS :: nat where "PV_MAX_COLLECTION_ITEMS \<equiv> 64"
abbreviation PV_RECORD_ID_BYTES :: nat where "PV_RECORD_ID_BYTES \<equiv> 16"
abbreviation PV_WRAP_KEY_BYTES :: nat where "PV_WRAP_KEY_BYTES \<equiv> 32"
abbreviation PATH_MAX :: nat where "PATH_MAX \<equiv> 4096"
abbreviation UINT64_MAX :: u64 where "UINT64_MAX \<equiv> - 1"

section \<open>Validation\<close>

definition id_is_zero :: "byte list \<Rightarrow> bool" where
  "id_is_zero bs \<longleftrightarrow> foldl (OR) 0 bs = 0"

definition text_slice_valid :: "pv_slice \<Rightarrow> bool \<Rightarrow> bool" where
  "text_slice_valid sl allow_empty \<longleftrightarrow>
     (\<not> slice_null sl \<or> slice_len sl = 0) \<and> (allow_empty \<or> slice_len sl > 0) \<and> pv_utf8_valid sl"

fun validate_texts :: "nat \<Rightarrow> pv_slice list \<Rightarrow> pv_status" where
  "validate_texts maximum [] = PV_OK"
| "validate_texts maximum (sl # sls) =
     (if slice_len sl > maximum then PV_ERR_LIMIT
      else if \<not> text_slice_valid sl True then PV_ERR_FORMAT
      else validate_texts maximum sls)"

fun validate_fields :: "pv_slice pv_custom_field list \<Rightarrow> pv_status" where
  "validate_fields [] = PV_OK"
| "validate_fields (f # fs) =
     (if slice_len (f_name f) > PV_MAX_FIELD_NAME \<or> slice_len (f_value f) > PV_MAX_FIELD_VALUE
      then PV_ERR_LIMIT
      else if \<not> text_slice_valid (f_name f) False \<or>
          (slice_null (f_value f) \<and> slice_len (f_value f) \<noteq> 0) \<or>
          f_flags f AND NOT PV_FIELD_SECRET \<noteq> 0
      then PV_ERR_FORMAT
      else validate_fields fs)"

definition validate_record_fields :: "pv_slice pv_record \<Rightarrow> pv_status" where
  "validate_record_fields r =
     (if slice_len (r_title r) > PV_MAX_TITLE \<or> slice_len (r_username r) > PV_MAX_USERNAME \<or>
         slice_len (r_password r) > PV_MAX_PASSWORD \<or> slice_len (r_notes r) > PV_MAX_NOTES \<or>
         length (r_urls r) > PV_MAX_COLLECTION_ITEMS \<or>
         length (r_tags r) > PV_MAX_COLLECTION_ITEMS \<or>
         length (r_fields r) > PV_MAX_COLLECTION_ITEMS
      then PV_ERR_LIMIT
      else if sint (r_created_ms r) < 0 \<or> sint (r_updated_ms r) < 0 \<or>
         r_flags r AND NOT (PV_RECORD_DELETED OR PV_RECORD_FAVORITE) \<noteq> 0 \<or>
         \<not> text_slice_valid (r_title r) False \<or>
         \<not> text_slice_valid (r_username r) True \<or>
         (slice_null (r_password r) \<and> slice_len (r_password r) \<noteq> 0) \<or>
         \<not> text_slice_valid (r_notes r) True
      then PV_ERR_FORMAT
      else if validate_texts PV_MAX_URL (r_urls r) \<noteq> PV_OK
      then validate_texts PV_MAX_URL (r_urls r)
      else if validate_texts PV_MAX_TAG (r_tags r) \<noteq> PV_OK
      then validate_texts PV_MAX_TAG (r_tags r)
      else validate_fields (r_fields r))"

definition pv_model_validate_record :: "pv_slice pv_record \<Rightarrow> pv_status" where
  "pv_model_validate_record r =
     (if validate_record_fields r \<noteq> PV_OK then validate_record_fields r
      else if r_revision r = 0 \<or> id_is_zero (r_id r) then PV_ERR_FORMAT
      else PV_OK)"

section \<open>Creation\<close>

abbreviation PV_INITIAL_RECORD_CAPACITY :: size_t where "PV_INITIAL_RECORD_CAPACITY \<equiv> 16"

text \<open>The sizes of the structures on a 64-bit target; all are aligned to eight bytes.\<close>

abbreviation sizeof_record :: size_t where "sizeof_record \<equiv> 160"
abbreviation sizeof_slice :: size_t where "sizeof_slice \<equiv> 16"
abbreviation sizeof_field :: size_t where "sizeof_field \<equiv> 40"

definition vault_zero :: pv_vault where
  "vault_zero =
     \<lparr>v_arena = arena_zero, v_vault_id = replicate 16 0, v_device_id = replicate 16 0,
      v_generation = 0, v_created_ms = 0, v_updated_ms = 0, v_records = [],
      v_record_capacity = 0, v_vmk = None, v_source_hash = replicate 32 0, v_dirty = False,
      v_path = []\<rparr>"

text \<open>\<open>arena_mem\<close> and \<open>vmk_mem\<close> are the outcomes of the two guarded allocations.\<close>

definition pv_model_init :: "alloc \<Rightarrow> alloc \<Rightarrow> byte list \<Rightarrow> pv_vault pv_result" where
  "pv_model_init arena_mem vmk_mem path =
     (if length path \<ge> PATH_MAX then Inl PV_ERR_USAGE
      else case pv_arena_init arena_mem (word_of_nat PV_MAX_PLAINTEXT) of
        Inl e \<Rightarrow> Inl e
      | Inr a \<Rightarrow>
          (case vmk_mem of
             Malloc_null \<Rightarrow> Inl PV_ERR_NOMEM
           | Mlock_failed \<Rightarrow> Inl PV_ERR_SECURE_MEMORY
           | Alloc_ok \<Rightarrow>
               (case pv_arena_alloc a (PV_INITIAL_RECORD_CAPACITY * sizeof_record) 8 of
                  None \<Rightarrow> Inl PV_ERR_LIMIT
                | Some (off, a1) \<Rightarrow>
                    Inr (vault_zero
                      \<lparr>v_arena := a1, v_vmk := Some (replicate PV_WRAP_KEY_BYTES 0),
                       v_record_capacity := PV_INITIAL_RECORD_CAPACITY, v_path := path\<rparr>))))"

definition pv_model_destroy :: "pv_vault \<Rightarrow> pv_vault" where
  "pv_model_destroy v = vault_zero"

section \<open>Insertion\<close>

definition ensure_record_capacity :: "pv_vault \<Rightarrow> unit pv_result \<times> pv_vault" where
  "ensure_record_capacity v =
     (if length (v_records v) < unat (v_record_capacity v) then (Inr (), v)
      else if v_record_capacity v \<ge> SIZE_MAX div 2 then (Inl PV_ERR_LIMIT, v)
      else let new_capacity = v_record_capacity v * 2 in
        case pv_size_mul new_capacity sizeof_record of
          None \<Rightarrow> (Inl PV_ERR_LIMIT, v)
        | Some bytes \<Rightarrow>
            (case pv_arena_alloc (v_arena v) bytes 8 of
               None \<Rightarrow> (Inl PV_ERR_LIMIT, v)
             | Some (off, a) \<Rightarrow> (Inr (), v\<lparr>v_arena := a, v_record_capacity := new_capacity\<rparr>)))"

definition copy_slices ::
  "pv_slice list \<Rightarrow> nat \<Rightarrow> pv_arena \<Rightarrow> aslice list pv_result \<times> pv_arena" where
  "copy_slices source max_len a =
     (if source = [] then (Inr [], a)
      else if length source > PV_MAX_COLLECTION_ITEMS then (Inl PV_ERR_LIMIT, a)
      else case pv_arena_alloc a (word_of_nat (length source) * sizeof_slice) 8 of
        None \<Rightarrow> (Inl PV_ERR_LIMIT, a)
      | Some (off, a1) \<Rightarrow> for_each (\<lambda>sl a. pv_arena_copy a sl max_len) source a1)"

text \<open>Field by field, then the next status check: the body of the loop of \<open>copy_fields\<close>.\<close>

definition copy_field ::
  "pv_slice pv_custom_field \<Rightarrow> pv_arena \<Rightarrow> aslice pv_custom_field pv_result \<times> pv_arena" where
  "copy_field f =
     pv_bind (\<lambda>a. pv_arena_copy a (f_name f) PV_MAX_FIELD_NAME) (\<lambda>nm.
     pv_bind (\<lambda>a. pv_arena_copy a (f_value f) PV_MAX_FIELD_VALUE) (\<lambda>val.
     pv_return \<lparr>f_name = nm, f_value = val, f_flags = f_flags f\<rparr>))"

definition copy_fields ::
  "pv_slice pv_custom_field list \<Rightarrow> pv_arena \<Rightarrow> aslice pv_custom_field list pv_result \<times> pv_arena"
  where
  "copy_fields source a =
     (if source = [] then (Inr [], a)
      else if length source > PV_MAX_COLLECTION_ITEMS then (Inl PV_ERR_LIMIT, a)
      else case pv_arena_alloc a (word_of_nat (length source) * sizeof_field) 8 of
        None \<Rightarrow> (Inl PV_ERR_LIMIT, a)
      | Some (off, a1) \<Rightarrow> for_each copy_field source a1)"

text \<open>
  The comparison of \<^verbatim>\<open>sodium_memcmp\<close> is equality of the sixteen bytes. The result of a search
  is the index of the record, \<open>None\<close> for NULL.
\<close>

fun find_id_from :: "nat \<Rightarrow> byte list \<Rightarrow> 's pv_record list \<Rightarrow> nat option" where
  "find_id_from i rid [] = None"
| "find_id_from i rid (r # rs) = (if r_id r = rid then Some i else find_id_from (i + 1) rid rs)"

definition pv_model_find_id :: "pv_vault \<Rightarrow> byte list \<Rightarrow> nat option" where
  "pv_model_find_id v rid = find_id_from 0 rid (v_records v)"

text \<open>
  The identifier of a record to insert. \<open>draws\<close> are the blocks \<^verbatim>\<open>randombytes_buf\<close> delivers;
  \<open>None\<close> means that the loop has used them all up and is still looking for an identifier.
\<close>

fun draw_id :: "pv_vault \<Rightarrow> byte list list \<Rightarrow> byte list option" where
  "draw_id v [] = None"
| "draw_id v (d # ds) =
     (if id_is_zero d \<or> pv_model_find_id v d \<noteq> None then draw_id v ds else Some d)"

definition record_id :: "byte list list \<Rightarrow> byte list \<Rightarrow> pv_vault \<Rightarrow> byte list pv_result option" where
  "record_id draws rid v =
     (if id_is_zero rid then map_option Inr (draw_id v draws)
      else if pv_model_find_id v rid \<noteq> None then Some (Inl PV_ERR_EXISTS)
      else Some (Inr rid))"

text \<open>The copies of the texts of a record, in the order of the code.\<close>

definition copy_record ::
  "pv_slice pv_record \<Rightarrow> byte list \<Rightarrow> i64 \<Rightarrow> pv_arena \<Rightarrow> aslice pv_record pv_result \<times> pv_arena" where
  "copy_record source rid now =
     pv_bind (\<lambda>a. pv_arena_copy a (r_title source) PV_MAX_TITLE) (\<lambda>title.
     if title = ANull then pv_raise PV_ERR_USAGE else
     pv_bind (\<lambda>a. pv_arena_copy a (r_username source) PV_MAX_USERNAME) (\<lambda>username.
     pv_bind (\<lambda>a. pv_arena_copy a (r_password source) PV_MAX_PASSWORD) (\<lambda>password.
     pv_bind (\<lambda>a. pv_arena_copy a (r_notes source) PV_MAX_NOTES) (\<lambda>notes.
     pv_bind (copy_slices (r_urls source) PV_MAX_URL) (\<lambda>urls.
     pv_bind (copy_slices (r_tags source) PV_MAX_TAG) (\<lambda>tags.
     pv_bind (copy_fields (r_fields source)) (\<lambda>customs.
     pv_return
       \<lparr>r_id = rid,
        r_revision = (if r_revision source = 0 then 1 else r_revision source),
        r_created_ms = (if r_revision source = 0 \<and> r_created_ms source = 0 then now
                        else r_created_ms source),
        r_updated_ms = (if r_revision source = 0 \<and> r_updated_ms source = 0 then now
                        else r_updated_ms source),
        r_flags = r_flags source, r_title = title, r_username = username,
        r_password = password, r_notes = notes, r_urls = urls, r_tags = tags,
        r_fields = customs\<rparr>)))))))"

text \<open>
  \<open>mp\<close>: whether the arena can be made writable; \<open>now\<close>: the clock in milliseconds. The
  index returned is the one of the new record.
\<close>

definition pv_model_add_record ::
  "bool \<Rightarrow> i64 \<Rightarrow> byte list list \<Rightarrow> pv_slice pv_record \<Rightarrow> pv_vault \<Rightarrow>
     (nat pv_result \<times> pv_vault) option" where
  "pv_model_add_record mp now draws source v =
     (if validate_record_fields source \<noteq> PV_OK
      then Some (Inl (validate_record_fields source), v)
      else if r_revision source \<noteq> 0 \<and> id_is_zero (r_id source) then Some (Inl PV_ERR_FORMAT, v)
      else
        case (if arena_readonly (v_arena v) then pv_arena_set_readwrite mp (v_arena v)
              else (Inr (), v_arena v)) of
          (Inl e, a) \<Rightarrow> Some (Inl e, v\<lparr>v_arena := a\<rparr>)
        | (Inr _, a) \<Rightarrow>
        (case ensure_record_capacity (v\<lparr>v_arena := a\<rparr>) of
          (Inl e, v1) \<Rightarrow> Some (Inl e, v1)
        | (Inr _, v1) \<Rightarrow>
        (case record_id draws (r_id source) v1 of
          None \<Rightarrow> None
        | Some (Inl e) \<Rightarrow> Some (Inl e, v1)
        | Some (Inr rid) \<Rightarrow>
        (case copy_record source rid now (v_arena v1) of
          (Inl e, a2) \<Rightarrow> Some (Inl e, v1\<lparr>v_arena := a2\<rparr>)
        | (Inr r, a2) \<Rightarrow>
            Some (Inr (length (v_records v1)),
              v1\<lparr>v_arena := a2, v_records := v_records v1 @ [r], v_dirty := True,
                 v_updated_ms := now\<rparr>)))))"

section \<open>Search\<close>

definition record_matches :: "pv_slice pv_record \<Rightarrow> byte list \<Rightarrow> bool" where
  "record_matches r query \<longleftrightarrow>
     (if pv_slice_contains_cstr (r_title r) query True \<or>
         pv_slice_contains_cstr (r_username r) query True then True
      else if list_ex (\<lambda>u. pv_slice_contains_cstr u query True) (r_urls r) then True
      else list_ex (\<lambda>t. pv_slice_contains_cstr t query True) (r_tags r))"

text \<open>The loop over the records: the index of \<open>first\<close> and the number of matches.\<close>

fun find_from ::
  "nat \<Rightarrow> byte list \<Rightarrow> pv_slice pv_record list \<Rightarrow> nat option \<Rightarrow> nat \<Rightarrow> nat option \<times> nat" where
  "find_from i query [] first count = (first, count)"
| "find_from i query (r # rs) first count =
     (if r_flags r AND PV_RECORD_DELETED \<noteq> 0 \<or> \<not> record_matches r query
      then find_from (i + 1) query rs first count
      else find_from (i + 1) query rs (if first = None then Some i else first) (count + 1))"

definition vault_records :: "pv_vault \<Rightarrow> pv_slice pv_record list" where
  "vault_records v = map (load_record (v_arena v)) (v_records v)"

text \<open>The record found and the value stored through \<open>matches\<close>.\<close>

definition pv_model_find :: "pv_vault \<Rightarrow> byte list \<Rightarrow> nat option \<times> nat" where
  "pv_model_find v query =
     (if query = [] then (None, 0)
      else case pv_hex_decode query PV_RECORD_ID_BYTES of
        None \<Rightarrow> find_from 0 query (vault_records v) None 0
      | Some rid \<Rightarrow>
          (case pv_model_find_id v rid of
             None \<Rightarrow> find_from 0 query (vault_records v) None 0
           | Some i \<Rightarrow>
               if r_flags (v_records v ! i) AND PV_RECORD_DELETED = 0 then (Some i, 1)
               else find_from 0 query (vault_records v) (Some i) 0))"

section \<open>Deletion\<close>

fun erase_slice :: "aslice \<Rightarrow> pv_arena \<Rightarrow> pv_arena" where
  "erase_slice ANull a = a"
| "erase_slice (ASlice off len) a = a\<lparr>arena_base := map_option (\<lambda>m. memzero m off len) (arena_base a)\<rparr>"

text \<open>The slices deletion erases, in the order of the code.\<close>

definition secret_slices :: "'s pv_record \<Rightarrow> 's list" where
  "secret_slices r =
     [r_username r, r_password r, r_notes r] @ r_urls r @ r_tags r @
     concat (map (\<lambda>f. [f_name f, f_value f]) (r_fields r))"

definition deleted_record :: "i64 \<Rightarrow> aslice pv_record \<Rightarrow> aslice pv_record" where
  "deleted_record now r =
     r\<lparr>r_username := ANull, r_password := ANull, r_notes := ANull, r_urls := [], r_tags := [],
       r_fields := [], r_flags := r_flags r OR PV_RECORD_DELETED, r_revision := r_revision r + 1,
       r_updated_ms := now\<rparr>"

definition pv_model_delete :: "bool \<Rightarrow> i64 \<Rightarrow> nat \<Rightarrow> pv_vault \<Rightarrow> unit pv_result \<times> pv_vault" where
  "pv_model_delete mp now i v =
     (let r = v_records v ! i in
      if r_flags r AND PV_RECORD_DELETED \<noteq> 0 then (Inl PV_ERR_USAGE, v)
      else if r_revision r = UINT64_MAX then (Inl PV_ERR_LIMIT, v)
      else case (if arena_readonly (v_arena v) then pv_arena_set_readwrite mp (v_arena v)
                 else (Inr (), v_arena v)) of
        (Inl e, a) \<Rightarrow> (Inl e, v\<lparr>v_arena := a\<rparr>)
      | (Inr _, a) \<Rightarrow>
          (Inr (), v\<lparr>v_arena := fold erase_slice (secret_slices r) a,
                     v_records := (v_records v)[i := deleted_record now r],
                     v_dirty := True, v_updated_ms := now\<rparr>))"

section \<open>Cloning\<close>

text \<open>
  The loop of \<open>pv_model_clone\<close> over the records of the source, read from its arena.
  \<open>draws i\<close> is what the random generator would deliver to the \<open>i\<close>-th insertion. The arena
  of the clone is new and writable, so no protection is ever changed.
\<close>

fun clone_records ::
  "i64 \<Rightarrow> (nat \<Rightarrow> byte list list) \<Rightarrow> nat \<Rightarrow> pv_slice pv_record list \<Rightarrow> pv_vault \<Rightarrow>
     (unit pv_result \<times> pv_vault) option" where
  "clone_records now draws i [] v = Some (Inr (), v)"
| "clone_records now draws i (r # rs) v =
     (case pv_model_add_record True now (draws i) r v of
        None \<Rightarrow> None
      | Some (Inl e, v1) \<Rightarrow> Some (Inl e, pv_model_destroy v1)
      | Some (Inr _, v1) \<Rightarrow> clone_records now draws (i + 1) rs v1)"

definition pv_model_clone ::
  "alloc \<Rightarrow> alloc \<Rightarrow> i64 \<Rightarrow> (nat \<Rightarrow> byte list list) \<Rightarrow> pv_vault \<Rightarrow> pv_vault pv_result option" where
  "pv_model_clone arena_mem vmk_mem now draws source =
     (case pv_model_init arena_mem vmk_mem (v_path source) of
        Inl e \<Rightarrow> Some (Inl e)
      | Inr v0 \<Rightarrow>
          (case clone_records now draws 0 (vault_records source)
                  (v0\<lparr>v_vault_id := v_vault_id source, v_device_id := v_device_id source,
                      v_vmk := v_vmk source, v_source_hash := v_source_hash source,
                      v_generation := v_generation source, v_created_ms := v_created_ms source,
                      v_updated_ms := v_updated_ms source\<rparr>) of
             None \<Rightarrow> None
           | Some (Inl e, v1) \<Rightarrow> Some (Inl e)
           | Some (Inr _, v1) \<Rightarrow>
               Some (Inr (v1\<lparr>v_created_ms := v_created_ms source,
                             v_updated_ms := v_updated_ms source,
                             v_dirty := v_dirty source\<rparr>))))"

section \<open>Specification of the records\<close>

text \<open>The records as the user sees them: plain bytes.\<close>

definition slice_view :: "pv_arena \<Rightarrow> aslice \<Rightarrow> byte list" where
  "slice_view a s = slice_bytes (load_slice a s)"

definition record_view :: "pv_arena \<Rightarrow> aslice pv_record \<Rightarrow> byte list pv_record" where
  "record_view a = map_record (slice_view a)"

definition vault_view :: "pv_vault \<Rightarrow> byte list pv_record list" where
  "vault_view v = map (record_view (v_arena v)) (v_records v)"

definition text_wf :: "nat \<Rightarrow> byte list \<Rightarrow> bool" where
  "text_wf maximum bs \<longleftrightarrow> length bs \<le> maximum \<and> utf8_bytes_valid bs"

definition field_wf :: "byte list pv_custom_field \<Rightarrow> bool" where
  "field_wf f \<longleftrightarrow> text_wf PV_MAX_FIELD_NAME (f_name f) \<and> f_name f \<noteq> [] \<and>
     length (f_value f) \<le> PV_MAX_FIELD_VALUE \<and> f_flags f AND NOT PV_FIELD_SECRET = 0"

definition record_wf :: "byte list pv_record \<Rightarrow> bool" where
  "record_wf r \<longleftrightarrow>
     text_wf PV_MAX_TITLE (r_title r) \<and> r_title r \<noteq> [] \<and> text_wf PV_MAX_USERNAME (r_username r) \<and>
     length (r_password r) \<le> PV_MAX_PASSWORD \<and> text_wf PV_MAX_NOTES (r_notes r) \<and>
     0 \<le> sint (r_created_ms r) \<and> 0 \<le> sint (r_updated_ms r) \<and>
     r_flags r AND NOT (PV_RECORD_DELETED OR PV_RECORD_FAVORITE) = 0 \<and>
     length (r_urls r) \<le> PV_MAX_COLLECTION_ITEMS \<and> list_all (text_wf PV_MAX_URL) (r_urls r) \<and>
     length (r_tags r) \<le> PV_MAX_COLLECTION_ITEMS \<and> list_all (text_wf PV_MAX_TAG) (r_tags r) \<and>
     length (r_fields r) \<le> PV_MAX_COLLECTION_ITEMS \<and> list_all field_wf (r_fields r)"

text \<open>A slice that is either a valid pointer or NULL with length zero.\<close>

definition proper :: "pv_slice \<Rightarrow> bool" where
  "proper sl \<longleftrightarrow> \<not> (slice_null sl \<and> slice_len sl \<noteq> 0)"

definition record_slices :: "'s pv_record \<Rightarrow> 's list" where
  "record_slices r = r_title r # secret_slices r"

lemma proper_len: "proper sl \<Longrightarrow> slice_len sl = length (slice_bytes sl)"
  by (cases sl) (auto simp: proper_def)

lemma load_slice_proper [simp]: "proper (load_slice a s)"
  by (cases s) (auto simp: proper_def)

lemma text_slice_valid_iff:
  "text_slice_valid sl allow \<longleftrightarrow>
     proper sl \<and> (allow \<or> slice_bytes sl \<noteq> []) \<and> utf8_bytes_valid (slice_bytes sl)"
  by (cases sl) (auto simp: text_slice_valid_def proper_def pv_utf8_valid_def)

lemma text_len_ok:
  "proper sl \<Longrightarrow> \<not> slice_len sl > maximum \<and> utf8_bytes_valid (slice_bytes sl) \<longleftrightarrow>
     text_wf maximum (slice_bytes sl)"
  by (auto simp: text_wf_def proper_len)

lemma validate_texts_iff:
  "validate_texts maximum sls = PV_OK \<longleftrightarrow>
     list_all proper sls \<and> list_all (\<lambda>sl. text_wf maximum (slice_bytes sl)) sls"
  by (induction sls) (auto simp: text_slice_valid_iff text_wf_def proper_len)

lemma validate_fields_iff:
  "validate_fields fs = PV_OK \<longleftrightarrow>
     list_all (\<lambda>f. proper (f_name f) \<and> proper (f_value f)) fs \<and>
     list_all (\<lambda>f. field_wf (map_field slice_bytes f)) fs"
proof (induction fs)
  case (Cons f fs)
  have "proper (f_value f) \<longleftrightarrow> \<not> (slice_null (f_value f) \<and> slice_len (f_value f) \<noteq> 0)"
    by (simp add: proper_def)
  with Cons show ?case
    by (auto simp: text_slice_valid_iff text_wf_def proper_len field_wf_def map_field_def)
qed simp

lemma map_record_simps [simp]:
  "r_id (map_record g r) = r_id r" "r_revision (map_record g r) = r_revision r"
  "r_created_ms (map_record g r) = r_created_ms r" "r_updated_ms (map_record g r) = r_updated_ms r"
  "r_flags (map_record g r) = r_flags r" "r_title (map_record g r) = g (r_title r)"
  "r_username (map_record g r) = g (r_username r)" "r_password (map_record g r) = g (r_password r)"
  "r_notes (map_record g r) = g (r_notes r)" "r_urls (map_record g r) = map g (r_urls r)"
  "r_tags (map_record g r) = map g (r_tags r)"
  "r_fields (map_record g r) = map (map_field g) (r_fields r)"
  by (simp_all add: map_record_def)

lemma map_field_simps [simp]:
  "f_name (map_field g f) = g (f_name f)" "f_value (map_field g f) = g (f_value f)"
  "f_flags (map_field g f) = f_flags f"
  by (simp_all add: map_field_def)

lemma map_field_comp: "map_field g (map_field h f) = map_field (g \<circ> h) f"
  by (simp add: map_field_def)

lemma map_record_comp: "map_record g (map_record h r) = map_record (g \<circ> h) r"
  by (simp add: map_record_def map_field_comp comp_def)

lemma list_all_record_slices:
  "list_all P (record_slices r) \<longleftrightarrow>
     P (r_title r) \<and> P (r_username r) \<and> P (r_password r) \<and> P (r_notes r) \<and>
     list_all P (r_urls r) \<and> list_all P (r_tags r) \<and>
     list_all (\<lambda>f. P (f_name f) \<and> P (f_value f)) (r_fields r)"
  by (auto simp: record_slices_def secret_slices_def list_all_iff)

lemma validate_record_fields_iff:
  "validate_record_fields r = PV_OK \<longleftrightarrow>
     list_all proper (record_slices r) \<and> record_wf (map_record slice_bytes r)"
proof -
  have p: "(slice_null (r_password r) \<and> slice_len (r_password r) \<noteq> 0) \<longleftrightarrow> \<not> proper (r_password r)"
    by (simp add: proper_def)
  have if_ok: "(if c then x else y) = PV_OK \<longleftrightarrow> \<not> c \<and> y = PV_OK" if "x \<noteq> PV_OK" for c x y
    using that by simp
  have "validate_record_fields r = PV_OK \<longleftrightarrow>
      \<not> (slice_len (r_title r) > PV_MAX_TITLE \<or> slice_len (r_username r) > PV_MAX_USERNAME \<or>
         slice_len (r_password r) > PV_MAX_PASSWORD \<or> slice_len (r_notes r) > PV_MAX_NOTES \<or>
         length (r_urls r) > PV_MAX_COLLECTION_ITEMS \<or>
         length (r_tags r) > PV_MAX_COLLECTION_ITEMS \<or>
         length (r_fields r) > PV_MAX_COLLECTION_ITEMS) \<and>
      \<not> (sint (r_created_ms r) < 0 \<or> sint (r_updated_ms r) < 0 \<or>
         r_flags r AND NOT (PV_RECORD_DELETED OR PV_RECORD_FAVORITE) \<noteq> 0 \<or>
         \<not> text_slice_valid (r_title r) False \<or> \<not> text_slice_valid (r_username r) True \<or>
         \<not> proper (r_password r) \<or> \<not> text_slice_valid (r_notes r) True) \<and>
      validate_texts PV_MAX_URL (r_urls r) = PV_OK \<and> validate_texts PV_MAX_TAG (r_tags r) = PV_OK \<and>
      validate_fields (r_fields r) = PV_OK"
    unfolding validate_record_fields_def p by (simp add: if_ok)
  also have "\<dots> \<longleftrightarrow> list_all proper (record_slices r) \<and> record_wf (map_record slice_bytes r)"
    unfolding validate_texts_iff validate_fields_iff text_slice_valid_iff list_all_record_slices
      record_wf_def map_record_simps list.pred_map comp_def length_map text_wf_def
    by (auto simp: proper_len list_all_iff not_less)
  finally show ?thesis .
qed

section \<open>Copies into the arena\<close>

text \<open>What one copying step between two arenas guarantees of the handle it returned.\<close>

definition copied ::
  "pv_arena \<Rightarrow> pv_arena \<Rightarrow> ('h \<Rightarrow> (nat \<times> nat) list) \<Rightarrow> (pv_arena \<Rightarrow> 'h \<Rightarrow> 'v) \<Rightarrow> 'h pv_result \<Rightarrow> 'v \<Rightarrow> bool"
  where
  "copied a a' regions load r v \<longleftrightarrow>
     arena_ok a' \<and> arena_grows a a' \<and>
     (\<forall>h. r = Inr h \<longrightarrow>
        laid_out (unat (arena_used a)) (regions h) (unat (arena_used a')) \<and> load a' h = v)"

definition field_regions :: "aslice pv_custom_field \<Rightarrow> (nat \<times> nat) list" where
  "field_regions f = slice_regions (f_name f) @ slice_regions (f_value f)"

definition record_regions :: "aslice pv_record \<Rightarrow> (nat \<times> nat) list" where
  "record_regions r = concat (map slice_regions (record_slices r))"

lemma copiedD:
  assumes "copied a a' regions load r v"
  shows "arena_ok a'" "arena_grows a a'"
    and "r = Inr h \<Longrightarrow> laid_out (unat (arena_used a)) (regions h) (unat (arena_used a'))"
    and "r = Inr h \<Longrightarrow> load a' h = v"
    and "r = Inr h \<Longrightarrow> below (unat (arena_used a')) (regions h)"
  using assms laid_out_below by (auto simp: copied_def)

lemma arena_copy_copied:
  assumes "arena_ok a" "pv_arena_copy a sl max_len = (r, a')" "max_len \<le> PV_MAX_PLAINTEXT"
  shows "copied a a' slice_regions slice_view r (slice_bytes sl)"
  using pv_arena_copy_laws [OF assms(1,3,2)]
  by (auto simp: copied_def slice_view_def)

lemma slice_view_grows:
  "arena_grows a b \<Longrightarrow> below (unat (arena_used a)) (slice_regions s) \<Longrightarrow> slice_view b s = slice_view a s"
  by (simp add: slice_view_def arena_grows_load)

lemma field_view_grows:
  assumes "arena_grows a b" "below (unat (arena_used a)) (field_regions f)"
  shows "map_field (slice_view b) f = map_field (slice_view a) f"
  using assms by (simp add: map_field_def field_regions_def slice_view_grows)

text \<open>
  A run of several copies: the arena at the end and a property of the result. The rule \<open>grow_bind\<close>
  runs a sequence one copy at a time.
\<close>

definition grown :: "pv_arena \<Rightarrow> pv_arena \<Rightarrow> 'h pv_result \<Rightarrow> ('h \<Rightarrow> bool) \<Rightarrow> bool" where
  "grown a a' r Q \<longleftrightarrow> arena_ok a' \<and> arena_grows a a' \<and> (\<forall>h. r = Inr h \<longrightarrow> Q h)"

lemma grow_bind:
  assumes run: "pv_bind m k a = (r, c)"
    and m: "\<And>r b. m a = (r, b) \<Longrightarrow> copied a b regs ld r v"
    and k: "\<And>h b. copied a b regs ld (Inr h) v \<Longrightarrow> k h b = (r, c) \<Longrightarrow> grown b c r Q"
  shows "grown a c r Q"
proof -
  obtain r1 b where e: "m a = (r1, b)" by fastforce
  note c1 = m [OF e]
  show ?thesis
  proof (cases r1)
    case (Inl e)
    with run \<open>m a = (r1, b)\<close> c1 show ?thesis by (auto simp: grown_def copied_def)
  next
    case (Inr h)
    with run e c1 have "grown b c r Q" by (intro k) simp_all
    with c1 show ?thesis by (auto simp: grown_def copied_def intro: arena_grows_trans)
  qed
qed

lemma grow_return: "arena_ok a \<Longrightarrow> pv_return x a = (r, c) \<Longrightarrow> (a = c \<Longrightarrow> Q x) \<Longrightarrow> grown a c r Q"
  by (auto simp: grown_def pv_return_def arena_grows_refl)

lemma grow_raise: "arena_ok a \<Longrightarrow> pv_raise e a = (r, c) \<Longrightarrow> grown a c r Q"
  by (auto simp: grown_def pv_raise_def arena_grows_refl)

lemma grown_copied:
  "copied a c regs ld r v \<longleftrightarrow>
     grown a c r (\<lambda>h. laid_out (unat (arena_used a)) (regs h) (unat (arena_used c)) \<and> ld c h = v)"
  by (simp add: copied_def grown_def)

text \<open>Chaining one copy after another: the first handle still reads the same after the second.\<close>

lemma copied_seq:
  assumes "copied a b regs ld (Inr h) v" and "copied b c regs' ld' (Inr h') w"
    and "\<And>c. arena_grows b c \<Longrightarrow> below (unat (arena_used b)) (regs h) \<Longrightarrow> ld c h = ld b h"
  shows "copied a c (\<lambda>(h, h'). regs h @ regs' h') (\<lambda>a (h, h'). (ld a h, ld' a h')) (Inr (h, h')) (v, w)"
proof -
  note g = copiedD(2) [OF assms(2)]
  have "ld c h = v"
    using assms(3) [OF g copiedD(5) [OF assms(1) refl]] copiedD(4) [OF assms(1) refl] by simp
  moreover have "arena_grows a c" by (rule arena_grows_trans [OF copiedD(2) [OF assms(1)] g])
  moreover have "laid_out (unat (arena_used a)) (regs h @ regs' h') (unat (arena_used c))"
    by (rule laid_out_append [OF copiedD(3) [OF assms(1) refl] copiedD(3) [OF assms(2) refl]])
  ultimately show ?thesis using assms(2) by (auto simp: copied_def)
qed

lemma slices_view_grows:
  "arena_grows a b \<Longrightarrow> below (unat (arena_used a)) (concat (map slice_regions hs)) \<Longrightarrow>
     map (slice_view b) hs = map (slice_view a) hs"
  by (induction hs) (simp_all add: slice_view_grows)

lemma copy_field_copied:
  assumes ok: "arena_ok a" and copy: "copy_field f a = (r, a')"
  shows "copied a a' field_regions (\<lambda>a. map_field (slice_view a)) r (map_field slice_bytes f)"
  unfolding grown_copied
proof (rule grow_bind [OF copy [unfolded copy_field_def]])
  show "copied a b slice_regions slice_view r (slice_bytes (f_name f))"
    if "pv_arena_copy a (f_name f) PV_MAX_FIELD_NAME = (r, b)" for r b
    by (rule arena_copy_copied [OF ok that]) (simp add: PV_MAX_PLAINTEXT_def)
  fix nm b
  assume c1: "copied a b slice_regions slice_view (Inr nm) (slice_bytes (f_name f))"
    and run: "pv_bind (\<lambda>a. pv_arena_copy a (f_value f) PV_MAX_FIELD_VALUE)
      (\<lambda>val. pv_return \<lparr>f_name = nm, f_value = val, f_flags = f_flags f\<rparr>) b = (r, a')"
  show "grown b a' r (\<lambda>h. laid_out (unat (arena_used a)) (field_regions h) (unat (arena_used a')) \<and>
      map_field (slice_view a') h = map_field slice_bytes f)"
  proof (rule grow_bind [OF run])
    show "copied b c slice_regions slice_view r (slice_bytes (f_value f))"
      if "pv_arena_copy b (f_value f) PV_MAX_FIELD_VALUE = (r, c)" for r c
      by (rule arena_copy_copied [OF copiedD(1) [OF c1] that]) (simp add: PV_MAX_PLAINTEXT_def)
    fix val c
    assume c2: "copied b c slice_regions slice_view (Inr val) (slice_bytes (f_value f))"
      and run: "pv_return \<lparr>f_name = nm, f_value = val, f_flags = f_flags f\<rparr> c = (r, a')"
    from copied_seq [OF c1 c2 slice_view_grows]
    show "grown c a' r (\<lambda>h. laid_out (unat (arena_used a)) (field_regions h) (unat (arena_used a')) \<and>
        map_field (slice_view a') h = map_field slice_bytes f)"
      by (intro grow_return [OF copiedD(1) [OF c2] run])
        (auto simp: copied_def field_regions_def map_field_def)
  qed
qed

interpretation field_copy: growing_store arena_ok arena_grows "\<lambda>a. unat (arena_used a)"
  field_regions "\<lambda>a. map_field (slice_view a)" "map_field slice_bytes"
  "\<lambda>f a r a'. copy_field f a = (r, a')"
proof unfold_locales
  show "arena_ok t \<and> arena_grows s t" if "arena_ok s" "copy_field x s = (r, t)" for s x r t
    using copiedD(1,2) [OF copy_field_copied [OF that]] by simp
  show "laid_out (unat (arena_used s)) (field_regions h) (unat (arena_used t)) \<and>
      map_field (slice_view t) h = map_field slice_bytes x"
    if "arena_ok s" "copy_field x s = (Inr h, t)" for s x h t
    using copiedD(3,4) [OF copy_field_copied [OF that]] by simp
qed (auto simp: field_view_grows intro: arena_grows_refl arena_grows_mark arena_grows_trans)

lemma copied_after:
  assumes "arena_grows a b" "copied b c regions load r v"
  shows "copied a c regions load r v"
  using assms arena_grows_trans arena_grows_mark [OF assms(1)] laid_out_weaken
  by (fastforce simp: copied_def)

lemma copy_slices_copied:
  assumes ok: "arena_ok a" and copy: "copy_slices sls max_len a = (r, a')"
    and max: "max_len \<le> PV_MAX_PLAINTEXT"
  shows "copied a a' (\<lambda>hs. concat (map slice_regions hs)) (\<lambda>a. map (slice_view a)) r
    (map slice_bytes sls)"
proof -
  consider (same) "a' = a" "r = Inr [] \<and> sls = [] \<or> (\<exists>e. r = Inl e)"
    | (run) off a1 where "pv_arena_alloc a (word_of_nat (length sls) * sizeof_slice) 8 = Some (off, a1)"
        "for_each (\<lambda>sl a. pv_arena_copy a sl max_len) sls a1 = (r, a')"
    using copy by (auto simp: copy_slices_def split: if_splits option.splits)
  then show ?thesis
  proof cases
    case same
    with ok show ?thesis by (auto simp: copied_def arena_grows_refl)
  next
    case run
    note l1 = pv_arena_alloc_laws(2,4) [OF run(1)]
    have lp: "loop (\<lambda>sl a r a'. \<exists>max_len\<le>PV_MAX_PLAINTEXT. pv_arena_copy a sl max_len = (r, a'))
        sls a1 r a'"
      by (rule loop_mono [OF for_each_loop [OF run(2)]]) (use max in blast)
    have "copied a1 a' (\<lambda>hs. concat (map slice_regions hs)) (\<lambda>a. map (slice_view a)) r
      (map slice_bytes sls)"
      using arena_copy.loop_grows [OF lp l1(2) [OF ok]] arena_copy.loop_load [OF lp _ l1(2) [OF ok]]
      by (simp add: copied_def slice_view_def [abs_def])
    then show ?thesis by (rule copied_after [OF l1(1)])
  qed
qed

lemma copy_fields_copied:
  assumes ok: "arena_ok a" and copy: "copy_fields fs a = (r, a')"
  shows "copied a a' (\<lambda>hs. concat (map field_regions hs)) (\<lambda>a. map (map_field (slice_view a))) r
    (map (map_field slice_bytes) fs)"
proof -
  consider (same) "a' = a" "r = Inr [] \<and> fs = [] \<or> (\<exists>e. r = Inl e)"
    | (run) off a1 where "pv_arena_alloc a (word_of_nat (length fs) * sizeof_field) 8 = Some (off, a1)"
        "for_each copy_field fs a1 = (r, a')"
    using copy by (auto simp: copy_fields_def split: if_splits option.splits)
  then show ?thesis
  proof cases
    case same
    with ok show ?thesis by (auto simp: copied_def arena_grows_refl)
  next
    case run
    note l1 = pv_arena_alloc_laws(2,4) [OF run(1)] and lp = for_each_loop [OF run(2)]
    have "copied a1 a' (\<lambda>hs. concat (map field_regions hs)) (\<lambda>a. map (map_field (slice_view a))) r
      (map (map_field slice_bytes) fs)"
      using field_copy.loop_grows [OF lp l1(2) [OF ok]] field_copy.loop_load [OF lp _ l1(2) [OF ok]]
      by (simp add: copied_def)
    then show ?thesis by (rule copied_after [OF l1(1)])
  qed
qed

text \<open>What inserting a record of plain bytes with identifier \<open>rid\<close> at time \<open>now\<close> stores.\<close>

definition stored_record :: "byte list \<Rightarrow> i64 \<Rightarrow> 's pv_record \<Rightarrow> 's pv_record" where
  "stored_record rid now r =
     r\<lparr>r_id := rid, r_revision := (if r_revision r = 0 then 1 else r_revision r),
       r_created_ms := (if r_revision r = 0 \<and> r_created_ms r = 0 then now else r_created_ms r),
       r_updated_ms := (if r_revision r = 0 \<and> r_updated_ms r = 0 then now else r_updated_ms r)\<rparr>"

lemma concat_field_regions:
  "concat (map slice_regions (concat (map (\<lambda>f. [f_name f, f_value f]) fs))) =
     concat (map field_regions fs)"
  by (induction fs) (simp_all add: field_regions_def)

lemma record_regions_eq:
  "record_regions r =
     slice_regions (r_title r) @ slice_regions (r_username r) @ slice_regions (r_password r) @
     slice_regions (r_notes r) @ concat (map slice_regions (r_urls r)) @
     concat (map slice_regions (r_tags r)) @ concat (map field_regions (r_fields r))"
  by (simp add: record_regions_def record_slices_def secret_slices_def concat_field_regions)

lemma slice_then:
  "copied a b slice_regions slice_view (Inr h) v \<Longrightarrow> copied b c regs ld (Inr h') w \<Longrightarrow>
     copied a c (\<lambda>(h, h'). slice_regions h @ regs h') (\<lambda>a (h, h'). (slice_view a h, ld a h'))
       (Inr (h, h')) (v, w)"
  by (erule (1) copied_seq) (rule slice_view_grows)

lemma slices_then:
  "copied a b (\<lambda>hs. concat (map slice_regions hs)) (\<lambda>a. map (slice_view a)) (Inr hs) vs \<Longrightarrow>
   copied b c regs ld (Inr h') w \<Longrightarrow>
     copied a c (\<lambda>(hs, h'). concat (map slice_regions hs) @ regs h')
       (\<lambda>a (hs, h'). (map (slice_view a) hs, ld a h')) (Inr (hs, h')) (vs, w)"
  by (erule (1) copied_seq) (rule slices_view_grows)

lemma copied_record:
  assumes "copied a b slice_regions slice_view (Inr title) (slice_bytes (r_title src))"
    and "copied b c slice_regions slice_view (Inr username) (slice_bytes (r_username src))"
    and "copied c d slice_regions slice_view (Inr password) (slice_bytes (r_password src))"
    and "copied d e slice_regions slice_view (Inr notes) (slice_bytes (r_notes src))"
    and "copied e f (\<lambda>hs. concat (map slice_regions hs)) (\<lambda>a. map (slice_view a)) (Inr urls)
      (map slice_bytes (r_urls src))"
    and "copied f g (\<lambda>hs. concat (map slice_regions hs)) (\<lambda>a. map (slice_view a)) (Inr tags)
      (map slice_bytes (r_tags src))"
    and "copied g a' (\<lambda>hs. concat (map field_regions hs)) (\<lambda>a. map (map_field (slice_view a)))
      (Inr customs) (map (map_field slice_bytes) (r_fields src))"
    and run: "pv_return
       \<lparr>r_id = rid,
        r_revision = (if r_revision src = 0 then 1 else r_revision src),
        r_created_ms = (if r_revision src = 0 \<and> r_created_ms src = 0 then now
                        else r_created_ms src),
        r_updated_ms = (if r_revision src = 0 \<and> r_updated_ms src = 0 then now
                        else r_updated_ms src),
        r_flags = r_flags src, r_title = title, r_username = username,
        r_password = password, r_notes = notes, r_urls = urls, r_tags = tags,
        r_fields = customs\<rparr> a' = (r, a'')"
  shows "grown a' a'' r (\<lambda>h. laid_out (unat (arena_used a)) (record_regions h) (unat (arena_used a'')) \<and>
      record_view a'' h = stored_record rid now (map_record slice_bytes src))"
proof -
  note seq = slice_then [OF assms(1) slice_then [OF assms(2) slice_then [OF assms(3)
    slice_then [OF assms(4) slices_then [OF assms(5) slices_then [OF assms(6) assms(7)]]]]]]
  from copiedD(3,4) [OF seq refl] show ?thesis
    by (intro grow_return [OF copiedD(1) [OF seq] run])
      (simp add: record_regions_eq record_view_def stored_record_def map_record_def)
qed

lemma grow_guard:
  "(if b then pv_raise e else k) a = (r, c) \<Longrightarrow> arena_ok a \<Longrightarrow>
     (\<not> b \<Longrightarrow> k a = (r, c) \<Longrightarrow> grown a c r Q) \<Longrightarrow> grown a c r Q"
  by (cases b) (auto intro: grow_raise)

lemma limits_fit:
  "PV_MAX_TITLE \<le> PV_MAX_PLAINTEXT" "PV_MAX_USERNAME \<le> PV_MAX_PLAINTEXT"
  "PV_MAX_PASSWORD \<le> PV_MAX_PLAINTEXT" "PV_MAX_NOTES \<le> PV_MAX_PLAINTEXT"
  "PV_MAX_URL \<le> PV_MAX_PLAINTEXT" "PV_MAX_TAG \<le> PV_MAX_PLAINTEXT"
  by (simp_all add: PV_MAX_PLAINTEXT_def)

lemma copy_record_copied:
  assumes ok: "arena_ok a" and copy: "copy_record src rid now a = (r, a')"
  shows "copied a a' record_regions record_view r (stored_record rid now (map_record slice_bytes src))"
  unfolding grown_copied
  apply (rule grow_bind [OF copy [unfolded copy_record_def]])
   apply (erule arena_copy_copied [OF ok], rule limits_fit)
  apply (erule grow_guard, erule copiedD(1))
  apply (erule grow_bind, erule (1) arena_copy_copied [OF copiedD(1)], rule limits_fit)
  apply (erule grow_bind, erule (1) arena_copy_copied [OF copiedD(1)], rule limits_fit)
  apply (erule grow_bind, erule (1) arena_copy_copied [OF copiedD(1)], rule limits_fit)
  apply (erule grow_bind, erule (1) copy_slices_copied [OF copiedD(1)], rule limits_fit)
  apply (erule grow_bind, erule (1) copy_slices_copied [OF copiedD(1)], rule limits_fit)
  apply (erule grow_bind, erule (1) copy_fields_copied [OF copiedD(1)])
  apply (erule (7) copied_record)
  done

section \<open>The invariant of a vault\<close>

definition vault_regions :: "pv_vault \<Rightarrow> (nat \<times> nat) list" where
  "vault_regions v = concat (map record_regions (v_records v))"

definition stored_wf :: "byte list pv_record \<Rightarrow> bool" where
  "stored_wf r \<longleftrightarrow>
     record_wf r \<and> r_revision r \<noteq> 0 \<and> length (r_id r) = PV_RECORD_ID_BYTES \<and> \<not> id_is_zero (r_id r)"

text \<open>
  The memory of the records: all texts lie below the mark of the arena and no two of them
  overlap; the array has room for the records it holds and is itself part of the arena.
\<close>

definition layout_ok :: "pv_vault \<Rightarrow> bool" where
  "layout_ok v \<longleftrightarrow>
     arena_ok (v_arena v) \<and> arena_base (v_arena v) \<noteq> None \<and>
     below (unat (arena_used (v_arena v))) (vault_regions v) \<and>
     sorted_wrt apart (vault_regions v) \<and>
     0 < unat (v_record_capacity v) \<and> length (v_records v) \<le> unat (v_record_capacity v) \<and>
     160 * unat (v_record_capacity v) \<le> unat (arena_used (v_arena v))"

definition vault_ok :: "pv_vault \<Rightarrow> bool" where
  "vault_ok v \<longleftrightarrow>
     layout_ok v \<and> list_all stored_wf (vault_view v) \<and> distinct (map r_id (v_records v))"

lemma id_is_zero_iff: "id_is_zero bs \<longleftrightarrow> list_all (\<lambda>b. b = 0) bs"
proof -
  have "foldl (OR) x bs = 0 \<longleftrightarrow> x = 0 \<and> list_all (\<lambda>b. b = 0) bs" for x
    by (induction bs arbitrary: x) (auto simp: or_eq_0_iff)
  then show ?thesis by (simp add: id_is_zero_def)
qed

lemma find_id_from_None: "find_id_from i rid rs = None \<longleftrightarrow> rid \<notin> set (map r_id rs)"
  by (induction i rid rs rule: find_id_from.induct) auto

lemma find_id_from_Some:
  "find_id_from i rid rs = Some j \<Longrightarrow> i \<le> j \<and> j < i + length rs \<and> r_id (rs ! (j - i)) = rid"
proof (induction i rid rs rule: find_id_from.induct)
  case (2 i rid r rs)
  then show ?case by (auto simp: nth_Cons' split: if_splits)
qed simp

lemma pv_model_find_id_None: "pv_model_find_id v rid = None \<longleftrightarrow> rid \<notin> set (map r_id (v_records v))"
  by (simp add: pv_model_find_id_def find_id_from_None)

lemma draw_id_Some:
  "draw_id v ds = Some rid \<Longrightarrow>
     rid \<in> set ds \<and> \<not> id_is_zero rid \<and> rid \<notin> set (map r_id (v_records v))"
  by (induction v ds rule: draw_id.induct) (auto simp: pv_model_find_id_None split: if_splits)

lemma record_id_Inr:
  "record_id ds rid0 v = Some (Inr rid) \<Longrightarrow>
     \<not> id_is_zero rid \<and> rid \<notin> set (map r_id (v_records v)) \<and> (rid = rid0 \<or> id_is_zero rid0 \<and> rid \<in> set ds)"
  by (auto simp: record_id_def pv_model_find_id_None split: if_splits dest: draw_id_Some)

lemma record_view_grows:
  assumes "arena_grows a b" "below (unat (arena_used a)) (record_regions r)"
  shows "record_view b r = record_view a r"
proof -
  have f: "map (map_field (slice_view b)) fs = map (map_field (slice_view a)) fs"
    if "below (unat (arena_used a)) (concat (map field_regions fs))" for fs
    using that by (induction fs) (simp_all add: field_view_grows [OF assms(1)])
  show ?thesis
    using assms f [of "r_fields r"]
    by (simp add: record_view_def map_record_def record_regions_eq slice_view_grows slices_view_grows)
qed

lemma vault_view_grows:
  assumes "arena_grows a b" "below (unat (arena_used a)) (concat (map record_regions rs))"
  shows "map (record_view b) rs = map (record_view a) rs"
  using assms by (induction rs) (simp_all add: record_view_grows)

lemma pv_size_mul_Some:
  "pv_size_mul x y = Some z \<Longrightarrow> unat z = unat x * unat y"
  using mul_guard [of x y] by (auto simp: pv_size_mul_def unat_word_ariths split: if_splits)

lemma ensure_record_capacity_laws:
  assumes ok: "layout_ok v" and run: "ensure_record_capacity v = (r, v')"
  shows "\<exists>a cap. v' = v\<lparr>v_arena := a, v_record_capacity := cap\<rparr> \<and> arena_ok a \<and>
    arena_grows (v_arena v) a \<and> unat (v_record_capacity v) \<le> unat cap \<and>
    160 * unat cap \<le> unat (arena_used a) \<and> (r = Inr () \<longrightarrow> length (v_records v) < unat cap)"
proof (cases "v' = v")
  case True
  with run ok show ?thesis
    by (intro exI [of _ "v_arena v"] exI [of _ "v_record_capacity v"])
      (auto simp: ensure_record_capacity_def layout_ok_def arena_grows_refl Let_def
        split: if_splits option.splits dest: arg_cong [where f = v_record_capacity])
next
  case False
  then obtain bytes off a where
    full: "\<not> length (v_records v) < unat (v_record_capacity v)"
    and cap: "\<not> v_record_capacity v \<ge> SIZE_MAX div 2"
    and bytes: "pv_size_mul (v_record_capacity v * 2) sizeof_record = Some bytes"
    and al: "pv_arena_alloc (v_arena v) bytes 8 = Some (off, a)"
    and v': "v' = v\<lparr>v_arena := a, v_record_capacity := v_record_capacity v * 2\<rparr>"
    using run by (auto simp: ensure_record_capacity_def Let_def split: if_splits option.splits)
  have "unat (SIZE_MAX div 2 :: size_t) = (2 ^ 64 - 1) div 2"
    by (subst unat_div) (simp add: unat_max64)
  then have "2 * unat (v_record_capacity v) < 2 ^ 64"
    using cap by (simp add: not_le word_less_nat_alt)
  then have "unat (v_record_capacity v * 2) = 2 * unat (v_record_capacity v)"
    by (simp add: unat_word_ariths mult.commute)
  moreover have "unat bytes = unat (v_record_capacity v * 2) * 160"
    using pv_size_mul_Some bytes by fastforce
  ultimately show ?thesis
    using pv_arena_alloc_laws(1,2,4) [OF al] v' ok full
    by (intro exI [of _ a] exI [of _ "v_record_capacity v * 2"]) (auto simp: layout_ok_def)
qed

section \<open>Insertion\<close>

lemma make_writable:
  assumes "(if arena_readonly a then pv_arena_set_readwrite mp a else (Inr (), a)) = (r, b)"
  shows "b = a\<lparr>arena_readonly := arena_readonly b\<rparr>" "r = Inr () \<Longrightarrow> \<not> arena_readonly b"
    and "arena_grows a b" "arena_ok b \<longleftrightarrow> arena_ok a"
proof -
  have b: "b = a \<or> b = a\<lparr>arena_readonly := False\<rparr>"
    using assms by (auto simp: pv_arena_set_readwrite_def split: if_splits)
  then show "b = a\<lparr>arena_readonly := arena_readonly b\<rparr>" "arena_ok b \<longleftrightarrow> arena_ok a" by auto
  show "arena_grows a b" using b by (auto simp: arena_grows_def arena_byte_def)
  show "r = Inr () \<Longrightarrow> \<not> arena_readonly b"
    using assms by (auto simp: pv_arena_set_readwrite_def split: if_splits)
qed

text \<open>The two ways an insertion ends.\<close>

lemma add_record_cases:
  assumes ok: "layout_ok v" and run: "pv_model_add_record mp now draws src v = Some (res, v')"
  obtains
    (failed) e a cap where "res = Inl e" "v' = v\<lparr>v_arena := a, v_record_capacity := cap\<rparr>"
      "arena_ok a" "arena_grows (v_arena v) a" "unat (v_record_capacity v) \<le> unat cap"
      "160 * unat cap \<le> unat (arena_used a)"
  | (added) a cap rid r where "res = Inr (length (v_records v))"
      "v' = v\<lparr>v_arena := a, v_record_capacity := cap, v_records := v_records v @ [r],
              v_dirty := True, v_updated_ms := now\<rparr>"
      "arena_ok a" "arena_grows (v_arena v) a" "length (v_records v) < unat cap"
      "laid_out (unat (arena_used (v_arena v))) (record_regions r) (unat (arena_used a))"
      "record_view a r = stored_record rid now (map_record slice_bytes src)"
      "validate_record_fields src = PV_OK" "\<not> id_is_zero rid" "rid \<notin> set (map r_id (v_records v))"
      "rid = r_id src \<or> id_is_zero (r_id src) \<and> rid \<in> set draws"
      "r_revision src = 0 \<or> \<not> id_is_zero (r_id src)" "160 * unat cap \<le> unat (arena_used a)"
proof -
  consider (early) e where "res = Inl e" "v' = v" | (go)
    "validate_record_fields src = PV_OK" "r_revision src = 0 \<or> \<not> id_is_zero (r_id src)"
    using run by (auto simp: pv_model_add_record_def split: if_splits)
  then show thesis
  proof cases
    case early
    have "v = v\<lparr>v_arena := v_arena v, v_record_capacity := v_record_capacity v\<rparr>" by simp
    with early ok failed [where e = e and a = "v_arena v" and cap = "v_record_capacity v"] show thesis
      by (simp add: layout_ok_def arena_grows_refl)
  next
    case go
    obtain r0 a0 where w: "(if arena_readonly (v_arena v) then pv_arena_set_readwrite mp (v_arena v)
        else (Inr (), v_arena v)) = (r0, a0)" by fastforce
    note mw = make_writable [OF w]
    have nz: "\<not> (r_revision src \<noteq> 0 \<and> id_is_zero (r_id src))" using go(2) by blast
    note step = assms(2) [unfolded pv_model_add_record_def w, unfolded if_not_P [OF nz]]
    have ok0: "layout_ok (v\<lparr>v_arena := a0\<rparr>)"
      using ok mw by (simp add: layout_ok_def vault_regions_def) (metis pv_arena.select_convs(1,3)
          pv_arena.surjective pv_arena.update_convs(4))
    obtain r1 v1 where ens: "ensure_record_capacity (v\<lparr>v_arena := a0\<rparr>) = (r1, v1)" by fastforce
    from ensure_record_capacity_laws [OF ok0 ens] obtain a1 cap where
      v1: "v1 = v\<lparr>v_arena := a1, v_record_capacity := cap\<rparr>" and a1: "arena_ok a1" "arena_grows a0 a1"
      and cap: "unat (v_record_capacity v) \<le> unat cap" "r1 = Inr () \<longrightarrow> length (v_records v) < unat cap"
        "160 * unat cap \<le> unat (arena_used a1)"
      by auto
    have g1: "arena_grows (v_arena v) a1" by (rule arena_grows_trans [OF mw(3) a1(2)])
    consider (readonly) e where "r0 = Inl e" | (full) e where "r0 = Inr ()" "r1 = Inl e"
      | (run) "r0 = Inr ()" "r1 = Inr ()" by (cases r0; cases r1) auto
    then show thesis
    proof cases
      case readonly
      with step go(1) have "res = Inl e" "v' = v\<lparr>v_arena := a0\<rparr>" by simp_all
      with mw(3,4) ok arena_grows_mark [OF mw(3)] show thesis
        by (intro failed [where e = e and a = a0 and cap = "v_record_capacity v"])
          (simp_all add: layout_ok_def)
    next
      case full
      with step go(1) ens v1 a1 g1 cap failed [where e = e and a = a1 and cap = cap] show thesis
        by simp
    next
      case run: run
      obtain q where q: "record_id draws (r_id src) v1 = Some q"
        using step go(1) run ens by (auto split: option.splits)
      show thesis
      proof (cases q)
        case (Inl e)
        with step go(1) run ens q v1 a1 g1 cap failed [where e = e and a = a1 and cap = cap] show thesis by simp
      next
        case (Inr rid)
        obtain r2 a2 where cp: "copy_record src rid now a1 = (r2, a2)" by fastforce
        note c = copy_record_copied [OF a1(1) cp]
        have g2: "arena_grows (v_arena v) a2" by (rule arena_grows_trans [OF g1 copiedD(2) [OF c]])
        show thesis
        proof (cases r2)
          case e: (Inl e)
          with step go(1) run ens q Inr cp v1 have "res = Inl e" "v' = v1\<lparr>v_arena := a2\<rparr>"
            by simp_all
          with v1 copiedD(1) [OF c] g2 cap arena_grows_mark [OF copiedD(2) [OF c]] show thesis
            by (intro failed [where e = e and a = a2 and cap = cap]) simp_all
        next
          case r: (Inr r)
          with step go(1) run ens q Inr cp v1 have fin: "res = Inr (length (v_records v))"
            "v' = v1\<lparr>v_arena := a2, v_records := v_records v @ [r], v_dirty := True,
                     v_updated_ms := now\<rparr>"
            by simp_all
          have "laid_out (unat (arena_used (v_arena v))) (record_regions r) (unat (arena_used a2))"
            using laid_out_weaken [OF copiedD(3) [OF c r] arena_grows_mark [OF g1] order_refl] .
          with fin v1 go copiedD(1,4) [OF c] g2 cap r run record_id_Inr [OF q [unfolded Inr]]
            arena_grows_mark [OF copiedD(2) [OF c]]
          show thesis
            by (intro added [where a = a2 and cap = cap and r = r and rid = rid]) simp_all
        qed
      qed
    qed
  qed
qed


lemma vault_view_added:
  assumes ok: "layout_ok v" and g: "arena_grows (v_arena v) a"
  shows "map (record_view a) (v_records v) = vault_view v"
  unfolding vault_view_def
  by (rule vault_view_grows [OF g]) (use ok in \<open>simp add: layout_ok_def vault_regions_def\<close>)

lemma layout_ok_grow:
  assumes ok: "layout_ok v" and "arena_ok a" "arena_grows (v_arena v) a"
    and "length (v_records v) \<le> unat cap" "0 < unat cap" "160 * unat cap \<le> unat (arena_used a)"
    and v': "v_arena v' = a" "v_record_capacity v' = cap" "v_records v' = v_records v"
  shows "layout_ok v'"
proof -
  have "below (unat (arena_used a)) (vault_regions v)"
    using ok below_mono arena_grows_mark [OF assms(3)] by (auto simp: layout_ok_def)
  moreover have "vault_regions v' = vault_regions v" by (simp add: vault_regions_def v')
  ultimately show ?thesis using assms by (simp add: layout_ok_def arena_grows_def)
qed

lemma layout_ok_append:
  assumes ok: "layout_ok v" and "arena_ok a" "arena_grows (v_arena v) a"
    and lay: "laid_out (unat (arena_used (v_arena v))) (record_regions r) (unat (arena_used a))"
    and "length (v_records v) < unat cap" "160 * unat cap \<le> unat (arena_used a)"
    and v': "v_arena v' = a" "v_record_capacity v' = cap" "v_records v' = v_records v @ [r]"
  shows "layout_ok v'"
proof -
  have regs: "vault_regions v' = vault_regions v @ record_regions r"
    by (simp add: vault_regions_def v')
  have "below (unat (arena_used a)) (vault_regions v)"
    using ok below_mono arena_grows_mark [OF assms(3)] by (auto simp: layout_ok_def)
  moreover have "sorted_wrt apart (vault_regions v')"
    unfolding regs using ok lay by (intro below_laid_out_apart) (simp_all add: layout_ok_def)
  ultimately show ?thesis
    using assms laid_out_below [OF lay] by (auto simp: layout_ok_def arena_grows_def regs)
qed

lemma stored_record_wf:
  assumes "record_wf r" "0 \<le> sint now" "length rid = PV_RECORD_ID_BYTES" "\<not> id_is_zero rid"
  shows "stored_wf (stored_record rid now r)"
  using assms by (simp add: stored_wf_def stored_record_def record_wf_def)

lemma vault_view_ids: "map r_id (vault_view v) = map r_id (v_records v)"
  by (simp add: vault_view_def record_view_def comp_def)

lemma pv_model_add_record_laws:
  assumes ok: "vault_ok v" and id: "length (r_id src) = PV_RECORD_ID_BYTES"
    and draws: "list_all (\<lambda>d. length d = PV_RECORD_ID_BYTES) draws" and now: "0 \<le> sint now"
    and run: "pv_model_add_record mp now draws src v = Some (res, v')"
  shows "vault_ok v' \<and>
    (case res of
       Inl e \<Rightarrow> vault_view v' = vault_view v \<and> v_dirty v' = v_dirty v \<and> v_updated_ms v' = v_updated_ms v
     | Inr i \<Rightarrow> i = length (vault_view v) \<and> v_dirty v' \<and> v_updated_ms v' = now \<and>
         (\<exists>rid. rid \<notin> set (map r_id (vault_view v)) \<and>
            (rid = r_id src \<or> id_is_zero (r_id src) \<and> rid \<in> set draws) \<and>
            vault_view v' = vault_view v @ [stored_record rid now (map_record slice_bytes src)]))"
proof -
  have lay: "layout_ok v" using ok by (simp add: vault_ok_def)
  from lay run show ?thesis
  proof (cases rule: add_record_cases)
    case (failed e a cap)
    have view: "vault_view v' = vault_view v"
      using vault_view_added [OF lay failed(4)] by (simp add: failed(2) vault_view_def)
    have "layout_ok v'"
      using failed lay by (intro layout_ok_grow [OF lay failed(3,4)]) (auto simp: layout_ok_def)
    with ok view show ?thesis by (simp add: vault_ok_def failed(1,2))
  next
    case (added a cap rid r)
    have view: "vault_view v' = vault_view v @ [stored_record rid now (map_record slice_bytes src)]"
      using vault_view_added [OF lay added(4)] added(7) by (simp add: added(2) vault_view_def)
    have "layout_ok v'"
      using added by (intro layout_ok_append [OF lay added(3,4,6)]) auto
    moreover have "stored_wf (stored_record rid now (map_record slice_bytes src))"
      using added(8,9,11) id draws now
      by (intro stored_record_wf) (auto simp: validate_record_fields_iff list_all_iff)
    moreover have "r_id r = rid"
      using arg_cong [OF added(7), of r_id] by (simp add: record_view_def stored_record_def)
    moreover have "vault_ok v' \<longleftrightarrow> layout_ok v' \<and>
        list_all stored_wf (vault_view v') \<and> distinct (map r_id (v_records v @ [r]))"
      by (simp add: vault_ok_def added(2))
    ultimately have "vault_ok v'" using ok view added(10) by (simp add: vault_ok_def)
    moreover have "rid \<notin> set (map r_id (vault_view v))" using added(10) by (simp only: vault_view_ids not_False_eq_True)
    ultimately show ?thesis
      using view added(1,2,11) by (simp add: vault_view_def) blast
  qed
qed

lemma pv_model_init_laws:
  assumes "pv_model_init arena_mem vmk_mem path = Inr v"
  shows "vault_ok v" "vault_view v = []" "\<not> arena_readonly (v_arena v)" "v_path v = path"
    and "v_vmk v = Some (replicate 32 0)" "\<not> v_dirty v" "v_records v = []"
proof -
  obtain a off a1 where a: "pv_arena_init arena_mem (word_of_nat PV_MAX_PLAINTEXT) = Inr a"
    and al: "pv_arena_alloc a (PV_INITIAL_RECORD_CAPACITY * sizeof_record) 8 = Some (off, a1)"
    and v: "v = vault_zero
      \<lparr>v_arena := a1, v_vmk := Some (replicate PV_WRAP_KEY_BYTES 0),
       v_record_capacity := PV_INITIAL_RECORD_CAPACITY, v_path := path\<rparr>"
    using assms by (auto simp: pv_model_init_def split: if_splits sum.splits alloc.splits option.splits)
  have "arena_ok a1" using pv_arena_alloc_laws(4) [OF al arena_ok_init [OF a]] .
  moreover have "arena_base a1 \<noteq> None" "\<not> arena_readonly a1"
    using pv_arena_alloc_Some(6,7) [OF al] by auto
  moreover have "2560 \<le> unat (arena_used a1)" using pv_arena_alloc_laws(1) [OF al] by simp
  ultimately show "vault_ok v" "vault_view v = []" "\<not> arena_readonly (v_arena v)" "v_path v = path"
    "v_vmk v = Some (replicate 32 0)" "\<not> v_dirty v" "v_records v = []"
    by (simp_all add: v vault_ok_def layout_ok_def vault_regions_def vault_zero_def vault_view_def)
qed

text \<open>
  C5. Inserting a record implements appending to the list of records. On success the list is
  the old one followed by exactly the record passed in, under a fresh identifier (its own, or one
  drawn at random when it had none), with revision and times filled in for a new record. On
  failure, at whatever point, the records are as before. The invariant of the vault is kept
  either way: texts in disjoint memory, every record valid, identifiers distinct and not zero.
\<close>

theorem pv_model_add_record_refines:
  assumes "vault_ok v" and "length (r_id src) = PV_RECORD_ID_BYTES"
    and "list_all (\<lambda>d. length d = PV_RECORD_ID_BYTES) draws" and "0 \<le> sint now"
    and "pv_model_add_record mp now draws src v = Some (res, v')"
  shows "vault_ok v' \<and>
    (case res of
       Inl e \<Rightarrow> vault_view v' = vault_view v \<and> v_dirty v' = v_dirty v \<and> v_updated_ms v' = v_updated_ms v
     | Inr i \<Rightarrow> i = length (vault_view v) \<and> v_dirty v' \<and> v_updated_ms v' = now \<and>
         (\<exists>rid. rid \<notin> set (map r_id (vault_view v)) \<and>
            (rid = r_id src \<or> id_is_zero (r_id src) \<and> rid \<in> set draws) \<and>
            vault_view v' = vault_view v @ [stored_record rid now (map_record slice_bytes src)]))"
  by (rule pv_model_add_record_laws [OF assms])

definition sample_record :: "pv_slice pv_record" where
  "sample_record =
     \<lparr>r_id = replicate 16 0, r_revision = 0, r_created_ms = 0, r_updated_ms = 0, r_flags = 2,
      r_title = Bytes (ascii ''m''), r_username = Null 0, r_password = Bytes [0xff],
      r_notes = Null 0, r_urls = [Null 0], r_tags = [], r_fields = []\<rparr>"

definition sample_vault :: pv_vault where
  "sample_vault =
     (case pv_model_init Alloc_ok Alloc_ok (ascii ''/v'') of Inr v \<Rightarrow> v | Inl e \<Rightarrow> vault_zero)"

lemma sample_vault_init: "pv_model_init Alloc_ok Alloc_ok (ascii ''/v'') = Inr sample_vault"
proof -
  have "(case pv_model_init Alloc_ok Alloc_ok (ascii ''/v'') of Inr v \<Rightarrow> True | Inl e \<Rightarrow> False)"
    by code_simp
  then show ?thesis by (auto simp: sample_vault_def split: sum.splits)
qed

theorem pv_model_add_record_refines_witness:
  "\<exists>v'. pv_model_add_record True 1000 [replicate 16 0, replicate 16 7] sample_record sample_vault =
       Some (Inr 0, v') \<and> vault_ok v' \<and>
     vault_view v' = [stored_record (replicate 16 7) 1000 (map_record slice_bytes sample_record)]"
proof -
  let ?run = "pv_model_add_record True 1000 [replicate 16 0, replicate 16 7] sample_record sample_vault"
  have "map_option fst ?run = Some (Inr 0)" by code_simp
  then obtain v' where run: "?run = Some (Inr 0, v')" by auto
  have z: "id_is_zero (replicate 16 0)" "r_id sample_record = replicate 16 0"
    by (simp_all add: id_is_zero_iff list_all_iff sample_record_def)
  note init = pv_model_init_laws [OF sample_vault_init]
  have "vault_ok v' \<and> (\<exists>rid. rid \<in> {replicate 16 0, replicate 16 7} \<and>
      vault_view v' = [stored_record rid 1000 (map_record slice_bytes sample_record)])"
    using pv_model_add_record_refines [OF init(1) _ _ _ run] init(2) z by auto
  then obtain rid where v': "vault_ok v'" "rid \<in> {replicate 16 0, replicate 16 7}"
    "vault_view v' = [stored_record rid 1000 (map_record slice_bytes sample_record)]" by blast
  have "\<not> id_is_zero rid" using v'(1,3) by (simp add: vault_ok_def stored_wf_def stored_record_def)
  with z v' run show ?thesis by auto
qed

lemma draw_id_None:
  "draw_id v ds = None \<Longrightarrow> d \<in> set ds \<Longrightarrow> id_is_zero d \<or> d \<in> set (map r_id (v_records v))"
  by (induction ds) (use pv_model_find_id_None in \<open>fastforce split: if_splits\<close>)+

lemma draw_id_enough:
  assumes "distinct ds" "list_all (\<lambda>d. \<not> id_is_zero d) ds" "length (v_records v) < length ds"
  shows "draw_id v ds \<noteq> None"
proof
  assume "draw_id v ds = None"
  then have "set ds \<subseteq> set (map r_id (v_records v))"
    using assms(2) draw_id_None [of v ds] unfolding list_all_iff by blast
  then have "card (set ds) \<le> card (set (map r_id (v_records v)))" by (intro card_mono) simp_all
  also have "\<dots> \<le> length (v_records v)" by (metis card_length length_map)
  finally show False using assms(1,3) by (simp add: distinct_card)
qed

lemma record_id_returns:
  "\<not> id_is_zero rid \<or> draw_id v ds \<noteq> None \<Longrightarrow> record_id ds rid v \<noteq> None"
  by (auto simp: record_id_def)

lemma ensure_record_capacity_records: "ensure_record_capacity v = (r, v') \<Longrightarrow> v_records v' = v_records v"
  by (auto simp: ensure_record_capacity_def Let_def split: if_splits option.splits)

lemma draw_id_cong: "v_records v = v_records w \<Longrightarrow> draw_id v ds = draw_id w ds"
  by (induction ds) (simp_all add: pv_model_find_id_def)

lemma add_record_returns:
  assumes "\<not> id_is_zero (r_id src) \<or> draw_id v draws \<noteq> None"
  shows "pv_model_add_record mp now draws src v \<noteq> None"
proof -
  obtain r0 a0 where w: "(if arena_readonly (v_arena v) then pv_arena_set_readwrite mp (v_arena v)
      else (Inr (), v_arena v)) = (r0, a0)" by fastforce
  obtain r1 v1 where ens: "ensure_record_capacity (v\<lparr>v_arena := a0\<rparr>) = (r1, v1)" by fastforce
  have "record_id draws (r_id src) v1 \<noteq> None"
    using assms ensure_record_capacity_records [OF ens] draw_id_cong [of v1 v draws]
    by (intro record_id_returns) auto
  then obtain q where q: "record_id draws (r_id src) v1 = Some q" by blast
  obtain r2 a2 where cp: "copy_record src (projr q) now (v_arena v1) = (r2, a2)" by fastforce
  show ?thesis
    unfolding pv_model_add_record_def w using ens q cp
    by (cases r0; cases r1; cases q; cases r2) simp_all
qed

text \<open>
  C34. The search for a random identifier ends: insertion returns as soon as the generator has
  delivered more distinct non-zero blocks than the vault has records, and a record that brings its
  own identifier needs none at all.
\<close>

theorem pv_model_add_record_returns:
  assumes "\<not> id_is_zero (r_id src) \<or>
    distinct draws \<and> list_all (\<lambda>d. \<not> id_is_zero d) draws \<and> length (v_records v) < length draws"
  shows "\<exists>res v'. pv_model_add_record mp now draws src v = Some (res, v')"
  using add_record_returns [of src v draws mp now] draw_id_enough [of draws v] assms by auto

theorem pv_model_add_record_returns_witness:
  "\<exists>res v'. pv_model_add_record True 5 [replicate 16 7] sample_record sample_vault = Some (res, v')"
  using pv_model_init_laws(7) [OF sample_vault_init]
  by (intro pv_model_add_record_returns) (simp add: id_is_zero_iff list_all_iff)

section \<open>Search\<close>

text \<open>
  Looking a record up by identifier returns an index exactly when some record has that
  identifier, and in a well-formed vault it is the only one.
\<close>

lemma pv_model_find_id_spec:
  assumes "vault_ok v"
  shows "pv_model_find_id v rid = Some i \<longleftrightarrow> i < length (v_records v) \<and> r_id (v_records v ! i) = rid"
proof
  show "pv_model_find_id v rid = Some i" if i: "i < length (v_records v) \<and> r_id (v_records v ! i) = rid"
  proof (cases "pv_model_find_id v rid")
    case None
    with i show ?thesis unfolding pv_model_find_id_None by auto
  next
    case (Some j)
    with find_id_from_Some [of 0 rid "v_records v" j]
    have "j < length (v_records v)" "r_id (v_records v ! j) = rid" by (simp_all add: pv_model_find_id_def)
    moreover have "distinct (map r_id (v_records v))" using assms by (simp add: vault_ok_def)
    ultimately have "j = i" using i by (metis length_map nth_eq_iff_index_eq nth_map)
    with Some show ?thesis by simp
  qed
qed (auto simp: pv_model_find_id_def dest!: find_id_from_Some)

lemma pv_model_find_id_spec_witness:
  "pv_model_find_id sample_vault (replicate 16 7) = Some 0 \<longleftrightarrow>
     0 < length (v_records sample_vault) \<and> r_id (v_records sample_vault ! 0) = replicate 16 7"
  by (rule pv_model_find_id_spec [OF pv_model_init_laws(1) [OF sample_vault_init]])

definition live_match :: "byte list \<Rightarrow> pv_slice pv_record \<Rightarrow> bool" where
  "live_match query r \<longleftrightarrow> r_flags r AND PV_RECORD_DELETED = 0 \<and> record_matches r query"

lemma find_from_spec:
  "find_from i query rs first count =
     (if first \<noteq> None then first
      else map_option (\<lambda>j. i + j) (List.find (\<lambda>j. live_match query (rs ! j)) [0..<length rs]),
      count + length (filter (live_match query) rs))"
proof (induction i query rs first count rule: find_from.induct)
  case (2 i query r rs first count)
  have shift: "List.find P [0..<Suc n] =
      (if P 0 then Some 0 else map_option Suc (List.find (\<lambda>j. P (Suc j)) [0..<n]))" for P n
  proof -
    have "List.find P (map Suc xs) = map_option Suc (List.find (\<lambda>j. P (Suc j)) xs)" for xs
      by (induction xs) auto
    moreover have "[0..<Suc n] = 0 # map Suc [0..<n]" by (simp add: upt_conv_Cons map_Suc_upt)
    ultimately show ?thesis by simp
  qed
  show ?case
  proof (cases "live_match query r")
    case True
    then have "\<not> (r_flags r AND PV_RECORD_DELETED \<noteq> 0 \<or> \<not> record_matches r query)"
      by (simp add: live_match_def)
    with 2 True shift show ?thesis by (cases first) simp_all
  next
    case False
    then have "r_flags r AND PV_RECORD_DELETED \<noteq> 0 \<or> \<not> record_matches r query"
      by (simp add: live_match_def)
    moreover have "(\<lambda>x. Suc (i + x)) = (+) (Suc i)" by auto
    ultimately show ?thesis
      using 2 False shift by (cases first) (simp_all add: option.map_comp comp_def)
  qed
qed simp

lemma map_option_plus_0: "map_option ((+) (0::nat)) x = x"
  by (cases x) simp_all



text \<open>
  C36. When the query is the hexadecimal identifier of a deleted record, the search returns that
  deleted record, whatever else matches, together with the number of live matches: the pointer
  found first is not reset. With exactly one live match the caller takes the deleted record for
  the unique answer.
\<close>

theorem pv_model_find_deleted:
  assumes "pv_hex_decode query PV_RECORD_ID_BYTES = Some rid" and "pv_model_find_id v rid = Some i"
    and "r_flags (v_records v ! i) AND PV_RECORD_DELETED \<noteq> 0"
  shows "pv_model_find v query = (Some i, length (filter (live_match query) (vault_records v)))"
proof -
  have "query \<noteq> []" using assms(1) by (auto simp: pv_hex_decode_def)
  with assms show ?thesis by (simp add: pv_model_find_def find_from_spec)
qed

definition bug_record :: "byte \<Rightarrow> u32 \<Rightarrow> aslice pv_record" where
  "bug_record b fl =
     \<lparr>r_id = replicate 16 b, r_revision = 1, r_created_ms = 0, r_updated_ms = 0, r_flags = fl,
      r_title = ASlice 0 32, r_username = ANull, r_password = ANull, r_notes = ANull, r_urls = [],
      r_tags = [], r_fields = []\<rparr>"

definition bug_vault :: pv_vault where
  "bug_vault = vault_zero
     \<lparr>v_arena := arena_zero\<lparr>arena_base := Some (\<lambda>i. 0x31), arena_used := 64, arena_capacity := 64\<rparr>,
      v_records := [bug_record 0x11 1, bug_record 0x22 0], v_record_capacity := 16\<rparr>"

theorem pv_model_find_deleted_witness:
  "pv_model_find bug_vault (replicate 32 0x31) = (Some 0, 1) \<and>
   r_flags (v_records bug_vault ! 0) AND PV_RECORD_DELETED \<noteq> 0"
proof -
  have hex: "pv_hex_decode (replicate 32 0x31) PV_RECORD_ID_BYTES = Some (replicate 16 0x11)"
    by code_simp
  have id: "pv_model_find_id bug_vault (replicate 16 0x11) = Some 0" by code_simp
  have del: "r_flags (v_records bug_vault ! 0) AND PV_RECORD_DELETED \<noteq> 0" by code_simp
  have "length (filter (live_match (replicate 32 0x31)) (vault_records bug_vault)) = 1" by code_simp
  with pv_model_find_deleted [OF hex id del] del show ?thesis by simp
qed

section \<open>Deletion\<close>

definition covered :: "(nat \<times> nat) list \<Rightarrow> nat \<Rightarrow> bool" where
  "covered rs i \<longleftrightarrow> list_ex (\<lambda>(off, len). off \<le> i \<and> i < off + len) rs"

definition secret_regions :: "aslice pv_record \<Rightarrow> (nat \<times> nat) list" where
  "secret_regions r = concat (map slice_regions (secret_slices r))"

lemma record_regions_split: "record_regions r = slice_regions (r_title r) @ secret_regions r"
  by (simp add: record_regions_def record_slices_def secret_regions_def)

lemma covered_append [simp]: "covered (rs @ rs') i \<longleftrightarrow> covered rs i \<or> covered rs' i"
  and covered_Nil [simp]: "\<not> covered [] i"
  by (simp_all add: covered_def)

lemma covered_apart:
  assumes "sorted_wrt apart (rs @ rs')" "covered rs i"
  shows "\<not> covered rs' i"
  using assms by (fastforce simp: sorted_wrt_append covered_def list_ex_iff apart_def)

lemma slice_view_cong:
  "(\<And>i. covered (slice_regions s) i \<Longrightarrow> arena_byte b i = arena_byte a i) \<Longrightarrow> slice_view b s = slice_view a s"
  by (cases s) (auto simp: slice_view_def covered_def)

lemma map_field_cong: "g (f_name f) = h (f_name f) \<Longrightarrow> g (f_value f) = h (f_value f) \<Longrightarrow> map_field g f = map_field h f"
  by (simp add: map_field_def)

lemma map_record_cong:
  "(\<And>s. s \<in> set (record_slices r) \<Longrightarrow> g s = h s) \<Longrightarrow> map_record g r = map_record h r"
  by (auto simp: map_record_def record_slices_def secret_slices_def intro!: map_field_cong)

lemma record_view_cong:
  assumes "\<And>i. covered (record_regions r) i \<Longrightarrow> arena_byte b i = arena_byte a i"
  shows "record_view b r = record_view a r"
  unfolding record_view_def
proof (rule map_record_cong, rule slice_view_cong)
  fix s i
  assume "s \<in> set (record_slices r)" "covered (slice_regions s) i"
  then have "covered (record_regions r) i"
    by (auto simp: record_regions_def covered_def list_ex_iff)
  then show "arena_byte b i = arena_byte a i" by (rule assms)
qed

lemma erase_slice_byte:
  "arena_byte (erase_slice s a) i = (if covered (slice_regions s) i then 0 else arena_byte a i)"
  by (cases s) (auto simp: covered_def arena_byte_def memzero_def split: option.split)

lemma erase_slices_byte:
  "arena_byte (fold erase_slice ss a) i =
     (if covered (concat (map slice_regions ss)) i then 0 else arena_byte a i)"
  by (induction ss arbitrary: a) (auto simp: erase_slice_byte)

lemma erase_slices_fields [simp]:
  "arena_used (fold erase_slice ss a) = arena_used a"
  "arena_capacity (fold erase_slice ss a) = arena_capacity a"
  "arena_readonly (fold erase_slice ss a) = arena_readonly a"
  "arena_base (fold erase_slice ss a) = None \<longleftrightarrow> arena_base a = None"
proof -
  have "arena_used (erase_slice s a) = arena_used a \<and> arena_capacity (erase_slice s a) = arena_capacity a \<and>
      arena_readonly (erase_slice s a) = arena_readonly a \<and>
      (arena_base (erase_slice s a) = None \<longleftrightarrow> arena_base a = None)" for s a
    by (cases s) simp_all
  then show "arena_used (fold erase_slice ss a) = arena_used a"
    "arena_capacity (fold erase_slice ss a) = arena_capacity a"
    "arena_readonly (fold erase_slice ss a) = arena_readonly a"
    "arena_base (fold erase_slice ss a) = None \<longleftrightarrow> arena_base a = None"
    by (induction ss arbitrary: a) simp_all
qed

lemma arena_ok_erase: "arena_ok a \<Longrightarrow> arena_ok (fold erase_slice ss a)"
  by (simp add: arena_ok_def erase_slices_byte)

text \<open>Deletion on the records as the user sees them.\<close>

definition delete_view :: "i64 \<Rightarrow> byte list pv_record \<Rightarrow> byte list pv_record" where
  "delete_view now r =
     r\<lparr>r_username := [], r_password := [], r_notes := [], r_urls := [], r_tags := [],
       r_fields := [], r_flags := r_flags r OR PV_RECORD_DELETED, r_revision := r_revision r + 1,
       r_updated_ms := now\<rparr>"

lemma delete_flags:
  fixes f :: u32
  assumes "f AND NOT (PV_RECORD_DELETED OR PV_RECORD_FAVORITE) = 0"
  shows "(f OR PV_RECORD_DELETED) AND NOT (PV_RECORD_DELETED OR PV_RECORD_FAVORITE) = 0"
  using assms by (auto simp: bit_eq_iff bit_simps)

lemma delete_view_wf:
  assumes "stored_wf r" "r_revision r \<noteq> UINT64_MAX" "0 \<le> sint now"
  shows "stored_wf (delete_view now r)"
proof -
  have "r_revision r + 1 \<noteq> 0"
    using assms(2) by (metis add.commute add_eq_0_iff)
  with assms delete_flags [of "r_flags r"] show ?thesis
    by (simp add: stored_wf_def record_wf_def delete_view_def text_wf_def)
qed

lemma sublist_apart: "sorted_wrt apart (xs @ ys @ zs) \<Longrightarrow> sorted_wrt apart (xs @ zs)"
  by (auto simp: sorted_wrt_append)

lemma erase_other_view:
  assumes apart: "sorted_wrt apart (concat (map record_regions rs))" and i: "i < length rs"
    and j: "j < length rs" "j \<noteq> i"
  shows "record_view (fold erase_slice (secret_slices (rs ! i)) a) (rs ! j) = record_view a (rs ! j)"
proof (rule record_view_cong)
  fix k
  assume c: "covered (record_regions (rs ! j)) k"
  have split: "rs = take n rs @ rs ! n # drop (Suc n) rs" if "n < length rs" for n
    using that by (rule id_take_nth_drop)
  have "\<not> covered (record_regions (rs ! i)) k"
  proof (cases "j < i")
    case True
    then have "rs ! j \<in> set (take i rs)" using j i by (metis in_set_conv_nth length_take min.absorb4 nth_take)
    then have "covered (concat (map record_regions (take i rs))) k"
      using c by (auto simp: covered_def list_ex_iff)
    moreover have "sorted_wrt apart (concat (map record_regions (take i rs)) @
        record_regions (rs ! i) @ concat (map record_regions (drop (Suc i) rs)))"
      using apart by (subst (asm) split [OF i]) simp
    ultimately show ?thesis using covered_apart by fastforce
  next
    case False
    then have "i < j" using j by simp
    then have "rs ! i \<in> set (take j rs)" using j i by (metis in_set_conv_nth length_take min.absorb4 nth_take)
    then have sub: "covered (record_regions (rs ! i)) k \<Longrightarrow> covered (concat (map record_regions (take j rs))) k"
      by (auto simp: covered_def list_ex_iff)
    moreover have "sorted_wrt apart (concat (map record_regions (take j rs)) @
        record_regions (rs ! j) @ concat (map record_regions (drop (Suc j) rs)))"
      using apart by (subst (asm) split [OF j(1)]) simp
    ultimately show ?thesis using covered_apart c by fastforce
  qed
  then show "arena_byte (fold erase_slice (secret_slices (rs ! i)) a) k = arena_byte a k"
    by (simp add: erase_slices_byte record_regions_split secret_regions_def)
qed

lemma record_apart:
  assumes "sorted_wrt apart (concat (map record_regions rs))" "r \<in> set rs"
  shows "sorted_wrt apart (record_regions r)"
  using assms by (induction rs) (auto simp: sorted_wrt_append)

lemma erase_own_view:
  assumes "sorted_wrt apart (record_regions r)"
  shows "record_view (fold erase_slice (secret_slices r) a) (deleted_record now r) =
    delete_view now (record_view a r)"
proof -
  have "slice_view (fold erase_slice (secret_slices r) a) (r_title r) = slice_view a (r_title r)"
    using covered_apart [OF assms [unfolded record_regions_split]]
    by (intro slice_view_cong) (auto simp: erase_slices_byte secret_regions_def)
  then show ?thesis
    by (simp add: record_view_def map_record_def deleted_record_def delete_view_def slice_view_def)
qed

lemma erase_zero_view:
  assumes "s \<in> set (secret_slices r)"
  shows "list_all (\<lambda>b. b = 0) (slice_view (fold erase_slice (secret_slices r) a) s)"
proof (cases s)
  case (ASlice off len)
  have "covered (concat (map slice_regions (secret_slices r))) k" if "off \<le> k" "k < off + len" for k
    using assms that ASlice by (auto simp: covered_def list_ex_iff intro!: bexI [of _ s])
  then show ?thesis by (auto simp: ASlice slice_view_def list_all_iff erase_slices_byte)
qed (simp add: slice_view_def)

lemma deleted_regions: "record_regions (deleted_record now r) = slice_regions (r_title r)"
  by (simp add: record_regions_def record_slices_def secret_slices_def deleted_record_def)

lemma layout_ok_delete:
  assumes ok: "layout_ok v" and i: "i < length (v_records v)" and a: "arena_ok a"
    "arena_used a = arena_used (v_arena v)" "arena_base a \<noteq> None"
    and v': "v_arena v' = a" "v_record_capacity v' = v_record_capacity v"
      "v_records v' = (v_records v)[i := deleted_record now (v_records v ! i)]"
  shows "layout_ok v'"
proof -
  let ?rs = "v_records v" and ?c = "\<lambda>rs. concat (map record_regions rs)"
  have old: "vault_regions v = ?c (take i ?rs) @ slice_regions (r_title (?rs ! i)) @
      secret_regions (?rs ! i) @ ?c (drop (Suc i) ?rs)"
    using arg_cong [OF id_take_nth_drop [OF i], of ?c]
    by (simp add: vault_regions_def record_regions_split)
  have new: "vault_regions v' = ?c (take i ?rs) @ slice_regions (r_title (?rs ! i)) @
      ?c (drop (Suc i) ?rs)"
    using i by (simp add: vault_regions_def v' upd_conv_take_nth_drop deleted_regions)
  have "sorted_wrt apart (vault_regions v')"
    using ok sublist_apart [of "?c (take i ?rs) @ slice_regions (r_title (?rs ! i))"
        "secret_regions (?rs ! i)" "?c (drop (Suc i) ?rs)"]
    by (simp add: layout_ok_def old new)
  then show ?thesis using ok a by (auto simp: layout_ok_def old new v')
qed


lemma nth_view_update:
  assumes "i < length rs" "\<And>j. j < length rs \<Longrightarrow> j \<noteq> i \<Longrightarrow> f' (rs ! j) = f (rs ! j)"
  shows "map f' (rs[i := x]) = (map f rs)[i := f' x]"
  using assms by (auto intro!: nth_equalityI simp: nth_list_update)

lemma pv_model_delete_laws:
  assumes ok: "vault_ok v" and i: "i < length (v_records v)" and now: "0 \<le> sint now"
    and run: "pv_model_delete mp now i v = (res, v')"
  shows "vault_ok v' \<and>
    (case res of
       Inl e \<Rightarrow> vault_view v' = vault_view v
     | Inr _ \<Rightarrow> vault_view v' = (vault_view v)[i := delete_view now (vault_view v ! i)] \<and>
         list_all (\<lambda>s. list_all (\<lambda>b. b = 0) (slice_view (v_arena v') s))
           (secret_slices (v_records v ! i)))"
proof -
  let ?r = "v_records v ! i"
  have lay: "layout_ok v" using ok by (simp add: vault_ok_def)
  obtain r0 a0 where w: "(if arena_readonly (v_arena v) then pv_arena_set_readwrite mp (v_arena v)
      else (Inr (), v_arena v)) = (r0, a0)" by fastforce
  note mw = make_writable [OF w]
  have a0: "arena_used a0 = arena_used (v_arena v)" "arena_base a0 = arena_base (v_arena v)"
    by (subst mw(1), simp)+
  consider (refused) e where "res = Inl e" "v' = v" | (stuck) e where "res = Inl e" "v' = v\<lparr>v_arena := a0\<rparr>"
    | (erased) "res = Inr ()" "r_revision ?r \<noteq> UINT64_MAX"
        "v' = v\<lparr>v_arena := fold erase_slice (secret_slices ?r) a0,
                 v_records := (v_records v)[i := deleted_record now ?r],
                 v_dirty := True, v_updated_ms := now\<rparr>"
    using run [unfolded pv_model_delete_def Let_def w]
    by (cases "r_flags ?r AND PV_RECORD_DELETED \<noteq> 0"; cases "r_revision ?r = UINT64_MAX"; cases r0)
      (simp_all, blast+)
  then show ?thesis
  proof cases
    case refused
    with ok show ?thesis by simp
  next
    case stuck
    have view: "vault_view v' = vault_view v"
      using vault_view_added [OF lay mw(3)] by (simp add: stuck vault_view_def)
    have "layout_ok v'"
      using lay mw a0(1) by (intro layout_ok_grow [OF lay _ mw(3)]) (auto simp: stuck layout_ok_def)
    with ok view stuck show ?thesis by (simp add: vault_ok_def)
  next
    case erased
    let ?a = "fold erase_slice (secret_slices ?r) a0"
    have apart: "sorted_wrt apart (concat (map record_regions (v_records v)))"
      using lay by (simp add: layout_ok_def vault_regions_def)
    have "record_view ?a (v_records v ! j) = record_view a0 (v_records v ! j)"
      if "j < length (v_records v)" "j \<noteq> i" for j by (rule erase_other_view [OF apart i that])
    then have "map (record_view ?a) ((v_records v)[i := deleted_record now ?r]) =
        (map (record_view a0) (v_records v))[i := record_view ?a (deleted_record now ?r)]"
      by (rule nth_view_update [OF i])
    then have view: "vault_view v' = (vault_view v)[i := delete_view now (vault_view v ! i)]"
      using erase_own_view [OF record_apart [OF apart nth_mem [OF i]]] vault_view_added [OF lay mw(3)] i
      by (simp add: erased vault_view_def)
    have "layout_ok v'"
      using lay mw(4) a0 by (intro layout_ok_delete [OF lay i, where a = ?a])
        (auto simp: erased layout_ok_def arena_ok_erase)
    moreover have "list_all stored_wf (vault_view v')"
    proof -
      have len: "i < length (vault_view v)" using i by (simp add: vault_view_def)
      then have "stored_wf (vault_view v ! i)" "r_revision (vault_view v ! i) = r_revision ?r"
        using ok i by (auto simp: vault_ok_def list_all_length vault_view_def record_view_def)
      with ok now erased(2) len delete_view_wf show ?thesis
        unfolding view by (auto simp: vault_ok_def list_all_length nth_list_update)
    qed
    moreover have "map r_id (v_records v') = map r_id (v_records v)"
      using i by (simp add: erased map_update deleted_record_def list_update_same_conv)
    ultimately have "vault_ok v'" using ok by (simp add: vault_ok_def)
    with view erase_zero_view show ?thesis by (simp add: erased list_all_iff)
  qed
qed

text \<open>
  C6. Deleting a record erases its secrets and touches nothing else. On success the record keeps
  its identifier and title, is marked deleted with its revision increased, and every byte of
  memory its user name, password, notes, URLs, tags and custom fields occupied is zero; all other
  records read as before. A refused deletion changes no record. The invariant is kept.
\<close>

theorem pv_model_delete_erases:
  assumes "vault_ok v" and "i < length (v_records v)" and "0 \<le> sint now"
    and "pv_model_delete mp now i v = (res, v')"
  shows "vault_ok v' \<and>
    (case res of
       Inl e \<Rightarrow> vault_view v' = vault_view v
     | Inr _ \<Rightarrow> vault_view v' = (vault_view v)[i := delete_view now (vault_view v ! i)] \<and>
         list_all (\<lambda>s. list_all (\<lambda>b. b = 0) (slice_view (v_arena v') s))
           (secret_slices (v_records v ! i)))"
  by (rule pv_model_delete_laws [OF assms])

definition demo_record :: "aslice pv_record" where
  "demo_record =
     \<lparr>r_id = replicate 16 1, r_revision = 1, r_created_ms = 5, r_updated_ms = 6, r_flags = 2,
      r_title = ASlice 0 1, r_username = ANull, r_password = ASlice 2 2, r_notes = ANull,
      r_urls = [], r_tags = [ASlice 5 1], r_fields = []\<rparr>"

definition demo_vault :: pv_vault where
  "demo_vault = vault_zero
     \<lparr>v_arena := \<lparr>arena_base = Some (\<lambda>i. if i < 6 then 0x41 else 0), arena_capacity = 4096,
                 arena_used = 2600, arena_readonly = False\<rparr>,
      v_device_id := replicate 16 9, v_vmk := Some (replicate 32 3),
      v_records := [demo_record], v_record_capacity := 16\<rparr>"

lemma demo_vault_ok: "vault_ok demo_vault"
proof -
  have "stored_wf (record_view (v_arena demo_vault) demo_record)" by code_simp
  moreover have "layout_ok demo_vault"
    by (simp add: layout_ok_def demo_vault_def demo_record_def vault_regions_def record_regions_eq
        arena_ok_def arena_byte_def PV_MAX_PLAINTEXT_def apart_def vault_zero_def)
  ultimately show ?thesis by (simp add: vault_ok_def vault_view_def demo_vault_def)
qed

theorem pv_model_delete_erases_witness:
  "\<exists>v'. pv_model_delete True 77 0 demo_vault = (Inr (), v') \<and> vault_ok v' \<and>
     r_password (vault_view demo_vault ! 0) = [0x41, 0x41] \<and>
     r_password (vault_view v' ! 0) = [] \<and> slice_view (v_arena v') (ASlice 2 2) = [0, 0] \<and>
     r_title (vault_view v' ! 0) = [0x41]"
proof -
  have r: "v_records demo_vault = [demo_record]" by (simp add: demo_vault_def)
  have view: "vault_view demo_vault = [record_view (v_arena demo_vault) demo_record]"
    by (simp add: vault_view_def r)
  have "fst (pv_model_delete True 77 0 demo_vault) = Inr ()" by code_simp
  then obtain v' where run: "pv_model_delete True 77 0 demo_vault = (Inr (), v')"
    by (cases "pv_model_delete True 77 0 demo_vault") simp
  have now: "0 \<le> sint (77 :: i64)" by simp
  note del = pv_model_delete_erases [OF demo_vault_ok _ now run]
  have zero: "list_all (\<lambda>b. b = 0) (slice_view (v_arena v') (ASlice 2 2))"
    using del by (simp add: r demo_record_def secret_slices_def)
  have "r_title (record_view (v_arena demo_vault) demo_record) = [0x41]"
    "r_password (record_view (v_arena demo_vault) demo_record) = [0x41, 0x41]"
    by (simp_all add: record_view_def demo_record_def demo_vault_def slice_view_def arena_byte_def)
  with del zero run view show ?thesis
    by (simp add: r delete_view_def slice_view_def numeral_2_eq_2 upt_rec)
qed

section \<open>Cloning\<close>

lemma stored_record_self: "r_revision r \<noteq> 0 \<Longrightarrow> stored_record (r_id r) now r = r"
  by (simp add: stored_record_def)

lemma view_of_load: "map_record slice_bytes (load_record a r) = record_view a r"
  by (simp add: load_record_def record_view_def map_record_comp slice_view_def comp_def)

lemma add_record_no_draw:
  "\<not> id_is_zero (r_id src) \<Longrightarrow>
     pv_model_add_record mp now draws src v = pv_model_add_record mp now [] src v"
proof -
  assume "\<not> id_is_zero (r_id src)"
  then have "record_id draws (r_id src) = record_id [] (r_id src)"
    by (intro ext) (simp add: record_id_def)
  then show ?thesis by (simp only: pv_model_add_record_def)
qed

text \<open>The fields of a vault that inserting records leaves alone.\<close>

definition vault_meta where
  "vault_meta v =
     (v_vault_id v, v_device_id v, v_generation v, v_created_ms v, v_vmk v, v_source_hash v, v_path v)"

lemma add_record_meta:
  assumes "vault_ok v" "pv_model_add_record mp now draws src v = Some (res, v')"
  shows "vault_meta v' = vault_meta v"
proof -
  have "layout_ok v" using assms(1) by (simp add: vault_ok_def)
  from this assms(2) show ?thesis
    by (cases rule: add_record_cases) (simp_all add: vault_meta_def)
qed

text \<open>Adding a record that has been stored before: nothing is filled in.\<close>

lemma add_stored_record:
  assumes ok: "vault_ok v" and src: "stored_wf (map_record slice_bytes src)" and now: "0 \<le> sint now"
    and run: "pv_model_add_record mp now draws src v = Some (res, v')"
  shows "vault_ok v'" and "res = Inl e \<Longrightarrow> vault_view v' = vault_view v"
    and "res = Inr i \<Longrightarrow> vault_view v' = vault_view v @ [map_record slice_bytes src]"
proof -
  have id: "length (r_id src) = PV_RECORD_ID_BYTES" "\<not> id_is_zero (r_id src)" "r_revision src \<noteq> 0"
    using src by (simp_all add: stored_wf_def)
  have "pv_model_add_record mp now [] src v = Some (res, v')"
    using run add_record_no_draw [OF id(2), of mp now draws v] by simp
  note laws = pv_model_add_record_laws [OF ok id(1) _ now this]
  show "vault_ok v'" "res = Inl e \<Longrightarrow> vault_view v' = vault_view v" using laws by simp_all
  show "res = Inr i \<Longrightarrow> vault_view v' = vault_view v @ [map_record slice_bytes src]"
    using laws id(2,3) stored_record_self [of "map_record slice_bytes src" now] by auto
qed

lemma clone_records_laws:
  assumes "vault_ok v" "list_all (\<lambda>r. stored_wf (map_record slice_bytes r)) rs" "0 \<le> sint now"
  shows "clone_records now draws i rs v \<noteq> None"
    and "clone_records now draws i rs v = Some (Inr u, v') \<Longrightarrow>
      vault_ok v' \<and> vault_view v' = vault_view v @ map (map_record slice_bytes) rs \<and>
      vault_meta v' = vault_meta v"
proof -
  have "clone_records now draws i rs v \<noteq> None \<and>
      (clone_records now draws i rs v = Some (Inr u, v') \<longrightarrow>
        vault_ok v' \<and> vault_view v' = vault_view v @ map (map_record slice_bytes) rs \<and>
        vault_meta v' = vault_meta v)"
    using assms(1,2)
  proof (induction rs arbitrary: i v)
    case (Cons r rs)
    have r: "stored_wf (map_record slice_bytes r)" "\<not> id_is_zero (r_id r)"
      using Cons.prems(2) by (simp_all add: stored_wf_def)
    then obtain res v1 where run: "pv_model_add_record True now (draws i) r v = Some (res, v1)"
      using add_record_returns [of r v "draws i" True now] by auto
    note add = add_stored_record [OF Cons.prems(1) r(1) assms(3) run]
    show ?case
    proof (cases res)
      case (Inl e)
      with run show ?thesis by simp
    next
      case (Inr j)
      with Cons.IH [OF add(1)] Cons.prems add(3) run add_record_meta [OF Cons.prems(1) run] show ?thesis by simp
    qed
  qed auto
  then show "clone_records now draws i rs v \<noteq> None"
    and "clone_records now draws i rs v = Some (Inr u, v') \<Longrightarrow>
      vault_ok v' \<and> vault_view v' = vault_view v @ map (map_record slice_bytes) rs \<and>
      vault_meta v' = vault_meta v"
    by blast+
qed


text \<open>
  C30. A clone of a well-formed vault is computed without any random draw, and when it succeeds
  it is well-formed and has the same records, identifiers, keys, generation, times and dirty flag;
  copying through a second arena loses nothing.
\<close>

theorem pv_model_clone_same:
  assumes "vault_ok source" and "0 \<le> sint now"
  shows "case pv_model_clone arena_mem vmk_mem now draws source of
       None \<Rightarrow> False
     | Some (Inl e) \<Rightarrow> True
     | Some (Inr v) \<Rightarrow> vault_ok v \<and> vault_view v = vault_view source \<and>
         v_vault_id v = v_vault_id source \<and> v_device_id v = v_device_id source \<and>
         v_vmk v = v_vmk source \<and> v_source_hash v = v_source_hash source \<and>
         v_generation v = v_generation source \<and> v_created_ms v = v_created_ms source \<and>
         v_updated_ms v = v_updated_ms source \<and> v_dirty v = v_dirty source \<and>
         v_path v = v_path source"
proof -
  let ?meta = "\<lambda>v0. v0\<lparr>v_vault_id := v_vault_id source, v_device_id := v_device_id source,
      v_vmk := v_vmk source, v_source_hash := v_source_hash source,
      v_generation := v_generation source, v_created_ms := v_created_ms source,
      v_updated_ms := v_updated_ms source\<rparr>"
  show ?thesis
  proof (cases "pv_model_init arena_mem vmk_mem (v_path source)")
    case (Inl e)
    then show ?thesis by (simp add: pv_model_clone_def)
  next
    case (Inr v0)
    note init = pv_model_init_laws [OF Inr]
    have ok: "vault_ok (?meta v0)" and view: "vault_view (?meta v0) = []"
      using init(1,2) by (simp_all add: vault_ok_def layout_ok_def vault_regions_def vault_view_def)
    have rs: "list_all (\<lambda>r. stored_wf (map_record slice_bytes r)) (vault_records source)"
      "map (map_record slice_bytes) (vault_records source) = vault_view source"
      using assms(1) by (simp_all add: vault_ok_def vault_records_def vault_view_def view_of_load
          list.pred_map comp_def)
    note loop = clone_records_laws [OF ok rs(1) assms(2)]
    obtain res v1 where run: "clone_records now draws 0 (vault_records source) (?meta v0) = Some (res, v1)"
      using loop(1) [of draws 0] by fastforce
    show ?thesis
    proof (cases res)
      case (Inl e)
      with Inr run show ?thesis by (simp add: pv_model_clone_def)
    next
      case fin: (Inr u)
      from loop(2) [OF run [unfolded fin]] have
        l: "vault_ok v1" "vault_view v1 = vault_view source" "vault_meta v1 = vault_meta (?meta v0)"
        using rs(2) view by simp_all
      with Inr run fin init(4) show ?thesis
        by (simp add: pv_model_clone_def vault_meta_def vault_ok_def layout_ok_def vault_regions_def
            vault_view_def)
    qed
  qed
qed

theorem pv_model_clone_same_witness:
  "\<exists>v. pv_model_clone Alloc_ok Alloc_ok 1 (\<lambda>i. []) demo_vault = Some (Inr v) \<and> vault_ok v \<and>
     vault_view v = vault_view demo_vault \<and> v_vmk v = Some (replicate 32 3)"
proof -
  let ?run = "pv_model_clone Alloc_ok Alloc_ok 1 (\<lambda>i. []) demo_vault"
  have "(case ?run of Some (Inr v) \<Rightarrow> True | _ \<Rightarrow> False)" by code_simp
  with pv_model_clone_same [OF demo_vault_ok, of 1 Alloc_ok Alloc_ok "\<lambda>i. []"] show ?thesis
    by (auto simp: demo_vault_def split: option.splits sum.splits)
qed

end
