(* ===== verification/Pv_Cbor.thy ===== *)
theory Pv_Cbor
  imports Pv_Model
begin

text \<open>
  The serialised form of a vault, \<^verbatim>\<open>src/cbor_codec.c\<close>: a writer with a fixed buffer and a
  sticky status, and a reader that accepts only the canonical form. libcbor's well-formedness
  check (\<^verbatim>\<open>cbor_stream_decode\<close>) is a parameter of the decoder.
\<close>

section \<open>The writer\<close>

text \<open>\<open>w_data\<close> is the first \<^verbatim>\<open>len\<close> bytes of the buffer of \<open>w_cap\<close> bytes.\<close>

record cbor_writer =
  w_data :: "byte list"
  w_cap :: nat
  w_status :: pv_status

definition writer_bytes :: "pv_slice \<Rightarrow> cbor_writer \<Rightarrow> cbor_writer" where
  "writer_bytes sl w =
     (if w_status w \<noteq> PV_OK then w
      else if slice_len sl = 0 then w
      else if slice_null sl then w\<lparr>w_status := PV_ERR_FORMAT\<rparr>
      else case pv_size_add (word_of_nat (length (w_data w))) (word_of_nat (slice_len sl)) of
        None \<Rightarrow> w\<lparr>w_status := PV_ERR_LIMIT\<rparr>
      | Some end_ \<Rightarrow>
          if unat end_ > w_cap w then w\<lparr>w_status := PV_ERR_LIMIT\<rparr>
          else w\<lparr>w_data := w_data w @ slice_bytes sl\<rparr>)"

definition writer_u8 :: "byte \<Rightarrow> cbor_writer \<Rightarrow> cbor_writer" where
  "writer_u8 value = writer_bytes (Bytes [value])"

text \<open>The initial byte of an item of a major type, and the big-endian bytes of its argument.\<close>

definition initial_byte :: "byte \<Rightarrow> byte \<Rightarrow> byte" where
  "initial_byte major low = push_bit 5 major OR low"

definition be_bytes :: "nat \<Rightarrow> u64 \<Rightarrow> byte list" where
  "be_bytes n value = map (\<lambda>i. ucast (drop_bit ((n - 1 - i) * 8) value)) [0..<n]"

definition writer_type_value :: "byte \<Rightarrow> u64 \<Rightarrow> cbor_writer \<Rightarrow> cbor_writer" where
  "writer_type_value major value w =
     (if value < 24 then writer_u8 (initial_byte major (ucast value)) w
      else writer_bytes (Bytes
        (if value \<le> 0xff then [initial_byte major 24, ucast value]
         else if value \<le> 0xffff
         then [initial_byte major 25, ucast (drop_bit 8 value), ucast value]
         else if value \<le> 0xffffffff then initial_byte major 26 # be_bytes 4 value
         else initial_byte major 27 # be_bytes 8 value)) w)"

definition writer_uint :: "u64 \<Rightarrow> cbor_writer \<Rightarrow> cbor_writer" where
  "writer_uint = writer_type_value 0"

definition writer_map :: "nat \<Rightarrow> cbor_writer \<Rightarrow> cbor_writer" where
  "writer_map count = writer_type_value 5 (word_of_nat count)"

definition writer_array :: "nat \<Rightarrow> cbor_writer \<Rightarrow> cbor_writer" where
  "writer_array count = writer_type_value 4 (word_of_nat count)"

definition writer_blob :: "byte \<Rightarrow> pv_slice \<Rightarrow> cbor_writer \<Rightarrow> cbor_writer" where
  "writer_blob major sl w = writer_bytes sl (writer_type_value major (word_of_nat (slice_len sl)) w)"

text \<open>Statements in sequence, each acting on the writer.\<close>

definition seq :: "(cbor_writer \<Rightarrow> cbor_writer) list \<Rightarrow> cbor_writer \<Rightarrow> cbor_writer" where
  "seq fs = fold (\<lambda>f w. f w) fs"

definition encode_field :: "pv_slice pv_custom_field \<Rightarrow> cbor_writer \<Rightarrow> cbor_writer" where
  "encode_field f = seq
     [writer_map 3,
      writer_uint 0, writer_blob 3 (f_name f),
      writer_uint 1, writer_blob 2 (f_value f),
      writer_uint 2, writer_uint (ucast (f_flags f))]"

definition encode_record :: "pv_slice pv_record \<Rightarrow> cbor_writer \<Rightarrow> cbor_writer" where
  "encode_record r = seq
     [writer_map 12,
      writer_uint 0, writer_blob 2 (Bytes (r_id r)),
      writer_uint 1, writer_uint (r_revision r),
      writer_uint 2, writer_uint (r_created_ms r),
      writer_uint 3, writer_uint (r_updated_ms r),
      writer_uint 4, writer_uint (ucast (r_flags r)),
      writer_uint 5, writer_blob 3 (r_title r),
      writer_uint 6, writer_blob 3 (r_username r),
      writer_uint 7, writer_blob 2 (r_password r),
      writer_uint 8, writer_array (length (r_urls r)), seq (map (writer_blob 3) (r_urls r)),
      writer_uint 9, writer_blob 3 (r_notes r),
      writer_uint 10, writer_array (length (r_tags r)), seq (map (writer_blob 3) (r_tags r)),
      writer_uint 11, writer_array (length (r_fields r)), seq (map encode_field (r_fields r))]"

fun validate_all :: "pv_slice pv_record list \<Rightarrow> pv_status" where
  "validate_all [] = PV_OK"
| "validate_all (r # rs) =
     (if pv_model_validate_record r \<noteq> PV_OK then pv_model_validate_record r else validate_all rs)"

abbreviation PV_CBOR_SCHEMA_VERSION :: u64 where "PV_CBOR_SCHEMA_VERSION \<equiv> 1"
abbreviation PV_DEVICE_ID_BYTES :: nat where "PV_DEVICE_ID_BYTES \<equiv> 16"

definition encode_vault :: "pv_vault \<Rightarrow> cbor_writer \<Rightarrow> cbor_writer" where
  "encode_vault v = seq
     [writer_map 6,
      writer_uint 0, writer_uint PV_CBOR_SCHEMA_VERSION,
      writer_uint 1, writer_uint (v_generation v),
      writer_uint 2, writer_blob 2 (Bytes (v_device_id v)),
      writer_uint 3, writer_uint (v_created_ms v),
      writer_uint 4, writer_uint (v_updated_ms v),
      writer_uint 5, writer_array (length (v_records v)),
      seq (map encode_record (vault_records v))]"

text \<open>\<open>mem\<close> is the outcome of allocating the guarded output buffer.\<close>

definition pv_cbor_encode :: "alloc \<Rightarrow> pv_vault \<Rightarrow> byte list pv_result" where
  "pv_cbor_encode mem v =
     (if sint (v_created_ms v) < 0 \<or> sint (v_updated_ms v) < 0 then Inl PV_ERR_USAGE
      else if foldl (OR) 0 (v_device_id v) = 0 then Inl PV_ERR_FORMAT
      else if validate_all (vault_records v) \<noteq> PV_OK then Inl (validate_all (vault_records v))
      else if mem \<noteq> Alloc_ok then Inl PV_ERR_SECURE_MEMORY
      else
        let w = encode_vault v \<lparr>w_data = [], w_cap = PV_MAX_PLAINTEXT, w_status = PV_OK\<rparr> in
        if w_status w \<noteq> PV_OK then Inl (w_status w) else Inr (w_data w))"

section \<open>The reader\<close>

record cbor_reader =
  rd_data :: "byte list"
  rd_pos :: nat
  rd_status :: pv_status

text \<open>
  A reading function returns \<^verbatim>\<open>false\<close> as \<open>None\<close>; \<open>rd_bind\<close> goes on only after
  \<^verbatim>\<open>true\<close>.
\<close>

type_synonym 'a reads = "cbor_reader \<Rightarrow> 'a option \<times> cbor_reader"

definition rd_return :: "'a \<Rightarrow> 'a reads" where
  "rd_return x r = (Some x, r)"

definition rd_bind :: "'a reads \<Rightarrow> ('a \<Rightarrow> 'b reads) \<Rightarrow> 'b reads" where
  "rd_bind rd k r = (case rd r of (None, r1) \<Rightarrow> (None, r1) | (Some x, r1) \<Rightarrow> k x r1)"

definition rd_error :: "pv_status \<Rightarrow> 'a reads" where
  "rd_error e r = (None, r\<lparr>rd_status := e\<rparr>)"

definition reader_take :: "byte reads" where
  "reader_take r =
     (if rd_status r \<noteq> PV_OK \<or> rd_pos r \<ge> length (rd_data r) then rd_error PV_ERR_FORMAT r
      else (Some (rd_data r ! rd_pos r), r\<lparr>rd_pos := rd_pos r + 1\<rparr>))"

text \<open>The bytes of the argument, most significant first.\<close>

definition be_value :: "byte list \<Rightarrow> u64" where
  "be_value bs = foldl (\<lambda>decoded b. push_bit 8 decoded OR ucast b) 0 bs"

definition reader_argument :: "nat \<Rightarrow> u64 reads" where
  "reader_argument width r =
     (if width > length (rd_data r) - rd_pos r then rd_error PV_ERR_FORMAT r
      else
        let decoded = be_value (take width (drop (rd_pos r) (rd_data r)));
            r1 = r\<lparr>rd_pos := rd_pos r + width\<rparr> in
        if (width = 1 \<and> decoded < 24) \<or> (width = 2 \<and> decoded \<le> 0xff) \<or>
           (width = 4 \<and> decoded \<le> 0xffff) \<or> (width = 8 \<and> decoded \<le> 0xffffffff)
        then rd_error PV_ERR_FORMAT r1
        else (Some decoded, r1))"

definition reader_value :: "byte \<Rightarrow> u64 reads" where
  "reader_value expected_major r =
     (case reader_take r of
        (None, r1) \<Rightarrow> rd_error PV_ERR_FORMAT r1
      | (Some initial, r1) \<Rightarrow>
          if drop_bit 5 initial \<noteq> expected_major then rd_error PV_ERR_FORMAT r1
          else let additional = initial AND 0x1f in
            if additional < 24 then (Some (ucast additional), r1)
            else if additional = 24 then reader_argument 1 r1
            else if additional = 25 then reader_argument 2 r1
            else if additional = 26 then reader_argument 4 r1
            else if additional = 27 then reader_argument 8 r1
            else rd_error PV_ERR_FORMAT r1)"

definition reader_expect_uint :: "u64 \<Rightarrow> unit reads" where
  "reader_expect_uint expected r =
     (case reader_value 0 r of
        (None, r1) \<Rightarrow> rd_error PV_ERR_FORMAT r1
      | (Some value, r1) \<Rightarrow>
          if value \<noteq> expected then rd_error PV_ERR_FORMAT r1 else (Some (), r1))"

definition reader_fail :: "pv_status \<Rightarrow> 'a reads" where
  "reader_fail status r =
     (None, if rd_status r = PV_OK then r\<lparr>rd_status := status\<rparr> else r)"

definition bytes_all_zero :: "byte list \<Rightarrow> bool" where
  "bytes_all_zero bs \<longleftrightarrow> foldl (OR) 0 bs = 0"

definition reader_count :: "byte \<Rightarrow> nat \<Rightarrow> nat reads" where
  "reader_count major maximum = rd_bind (reader_value major) (\<lambda>value.
     if unat value > maximum \<or> value > SIZE_MAX then rd_error PV_ERR_LIMIT
     else rd_return (unat value))"

definition reader_slice :: "byte \<Rightarrow> nat \<Rightarrow> pv_slice reads" where
  "reader_slice major maximum = rd_bind (reader_value major) (\<lambda>len. \<lambda>r.
     if unat len > maximum then rd_error PV_ERR_LIMIT r
     else if unat len > length (rd_data r) - rd_pos r then rd_error PV_ERR_FORMAT r
     else
       let sl = Bytes (take (unat len) (drop (rd_pos r) (rd_data r)));
           r1 = r\<lparr>rd_pos := rd_pos r + unat len\<rparr> in
       if major = 3 \<and> \<not> pv_utf8_valid sl then rd_error PV_ERR_FORMAT r1
       else (Some sl, r1))"

text \<open>A check between two reads that calls \<^verbatim>\<open>reader_fail\<close> when it does not hold.\<close>

definition rd_check :: "bool \<Rightarrow> unit reads" where
  "rd_check b = (if b then rd_return () else reader_fail PV_ERR_FORMAT)"

fun rd_times :: "nat \<Rightarrow> 'a reads \<Rightarrow> 'a list reads" where
  "rd_times 0 rd = rd_return []"
| "rd_times (Suc n) rd = rd_bind rd (\<lambda>x. rd_bind (rd_times n rd) (\<lambda>xs. rd_return (x # xs)))"

text \<open>A timestamp: an unsigned value that fits in \<^verbatim>\<open>int64_t\<close>.\<close>

definition reader_time :: "u64 \<Rightarrow> i64 reads" where
  "reader_time key =
     rd_bind (reader_expect_uint key) (\<lambda>_.
     rd_bind (reader_value 0) (\<lambda>value.
     rd_bind (rd_check (\<not> value > 0x7fffffffffffffff)) (\<lambda>_.
     rd_return value)))"

text \<open>Flags: a 32-bit value within \<open>known\<close>.\<close>

definition reader_flags :: "u64 \<Rightarrow> u32 \<Rightarrow> u32 reads" where
  "reader_flags key known =
     rd_bind (reader_expect_uint key) (\<lambda>_.
     rd_bind (reader_value 0) (\<lambda>value.
     rd_bind (rd_check (\<not> (value > 0xffffffff \<or> value AND NOT (ucast known) \<noteq> 0))) (\<lambda>_.
     rd_return (ucast value))))"

definition decode_field :: "pv_slice pv_custom_field reads" where
  "decode_field =
     rd_bind (reader_count 5 3) (\<lambda>map_count.
     rd_bind (rd_check (map_count = 3)) (\<lambda>_.
     rd_bind (reader_expect_uint 0) (\<lambda>_.
     rd_bind (reader_slice 3 PV_MAX_FIELD_NAME) (\<lambda>nm.
     rd_bind (rd_check (slice_len nm \<noteq> 0)) (\<lambda>_.
     rd_bind (reader_expect_uint 1) (\<lambda>_.
     rd_bind (reader_slice 2 PV_MAX_FIELD_VALUE) (\<lambda>val.
     rd_bind (reader_flags 2 PV_FIELD_SECRET) (\<lambda>flg.
     rd_return \<lparr>f_name = nm, f_value = val, f_flags = flg\<rparr>))))))))"

definition decode_temporary :: "pv_slice pv_record reads" where
  "decode_temporary =
     rd_bind (reader_count 5 12) (\<lambda>count.
     rd_bind (rd_check (count = 12)) (\<lambda>_.
     rd_bind (reader_expect_uint 0) (\<lambda>_.
     rd_bind (reader_slice 2 PV_RECORD_ID_BYTES) (\<lambda>rid.
     rd_bind (rd_check (\<not> (slice_len rid \<noteq> PV_RECORD_ID_BYTES \<or> bytes_all_zero (slice_bytes rid)))) (\<lambda>_.
     rd_bind (reader_expect_uint 1) (\<lambda>_.
     rd_bind (reader_value 0) (\<lambda>revision.
     rd_bind (rd_check (revision \<noteq> 0)) (\<lambda>_.
     rd_bind (reader_time 2) (\<lambda>created.
     rd_bind (reader_time 3) (\<lambda>updated.
     rd_bind (reader_flags 4 (PV_RECORD_DELETED OR PV_RECORD_FAVORITE)) (\<lambda>flg.
     rd_bind (reader_expect_uint 5) (\<lambda>_.
     rd_bind (reader_slice 3 PV_MAX_TITLE) (\<lambda>title.
     rd_bind (rd_check (slice_len title \<noteq> 0)) (\<lambda>_.
     rd_bind (reader_expect_uint 6) (\<lambda>_.
     rd_bind (reader_slice 3 PV_MAX_USERNAME) (\<lambda>username.
     rd_bind (reader_expect_uint 7) (\<lambda>_.
     rd_bind (reader_slice 2 PV_MAX_PASSWORD) (\<lambda>password.
     rd_bind (reader_expect_uint 8) (\<lambda>_.
     rd_bind (reader_count 4 PV_MAX_COLLECTION_ITEMS) (\<lambda>url_count.
     rd_bind (rd_times url_count (reader_slice 3 PV_MAX_URL)) (\<lambda>urls.
     rd_bind (reader_expect_uint 9) (\<lambda>_.
     rd_bind (reader_slice 3 PV_MAX_NOTES) (\<lambda>notes.
     rd_bind (reader_expect_uint 10) (\<lambda>_.
     rd_bind (reader_count 4 PV_MAX_COLLECTION_ITEMS) (\<lambda>tag_count.
     rd_bind (rd_times tag_count (reader_slice 3 PV_MAX_TAG)) (\<lambda>tags.
     rd_bind (reader_expect_uint 11) (\<lambda>_.
     rd_bind (reader_count 4 PV_MAX_COLLECTION_ITEMS) (\<lambda>field_count.
     rd_bind (rd_times field_count decode_field) (\<lambda>customs.
     rd_return
       \<lparr>r_id = slice_bytes rid, r_revision = revision, r_created_ms = created,
        r_updated_ms = updated, r_flags = flg, r_title = title, r_username = username,
        r_password = password, r_notes = notes, r_urls = urls, r_tags = tags,
        r_fields = customs\<rparr>)))))))))))))))))))))))))))))"

text \<open>
  The rest of \<open>decode_record\<close> and the loop over the records: every record read is inserted
  with \<open>pv_model_add_record\<close>. \<open>draws i\<close> is what the random generator would deliver to the
  \<open>i\<close>-th insertion.
\<close>

definition decode_record ::
  "bool \<Rightarrow> i64 \<Rightarrow> byte list list \<Rightarrow> cbor_reader \<Rightarrow> pv_vault \<Rightarrow>
     (pv_vault pv_result \<times> cbor_reader) option" where
  "decode_record mp now draws r v =
     (case decode_temporary r of
        (None, r1) \<Rightarrow> Some (Inl (if rd_status r1 = PV_OK then PV_ERR_FORMAT else rd_status r1), r1)
      | (Some temporary, r1) \<Rightarrow>
          (case pv_model_add_record mp now draws temporary v of
             None \<Rightarrow> None
           | Some (Inl e, v1) \<Rightarrow> Some (Inl (if e = PV_ERR_EXISTS then PV_ERR_FORMAT else e), r1)
           | Some (Inr _, v1) \<Rightarrow> Some (Inr v1, r1)))"

fun decode_records ::
  "bool \<Rightarrow> i64 \<Rightarrow> (nat \<Rightarrow> byte list list) \<Rightarrow> nat \<Rightarrow> nat \<Rightarrow> cbor_reader \<Rightarrow> pv_vault \<Rightarrow>
     (pv_vault pv_result \<times> cbor_reader) option" where
  "decode_records mp now draws i 0 r v = Some (Inr v, r)"
| "decode_records mp now draws i (Suc n) r v =
     (case decode_record mp now (draws i) r v of
        None \<Rightarrow> None
      | Some (Inl e, r1) \<Rightarrow> Some (Inl e, r1)
      | Some (Inr v1, r1) \<Rightarrow> decode_records mp now draws (i + 1) n r1 v1)"

text \<open>
  The pass over the input with libcbor's streaming decoder: \<open>stream_decode bytes\<close> is whether the
  decoder finished an item at the start of \<open>bytes\<close> and how many bytes it read.
\<close>

function libcbor_well_formed :: "(byte list \<Rightarrow> bool \<times> nat) \<Rightarrow> byte list \<Rightarrow> bool" where
  "libcbor_well_formed stream_decode input =
     (if input = [] then True
      else case stream_decode input of
        (finished, consumed) \<Rightarrow>
          if \<not> finished \<or> consumed = 0 \<or> consumed > length input then False
          else libcbor_well_formed stream_decode (drop consumed input))"
  by pat_completeness auto
termination
  by (relation "measure (\<lambda>(sd, input). length input)") auto

declare libcbor_well_formed.simps [simp del]

text \<open>
  The fields of the vault map in front of the records: generation, device, creation time, update
  time and the number of records.
\<close>

definition decode_top :: "(u64 \<times> byte list \<times> i64 \<times> i64 \<times> nat) reads" where
  "decode_top =
     rd_bind (reader_count 5 6) (\<lambda>map_count.
     rd_bind (rd_check (map_count = 6)) (\<lambda>_.
     rd_bind (reader_expect_uint 0) (\<lambda>_.
     rd_bind (reader_expect_uint PV_CBOR_SCHEMA_VERSION) (\<lambda>_.
     rd_bind (reader_expect_uint 1) (\<lambda>_.
     rd_bind (reader_value 0) (\<lambda>generation.
     rd_bind (reader_expect_uint 2) (\<lambda>_.
     rd_bind (reader_slice 2 PV_DEVICE_ID_BYTES) (\<lambda>device_id.
     rd_bind (rd_check (\<not> (slice_len device_id \<noteq> PV_DEVICE_ID_BYTES \<or>
       bytes_all_zero (slice_bytes device_id)))) (\<lambda>_.
     rd_bind (rd_check (foldl (OR) 0 (slice_bytes device_id) \<noteq> 0)) (\<lambda>_.
     rd_bind (reader_time 3) (\<lambda>top_created.
     rd_bind (reader_time 4) (\<lambda>top_updated.
     rd_bind (reader_expect_uint 5) (\<lambda>_.
     rd_bind (reader_count 4 (PV_MAX_PLAINTEXT div 64)) (\<lambda>record_count.
     rd_return (generation, slice_bytes device_id, top_created, top_updated, record_count)))))))))))))))"

text \<open>
  The decoder fills a vault without records. After a failure the vault is of no use and the
  callers destroy it, so the result is only the status. \<open>mp\<close> tells whether the arena's
  protection can be changed.
\<close>

definition pv_cbor_decode ::
  "(byte list \<Rightarrow> bool \<times> nat) \<Rightarrow> bool \<Rightarrow> i64 \<Rightarrow> (nat \<Rightarrow> byte list list) \<Rightarrow> byte list \<Rightarrow> pv_vault \<Rightarrow>
     pv_vault pv_result option" where
  "pv_cbor_decode stream_decode mp now draws input v =
     (if length input = 0 \<or> length input > PV_MAX_PLAINTEXT \<or> v_records v \<noteq> []
      then Some (Inl PV_ERR_USAGE)
      else if \<not> libcbor_well_formed stream_decode input then Some (Inl PV_ERR_FORMAT)
      else case decode_top \<lparr>rd_data = input, rd_pos = 0, rd_status = PV_OK\<rparr> of
        (None, r) \<Rightarrow> Some (Inl (rd_status r))
      | (Some (generation, device_id, top_created, top_updated, record_count), r) \<Rightarrow>
          (case decode_records mp now draws 0 record_count r
                  (v\<lparr>v_generation := generation, v_device_id := device_id\<rparr>) of
             None \<Rightarrow> None
           | Some (Inl e, r1) \<Rightarrow> Some (Inl e)
           | Some (Inr v1, r1) \<Rightarrow>
               if rd_pos r1 \<noteq> length (rd_data r1) then Some (Inl PV_ERR_FORMAT)
               else
                 (case pv_arena_set_readonly mp (v_arena v1) of
                    (Inl e, a) \<Rightarrow> Some (Inl e)
                  | (Inr _, a) \<Rightarrow>
                      Some (Inr (v1\<lparr>v_created_ms := top_created, v_updated_ms := top_updated,
                                   v_dirty := False, v_arena := a\<rparr>)))))"

section \<open>The canonical encoding\<close>

definition cbor_head :: "byte \<Rightarrow> u64 \<Rightarrow> byte list" where
  "cbor_head major value =
     (if value < 24 then [initial_byte major (ucast value)]
      else if value \<le> 0xff then initial_byte major 24 # be_bytes 1 value
      else if value \<le> 0xffff then initial_byte major 25 # be_bytes 2 value
      else if value \<le> 0xffffffff then initial_byte major 26 # be_bytes 4 value
      else initial_byte major 27 # be_bytes 8 value)"

definition cbor_blob :: "byte \<Rightarrow> byte list \<Rightarrow> byte list" where
  "cbor_blob major bs = cbor_head major (word_of_nat (length bs)) @ bs"

definition field_bytes :: "byte list pv_custom_field \<Rightarrow> byte list" where
  "field_bytes f =
     cbor_head 5 3 @ cbor_head 0 0 @ cbor_blob 3 (f_name f) @ cbor_head 0 1 @ cbor_blob 2 (f_value f) @
     cbor_head 0 2 @ cbor_head 0 (ucast (f_flags f))"

definition record_bytes :: "byte list pv_record \<Rightarrow> byte list" where
  "record_bytes r =
     cbor_head 5 12 @ cbor_head 0 0 @ cbor_blob 2 (r_id r) @ cbor_head 0 1 @ cbor_head 0 (r_revision r) @
     cbor_head 0 2 @ cbor_head 0 (r_created_ms r) @ cbor_head 0 3 @ cbor_head 0 (r_updated_ms r) @
     cbor_head 0 4 @ cbor_head 0 (ucast (r_flags r)) @ cbor_head 0 5 @ cbor_blob 3 (r_title r) @
     cbor_head 0 6 @ cbor_blob 3 (r_username r) @ cbor_head 0 7 @ cbor_blob 2 (r_password r) @
     cbor_head 0 8 @ cbor_head 4 (word_of_nat (length (r_urls r))) @ concat (map (cbor_blob 3) (r_urls r)) @
     cbor_head 0 9 @ cbor_blob 3 (r_notes r) @
     cbor_head 0 10 @ cbor_head 4 (word_of_nat (length (r_tags r))) @ concat (map (cbor_blob 3) (r_tags r)) @
     cbor_head 0 11 @ cbor_head 4 (word_of_nat (length (r_fields r))) @ concat (map field_bytes (r_fields r))"

definition top_bytes :: "u64 \<Rightarrow> byte list \<Rightarrow> i64 \<Rightarrow> i64 \<Rightarrow> nat \<Rightarrow> byte list" where
  "top_bytes generation device_id created updated count =
     cbor_head 5 6 @ cbor_head 0 0 @ cbor_head 0 PV_CBOR_SCHEMA_VERSION @
     cbor_head 0 1 @ cbor_head 0 generation @ cbor_head 0 2 @ cbor_blob 2 device_id @
     cbor_head 0 3 @ cbor_head 0 created @ cbor_head 0 4 @ cbor_head 0 updated @
     cbor_head 0 5 @ cbor_head 4 (word_of_nat count)"

definition vault_bytes :: "u64 \<Rightarrow> byte list \<Rightarrow> i64 \<Rightarrow> i64 \<Rightarrow> byte list pv_record list \<Rightarrow> byte list" where
  "vault_bytes generation device_id created updated rs =
     top_bytes generation device_id created updated (length rs) @ concat (map record_bytes rs)"

section \<open>Bytes of the argument\<close>

lemma be_bytes_Suc: "be_bytes (Suc n) v = be_bytes n (drop_bit 8 v) @ [ucast v]"
proof -
  have "drop_bit ((n - i) * 8) v = drop_bit ((n - 1 - i) * 8) (drop_bit 8 v)" if "i < n" for i
  proof -
    have "(n - i) * 8 = (n - 1 - i) * 8 + 8" using that by (cases n) (auto simp: Suc_diff_le)
    then show ?thesis by (simp add: drop_bit_drop_bit)
  qed
  then show ?thesis by (simp add: be_bytes_def)
qed

lemma be_bytes_0 [simp]: "be_bytes 0 v = []"
  by (simp add: be_bytes_def)

lemma length_be_bytes [simp]: "length (be_bytes n v) = n"
  by (simp add: be_bytes_def)

lemma be_value_Nil [simp]: "be_value [] = 0"
  and be_value_snoc: "be_value (bs @ [b]) = push_bit 8 (be_value bs) OR ucast b"
  by (simp_all add: be_value_def)

lemma be_value_be_bytes: "n \<le> 8 \<Longrightarrow> be_value (be_bytes n v) = take_bit (8 * n) v"
proof (induction n arbitrary: v)
  case (Suc n)
  have "push_bit 8 (take_bit (8 * n) (drop_bit 8 v)) OR ucast (ucast v :: byte) = take_bit (8 * Suc n) v"
    by (rule bit_word_eqI) (auto simp: bit_simps)
  with Suc show ?case by (simp add: be_bytes_Suc be_value_snoc)
qed simp

lemma be_value_bound: "length bs \<le> 8 \<Longrightarrow> take_bit (8 * length bs) (be_value bs) = be_value bs"
proof (induction bs rule: rev_induct)
  case (snoc b bs)
  have "take_bit (8 * Suc (length bs)) (push_bit 8 x OR ucast b) = push_bit 8 (take_bit (8 * length bs) x) OR ucast b"
    for x :: u64
    by (rule bit_word_eqI) (auto simp: bit_simps dest: bit_imp_le_length)
  with snoc show ?case by (simp add: be_value_snoc)
qed simp

lemma be_bytes_be_value: "length bs \<le> 8 \<Longrightarrow> be_bytes (length bs) (be_value bs) = bs"
proof (induction bs rule: rev_induct)
  case (snoc b bs)
  have b: "take_bit (8 * length bs) (be_value bs) = be_value bs" using snoc.prems by (intro be_value_bound) simp
  have "drop_bit 8 (push_bit 8 (take_bit (8 * length bs) x) OR ucast b) = take_bit (8 * length bs) x"
    for x :: u64
    using snoc.prems by (intro bit_word_eqI) (auto simp: bit_simps dest: bit_imp_le_length)
  from this [of "be_value bs"] have "drop_bit 8 (push_bit 8 (be_value bs) OR ucast b) = be_value bs"
    by (simp add: b)
  moreover have "ucast (push_bit 8 x OR ucast b :: u64) = b" for x
    by (rule bit_word_eqI) (auto simp: bit_simps)
  ultimately show ?case using snoc by (simp add: be_value_snoc be_bytes_Suc)
qed simp

lemma take_bit_small: "unat v < 2 ^ n \<Longrightarrow> take_bit n v = v"
  by (simp add: word_unat_eq_iff unsigned_take_bit_eq take_bit_nat_eq_self)

lemma word_and_1f: "b AND 0x1f = take_bit 5 b" for b :: byte
  by (simp add: take_bit_eq_mask mask_eq_exp_minus_1)

section \<open>Initial bytes\<close>

lemma initial_byte_fields:
  assumes "major < 8" "low < 32"
  shows "drop_bit 5 (initial_byte major low) = major" "initial_byte major low AND 0x1f = low"
proof -
  have m: "take_bit 3 major = major" and l: "take_bit 5 low = low"
    using assms by (simp_all add: take_bit_small word_less_nat_alt)
  have "drop_bit 5 (push_bit 5 (take_bit 3 major) OR take_bit 5 low) = take_bit 3 major"
    by (rule bit_word_eqI) (auto simp: bit_simps)
  then show "drop_bit 5 (initial_byte major low) = major" by (simp add: initial_byte_def m l)
  have "take_bit 5 (push_bit 5 major OR take_bit 5 low) = take_bit 5 low"
    by (rule bit_word_eqI) (auto simp: bit_simps)
  then show "initial_byte major low AND 0x1f = low"
    by (simp add: initial_byte_def l word_and_1f)
qed

lemma initial_byte_split: "initial_byte (drop_bit 5 b) (b AND 0x1f) = b"
  unfolding initial_byte_def word_and_1f by (rule bit_word_eqI) (auto simp: bit_simps)

section \<open>What a reading function accepts\<close>

definition rd_tail :: "cbor_reader \<Rightarrow> byte list" where
  "rd_tail r = drop (rd_pos r) (rd_data r)"

definition rd_ok :: "cbor_reader \<Rightarrow> bool" where
  "rd_ok r \<longleftrightarrow> rd_status r = PV_OK \<and> rd_pos r \<le> length (rd_data r)"

definition advance :: "nat \<Rightarrow> cbor_reader \<Rightarrow> cbor_reader" where
  "advance n r = r\<lparr>rd_pos := rd_pos r + n\<rparr>"

text \<open>
  \<open>accepts rd P enc\<close>: the function succeeds with a value exactly when the input goes on with
  the encoding of that value and the value satisfies \<open>P\<close>; it then stands behind the encoding.
\<close>

definition accepts :: "'a reads \<Rightarrow> ('a \<Rightarrow> bool) \<Rightarrow> ('a \<Rightarrow> byte list) \<Rightarrow> bool" where
  "accepts rd P enc \<longleftrightarrow>
     (\<forall>r x r'. rd_ok r \<longrightarrow>
        (rd r = (Some x, r') \<longleftrightarrow>
           P x \<and> (\<exists>rest. rd_tail r = enc x @ rest) \<and> r' = advance (length (enc x)) r))"

lemma acceptsI:
  assumes "\<And>r x r'. rd_ok r \<Longrightarrow> rd r = (Some x, r') \<Longrightarrow>
      P x \<and> (\<exists>rest. rd_tail r = enc x @ rest) \<and> r' = advance (length (enc x)) r"
    and "\<And>r x rest. rd_ok r \<Longrightarrow> P x \<Longrightarrow> rd_tail r = enc x @ rest \<Longrightarrow>
      rd r = (Some x, advance (length (enc x)) r)"
  shows "accepts rd P enc"
  using assms unfolding accepts_def by blast

lemma acceptsD:
  assumes "accepts rd P enc" "rd_ok r" "rd r = (Some x, r')"
  obtains rest where "P x" "rd_tail r = enc x @ rest" "r' = advance (length (enc x)) r"
  using assms unfolding accepts_def by blast

lemma acceptsE:
  assumes "accepts rd P enc" "rd_ok r" "P x" "rd_tail r = enc x @ rest"
  shows "rd r = (Some x, advance (length (enc x)) r)"
  using assms unfolding accepts_def by blast

lemma rd_tail_advance: "rd_tail r = bs @ rest \<Longrightarrow> rd_tail (advance (length bs) r) = rest"
  by (metis rd_tail_def advance_def cbor_reader.select_convs(1,2) cbor_reader.surjective
      cbor_reader.update_convs(2) append_eq_conv_conj drop_drop add.commute)

lemma rd_ok_advance: "rd_ok r \<Longrightarrow> rd_tail r = bs @ rest \<Longrightarrow> rd_ok (advance (length bs) r)"
proof -
  assume "rd_ok r" "rd_tail r = bs @ rest"
  moreover have "length (rd_tail r) = length (rd_data r) - rd_pos r" by (simp add: rd_tail_def)
  ultimately show ?thesis by (auto simp: rd_ok_def advance_def)
qed

lemma advance_advance [simp]: "advance m (advance n r) = advance (n + m) r"
  by (simp add: advance_def add.assoc)

lemma advance_0 [simp]: "advance 0 r = r"
  by (simp add: advance_def)

lemma accepts_weaken:
  "accepts rd P enc \<Longrightarrow> (\<And>x. P x \<longleftrightarrow> P' x) \<Longrightarrow> (\<And>x. P' x \<Longrightarrow> enc x = enc' x) \<Longrightarrow> accepts rd P' enc'"
  unfolding accepts_def by (metis (no_types, lifting))

text \<open>
  Building a result out of the values read: in \<open>(sel y = x \<and> E y) \<and> Q y\<close> the first part says
  where the values bound so far are found in the result \<open>y\<close>.
\<close>

lemma accepts_bind:
  assumes rd: "accepts rd P enc"
    and k: "\<And>x. P x \<Longrightarrow> accepts (k x) (\<lambda>y. (sel y = x \<and> E y) \<and> Q y) g"
  shows "accepts (rd_bind rd k) (\<lambda>y. E y \<and> P (sel y) \<and> Q y) (\<lambda>y. enc (sel y) @ g y)"
proof (rule acceptsI)
  fix r y r'
  assume ok: "rd_ok r" and run: "rd_bind rd k r = (Some y, r')"
  then obtain x r1 where "rd r = (Some x, r1)" and k1: "k x r1 = (Some y, r')"
    by (auto simp: rd_bind_def split: prod.splits option.splits)
  from acceptsD [OF rd ok this(1)] obtain rest where
    x: "P x" "rd_tail r = enc x @ rest" "r1 = advance (length (enc x)) r" .
  have ok1: "rd_ok r1" using rd_ok_advance [OF ok x(2)] x(3) by simp
  from acceptsD [OF k [OF x(1)] ok1 k1] obtain rest' where
    "(sel y = x \<and> E y) \<and> Q y" "rd_tail r1 = g y @ rest'" "r' = advance (length (g y)) r1" .
  with x rd_tail_advance [OF x(2)]
  show "(E y \<and> P (sel y) \<and> Q y) \<and> (\<exists>rest. rd_tail r = (enc (sel y) @ g y) @ rest) \<and>
      r' = advance (length (enc (sel y) @ g y)) r" by auto
next
  fix r y rest
  assume ok: "rd_ok r" and y: "E y \<and> P (sel y) \<and> Q y" and t: "rd_tail r = (enc (sel y) @ g y) @ rest"
  have t1: "rd_tail r = enc (sel y) @ (g y @ rest)" using t by simp
  have "rd r = (Some (sel y), advance (length (enc (sel y))) r)" using acceptsE [OF rd ok _ t1] y by blast
  moreover have "k (sel y) (advance (length (enc (sel y))) r) =
      (Some y, advance (length (g y)) (advance (length (enc (sel y))) r))"
    using y by (intro acceptsE [OF k rd_ok_advance [OF ok t1] _ rd_tail_advance [OF t1]]) auto
  ultimately show "rd_bind rd k r = (Some y, advance (length (enc (sel y) @ g y)) r)"
    by (simp add: rd_bind_def)
qed

lemma accepts_return: "accepts (rd_return x) (\<lambda>y. y = x) (\<lambda>y. [])"
  by (rule acceptsI) (auto simp: rd_return_def)

lemma accepts_unit:
  fixes rd :: "unit reads"
  assumes rd: "accepts rd (\<lambda>_. True) (\<lambda>_. enc)" and k: "accepts k (\<lambda>y. E y \<and> Q y) g"
  shows "accepts (rd_bind rd (\<lambda>_. k)) (\<lambda>y. E y \<and> Q y) (\<lambda>y. enc @ g y)"
  using accepts_bind [OF rd, of "\<lambda>_. k" "\<lambda>_. ()" "\<lambda>_. True" "\<lambda>y. E y \<and> Q y" g] k by simp

lemma accepts_check:
  assumes c: "\<And>y. E y \<Longrightarrow> b \<longleftrightarrow> c y" and k: "b \<Longrightarrow> accepts k (\<lambda>y. E y \<and> Q y) g"
  shows "accepts (rd_bind (rd_check b) (\<lambda>_. k)) (\<lambda>y. E y \<and> c y \<and> Q y) g"
proof (cases b)
  case True
  have "rd_bind (rd_check b) (\<lambda>_. k) = k"
    by (simp add: True rd_check_def rd_bind_def [abs_def] rd_return_def)
  with k [OF True] show ?thesis by (auto intro: accepts_weaken simp: True c [symmetric])
next
  case False
  then have "rd_bind (rd_check b) (\<lambda>_. k) r \<noteq> (Some y, r')" for r y r'
    by (simp add: rd_check_def rd_bind_def reader_fail_def)
  with False c show ?thesis by (intro acceptsI) auto
qed

lemma accepts_times:
  assumes rd: "accepts rd P enc"
  shows "accepts (rd_times n rd) (\<lambda>xs. length xs = n \<and> list_all P xs) (\<lambda>xs. concat (map enc xs))"
proof (induction n)
  case 0
  show ?case using accepts_return [of "[]"] by (auto elim: accepts_weaken)
next
  case (Suc n)
  have r: "accepts (rd_return (x # xs)) (\<lambda>y. (tl y = xs \<and> (y \<noteq> [] \<and> hd y = x)) \<and> True) (\<lambda>y. [])"
    for x and xs :: "'a list"
    by (rule accepts_weaken [OF accepts_return]) (auto simp: neq_Nil_conv)
  have "accepts (rd_bind (rd_times n rd) (\<lambda>xs. rd_return (x # xs)))
      (\<lambda>y. (y \<noteq> [] \<and> hd y = x) \<and> (length (tl y) = n \<and> list_all P (tl y)) \<and> True)
      (\<lambda>y. concat (map enc (tl y)) @ [])" for x
    by (rule accepts_bind [OF Suc r])
  then have "accepts (rd_bind (rd_times n rd) (\<lambda>xs. rd_return (x # xs)))
      (\<lambda>y. (hd y = x \<and> y \<noteq> []) \<and> (length (tl y) = n \<and> list_all P (tl y)))
      (\<lambda>y. concat (map enc (tl y)))" for x
    by (rule accepts_weaken) auto
  from accepts_bind [OF rd this]
  have "accepts (rd_times (Suc n) rd)
      (\<lambda>y. y \<noteq> [] \<and> P (hd y) \<and> length (tl y) = n \<and> list_all P (tl y))
      (\<lambda>y. enc (hd y) @ concat (map enc (tl y)))" by simp
  then show ?case by (rule accepts_weaken) (auto simp: neq_Nil_conv length_Suc_conv)
qed

lemma accepts_repeat:
  assumes rd: "accepts rd P enc"
    and k: "\<And>xs. length xs = n \<Longrightarrow> list_all P xs \<Longrightarrow> accepts (k xs) (\<lambda>y. (sel y = xs \<and> E y) \<and> Q y) g"
  shows "accepts (rd_bind (rd_times n rd) k)
    (\<lambda>y. (length (sel y) = n \<and> E y) \<and> list_all P (sel y) \<and> Q y)
    (\<lambda>y. concat (map enc (sel y)) @ g y)"
proof -
  have "accepts (rd_bind (rd_times n rd) k) (\<lambda>y. E y \<and> (length (sel y) = n \<and> list_all P (sel y)) \<and> Q y)
      (\<lambda>y. concat (map enc (sel y)) @ g y)"
    by (rule accepts_bind [OF accepts_times [OF rd]]) (use k in blast)
  then show ?thesis by (rule accepts_weaken) auto
qed

section \<open>Heads and blobs\<close>

lemma reader_take_cases:
  assumes "rd_ok r"
  shows "reader_take r = (case rd_tail r of [] \<Rightarrow> rd_error PV_ERR_FORMAT r | b # rest \<Rightarrow> (Some b, advance 1 r))"
  using assms
  by (auto simp: reader_take_def rd_ok_def rd_tail_def advance_def not_le Cons_nth_drop_Suc [symmetric]
      split: list.splits)

lemma word64_le: "v \<le> w \<longleftrightarrow> unat v \<le> unat w" for v w :: u64
  by (simp add: word_le_nat_alt)

text \<open>The reader of an argument accepts the shortest form only.\<close>

definition arg_minimal :: "nat \<Rightarrow> u64 \<Rightarrow> bool" where
  "arg_minimal width v \<longleftrightarrow>
     \<not> ((width = 1 \<and> v < 24) \<or> (width = 2 \<and> v \<le> 0xff) \<or> (width = 4 \<and> v \<le> 0xffff) \<or>
        (width = 8 \<and> v \<le> 0xffffffff))"

lemma accepts_argument:
  assumes "width \<le> 8"
  shows "accepts (reader_argument width)
    (\<lambda>v. arg_minimal width v \<and> take_bit (8 * width) v = v) (be_bytes width)"
proof (rule acceptsI)
  fix r v r'
  assume ok: "rd_ok r" and run: "reader_argument width r = (Some v, r')"
  let ?bs = "take width (rd_tail r)"
  have len: "length ?bs = width" using run
    by (auto simp: reader_argument_def rd_tail_def rd_error_def Let_def split: if_splits)
  have v: "v = be_value ?bs" "arg_minimal width v" "r' = advance width r"
    using run by (auto simp: reader_argument_def rd_tail_def rd_error_def arg_minimal_def advance_def
        Let_def split: if_splits)
  have "be_bytes width v = ?bs" using be_bytes_be_value [of ?bs, unfolded len] assms v(1) by simp
  moreover have "take_bit (8 * width) v = v" using be_value_bound [of ?bs, unfolded len] assms v(1) by simp
  ultimately show "(arg_minimal width v \<and> take_bit (8 * width) v = v) \<and>
      (\<exists>rest. rd_tail r = be_bytes width v @ rest) \<and> r' = advance (length (be_bytes width v)) r"
    using v by (metis append_take_drop_id length_be_bytes)
next
  fix r v rest
  assume ok: "rd_ok r" and v: "arg_minimal width v \<and> take_bit (8 * width) v = v"
    and t: "rd_tail r = be_bytes width v @ rest"
  have "width \<le> length (rd_tail r)" using t by simp
  then have "\<not> width > length (rd_data r) - rd_pos r" by (simp add: rd_tail_def)
  moreover have "be_value (take width (drop (rd_pos r) (rd_data r))) = v"
    using t v be_value_be_bytes [OF assms] by (simp add: rd_tail_def [symmetric])
  ultimately show "reader_argument width r = (Some v, advance (length (be_bytes width v)) r)"
    using v by (auto simp: reader_argument_def arg_minimal_def advance_def Let_def)
qed


text \<open>The width of the argument and the low bits of the initial byte of a value.\<close>

definition head_width :: "u64 \<Rightarrow> nat" where
  "head_width v = (if v < 24 then 0 else if v \<le> 0xff then 1 else if v \<le> 0xffff then 2
     else if v \<le> 0xffffffff then 4 else 8)"

definition head_low :: "u64 \<Rightarrow> byte" where
  "head_low v = (if v < 24 then ucast v else if v \<le> 0xff then 24 else if v \<le> 0xffff then 25
     else if v \<le> 0xffffffff then 26 else 27)"

lemma cbor_head_eq: "cbor_head major v = initial_byte major (head_low v) # be_bytes (head_width v) v"
  by (simp add: cbor_head_def head_width_def head_low_def)

lemma unat_ucast_low: "v < 24 \<Longrightarrow> unat (ucast v :: byte) = unat v" for v :: u64
  by (simp add: unsigned_ucast_eq take_bit_nat_eq_self word_less_nat_alt)

lemma head_low_range: "head_low v < 28"
  using unat_ucast_low [of v] by (auto simp: head_low_def word_less_nat_alt)

lemma head_low_cases:
  shows "head_low v < 24 \<longleftrightarrow> v < 24" "v < 24 \<Longrightarrow> ucast (head_low v) = v"
    and "head_low v = 24 \<longleftrightarrow> head_width v = 1" "head_low v = 25 \<longleftrightarrow> head_width v = 2"
    and "head_low v = 26 \<longleftrightarrow> head_width v = 4" "head_low v = 27 \<longleftrightarrow> head_width v = 8"
proof -
  have small: "ucast v < (24 :: byte)" if "v < 24"
    using unat_ucast_low [OF that] that by (simp add: word_less_nat_alt)
  then have ne: "ucast v \<noteq> (24 :: byte)" "ucast v \<noteq> (25 :: byte)" "ucast v \<noteq> (26 :: byte)"
    "ucast v \<noteq> (27 :: byte)" if "v < 24" using that by fastforce+
  show "head_low v < 24 \<longleftrightarrow> v < 24" using small by (simp add: head_low_def)
  show "v < 24 \<Longrightarrow> ucast (head_low v) = v"
    using unat_ucast_low [of v] by (simp add: head_low_def word_unat_eq_iff unat_ucast_byte)
  show "head_low v = 24 \<longleftrightarrow> head_width v = 1" "head_low v = 25 \<longleftrightarrow> head_width v = 2"
    "head_low v = 26 \<longleftrightarrow> head_width v = 4" "head_low v = 27 \<longleftrightarrow> head_width v = 8"
    using ne by (auto simp: head_low_def head_width_def)
qed

lemma head_width_fits: "0 < head_width v \<Longrightarrow> take_bit (8 * head_width v) v = v"
  by (auto simp: head_width_def word_le_nat_alt intro!: take_bit_small split: if_splits)
    (use unsigned_less [of v, where ?'a = nat] in simp)

lemma head_width_iff:
  assumes "width \<in> {1, 2, 4, 8}"
  shows "head_width v = width \<longleftrightarrow> arg_minimal width v \<and> take_bit (8 * width) v = v"
proof -
  have t: "take_bit n v = v \<longleftrightarrow> unat v < 2 ^ n" if "n \<le> 64" for n
    using that by (metis take_bit_small take_bit_nat_less_exp unsigned_take_bit_eq)
  have b: "unat v < 2 ^ 64" using unsigned_less [of v, where ?'a = nat] by simp
  show ?thesis
    using assms b by (auto simp: head_width_def arg_minimal_def t word_le_nat_alt word_less_nat_alt)
qed


lemma reader_value_Cons:
  assumes ok: "rd_ok r" and t: "rd_tail r = b # rest"
  shows "reader_value major r =
    (if drop_bit 5 b \<noteq> major then rd_error PV_ERR_FORMAT (advance 1 r)
     else if b AND 0x1f < 24 then (Some (ucast (b AND 0x1f)), advance 1 r)
     else if b AND 0x1f = 24 then reader_argument 1 (advance 1 r)
     else if b AND 0x1f = 25 then reader_argument 2 (advance 1 r)
     else if b AND 0x1f = 26 then reader_argument 4 (advance 1 r)
     else if b AND 0x1f = 27 then reader_argument 8 (advance 1 r)
     else rd_error PV_ERR_FORMAT (advance 1 r))"
  by (simp add: reader_value_def reader_take_cases [OF ok] t Let_def)

lemma reader_value_sound:
  assumes major: "major < 8" and ok: "rd_ok r" and run: "reader_value major r = (Some v, r')"
  shows "(\<exists>rest. rd_tail r = cbor_head major v @ rest) \<and> r' = advance (length (cbor_head major v)) r"
proof -
  obtain b rest where t: "rd_tail r = b # rest"
    using run by (cases "rd_tail r") (auto simp: reader_value_def reader_take_cases [OF ok] rd_error_def)
  note step = run [unfolded reader_value_Cons [OF ok t]]
  have m: "drop_bit 5 b = major" using step by (auto simp: rd_error_def split: if_splits)
  have ok1: "rd_ok (advance 1 r)" using rd_ok_advance [OF ok, of "[b]" rest] t by simp
  have t1: "rd_tail (advance 1 r) = rest" using rd_tail_advance [of r "[b]" rest] t by simp
  let ?low = "b AND 0x1f"
  have b: "b = initial_byte major ?low" using initial_byte_split [of b] m by simp
  have arg: "?thesis" if w: "reader_argument w (advance 1 r) = (Some v, r')" "w \<in> {1, 2, 4, 8}"
    "\<And>u. head_width u = w \<Longrightarrow> head_low u = ?low" for w
  proof -
    have "w \<le> 8" using w(2) by auto
    from acceptsD [OF accepts_argument [OF this] ok1 w(1)] obtain rest' where
      "arg_minimal w v \<and> take_bit (8 * w) v = v" "rd_tail (advance 1 r) = be_bytes w v @ rest'"
      "r' = advance (length (be_bytes w v)) (advance 1 r)" .
    with head_width_iff [OF w(2), of v] w(3) [of v] b t t1 show ?thesis by (simp add: cbor_head_eq)
  qed
  consider (small) "?low < 24" "v = ucast ?low" "r' = advance 1 r" | (w1) "?low = 24" "reader_argument 1 (advance 1 r) = (Some v, r')"
    | (w2) "?low = 25" "reader_argument 2 (advance 1 r) = (Some v, r')"
    | (w4) "?low = 26" "reader_argument 4 (advance 1 r) = (Some v, r')"
    | (w8) "?low = 27" "reader_argument 8 (advance 1 r) = (Some v, r')"
    using step by (auto simp: rd_error_def m split: if_splits)
  then show ?thesis
  proof cases
    case small
    have u: "unat v = unat ?low" by (simp add: small(2) unat_ucast_byte)
    with small(1) have "v < 24" by (simp add: word_less_nat_alt)
    moreover from this u have "ucast v = ?low" using unat_ucast_low by (simp add: word_unat_eq_iff)
    ultimately show ?thesis using small b t by (simp add: cbor_head_def)
  qed (use arg head_low_cases in auto)
qed

lemma reader_value_complete:
  assumes major: "major < 8" and ok: "rd_ok r" and t: "rd_tail r = cbor_head major v @ rest"
  shows "reader_value major r = (Some v, advance (length (cbor_head major v)) r)"
proof -
  let ?b = "initial_byte major (head_low v)"
  have t': "rd_tail r = ?b # (be_bytes (head_width v) v @ rest)" using t by (simp add: cbor_head_eq)
  have low: "head_low v < 32" using head_low_range [of v] by (simp add: word_less_nat_alt)
  note f = initial_byte_fields [OF major low]
  have ok1: "rd_ok (advance 1 r)" using rd_ok_advance [OF ok, of "[?b]"] t' by simp
  have t1: "rd_tail (advance 1 r) = be_bytes (head_width v) v @ rest"
    using rd_tail_advance [of r "[?b]"] t' by simp
  show ?thesis
  proof (cases "v < 24")
    case True
    then show ?thesis
      using head_low_cases(1,2) [of v] by (simp add: reader_value_Cons [OF ok t'] f cbor_head_eq head_width_def)
  next
    case False
    then have w: "head_width v \<in> {1, 2, 4, 8}" by (auto simp: head_width_def)
    then have "head_width v \<le> 8" by auto
    then have "reader_argument (head_width v) (advance 1 r) =
        (Some v, advance (length (be_bytes (head_width v) v)) (advance 1 r))"
      using head_width_iff [OF w, of v] by (intro acceptsE [OF accepts_argument ok1 _ t1]) auto
    then show ?thesis
      using w False head_low_cases [of v]
      by (auto simp: reader_value_Cons [OF ok t'] f cbor_head_eq)
  qed
qed

lemma accepts_value: "major < 8 \<Longrightarrow> accepts (reader_value major) (\<lambda>v. True) (cbor_head major)"
  using reader_value_sound reader_value_complete by (intro acceptsI) blast+

section \<open>The contract of a codec\<close>

text \<open>
  A reading function and an encoding that belong together. Decoding is unambiguous, even in front
  of arbitrary further input, and lists of items are read back item by item.
\<close>

locale codec =
  fixes rd :: "'a reads" and P :: "'a \<Rightarrow> bool" and enc :: "'a \<Rightarrow> byte list"
  assumes accepted: "accepts rd P enc"
begin

lemma unambiguous:
  assumes "P x" "P y" "enc x @ rest = enc y @ rest'"
  shows "x = y \<and> rest = rest'"
proof -
  let ?r = "\<lparr>rd_data = enc x @ rest, rd_pos = 0, rd_status = PV_OK\<rparr>"
  have ok: "rd_ok ?r" by (simp add: rd_ok_def)
  have "rd ?r = (Some x, advance (length (enc x)) ?r)"
    by (rule acceptsE [OF accepted ok assms(1)]) (simp add: rd_tail_def)
  moreover have "rd ?r = (Some y, advance (length (enc y)) ?r)"
    by (rule acceptsE [OF accepted ok assms(2)]) (simp add: rd_tail_def assms(3))
  ultimately show ?thesis using assms(3) by simp
qed

lemma unambiguous_list:
  "list_all P xs \<Longrightarrow> list_all P ys \<Longrightarrow> length xs = length ys \<Longrightarrow>
     concat (map enc xs) @ rest = concat (map enc ys) @ rest' \<Longrightarrow> xs = ys \<and> rest = rest'"
proof (induction xs arbitrary: ys)
  case (Cons x xs)
  then obtain y ys' where ys: "ys = y # ys'" by (cases ys) auto
  with Cons.prems have eq: "enc x @ (concat (map enc xs) @ rest) = enc y @ (concat (map enc ys') @ rest')"
    and P: "P x" "P y" by simp_all
  from unambiguous [OF P eq] have "x = y" "concat (map enc xs) @ rest = concat (map enc ys') @ rest'"
    by simp_all
  with Cons.IH [of ys'] Cons.prems ys show ?case by simp
qed simp

lemma read_list:
  assumes "rd_ok r" "list_all P xs" "rd_tail r = concat (map enc xs) @ rest"
  shows "rd_times (length xs) rd r = (Some xs, advance (length (concat (map enc xs))) r)"
  using assms by (intro acceptsE [OF accepts_times [OF accepted]]) auto

end

interpretation head: codec "reader_value 0" "\<lambda>v. True" "cbor_head 0"
  by unfold_locales (rule accepts_value, simp)

lemma accepts_expect: "accepts (reader_expect_uint k) (\<lambda>_. True) (\<lambda>_. cbor_head 0 k)"
proof (rule acceptsI)
  fix r r' and u :: unit
  assume ok: "rd_ok r" and "reader_expect_uint k r = (Some u, r')"
  then have "reader_value 0 r = (Some k, r')"
    by (auto simp: reader_expect_uint_def rd_error_def split: prod.splits option.splits if_splits)
  from acceptsD [OF head.accepted ok this] show "True \<and> (\<exists>rest. rd_tail r = cbor_head 0 k @ rest) \<and>
      r' = advance (length (cbor_head 0 k)) r" by blast
next
  fix r rest and u :: unit
  assume "rd_ok r" "rd_tail r = cbor_head 0 k @ rest"
  from acceptsE [OF head.accepted this(1) _ this(2)]
  show "reader_expect_uint k r = (Some u, advance (length (cbor_head 0 k)) r)"
    by (simp add: reader_expect_uint_def)
qed

lemma accepts_filter:
  assumes rd: "accepts rd P enc"
    and f: "\<And>x r. f x r = (if C x then (Some (h x), r) else (None, err x r))"
    and sel: "\<And>x. P x \<Longrightarrow> C x \<Longrightarrow> sel (h x) = x" "\<And>y. Q y \<Longrightarrow> P (sel y) \<and> C (sel y) \<and> h (sel y) = y"
      "\<And>x. P x \<Longrightarrow> C x \<Longrightarrow> Q (h x)"
  shows "accepts (rd_bind rd f) Q (\<lambda>y. enc (sel y))"
proof (rule acceptsI)
  fix r y r'
  assume ok: "rd_ok r" and "rd_bind rd f r = (Some y, r')"
  then obtain x where x: "rd r = (Some x, r')" "C x" "y = h x"
    by (auto simp: rd_bind_def f split: prod.splits option.splits if_splits)
  from acceptsD [OF rd ok x(1)] x(2,3) sel show "Q y \<and> (\<exists>rest. rd_tail r = enc (sel y) @ rest) \<and>
      r' = advance (length (enc (sel y))) r" by (metis (no_types))
next
  fix r y rest
  assume "rd_ok r" "Q y" "rd_tail r = enc (sel y) @ rest"
  with acceptsE [OF rd this(1) _ this(3)] sel(2)
  show "rd_bind rd f r = (Some y, advance (length (enc (sel y))) r)" by (simp add: rd_bind_def f)
qed

lemma accepts_count:
  assumes "major < 8" "maximum < 2 ^ 64"
  shows "accepts (reader_count major maximum) (\<lambda>n. n \<le> maximum) (\<lambda>n. cbor_head major (word_of_nat n))"
  unfolding reader_count_def
proof (rule accepts_filter [OF accepts_value [OF assms(1)],
    where C = "\<lambda>v. unat v \<le> maximum" and h = unat and err = "\<lambda>x r. r\<lparr>rd_status := PV_ERR_LIMIT\<rparr>"])
  show "(if maximum < unat x \<or> SIZE_MAX < x then rd_error PV_ERR_LIMIT else rd_return (unat x)) r =
      (if unat x \<le> maximum then (Some (unat x), r) else (None, r\<lparr>rd_status := PV_ERR_LIMIT\<rparr>))" for x r
    by (auto simp: rd_error_def rd_return_def word_order.extremum [THEN leD])
  show "True \<and> unat (word_of_nat y :: u64) \<le> maximum \<and> unat (word_of_nat y :: u64) = y"
    if "y \<le> maximum" for y
    using that assms(2) unat_mark [of y SIZE_MAX] by (simp add: unat_max64)
qed simp_all

definition blob_ok :: "byte \<Rightarrow> nat \<Rightarrow> pv_slice \<Rightarrow> bool" where
  "blob_ok major maximum sl \<longleftrightarrow> \<not> slice_null sl \<and> length (slice_bytes sl) \<le> maximum \<and>
     (major = 3 \<longrightarrow> utf8_bytes_valid (slice_bytes sl))"

lemma accepts_slice:
  assumes major: "major < 8" and maximum: "maximum < 2 ^ 64"
  shows "accepts (reader_slice major maximum) (blob_ok major maximum) (\<lambda>sl. cbor_blob major (slice_bytes sl))"
proof (rule acceptsI)
  fix r sl r'
  assume ok: "rd_ok r" and run: "reader_slice major maximum r = (Some sl, r')"
  then obtain len r1 where v: "reader_value major r = (Some len, r1)"
    by (auto simp: reader_slice_def rd_bind_def split: prod.splits option.splits)
  from acceptsD [OF accepts_value [OF major] ok v] obtain rest where
    t: "rd_tail r = cbor_head major len @ rest" "r1 = advance (length (cbor_head major len)) r" by blast
  have rest: "rest = rd_tail r1" using rd_tail_advance [OF t(1)] t(2) by simp
  have f: "unat len \<le> maximum" "unat len \<le> length rest" "sl = Bytes (take (unat len) rest)"
    "major = 3 \<longrightarrow> utf8_bytes_valid (take (unat len) rest)" "r' = advance (unat len) r1"
    using run v unfolding rest
    by (auto simp: reader_slice_def rd_bind_def rd_error_def rd_tail_def advance_def Let_def
        pv_utf8_valid_def split: if_splits)
  then have blob: "cbor_blob major (slice_bytes sl) = cbor_head major len @ take (unat len) rest"
    by (simp add: cbor_blob_def)
  have "rd_tail r = cbor_blob major (slice_bytes sl) @ drop (unat len) rest" by (simp add: t blob)
  moreover have "r' = advance (length (cbor_blob major (slice_bytes sl))) r"
    using f(2,5) by (simp add: t blob)
  moreover have "blob_ok major maximum sl" using f(1-4) by (simp add: blob_ok_def)
  ultimately show "blob_ok major maximum sl \<and>
      (\<exists>rest. rd_tail r = cbor_blob major (slice_bytes sl) @ rest) \<and>
      r' = advance (length (cbor_blob major (slice_bytes sl))) r" by blast
next
  fix r sl rest
  assume ok: "rd_ok r" and sl: "blob_ok major maximum sl"
    and t: "rd_tail r = cbor_blob major (slice_bytes sl) @ rest"
  obtain d where d: "sl = Bytes d" using sl by (cases sl) (auto simp: blob_ok_def)
  let ?len = "word_of_nat (length d) :: u64"
  have len: "unat ?len = length d"
    using sl maximum unat_mark [of "length d" SIZE_MAX] by (simp add: blob_ok_def d unat_max64)
  have t1: "rd_tail r = cbor_head major ?len @ (d @ rest)" using t by (simp add: d cbor_blob_def)
  have v: "reader_value major r = (Some ?len, advance (length (cbor_head major ?len)) r)"
    by (rule acceptsE [OF accepts_value [OF major] ok _ t1]) simp
  have "drop (rd_pos r + length (cbor_head major ?len)) (rd_data r) = d @ rest"
    using rd_tail_advance [OF t1] by (simp add: rd_tail_def advance_def)
  moreover from this have "length d \<le> length (rd_data r) - (rd_pos r + length (cbor_head major ?len))"
    by (metis length_append length_drop le_add1)
  ultimately show "reader_slice major maximum r =
      (Some sl, advance (length (cbor_blob major (slice_bytes sl))) r)"
    using sl len v
    by (auto simp: reader_slice_def rd_bind_def d blob_ok_def pv_utf8_valid_def advance_def cbor_blob_def
        Let_def add.assoc)
qed

section \<open>Fields and records\<close>

lemma accepts_start: "(\<And>y. y = t \<longleftrightarrow> E y) \<Longrightarrow> accepts (rd_return t) (\<lambda>y. E y \<and> True) (\<lambda>_. [])"
  by (rule accepts_weaken [OF accepts_return]) simp_all

lemma accepts_map:
  assumes n: "n < 2 ^ 64" and k: "accepts k (\<lambda>y. E y \<and> Q y) g"
  shows "accepts (rd_bind (reader_count 5 n) (\<lambda>c. rd_bind (rd_check (c = n)) (\<lambda>_. k)))
    (\<lambda>y. E y \<and> Q y) (\<lambda>y. cbor_head 5 (word_of_nat n) @ g y)"
proof -
  have k': "accepts (rd_bind (rd_check (c = n)) (\<lambda>_. k)) (\<lambda>y. (n = c \<and> E y) \<and> Q y) g" for c
    by (rule accepts_weaken [OF accepts_check [where E = "\<lambda>_. True" and Q = "\<lambda>y. E y \<and> Q y" and
          c = "\<lambda>_. c = n"]]) (use k in auto)
  have "accepts (rd_bind (reader_count 5 n) (\<lambda>c. rd_bind (rd_check (c = n)) (\<lambda>_. k)))
      (\<lambda>y. E y \<and> n \<le> n \<and> Q y) (\<lambda>y. cbor_head 5 (word_of_nat n) @ g y)"
    by (rule accepts_bind [OF accepts_count [OF _ n] k']) simp
  then show ?thesis by simp
qed

lemma accepts_value_start: "accepts (rd_return v) (\<lambda>y. (y = v \<and> True) \<and> True) (\<lambda>_. [])"
  by (rule accepts_start) simp

lemma accepts_time:
  "accepts (reader_time key) (\<lambda>v. v \<le> 0x7fffffffffffffff) (\<lambda>v. cbor_head 0 key @ cbor_head 0 v)"
  unfolding reader_time_def
  apply (rule accepts_weaken)
    apply (rule accepts_unit [OF accepts_expect])
    apply (rule accepts_bind [OF head.accepted])
    apply (rule accepts_check [where c = "\<lambda>v. \<not> v > 0x7fffffffffffffff", rotated])
     apply (rule accepts_value_start)
    apply (simp_all add: not_less)
  done

lemma u32_via_u64: "ucast (ucast f :: u64) = f" for f :: u32
  by (rule bit_word_eqI) (simp add: bit_simps)

lemma ucast_flags:
  fixes w :: u64 and known :: u32
  shows "\<not> (w > 0xffffffff \<or> w AND NOT (ucast known) \<noteq> 0) \<longleftrightarrow>
    ucast (ucast w :: u32) = w \<and> (ucast w :: u32) AND NOT known = 0"
proof -
  have fits: "\<not> w > 0xffffffff \<longleftrightarrow> ucast (ucast w :: u32) = w"
  proof -
    have "ucast (ucast w :: u32) = take_bit 32 w"
      by (rule bit_word_eqI) (auto simp: bit_simps dest: bit_imp_le_length)
    moreover have "take_bit 32 w = w \<longleftrightarrow> unat w < 2 ^ 32"
      by (metis take_bit_small take_bit_nat_less_exp unsigned_take_bit_eq)
    ultimately show ?thesis by (auto simp: word_less_nat_alt)
  qed
  have "w AND NOT (ucast known) = 0 \<longleftrightarrow> (ucast w :: u32) AND NOT known = 0"
    if "ucast (ucast w :: u32) = w"
  proof -
    have b: "n < 32" "n < 64" if "bit w n" for n
      using arg_cong [OF \<open>ucast (ucast w :: u32) = w\<close>, of "\<lambda>w. bit w n"] that
      by (auto simp: bit_simps dest: bit_imp_le_length)
    then show ?thesis by (simp add: bit_eq_iff bit_simps) blast
  qed
  with fits show ?thesis by auto
qed

lemma accepts_flags:
  "accepts (reader_flags key known) (\<lambda>f. f AND NOT known = 0) (\<lambda>f. cbor_head 0 key @ cbor_head 0 (ucast f))"
proof -
  have s: "accepts (rd_return (ucast v :: u32)) (\<lambda>y. (ucast y = v \<and> True) \<and> True) (\<lambda>_. [])"
    if "\<not> (v > 0xffffffff \<or> v AND NOT (ucast known) \<noteq> 0)" for v :: u64
    using that unfolding ucast_flags by (intro accepts_start) (auto simp: u32_via_u64)
  show ?thesis
    unfolding reader_flags_def
    apply (rule accepts_weaken)
      apply (rule accepts_unit [OF accepts_expect])
      apply (rule accepts_bind [OF head.accepted, where sel = ucast])
      apply (rule accepts_check [where c = "\<lambda>f. f AND NOT known = 0", rotated])
       apply (erule s)
      apply (unfold ucast_flags)
      apply (auto simp: u32_via_u64)
    done
qed

lemma slice_len_bytes: "\<not> slice_null sl \<Longrightarrow> slice_len sl = length (slice_bytes sl)"
  by (cases sl) simp_all

lemma field_start:
  "accepts (rd_return \<lparr>f_name = nm, f_value = val, f_flags = flg\<rparr>)
     (\<lambda>y. (f_flags y = flg \<and> f_value y = val \<and> f_name y = nm \<and> True) \<and> True) (\<lambda>_. [])"
  by (rule accepts_start) auto

definition field_ok :: "pv_slice pv_custom_field \<Rightarrow> bool" where
  "field_ok f \<longleftrightarrow> blob_ok 3 PV_MAX_FIELD_NAME (f_name f) \<and> blob_ok 2 PV_MAX_FIELD_VALUE (f_value f) \<and>
     field_wf (map_field slice_bytes f)"

lemma accepts_field: "accepts decode_field field_ok (\<lambda>f. field_bytes (map_field slice_bytes f))"
  unfolding decode_field_def
  apply (rule accepts_weaken)
    apply (rule accepts_map, simp)
    apply (rule accepts_unit [OF accepts_expect])
    apply (rule accepts_bind [OF accepts_slice], simp, simp)
    apply (rule accepts_check [where c = "\<lambda>f. slice_len (f_name f) \<noteq> 0", rotated])
     apply (rule accepts_unit [OF accepts_expect])
     apply (rule accepts_bind [OF accepts_slice], simp, simp)
     apply (rule accepts_bind [OF accepts_flags])
     apply (rule field_start)
    apply simp
   apply (auto simp: field_ok_def field_wf_def text_wf_def blob_ok_def slice_len_bytes) []
  apply (simp add: field_bytes_def)
  done

lemma record_start:
  assumes "\<not> slice_null rid"
  shows "accepts (rd_return
      \<lparr>r_id = slice_bytes rid, r_revision = revision, r_created_ms = created,
       r_updated_ms = updated, r_flags = flg, r_title = title, r_username = username,
       r_password = password, r_notes = notes, r_urls = urls, r_tags = tags, r_fields = customs\<rparr>)
    (\<lambda>y. (r_fields y = customs \<and> r_tags y = tags \<and> r_notes y = notes \<and> r_urls y = urls \<and>
       r_password y = password \<and> r_username y = username \<and> r_title y = title \<and> r_flags y = flg \<and>
       r_updated_ms y = updated \<and> r_created_ms y = created \<and> r_revision y = revision \<and>
       Bytes (r_id y) = rid \<and> True) \<and> True) (\<lambda>_. [])"
  using assms by (intro accepts_start) (cases rid; auto)

text \<open>What the reader of a record accepts, on slices that point into the input.\<close>

definition temporary_ok :: "pv_slice pv_record \<Rightarrow> bool" where
  "temporary_ok t \<longleftrightarrow> list_all (\<lambda>sl. \<not> slice_null sl) (record_slices t) \<and> stored_wf (map_record slice_bytes t)"

lemma sint_nonneg_iff: "0 \<le> sint v \<longleftrightarrow> v \<le> 0x7fffffffffffffff" for v :: i64
proof -
  have u: "uint v < 2 ^ 64" "0 \<le> uint v" using unsigned_less [of v, where ?'a = int] by simp_all
  have "0 \<le> sint v \<longleftrightarrow> \<not> bit (uint v) 63"
    by (simp add: sint_uint signed_take_bit_nonnegative_iff)
  also have "\<dots> \<longleftrightarrow> even (uint v div 2 ^ 63)" by (simp add: bit_iff_odd)
  also have "\<dots> \<longleftrightarrow> uint v < 2 ^ 63"
  proof (cases "uint v < 2 ^ 63")
    case True
    then show ?thesis using u by (simp add: div_pos_pos_trivial)
  next
    case False
    then have "uint v div 2 ^ 63 = 1"
      using u by (intro int_div_pos_eq [where r = "uint v - 2 ^ 63"]) simp_all
    with False show ?thesis by simp
  qed
  also have "\<dots> \<longleftrightarrow> v \<le> 0x7fffffffffffffff" by (simp add: word_le_def) linarith
  finally show ?thesis .
qed

lemma accepts_temporary: "accepts decode_temporary temporary_ok (\<lambda>t. record_bytes (map_record slice_bytes t))"
  unfolding decode_temporary_def
  apply (rule accepts_weaken)
    apply (rule accepts_map, simp)
    apply (rule accepts_unit [OF accepts_expect])
    apply (rule accepts_bind [OF accepts_slice], simp, simp)
    apply (rule accepts_check [where c = "\<lambda>y. length (r_id y) = PV_RECORD_ID_BYTES \<and> \<not> bytes_all_zero (r_id y)", rotated])
     apply (rule accepts_unit [OF accepts_expect])
     apply (rule accepts_bind [OF head.accepted])
     apply (rule accepts_check [where c = "\<lambda>y. r_revision y \<noteq> 0", rotated])
      apply (rule accepts_bind [OF accepts_time])
      apply (rule accepts_bind [OF accepts_time])
      apply (rule accepts_bind [OF accepts_flags])
      apply (rule accepts_unit [OF accepts_expect])
      apply (rule accepts_bind [OF accepts_slice], simp, simp)
      apply (rule accepts_check [where c = "\<lambda>y. slice_len (r_title y) \<noteq> 0", rotated])
       apply (rule accepts_unit [OF accepts_expect])
       apply (rule accepts_bind [OF accepts_slice], simp, simp)
       apply (rule accepts_unit [OF accepts_expect])
       apply (rule accepts_bind [OF accepts_slice], simp, simp)
       apply (rule accepts_unit [OF accepts_expect])
       apply (rule accepts_bind [OF accepts_count], simp, simp)
       apply (rule accepts_repeat [OF accepts_slice], simp, simp)
       apply (rule accepts_unit [OF accepts_expect])
       apply (rule accepts_bind [OF accepts_slice], simp, simp)
       apply (rule accepts_unit [OF accepts_expect])
       apply (rule accepts_bind [OF accepts_count], simp, simp)
       apply (rule accepts_repeat [OF accepts_slice], simp, simp)
       apply (rule accepts_unit [OF accepts_expect])
       apply (rule accepts_bind [OF accepts_count], simp, simp)
       apply (rule accepts_repeat [OF accepts_field])
       apply (rule record_start)
       apply (simp add: blob_ok_def)
      apply simp
     apply simp
    apply auto []
   apply (unfold temporary_ok_def list_all_record_slices) []
   apply (auto simp: stored_wf_def record_wf_def text_wf_def blob_ok_def slice_len_bytes field_ok_def
      field_wf_def sint_nonneg_iff list_all_iff id_is_zero_def bytes_all_zero_def) []
  apply (simp add: record_bytes_def comp_def)
  done

section \<open>The whole input\<close>

definition top_ok :: "u64 \<times> byte list \<times> i64 \<times> i64 \<times> nat \<Rightarrow> bool" where
  "top_ok = (\<lambda>(generation, device_id, created, updated, count).
     length device_id = PV_DEVICE_ID_BYTES \<and> \<not> bytes_all_zero device_id \<and>
     created \<le> 0x7fffffffffffffff \<and> updated \<le> 0x7fffffffffffffff \<and> count \<le> PV_MAX_PLAINTEXT div 64)"

lemma top_start:
  assumes "\<not> slice_null device_id"
  shows "accepts (rd_return (generation, slice_bytes device_id, created, updated, count))
    (\<lambda>y. (snd (snd (snd (snd y))) = count \<and> fst (snd (snd (snd y))) = updated \<and>
      fst (snd (snd y)) = created \<and> Bytes (fst (snd y)) = device_id \<and> fst y = generation \<and> True) \<and> True)
    (\<lambda>_. [])"
  using assms by (intro accepts_start) (cases device_id; auto)

lemma accepts_top:
  "accepts decode_top top_ok (\<lambda>(generation, device_id, created, updated, count).
     top_bytes generation device_id created updated count)"
  unfolding decode_top_def
  apply (rule accepts_weaken)
    apply (rule accepts_map, simp)
    apply (rule accepts_unit [OF accepts_expect])
    apply (rule accepts_unit [OF accepts_expect])
    apply (rule accepts_unit [OF accepts_expect])
    apply (rule accepts_bind [OF head.accepted])
    apply (rule accepts_unit [OF accepts_expect])
    apply (rule accepts_bind [OF accepts_slice], simp, simp)
    apply (rule accepts_check [where c = "\<lambda>y. length (fst (snd y)) = PV_DEVICE_ID_BYTES \<and>
      \<not> bytes_all_zero (fst (snd y))", rotated])
     apply (rule accepts_check [where c = "\<lambda>y. \<not> bytes_all_zero (fst (snd y))", rotated])
      apply (rule accepts_bind [OF accepts_time])
      apply (rule accepts_bind [OF accepts_time])
      apply (rule accepts_unit [OF accepts_expect])
      apply (rule accepts_bind [OF accepts_count], simp, simp add: PV_MAX_PLAINTEXT_def)
      apply (rule top_start)
      apply (simp add: blob_ok_def)
     apply (auto simp: bytes_all_zero_def) []
    apply auto []
   apply (auto simp: top_ok_def blob_ok_def) []
  apply (auto simp: top_bytes_def) []
  done

interpretation temporary: codec decode_temporary temporary_ok "\<lambda>t. record_bytes (map_record slice_bytes t)"
  by unfold_locales (rule accepts_temporary)

interpretation custom: codec decode_field field_ok "\<lambda>f. field_bytes (map_field slice_bytes f)"
  by unfold_locales (rule accepts_field)

lemma decode_records_sound:
  assumes "vault_ok v" "rd_ok r" "0 \<le> sint now" "decode_records mp now draws i n r v = Some (Inr v', r')"
  shows "vault_ok v' \<and> vault_meta v' = vault_meta v \<and>
    (\<exists>rs rest. length rs = n \<and> vault_view v' = vault_view v @ rs \<and>
       rd_tail r = concat (map record_bytes rs) @ rest \<and>
       r' = advance (length (concat (map record_bytes rs))) r)"
  using assms
proof (induction n arbitrary: i r v)
  case (Suc n)
  obtain v1 r1 where step: "decode_record mp now (draws i) r v = Some (Inr v1, r1)"
    and nxt: "decode_records mp now draws (i + 1) n r1 v1 = Some (Inr v', r')"
    using Suc.prems(4) by (auto split: option.splits prod.splits sum.splits)
  obtain t j where t: "decode_temporary r = (Some t, r1)"
    and add: "pv_model_add_record mp now (draws i) t v = Some (Inr j, v1)"
    using step by (auto simp: decode_record_def split: option.splits prod.splits sum.splits)
  from acceptsD [OF accepts_temporary Suc.prems(2) t] obtain rest where
    ok: "temporary_ok t" and tail: "rd_tail r = record_bytes (map_record slice_bytes t) @ rest"
    and r1: "r1 = advance (length (record_bytes (map_record slice_bytes t))) r" .
  have wf: "stored_wf (map_record slice_bytes t)" using ok by (simp add: temporary_ok_def)
  note add1 = add_stored_record [OF Suc.prems(1) wf Suc.prems(3) add]
  have ok1: "rd_ok r1" using rd_ok_advance [OF Suc.prems(2) tail] r1 by simp
  have rest: "rd_tail r1 = rest" using rd_tail_advance [OF tail] r1 by simp
  from Suc.IH [OF add1(1) ok1 Suc.prems(3) nxt] obtain rs rest' where
    "vault_ok v'" "vault_meta v' = vault_meta v1" "length rs = n" "vault_view v' = vault_view v1 @ rs"
    "rest = concat (map record_bytes rs) @ rest'" "r' = advance (length (concat (map record_bytes rs))) r1"
    unfolding rest by blast
  with add1(3) [OF refl] add_record_meta [OF Suc.prems(1) add] tail r1 show ?case
    by (intro conjI exI [of _ "map_record slice_bytes t # rs"] exI [of _ rest']) simp_all
qed auto

section \<open>What a writing function emits\<close>

text \<open>
  \<open>emits f bs\<close>: the statement appends \<open>bs\<close> when they fit and reports \<open>PV_ERR_LIMIT\<close> when
  they do not; once a status is set nothing more is written.
\<close>

definition emits :: "(cbor_writer \<Rightarrow> cbor_writer) \<Rightarrow> byte list \<Rightarrow> bool" where
  "emits f bs \<longleftrightarrow>
     (\<forall>w. (w_status w \<noteq> PV_OK \<longrightarrow> f w = w) \<and>
       (w_status w = PV_OK \<longrightarrow> length (w_data w) \<le> w_cap w \<longrightarrow> w_cap w \<le> PV_MAX_PLAINTEXT \<longrightarrow>
         (if length (w_data w) + length bs \<le> w_cap w then f w = w\<lparr>w_data := w_data w @ bs\<rparr>
          else w_status (f w) = PV_ERR_LIMIT)))"

lemma emits_bytes:
  assumes "proper sl" "length (slice_bytes sl) \<le> PV_MAX_PLAINTEXT"
  shows "emits (writer_bytes sl) (slice_bytes sl)"
proof -
  have add: "pv_size_add (word_of_nat m) (word_of_nat n) = Some (word_of_nat (m + n)) \<and>
      unat (word_of_nat (m + n) :: size_t) = m + n"
    if "m \<le> PV_MAX_PLAINTEXT" "n \<le> PV_MAX_PLAINTEXT" for m n
    using that unat_mark [of m SIZE_MAX] unat_mark [of n SIZE_MAX] unat_mark [of "m + n" SIZE_MAX]
    by (simp add: pv_size_add_Some unat_max64 PV_MAX_PLAINTEXT_def)
  have len: "slice_len sl = length (slice_bytes sl)" using assms(1) by (rule proper_len)
  show ?thesis
  proof (cases "slice_bytes sl = []")
    case True
    then show ?thesis by (simp add: emits_def writer_bytes_def len)
  next
    case False
    then have nn: "\<not> slice_null sl" by (cases sl) simp_all
    show ?thesis
      unfolding emits_def
    proof (intro allI conjI impI)
      fix w :: cbor_writer
      assume w: "w_status w = PV_OK" "length (w_data w) \<le> w_cap w" "w_cap w \<le> PV_MAX_PLAINTEXT"
      then have "length (w_data w) \<le> PV_MAX_PLAINTEXT" by simp
      from add [OF this assms(2)] w False nn
      show "if length (w_data w) + length (slice_bytes sl) \<le> w_cap w
          then writer_bytes sl w = w\<lparr>w_data := w_data w @ slice_bytes sl\<rparr>
          else w_status (writer_bytes sl w) = PV_ERR_LIMIT"
        by (simp add: writer_bytes_def len del: of_nat_add)
    qed (simp add: writer_bytes_def)
  qed
qed

lemma emits_Nil: "emits (seq []) []"
  by (simp add: emits_def seq_def)

lemma emits_then:
  assumes f: "emits f bs" and g: "emits g cs"
  shows "emits (\<lambda>w. g (f w)) (bs @ cs)"
  unfolding emits_def
proof (intro allI conjI impI)
  fix w
  show "g (f w) = w" if "w_status w \<noteq> PV_OK" using that f g by (simp add: emits_def)
  assume w: "w_status w = PV_OK" "length (w_data w) \<le> w_cap w" "w_cap w \<le> PV_MAX_PLAINTEXT"
  show "if length (w_data w) + length (bs @ cs) \<le> w_cap w then g (f w) = w\<lparr>w_data := w_data w @ bs @ cs\<rparr>
      else w_status (g (f w)) = PV_ERR_LIMIT"
  proof (cases "length (w_data w) + length bs \<le> w_cap w")
    case True
    then have fw: "f w = w\<lparr>w_data := w_data w @ bs\<rparr>" using f w by (simp add: emits_def)
    show ?thesis using g w True unfolding fw emits_def
      by (elim allE [of _ "w\<lparr>w_data := w_data w @ bs\<rparr>"]) (simp add: add.assoc)
  next
    case False
    then have "w_status (f w) = PV_ERR_LIMIT" using f w by (simp add: emits_def)
    with g False show ?thesis by (simp add: emits_def)
  qed
qed

lemma emits_Cons: "emits f bs \<Longrightarrow> emits (seq fs) cs \<Longrightarrow> emits (seq (f # fs)) (bs @ cs)"
  using emits_then [of f bs "seq fs" cs] by (simp add: seq_def comp_def)

lemma emits_map:
  "(\<And>x. x \<in> set xs \<Longrightarrow> emits (f x) (h x)) \<Longrightarrow> emits (seq (map f xs)) (concat (map h xs))"
  by (induction xs) (auto intro: emits_Nil emits_Cons)

lemma emits_last: "emits f bs \<Longrightarrow> emits (seq [f]) bs"
  by (simp add: seq_def)

lemma length_cbor_head: "length (cbor_head major v) \<le> 9"
  by (simp add: cbor_head_def)

lemma be_bytes_1: "be_bytes (Suc 0) v = [ucast v]"
  and be_bytes_2: "be_bytes 2 v = [ucast (drop_bit 8 v), ucast v]"
  by (simp_all add: be_bytes_Suc numeral_2_eq_2)

lemma emits_head: "emits (writer_type_value major v) (cbor_head major v)"
proof -
  have "writer_type_value major v = writer_bytes (Bytes (cbor_head major v))"
    by (rule ext) (simp add: writer_type_value_def writer_u8_def cbor_head_def be_bytes_1 be_bytes_2)
  moreover have "length (slice_bytes (Bytes (cbor_head major v))) \<le> PV_MAX_PLAINTEXT"
    using length_cbor_head [of major v] by (simp add: PV_MAX_PLAINTEXT_def)
  ultimately show ?thesis using emits_bytes [of "Bytes (cbor_head major v)"] by (simp add: proper_def)
qed

lemma emits_uint: "emits (writer_uint v) (cbor_head 0 v)"
  and emits_count: "emits (writer_map n) (cbor_head 5 (word_of_nat n))"
  and emits_array: "emits (writer_array n) (cbor_head 4 (word_of_nat n))"
  by (simp_all add: writer_uint_def writer_map_def writer_array_def emits_head)

lemma emits_blob:
  assumes "proper sl" "length (slice_bytes sl) \<le> PV_MAX_PLAINTEXT"
  shows "emits (writer_blob major sl) (cbor_blob major (slice_bytes sl))"
  using emits_then [OF emits_head emits_bytes [OF assms]] proper_len [OF assms(1)]
  unfolding writer_blob_def [abs_def] cbor_blob_def by simp

lemmas emits_intros = emits_Cons emits_last emits_uint emits_count emits_array emits_blob emits_map

lemma emits_field:
  assumes "proper (f_name f)" "proper (f_value f)" "field_wf (map_field slice_bytes f)"
  shows "emits (encode_field f) (field_bytes (map_field slice_bytes f))"
proof -
  have "length (slice_bytes (f_name f)) \<le> PV_MAX_PLAINTEXT" "length (slice_bytes (f_value f)) \<le> PV_MAX_PLAINTEXT"
    using assms(3) by (simp_all add: field_wf_def text_wf_def PV_MAX_PLAINTEXT_def)
  with assms(1,2) show ?thesis
    unfolding encode_field_def field_bytes_def map_field_simps
    using emits_count [of 3] by (intro emits_intros) simp_all
qed

lemma emits_record:
  assumes p: "list_all proper (record_slices r)" and wf: "stored_wf (map_record slice_bytes r)"
  shows "emits (encode_record r) (record_bytes (map_record slice_bytes r))"
proof -
  note w = wf [unfolded stored_wf_def record_wf_def text_wf_def list_all_iff map_record_simps]
    and q = p [unfolded list_all_record_slices, unfolded list_all_iff]
  have le: "n \<le> PV_MAX_PLAINTEXT" if "n \<le> 262144" for n using that by (simp add: PV_MAX_PLAINTEXT_def)
  have map_eq: "concat (map h (map g xs)) = concat (map (\<lambda>x. h (g x)) xs)" for h :: "'x \<Rightarrow> byte list" and g :: "'y \<Rightarrow> 'x" and xs
    by (simp add: comp_def)
  have c: "emits (writer_map 12) (cbor_head 5 12)" using emits_count [of 12] by simp
  have i: "emits (writer_blob 2 (Bytes (r_id r))) (cbor_blob 2 (r_id r))"
    using emits_blob [of "Bytes (r_id r)" 2] w by (simp add: proper_def PV_MAX_PLAINTEXT_def)
  show ?thesis
    unfolding encode_record_def record_bytes_def map_record_simps map_eq length_map
    by (intro emits_intros c i emits_field) (use w q in \<open>auto intro!: le\<close>)
qed


lemma validate_all_iff: "validate_all rs = PV_OK \<longleftrightarrow> list_all (\<lambda>r. pv_model_validate_record r = PV_OK) rs"
  by (induction rs) auto

lemma pv_model_validate_record_iff:
  "pv_model_validate_record r = PV_OK \<longleftrightarrow>
     list_all proper (record_slices r) \<and> record_wf (map_record slice_bytes r) \<and>
     r_revision r \<noteq> 0 \<and> \<not> id_is_zero (r_id r)"
  by (auto simp: pv_model_validate_record_def validate_record_fields_iff)

lemma record_slices_load: "record_slices (load_record a r) = map (load_slice a) (record_slices r)"
  by (simp add: load_record_def record_slices_def secret_slices_def map_concat comp_def)

lemma load_record_proper: "list_all proper (record_slices (load_record a r))"
  by (simp add: record_slices_load list.pred_map list_all_iff)

text \<open>The metadata of a vault that can be written.\<close>

definition saveable :: "pv_vault \<Rightarrow> bool" where
  "saveable v \<longleftrightarrow> vault_ok v \<and> 0 \<le> sint (v_created_ms v) \<and> 0 \<le> sint (v_updated_ms v) \<and>
     length (v_device_id v) = PV_DEVICE_ID_BYTES \<and> \<not> id_is_zero (v_device_id v)"

definition image :: "pv_vault \<Rightarrow> byte list" where
  "image v = vault_bytes (v_generation v) (v_device_id v) (v_created_ms v) (v_updated_ms v) (vault_view v)"

lemma emits_vault:
  assumes "saveable v"
  shows "emits (encode_vault v) (image v)"
proof -
  have wf: "\<forall>r\<in>set (vault_records v). stored_wf (map_record slice_bytes r) \<and> list_all proper (record_slices r)"
    using assms load_record_proper
    by (auto simp: saveable_def vault_ok_def vault_records_def vault_view_def list_all_iff view_of_load)
  have view: "vault_view v = map (map_record slice_bytes) (vault_records v)"
    by (simp add: vault_records_def vault_view_def view_of_load)
  have recs: "emits (seq (map encode_record (vault_records v))) (concat (map record_bytes (vault_view v)))"
    unfolding view map_map comp_def by (rule emits_map) (use wf emits_record in blast)
  have d: "emits (writer_blob 2 (Bytes (v_device_id v))) (cbor_blob 2 (v_device_id v))"
    using emits_blob [of "Bytes (v_device_id v)" 2] assms
    by (simp add: proper_def PV_MAX_PLAINTEXT_def saveable_def)
  have c: "emits (writer_map 6) (cbor_head 5 6)" using emits_count [of 6] by simp
  have n: "length (vault_view v) = length (v_records v)" by (simp add: vault_view_def)
  have one: "emits (writer_uint 0) (cbor_head 0 0)" "emits (writer_uint 1) (cbor_head 0 1)" by (rule emits_uint)+
  show ?thesis
    unfolding encode_vault_def image_def vault_bytes_def top_bytes_def append_assoc n
    by (intro emits_Cons c d one emits_uint emits_array emits_last recs)
qed

lemma pv_cbor_encode_image:
  assumes "saveable v"
  shows "pv_cbor_encode mem v =
    (if mem \<noteq> Alloc_ok then Inl PV_ERR_SECURE_MEMORY
     else if length (image v) \<le> PV_MAX_PLAINTEXT then Inr (image v) else Inl PV_ERR_LIMIT)"
proof -
  have ok: "validate_all (vault_records v) = PV_OK"
    using assms load_record_proper
    by (auto simp: validate_all_iff pv_model_validate_record_iff saveable_def vault_ok_def vault_records_def
        vault_view_def list_all_iff stored_wf_def view_of_load [symmetric] load_record_def)
  have g: "\<not> (sint (v_created_ms v) < 0 \<or> sint (v_updated_ms v) < 0)" "foldl (OR) 0 (v_device_id v) \<noteq> 0"
    using assms by (auto simp: saveable_def id_is_zero_def)
  let ?w = "\<lparr>w_data = [], w_cap = PV_MAX_PLAINTEXT, w_status = PV_OK\<rparr>"
  have "if length (image v) \<le> PV_MAX_PLAINTEXT then encode_vault v ?w = ?w\<lparr>w_data := image v\<rparr>
      else w_status (encode_vault v ?w) = PV_ERR_LIMIT"
    using emits_vault [OF assms] unfolding emits_def by (elim allE [of _ ?w]) simp
  with ok g show ?thesis by (simp add: pv_cbor_encode_def Let_def split: if_splits)
qed

section \<open>Decoding is sound\<close>

lemma view_readonly [simp]: "record_view (a\<lparr>arena_readonly := b\<rparr>) = record_view a"
  by (intro ext record_view_cong) (simp add: arena_byte_def)

lemma vault_ok_cong:
  assumes "vault_ok v" "v_records w = v_records v" "v_record_capacity w = v_record_capacity v"
    "v_arena w = (v_arena v)\<lparr>arena_readonly := b\<rparr>"
  shows "vault_ok w" "vault_view w = vault_view v"
  using assms by (simp_all add: vault_ok_def layout_ok_def vault_regions_def vault_view_def)

lemma set_readonly_Inr:
  "pv_arena_set_readonly mp a = (Inr u, a') \<Longrightarrow> a' = a\<lparr>arena_readonly := True\<rparr>"
  by (auto simp: pv_arena_set_readonly_def split: if_splits)

lemma pv_cbor_decode_laws:
  assumes ok: "vault_ok v0" and now: "0 \<le> sint now"
    and run: "pv_cbor_decode sd mp now draws input v0 = Some (Inr v)"
  shows "saveable v \<and> image v = input \<and> \<not> v_dirty v \<and> arena_readonly (v_arena v) \<and>
    v_vault_id v = v_vault_id v0 \<and> v_vmk v = v_vmk v0 \<and> v_path v = v_path v0 \<and> v_source_hash v = v_source_hash v0"
proof -
  let ?r0 = "\<lparr>rd_data = input, rd_pos = 0, rd_status = PV_OK\<rparr>"
  obtain generation device_id created updated count r where
    top: "decode_top ?r0 = (Some (generation, device_id, created, updated, count), r)"
    and records: "v_records v0 = []"
    using run by (auto simp: pv_cbor_decode_def split: if_splits option.splits prod.splits)
  let ?v0 = "v0\<lparr>v_generation := generation, v_device_id := device_id\<rparr>"
  obtain v1 r1 where loop: "decode_records mp now draws 0 count r ?v0 = Some (Inr v1, r1)"
    and pos: "rd_pos r1 = length (rd_data r1)"
    and ro: "pv_arena_set_readonly mp (v_arena v1) = (Inr (), (v_arena v1)\<lparr>arena_readonly := True\<rparr>)"
    and v: "v = v1\<lparr>v_created_ms := created, v_updated_ms := updated, v_dirty := False,
      v_arena := (v_arena v1)\<lparr>arena_readonly := True\<rparr>\<rparr>"
    using run top
    by (auto simp: pv_cbor_decode_def dest: set_readonly_Inr split: if_splits option.splits sum.splits prod.splits)
  have ok0: "rd_ok ?r0" by (simp add: rd_ok_def)
  from acceptsD [OF accepts_top ok0 top] obtain rest where
    tok: "top_ok (generation, device_id, created, updated, count)"
    and tail: "rd_tail ?r0 = top_bytes generation device_id created updated count @ rest"
    and r: "r = advance (length (top_bytes generation device_id created updated count)) ?r0" by auto
  have v0ok: "vault_ok ?v0" "vault_view ?v0 = []"
    using ok records by (simp_all add: vault_ok_def layout_ok_def vault_regions_def vault_view_def)
  have okr: "rd_ok r" using rd_ok_advance [OF ok0 tail] r by simp
  from decode_records_sound [OF v0ok(1) okr now loop] v0ok(2) obtain rs rest' where
    v1: "vault_ok v1" "vault_meta v1 = vault_meta ?v0" "length rs = count" "vault_view v1 = rs"
    and tail1: "rd_tail r = concat (map record_bytes rs) @ rest'"
    and r1: "r1 = advance (length (concat (map record_bytes rs))) r" by auto
  have "rd_tail r1 = rest'" using rd_tail_advance [OF tail1] r1 by simp
  moreover have "rd_tail r1 = []" using pos by (simp add: rd_tail_def)
  ultimately have "rd_tail r = concat (map record_bytes rs)" using tail1 by simp
  then have input: "input = vault_bytes generation device_id created updated rs"
    using tail rd_tail_advance [OF tail] r v1(3) by (simp add: vault_bytes_def rd_tail_def)
  have vok: "vault_ok v" "vault_view v = rs"
    using vault_ok_cong [OF v1(1), of v True] v1(4) by (simp_all add: v)
  have meta: "v_generation v = generation" "v_device_id v = device_id" "v_vault_id v = v_vault_id v0"
    "v_vmk v = v_vmk v0" "v_path v = v_path v0" "v_source_hash v = v_source_hash v0"
    using v1(2) by (simp_all add: vault_meta_def v)
  with vok input tok show ?thesis
    by (simp add: saveable_def image_def v sint_nonneg_iff top_ok_def bytes_all_zero_def id_is_zero_def)
qed

text \<open>
  C8. Decoding accepts the canonical form only: whatever bytes the decoder accepts, and whatever
  libcbor says of them, the vault it returns is well-formed, read-only and not dirty, and encoding
  that vault again yields exactly the bytes it was decoded from. So two different files never
  decode to the same vault, and no field is accepted out of order, twice, or in a longer form.
\<close>

theorem pv_cbor_decode_canonical:
  assumes "vault_ok v0" and "0 \<le> sint now"
    and "pv_cbor_decode stream_decode mp now draws input v0 = Some (Inr v)"
  shows "vault_ok v \<and> pv_cbor_encode Alloc_ok v = Inr input \<and> \<not> v_dirty v \<and>
    arena_readonly (v_arena v)"
proof -
  note laws = pv_cbor_decode_laws [OF assms]
  have "length input \<le> PV_MAX_PLAINTEXT"
    using assms(3) by (auto simp: pv_cbor_decode_def split: if_splits)
  with laws pv_cbor_encode_image [of v Alloc_ok] show ?thesis by (simp add: saveable_def)
qed

section \<open>Decoding is complete\<close>

text \<open>A copying operation that can fail for lack of room only.\<close>

definition limit_only :: "('s \<Rightarrow> 'a pv_result \<times> 's) \<Rightarrow> bool" where
  "limit_only m \<longleftrightarrow> (\<forall>s e s'. m s = (Inl e, s') \<longrightarrow> e = PV_ERR_LIMIT)"

lemma limit_onlyD: "limit_only m \<Longrightarrow> m s = (Inl e, s') \<Longrightarrow> e = PV_ERR_LIMIT"
  unfolding limit_only_def by blast

lemma limit_only_bind:
  "limit_only m \<Longrightarrow> (\<And>x. limit_only (k x)) \<Longrightarrow> limit_only (pv_bind m k)"
  by (auto simp: limit_only_def pv_bind_def split: prod.splits sum.splits)

lemma limit_only_return: "limit_only (pv_return x)"
  by (simp add: limit_only_def pv_return_def)

lemma limit_only_copy: "\<not> slice_null sl \<Longrightarrow> limit_only (\<lambda>a. pv_arena_copy a sl maximum)"
  by (auto simp: limit_only_def pv_arena_copy_def split: if_splits option.splits)

lemma limit_only_for_each:
  "(\<And>x. x \<in> set xs \<Longrightarrow> limit_only (f x)) \<Longrightarrow> limit_only (for_each f xs)"
proof (induction xs)
  case Nil
  show ?case by (simp add: limit_only_def)
next
  case (Cons x xs)
  then have "limit_only (f x)" "limit_only (for_each f xs)" by simp_all
  then show ?case
    by (subst limit_only_def) (auto dest: limit_onlyD split: prod.splits sum.splits)
qed

lemma limit_only_slices:
  "list_all (\<lambda>sl. \<not> slice_null sl) sls \<Longrightarrow> limit_only (copy_slices sls maximum)"
proof -
  assume "list_all (\<lambda>sl. \<not> slice_null sl) sls"
  then have "limit_only (for_each (\<lambda>sl a. pv_arena_copy a sl maximum) sls)"
    by (intro limit_only_for_each limit_only_copy) (simp add: list_all_iff)
  then show ?thesis
    by (subst limit_only_def) (auto simp: copy_slices_def dest: limit_onlyD split: if_splits option.splits)
qed

lemma limit_only_fields:
  assumes "list_all (\<lambda>f. \<not> slice_null (f_name f) \<and> \<not> slice_null (f_value f)) fs"
  shows "limit_only (copy_fields fs)"
proof -
  have "limit_only (copy_field f)" if "f \<in> set fs" for f
    unfolding copy_field_def using assms that
    by (intro limit_only_bind limit_only_copy limit_only_return) (auto simp: list_all_iff)
  then have "limit_only (for_each copy_field fs)" by (rule limit_only_for_each)
  then show ?thesis
    by (subst limit_only_def) (auto simp: copy_fields_def dest: limit_onlyD split: if_splits option.splits)
qed


lemma copy_title:
  assumes "\<not> slice_null sl" "slice_len sl \<noteq> 0" "pv_arena_copy a sl maximum = (Inr s, a')"
  shows "s \<noteq> ANull"
  using assms by (auto simp: pv_arena_copy_def split: if_splits option.splits)

lemma limit_only_record:
  assumes t: "temporary_ok t"
  shows "limit_only (copy_record t rid now)"
proof -
  have s: "\<not> slice_null (r_title t)" "\<not> slice_null (r_username t)" "\<not> slice_null (r_password t)"
    "\<not> slice_null (r_notes t)" "list_all (\<lambda>sl. \<not> slice_null sl) (r_urls t)"
    "list_all (\<lambda>sl. \<not> slice_null sl) (r_tags t)"
    "list_all (\<lambda>f. \<not> slice_null (f_name f) \<and> \<not> slice_null (f_value f)) (r_fields t)"
    using t by (simp_all add: temporary_ok_def list_all_record_slices)
  have len: "slice_len (r_title t) \<noteq> 0"
    using t s(1) by (simp add: temporary_ok_def stored_wf_def record_wf_def slice_len_bytes)
  have guard: "limit_only (pv_bind (\<lambda>a. pv_arena_copy a (r_title t) maximum)
      (\<lambda>title. if title = ANull then pv_raise PV_ERR_USAGE else k title))"
    if "\<And>title. limit_only (k title)" for maximum and k :: "aslice \<Rightarrow> pv_arena \<Rightarrow> 'a pv_result \<times> pv_arena"
  proof -
    have c: "e = PV_ERR_LIMIT" if "pv_arena_copy a (r_title t) maximum = (Inl e, a')" for a e a'
      using limit_only_copy [OF s(1)] that by (rule limit_onlyD)
    show ?thesis
      by (subst limit_only_def) (auto simp: pv_bind_def dest: c copy_title [OF s(1) len]
          limit_onlyD [OF that] split: prod.splits sum.splits if_splits)
  qed
  show ?thesis
    unfolding copy_record_def
    by (intro guard limit_only_bind limit_only_copy limit_only_slices limit_only_fields
        limit_only_return s)
qed

lemma ensure_record_capacity_limit: "limit_only ensure_record_capacity"
  by (auto simp: limit_only_def ensure_record_capacity_def Let_def split: if_splits option.splits)

lemma add_fresh_record:
  assumes ok: "vault_ok v" and t: "temporary_ok t" and fresh: "r_id t \<notin> set (map r_id (v_records v))"
  shows "\<exists>res v'. pv_model_add_record True now draws t v = Some (res, v') \<and> (\<forall>e. res = Inl e \<longrightarrow> e = PV_ERR_LIMIT)"
proof -
  have wf: "stored_wf (map_record slice_bytes t)" using t by (simp add: temporary_ok_def)
  have nz: "r_revision t \<noteq> 0" "\<not> id_is_zero (r_id t)" using wf by (simp_all add: stored_wf_def)
  have "list_all proper (record_slices t)"
    using t by (auto simp: temporary_ok_def list_all_iff proper_def)
  then have val: "validate_record_fields t = PV_OK"
    using wf by (simp add: validate_record_fields_iff stored_wf_def)
  have base: "arena_base (v_arena v) \<noteq> None" using ok by (simp add: vault_ok_def layout_ok_def)
  then obtain a0 where w: "(if arena_readonly (v_arena v) then pv_arena_set_readwrite True (v_arena v)
      else (Inr (), v_arena v)) = (Inr (), a0)"
    by (cases "arena_readonly (v_arena v)") (auto simp: pv_arena_set_readwrite_def)
  obtain r1 v1 where ens: "ensure_record_capacity (v\<lparr>v_arena := a0\<rparr>) = (r1, v1)" by fastforce
  have recs: "v_records v1 = v_records v" using ensure_record_capacity_records [OF ens] by simp
  have "pv_model_find_id v1 (r_id t) = None"
    using fresh unfolding pv_model_find_id_None recs .
  then have q: "record_id draws (r_id t) v1 = Some (Inr (r_id t))" using nz by (simp add: record_id_def)
  obtain r2 a2 where cp: "copy_record t (r_id t) now (v_arena v1) = (r2, a2)" by fastforce
  note run = pv_model_add_record_def [of True now draws t v, unfolded w]
  show ?thesis
    using run val nz ens q cp limit_onlyD [OF ensure_record_capacity_limit, of "v\<lparr>v_arena := a0\<rparr>" _ v1]
      limit_onlyD [OF limit_only_record [OF t], of "r_id t" now "v_arena v1" _ a2]
    by (cases r1; cases r2) auto
qed

lemma map_record_same: "map_record (\<lambda>x. x) b = b"
proof -
  have "map_field (\<lambda>x. x) f = f" for f :: "'a pv_custom_field" by (simp add: map_field_def)
  then have "map (map_field (\<lambda>x. x)) fs = fs" for fs :: "'a pv_custom_field list"
    by (induction fs) simp_all
  then show ?thesis by (simp add: map_record_def)
qed

lemma decode_records_complete:
  assumes "vault_ok v" "rd_ok r" "0 \<le> sint now"
    and "list_all stored_wf rs" "distinct (map r_id (vault_view v @ rs))"
    and "rd_tail r = concat (map record_bytes rs) @ rest"
  shows "\<exists>res r'. decode_records True now draws i (length rs) r v = Some (res, r') \<and>
    (\<forall>e. res = Inl e \<longrightarrow> e = PV_ERR_LIMIT) \<and>
    (\<forall>v'. res = Inr v' \<longrightarrow> r' = advance (length (concat (map record_bytes rs))) r)"
  using assms
proof (induction rs arbitrary: i r v)
  case (Cons b rs)
  let ?t = "map_record Bytes b"
  have id: "map_record slice_bytes ?t = b"
    by (simp add: map_record_comp comp_def map_record_same)
  have slices: "list_all (\<lambda>sl. \<not> slice_null sl) (record_slices ?t)"
    unfolding list_all_record_slices by (simp add: list_all_iff)
  have t: "temporary_ok ?t" using Cons.prems(4) slices id by (simp add: temporary_ok_def)
  have tail: "rd_tail r = record_bytes (map_record slice_bytes ?t) @ (concat (map record_bytes rs) @ rest)"
    using Cons.prems(6) id by simp
  let ?r1 = "advance (length (record_bytes b)) r"
  have dec: "decode_temporary r = (Some ?t, ?r1)"
    using acceptsE [OF accepts_temporary Cons.prems(2) t tail] by (simp add: id)
  have r1: "rd_ok ?r1" "rd_tail ?r1 = concat (map record_bytes rs) @ rest"
    using rd_ok_advance [OF Cons.prems(2) tail] rd_tail_advance [OF tail] by (simp_all add: id)
  have fresh: "r_id ?t \<notin> set (map r_id (v_records v))"
    using Cons.prems(5) vault_view_ids [of v] by auto
  from add_fresh_record [OF Cons.prems(1) t fresh, of now "draws i"] obtain res v1 where
    add: "pv_model_add_record True now (draws i) ?t v = Some (res, v1)"
    and err: "\<forall>e. res = Inl e \<longrightarrow> e = PV_ERR_LIMIT" by blast
  have wf: "stored_wf (map_record slice_bytes ?t)" using t by (simp add: temporary_ok_def)
  note laws = add_stored_record [OF Cons.prems(1) wf Cons.prems(3) add]
  show ?case
  proof (cases res)
    case (Inl e)
    with dec add err show ?thesis by (simp add: decode_record_def)
  next
    case (Inr j)
    have "distinct (map r_id (vault_view v1 @ rs))"
      using Cons.prems(5) laws(3) [OF Inr] id by simp
    with Cons.IH [OF laws(1) r1(1) Cons.prems(3) _ _ r1(2), of "i + 1"] Cons.prems(4) dec add Inr
    show ?thesis by (simp add: decode_record_def)
  qed
qed simp

section \<open>Round trip\<close>

text \<open>
  What the code relies on of libcbor: \<^verbatim>\<open>cbor_stream_decode\<close> at the start of an integer, an
  array head, a map head or a byte or text string of definite length finishes and reports the bytes
  of that item.
\<close>

definition decodes_items :: "(byte list \<Rightarrow> bool \<times> nat) \<Rightarrow> bool" where
  "decodes_items sd \<longleftrightarrow>
     (\<forall>v rest. sd (cbor_head 0 v @ rest) = (True, length (cbor_head 0 v)) \<and>
        sd (cbor_head 4 v @ rest) = (True, length (cbor_head 4 v)) \<and>
        sd (cbor_head 5 v @ rest) = (True, length (cbor_head 5 v))) \<and>
     (\<forall>bs rest. length bs < 2 ^ 64 \<longrightarrow> sd (cbor_blob 2 bs @ rest) = (True, length (cbor_blob 2 bs)) \<and>
        sd (cbor_blob 3 bs @ rest) = (True, length (cbor_blob 3 bs)))"

text \<open>Byte sequences that are made of complete items, whatever follows.\<close>

definition items :: "(byte list \<Rightarrow> bool \<times> nat) \<Rightarrow> byte list \<Rightarrow> bool" where
  "items sd bs \<longleftrightarrow> (\<forall>rest. libcbor_well_formed sd (bs @ rest) \<longleftrightarrow> libcbor_well_formed sd rest)"

lemma items_item:
  assumes "\<And>rest. sd (bs @ rest) = (True, length bs)" "bs \<noteq> []"
  shows "items sd bs"
  using assms by (simp add: items_def libcbor_well_formed.simps [of sd "bs @ _"])

lemma cbor_head_nonempty: "cbor_head major v \<noteq> []"
  by (simp add: cbor_head_eq)

lemma items_append: "items sd bs \<Longrightarrow> items sd cs \<Longrightarrow> items sd (bs @ cs)"
  by (simp add: items_def)

lemma items_concat: "(\<And>x. x \<in> set xs \<Longrightarrow> items sd (f x)) \<Longrightarrow> items sd (concat (map f xs))"
  by (induction xs) (simp_all add: items_append, simp add: items_def)

lemma decodes_items_items:
  assumes "decodes_items sd"
  shows "items sd (cbor_head 0 v)" "items sd (cbor_head 4 v)" "items sd (cbor_head 5 v)"
    and "length bs < 2 ^ 64 \<Longrightarrow> items sd (cbor_blob 2 bs)" "length bs < 2 ^ 64 \<Longrightarrow> items sd (cbor_blob 3 bs)"
  using assms by (auto simp: decodes_items_def cbor_head_nonempty cbor_blob_def intro!: items_item)

lemma record_items:
  assumes sd: "decodes_items sd" and wf: "stored_wf r"
  shows "items sd (record_bytes r)"
proof -
  note w = wf [unfolded stored_wf_def record_wf_def text_wf_def list_all_iff]
  have f: "items sd (field_bytes f)" if "f \<in> set (r_fields r)" for f
  proof -
    have "field_wf f" using w that by simp
    then show ?thesis unfolding field_bytes_def
      by (intro items_append decodes_items_items [OF sd]) (simp_all add: field_wf_def text_wf_def)
  qed
  have u: "items sd (concat (map (cbor_blob 3) xs))" if "\<forall>x\<in>set xs. length x < 2 ^ 64" for xs
    using that by (intro items_concat decodes_items_items [OF sd]) simp
  have urls: "\<forall>x\<in>set (r_urls r). length x < 2 ^ 64" and tags: "\<forall>x\<in>set (r_tags r). length x < 2 ^ 64"
    using w by fastforce+
  show ?thesis
    unfolding record_bytes_def
    by (intro items_append u urls tags items_concat f decodes_items_items [OF sd]) (use w in simp_all)
qed

lemma image_items:
  assumes sd: "decodes_items sd" and v: "saveable v"
  shows "libcbor_well_formed sd (image v)"
proof -
  have "items sd (record_bytes r)" if "r \<in> set (vault_view v)" for r
    using that v by (intro record_items [OF sd]) (auto simp: saveable_def vault_ok_def list_all_iff)
  then have "items sd (image v)"
    unfolding image_def vault_bytes_def top_bytes_def
    by (intro items_append items_concat decodes_items_items [OF sd]) (use v in \<open>simp_all add: saveable_def\<close>)
  then show ?thesis
    unfolding items_def by (metis append_Nil2 libcbor_well_formed.simps)
qed

lemma record_count_bound:
  assumes "vault_ok v"
  shows "length (vault_view v) \<le> PV_MAX_PLAINTEXT div 64"
proof -
  have "160 * length (v_records v) \<le> unat (arena_used (v_arena v))"
    "unat (arena_used (v_arena v)) \<le> PV_MAX_PLAINTEXT"
    using assms by (auto simp: vault_ok_def layout_ok_def arena_ok_def word_le_nat_alt)
  then show ?thesis by (simp add: vault_view_def PV_MAX_PLAINTEXT_def)
qed

lemma pv_cbor_decode_image:
  assumes sd: "decodes_items sd" and v: "saveable v" and len: "length (image v) \<le> PV_MAX_PLAINTEXT"
    and v0: "vault_ok v0" "v_records v0 = []" and now: "0 \<le> sint now"
  shows "case pv_cbor_decode sd True now draws (image v) v0 of
      None \<Rightarrow> False | Some (Inl e) \<Rightarrow> e = PV_ERR_LIMIT | Some (Inr v') \<Rightarrow> image v' = image v"
proof -
  let ?top = "(v_generation v, v_device_id v, v_created_ms v, v_updated_ms v, length (vault_view v))"
  let ?tb = "top_bytes (v_generation v) (v_device_id v) (v_created_ms v) (v_updated_ms v) (length (vault_view v))"
  let ?r0 = "\<lparr>rd_data = image v, rd_pos = 0, rd_status = PV_OK\<rparr>"
  have ok0: "rd_ok ?r0" by (simp add: rd_ok_def)
  have tail: "rd_tail ?r0 = ?tb @ concat (map record_bytes (vault_view v))"
    by (simp add: rd_tail_def image_def vault_bytes_def)
  have "top_ok ?top"
    using v record_count_bound [of v]
    by (simp add: top_ok_def saveable_def sint_nonneg_iff bytes_all_zero_def id_is_zero_def)
  then have top: "decode_top ?r0 = (Some ?top, advance (length ?tb) ?r0)"
    using acceptsE [OF accepts_top ok0, of ?top] tail by simp
  let ?r = "advance (length ?tb) ?r0"
  let ?v0 = "v0\<lparr>v_generation := v_generation v, v_device_id := v_device_id v\<rparr>"
  have v0': "vault_ok ?v0" "vault_view ?v0 = []"
    using v0 by (simp_all add: vault_ok_def layout_ok_def vault_regions_def vault_view_def)
  have r: "rd_ok ?r" "rd_tail ?r = concat (map record_bytes (vault_view v)) @ []"
    using rd_ok_advance [OF ok0 tail] rd_tail_advance [OF tail] by simp_all
  have "distinct (map r_id (vault_view v))"
    unfolding vault_view_ids using v by (simp add: saveable_def vault_ok_def)
  with decode_records_complete [OF v0'(1) r(1) now _ _ r(2), of draws 0] v v0'(2) obtain res r1 where
    loop: "decode_records True now draws 0 (length (vault_view v)) ?r ?v0 = Some (res, r1)"
    and err: "\<forall>e. res = Inl e \<longrightarrow> e = PV_ERR_LIMIT"
    and fin: "\<forall>v'. res = Inr v' \<longrightarrow>
      r1 = advance (length (concat (map record_bytes (vault_view v)))) ?r"
    by (auto simp: saveable_def vault_ok_def)
  have ne: "image v \<noteq> []" by (simp add: image_def vault_bytes_def top_bytes_def cbor_head_nonempty)
  note run = pv_cbor_decode_def [of sd True now draws "image v" v0]
  show ?thesis
  proof (cases res)
    case (Inl e)
    with err image_items [OF sd v] ne len v0(2) top loop show ?thesis by (simp add: run)
  next
    case (Inr v1)
    then have "rd_pos r1 = length (rd_data r1)"
      using fin by (simp add: advance_def image_def vault_bytes_def)
    moreover have "arena_base (v_arena v1) \<noteq> None"
      using decode_records_sound [OF v0'(1) r(1) now loop [unfolded Inr]]
      by (simp add: vault_ok_def layout_ok_def)
    ultimately obtain v' where
      ok: "pv_cbor_decode sd True now draws (image v) v0 = Some (Inr v')"
      using image_items [OF sd v] ne len v0(2) top loop Inr
      by (simp add: run pv_arena_set_readonly_def)
    with pv_cbor_decode_laws [OF v0(1) now ok] show ?thesis by simp
  qed
qed

interpretation top: codec decode_top top_ok "\<lambda>(generation, device_id, created, updated, count).
    top_bytes generation device_id created updated count"
  by unfold_locales (rule accepts_top)

lemma saveable_top:
  assumes "saveable v"
  shows "top_ok (v_generation v, v_device_id v, v_created_ms v, v_updated_ms v, length (vault_view v))"
  using assms record_count_bound [of v]
  by (simp add: top_ok_def saveable_def sint_nonneg_iff bytes_all_zero_def id_is_zero_def)

lemma view_as_input: "map_record slice_bytes (map_record Bytes b) = b"
  by (simp add: map_record_comp comp_def map_record_same)

lemma stored_temporary: "stored_wf b \<Longrightarrow> temporary_ok (map_record Bytes b)"
  unfolding temporary_ok_def list_all_record_slices by (simp add: list_all_iff view_as_input)

lemma image_inject:
  assumes v: "saveable v" and w: "saveable w" and eq: "image v = image w"
  shows "vault_view v = vault_view w" "v_generation v = v_generation w" "v_device_id v = v_device_id w"
    "v_created_ms v = v_created_ms w" "v_updated_ms v = v_updated_ms w"
proof -
  let ?top = "\<lambda>v. (v_generation v, v_device_id v, v_created_ms v, v_updated_ms v, length (vault_view v))"
  have "?top v = ?top w \<and> concat (map record_bytes (vault_view v)) = concat (map record_bytes (vault_view w))"
    using top.unambiguous [OF saveable_top [OF v] saveable_top [OF w]] eq
    by (simp add: image_def vault_bytes_def)
  moreover have "list_all temporary_ok (map (map_record Bytes) (vault_view u))" if "saveable u" for u
    using that stored_temporary by (auto simp: saveable_def vault_ok_def list_all_iff)
  ultimately have "map (map_record Bytes) (vault_view v) = map (map_record Bytes) (vault_view w)"
    using temporary.unambiguous_list [of "map (map_record Bytes) (vault_view v)"
        "map (map_record Bytes) (vault_view w)" "[]" "[]"] v w
    by (simp add: comp_def view_as_input)
  from arg_cong [OF this, of "map (map_record slice_bytes)"]
  show "vault_view v = vault_view w" by (simp add: comp_def view_as_input)
  show "v_generation v = v_generation w" "v_device_id v = v_device_id w"
    "v_created_ms v = v_created_ms w" "v_updated_ms v = v_updated_ms w"
    using \<open>?top v = ?top w \<and> _\<close> by simp_all
qed

lemma run_cases [case_names None Error Result]:
  "(x = None \<Longrightarrow> P) \<Longrightarrow> (\<And>e. x = Some (Inl e) \<Longrightarrow> P) \<Longrightarrow> (\<And>y. x = Some (Inr y) \<Longrightarrow> P) \<Longrightarrow> P"
  by (cases x) (auto elim: sumE)

lemma saveable_ok: "saveable v \<Longrightarrow> vault_ok v"
  by (simp add: saveable_def)


text \<open>A decoder of single items with the behaviour asked for.\<close>

definition sample_stream :: "byte list \<Rightarrow> bool \<times> nat" where
  "sample_stream bytes =
     (case bytes of
        [] \<Rightarrow> (False, 0)
      | b # _ \<Rightarrow>
          (case reader_value (drop_bit 5 b) \<lparr>rd_data = bytes, rd_pos = 0, rd_status = PV_OK\<rparr> of
             (None, r) \<Rightarrow> (False, 0)
           | (Some n, r) \<Rightarrow>
               if drop_bit 5 b = 2 \<or> drop_bit 5 b = 3 then (True, rd_pos r + unat n)
               else (True, rd_pos r)))"

lemma sample_stream_head:
  assumes "major < 8"
  shows "sample_stream (cbor_head major v @ rest) =
    (True, length (cbor_head major v) + (if major = 2 \<or> major = 3 then unat v else 0))"
proof -
  let ?r = "\<lparr>rd_data = cbor_head major v @ rest, rd_pos = 0, rd_status = PV_OK\<rparr>"
  have low: "head_low v < 32" using head_low_range [of v] by (simp add: word_less_nat_alt)
  have m: "drop_bit 5 (initial_byte major (head_low v)) = major" by (rule initial_byte_fields [OF assms low])
  have "reader_value major ?r = (Some v, advance (length (cbor_head major v)) ?r)"
    by (rule reader_value_complete [OF assms]) (simp_all add: rd_ok_def rd_tail_def)
  then show ?thesis by (simp add: sample_stream_def cbor_head_eq m advance_def)
qed

lemma sample_stream_items: "decodes_items sample_stream"
proof -
  have "unat (word_of_nat (length bs) :: u64) = length bs" if "length bs < 2 ^ 64" for bs :: "byte list"
    using that unat_mark [of "length bs" SIZE_MAX] by (simp add: unat_max64)
  then show ?thesis
    by (auto simp: decodes_items_def sample_stream_head cbor_blob_def)
qed

lemma demo_saveable: "saveable demo_vault"
proof -
  have "length (v_device_id demo_vault) = PV_DEVICE_ID_BYTES \<and> \<not> id_is_zero (v_device_id demo_vault) \<and>
      0 \<le> sint (v_created_ms demo_vault) \<and> 0 \<le> sint (v_updated_ms demo_vault)" by code_simp
  then show ?thesis using demo_vault_ok by (simp add: saveable_def)
qed

text \<open>The image of a vault without records is accepted whatever the room.\<close>

definition fresh_vault :: pv_vault where
  "fresh_vault = demo_vault\<lparr>v_records := []\<rparr>"

lemma fresh_saveable: "saveable fresh_vault"
  using demo_saveable
  by (simp add: saveable_def fresh_vault_def vault_ok_def layout_ok_def vault_regions_def vault_view_def
      demo_vault_def)

lemma fresh_decodes: "\<exists>v. pv_cbor_decode sample_stream True 1 draws (image fresh_vault) sample_vault = Some (Inr v)"
proof -
  let ?r0 = "\<lparr>rd_data = image fresh_vault, rd_pos = 0, rd_status = PV_OK\<rparr>"
  have none: "vault_view fresh_vault = []" by (simp add: vault_view_def fresh_vault_def)
  obtain g d c u where top: "decode_top ?r0 = (Some (g, d, c, u, 0), advance (length (image fresh_vault)) ?r0)"
    using top.read_list [of ?r0 "[(v_generation fresh_vault, v_device_id fresh_vault, v_created_ms fresh_vault,
        v_updated_ms fresh_vault, length (vault_view fresh_vault))]" "[]"]
      acceptsE [OF accepts_top, of ?r0 _ "[]"] saveable_top [OF fresh_saveable]
    by (fastforce simp: none rd_ok_def rd_tail_def image_def vault_bytes_def)
  have bounds: "length (image fresh_vault) \<le> PV_MAX_PLAINTEXT" "image fresh_vault \<noteq> []" by code_simp+
  note init = pv_model_init_laws [OF sample_vault_init]
  show ?thesis
    using top bounds init image_items [OF sample_stream_items fresh_saveable]
    by (auto simp: pv_cbor_decode_def advance_def pv_arena_set_readonly_def vault_ok_def layout_ok_def
        split: option.splits)
qed

theorem pv_cbor_decode_canonical_witness:
  "\<exists>v. pv_cbor_decode sample_stream True 1 (\<lambda>i. []) (image fresh_vault) sample_vault = Some (Inr v) \<and>
     vault_ok v \<and> pv_cbor_encode Alloc_ok v = Inr (image fresh_vault)"
proof -
  obtain v where run: "pv_cbor_decode sample_stream True 1 (\<lambda>i. []) (image fresh_vault) sample_vault = Some (Inr v)"
    using fresh_decodes by blast
  with pv_cbor_decode_canonical [OF pv_model_init_laws(1) [OF sample_vault_init] _ run] show ?thesis by simp
qed

lemma demo_image_length: "length (image demo_vault) \<le> 1000"
  by code_simp


end
