(* ===== verification/Pv_Crypto.thy ===== *)
theory Pv_Crypto
  imports Pv_Cbor
begin

text \<open>
  The key hierarchy and the file header (\<^verbatim>\<open>src/crypto.c\<close>): a random vault master key
  (VMK) is wrapped once under the master password and once under the recovery key, and the body of
  the vault file is encrypted under a key derived from it.

  libsodium is a parameter of the model: a value of type \<open>sodium\<close> holds the functions the code
  calls, and \<open>sodium_ok\<close> states what their documentation promises. What
  \<^verbatim>\<open>randombytes_buf\<close> delivers, whether memory can be allocated and locked, and whether
  \<^verbatim>\<open>crypto_pwhash\<close> finds the memory it needs are arguments of the operations.
\<close>

section \<open>libsodium\<close>

record sodium =
  crypto_pwhash :: "byte list \<Rightarrow> byte list \<Rightarrow> u64 \<Rightarrow> u64 \<Rightarrow> byte list"
  crypto_kdf_derive_from_key :: "nat \<Rightarrow> u64 \<Rightarrow> byte list \<Rightarrow> byte list \<Rightarrow> byte list option"
  aead_encrypt :: "byte list \<Rightarrow> byte list \<Rightarrow> byte list \<Rightarrow> byte list \<Rightarrow> byte list option"
  aead_decrypt :: "byte list \<Rightarrow> byte list \<Rightarrow> byte list \<Rightarrow> byte list \<Rightarrow> byte list option"
  generichash :: "byte list \<Rightarrow> byte list"

text \<open>
  The arguments are, in this order: password, salt, operations and memory limits; length of the
  subkey, its number, context and main key; message (or ciphertext), additional data, nonce and key;
  the message to hash. \<open>None\<close> is a return value other than 0.
\<close>

abbreviation PV_WRAP_NONCE_BYTES :: nat where "PV_WRAP_NONCE_BYTES \<equiv> 24"
abbreviation PV_BODY_TAG_BYTES :: nat where "PV_BODY_TAG_BYTES \<equiv> 16"
abbreviation PV_BODY_KEY_BYTES :: nat where "PV_BODY_KEY_BYTES \<equiv> 32"
abbreviation PV_WRAPPED_VMK_BYTES :: nat where "PV_WRAPPED_VMK_BYTES \<equiv> 48"
abbreviation PV_SALT_BYTES :: nat where "PV_SALT_BYTES \<equiv> 16"
abbreviation PV_VAULT_ID_BYTES :: nat where "PV_VAULT_ID_BYTES \<equiv> 16"
abbreviation PV_RECOVERY_KEY_BYTES :: nat where "PV_RECOVERY_KEY_BYTES \<equiv> 32"
abbreviation crypto_generichash_BYTES :: nat where "crypto_generichash_BYTES \<equiv> 32"
abbreviation crypto_pwhash_PASSWD_MAX :: nat where "crypto_pwhash_PASSWD_MAX \<equiv> 4294967295"

definition sodium_ok :: "sodium \<Rightarrow> bool" where
  "sodium_ok S \<longleftrightarrow>
     (\<forall>pw salt ops mem. length (crypto_pwhash S pw salt ops mem) = PV_WRAP_KEY_BYTES) \<and>
     (\<forall>n i ctx key. 16 \<le> n \<and> n \<le> 64 \<longrightarrow>
        (\<exists>k. crypto_kdf_derive_from_key S n i ctx key = Some k \<and> length k = n)) \<and>
     (\<forall>m ad nonce key. length nonce = PV_WRAP_NONCE_BYTES \<and> length key = PV_WRAP_KEY_BYTES \<longrightarrow>
        (\<exists>c. aead_encrypt S m ad nonce key = Some c \<and>
        length c = length m + PV_BODY_TAG_BYTES \<and> aead_decrypt S c ad nonce key = Some m)) \<and>
     (\<forall>c ad nonce key m. aead_decrypt S c ad nonce key = Some m \<longrightarrow>
        length c = length m + PV_BODY_TAG_BYTES) \<and>
     (\<forall>m. length (generichash S m) = crypto_generichash_BYTES)"

section \<open>The file header\<close>

record pv_keyslot_password =
  ps_opslimit :: u64
  ps_memlimit :: u64
  ps_salt :: "byte list"
  ps_nonce :: "byte list"
  ps_wrapped_vmk :: "byte list"

record pv_keyslot_recovery =
  rs_nonce :: "byte list"
  rs_wrapped_vmk :: "byte list"

record pv_file_header =
  h_magic :: "byte list"
  h_major :: u16
  h_minor :: u16
  h_header_len :: u32
  h_flags :: u32
  h_vault_id :: "byte list"
  h_kdf_id :: u16
  h_wrap_aead_id :: u16
  h_body_aead_id :: u16
  h_slot_count :: u16
  password_slot :: pv_keyslot_password
  recovery_slot :: pv_keyslot_recovery
  h_body_nonce :: "byte list"
  h_body_ciphertext_len :: u64

definition pv_magic :: "byte list" where
  "pv_magic = ascii ''PVLT'' @ [0x0d, 0x0a, 0x1a, 0x0a]"

definition body_kdf_context :: "byte list" where
  "body_kdf_context = ascii ''PVBODY01''"

definition recovery_kdf_context :: "byte list" where
  "recovery_kdf_context = ascii ''PVRECV01''"

abbreviation PV_FILE_HEADER_LEN :: nat where "PV_FILE_HEADER_LEN \<equiv> 252"
abbreviation PV_FILE_MAJOR :: u16 where "PV_FILE_MAJOR \<equiv> 1"
abbreviation PV_FILE_MINOR :: u16 where "PV_FILE_MINOR \<equiv> 0"
abbreviation PV_KDF_ARGON2ID13 :: u16 where "PV_KDF_ARGON2ID13 \<equiv> 1"
abbreviation PV_AEAD_XCHACHA20POLY1305 :: u16 where "PV_AEAD_XCHACHA20POLY1305 \<equiv> 1"
abbreviation PV_V1_PASSWORD_OPSLIMIT :: u64 where "PV_V1_PASSWORD_OPSLIMIT \<equiv> 3"
abbreviation PV_V1_PASSWORD_OPSLIMIT_MAX :: u64 where "PV_V1_PASSWORD_OPSLIMIT_MAX \<equiv> 10"
abbreviation PV_V1_PASSWORD_MEMLIMIT :: u64 where "PV_V1_PASSWORD_MEMLIMIT \<equiv> 268435456"
abbreviation PV_V1_PASSWORD_MEMLIMIT_MAX :: u64 where "PV_V1_PASSWORD_MEMLIMIT_MAX \<equiv> 1073741824"
abbreviation PV_PASSWORD_AAD_LEN :: nat where "PV_PASSWORD_AAD_LEN \<equiv> 76"
abbreviation PV_RECOVERY_AAD_LEN :: nat where "PV_RECOVERY_AAD_LEN \<equiv> 44"

definition put_u16_le :: "u16 \<Rightarrow> byte list" where
  "put_u16_le v = [ucast v, ucast (drop_bit 8 v)]"

definition put_u32_le :: "u32 \<Rightarrow> byte list" where
  "put_u32_le v = map (\<lambda>i. ucast (drop_bit (i * 8) v)) [0..<4]"

definition put_u64_le :: "u64 \<Rightarrow> byte list" where
  "put_u64_le v = map (\<lambda>i. ucast (drop_bit (i * 8) v)) [0..<8]"

definition get_u16_le :: "byte list \<Rightarrow> u16" where
  "get_u16_le bs = ucast (bs ! 0) OR push_bit 8 (ucast (bs ! 1))"

definition get_u32_le :: "byte list \<Rightarrow> u32" where
  "get_u32_le bs = fold (\<lambda>i v. v OR push_bit (i * 8) (ucast (bs ! i))) [0..<4] 0"

definition get_u64_le :: "byte list \<Rightarrow> u64" where
  "get_u64_le bs = fold (\<lambda>i v. v OR push_bit (i * 8) (ucast (bs ! i))) [0..<8] 0"

text \<open>
  The encoder writes every field at its offset; the offsets leave no gaps, so the output is the
  concatenation of the fields.
\<close>

definition pv_header_encode :: "pv_file_header \<Rightarrow> byte list" where
  "pv_header_encode h =
     h_magic h @
     put_u16_le (h_major h) @
     put_u16_le (h_minor h) @
     put_u32_le (h_header_len h) @
     put_u32_le (h_flags h) @
     h_vault_id h @
     put_u16_le (h_kdf_id h) @
     put_u16_le (h_wrap_aead_id h) @
     put_u16_le (h_body_aead_id h) @
     put_u16_le (h_slot_count h) @
     put_u64_le (ps_opslimit (password_slot h)) @
     put_u64_le (ps_memlimit (password_slot h)) @
     ps_salt (password_slot h) @
     ps_nonce (password_slot h) @
     ps_wrapped_vmk (password_slot h) @
     rs_nonce (recovery_slot h) @
     rs_wrapped_vmk (recovery_slot h) @
     h_body_nonce h @
     put_u64_le (h_body_ciphertext_len h)"

text \<open>\<open>field off n input\<close> is what \<^verbatim>\<open>memcpy\<close> takes from \<^verbatim>\<open>input + off\<close>.\<close>

definition field :: "nat \<Rightarrow> nat \<Rightarrow> byte list \<Rightarrow> byte list" where
  "field off n input = take n (drop off input)"

definition header_read :: "byte list \<Rightarrow> pv_file_header" where
  "header_read input =
     \<lparr>h_magic = field 0 8 input,
      h_major = get_u16_le (field 8 2 input),
      h_minor = get_u16_le (field 10 2 input),
      h_header_len = get_u32_le (field 12 4 input),
      h_flags = get_u32_le (field 16 4 input),
      h_vault_id = field 20 PV_VAULT_ID_BYTES input,
      h_kdf_id = get_u16_le (field 36 2 input),
      h_wrap_aead_id = get_u16_le (field 38 2 input),
      h_body_aead_id = get_u16_le (field 40 2 input),
      h_slot_count = get_u16_le (field 42 2 input),
      password_slot =
        \<lparr>ps_opslimit = get_u64_le (field 44 8 input),
         ps_memlimit = get_u64_le (field 52 8 input),
         ps_salt = field 60 PV_SALT_BYTES input,
         ps_nonce = field 76 PV_WRAP_NONCE_BYTES input,
         ps_wrapped_vmk = field 100 PV_WRAPPED_VMK_BYTES input\<rparr>,
      recovery_slot =
        \<lparr>rs_nonce = field 148 PV_WRAP_NONCE_BYTES input,
         rs_wrapped_vmk = field 172 PV_WRAPPED_VMK_BYTES input\<rparr>,
      h_body_nonce = field 220 PV_WRAP_NONCE_BYTES input,
      h_body_ciphertext_len = get_u64_le (field 244 8 input)\<rparr>"

definition slot_limits_ok :: "pv_keyslot_password \<Rightarrow> bool" where
  "slot_limits_ok slot \<longleftrightarrow>
     \<not> (ps_opslimit slot < PV_V1_PASSWORD_OPSLIMIT \<or> ps_opslimit slot > PV_V1_PASSWORD_OPSLIMIT_MAX \<or>
        ps_memlimit slot < PV_V1_PASSWORD_MEMLIMIT \<or> ps_memlimit slot > PV_V1_PASSWORD_MEMLIMIT_MAX)"

definition body_len_ok :: "u64 \<Rightarrow> bool" where
  "body_len_ok len \<longleftrightarrow>
     (let maximum_ciphertext = word_of_nat PV_MAX_PLAINTEXT + word_of_nat PV_BODY_TAG_BYTES
      in \<not> (len < 4096 + word_of_nat PV_BODY_TAG_BYTES \<or> (len - word_of_nat PV_BODY_TAG_BYTES) mod 4096 \<noteq> 0 \<or>
            len > maximum_ciphertext))"

definition pv_header_decode :: "byte list \<Rightarrow> pv_file_header pv_result" where
  "pv_header_decode input =
     (let h = header_read input
      in if h_magic h \<noteq> pv_magic then Inl PV_ERR_FORMAT
         else if h_major h \<noteq> PV_FILE_MAJOR \<or> h_minor h \<noteq> PV_FILE_MINOR then Inl PV_ERR_UNSUPPORTED
         else if bytes_all_zero (h_vault_id h) \<or> h_header_len h \<noteq> word_of_nat PV_FILE_HEADER_LEN \<or>
             h_flags h \<noteq> 0 \<or> h_kdf_id h \<noteq> PV_KDF_ARGON2ID13 \<or>
             h_wrap_aead_id h \<noteq> PV_AEAD_XCHACHA20POLY1305 \<or>
             h_body_aead_id h \<noteq> PV_AEAD_XCHACHA20POLY1305 \<or>
             h_slot_count h \<noteq> 2 \<or> \<not> slot_limits_ok (password_slot h) \<or>
             \<not> body_len_ok (h_body_ciphertext_len h)
         then Inl PV_ERR_FORMAT
         else Inr h)"

section \<open>Keys\<close>

definition secure_key_alloc :: "alloc \<Rightarrow> unit pv_result" where
  "secure_key_alloc mem =
     (case mem of Malloc_null \<Rightarrow> Inl PV_ERR_NOMEM | Mlock_failed \<Rightarrow> Inl PV_ERR_SECURE_MEMORY | Alloc_ok \<Rightarrow> Inr ())"

text \<open>\<open>hash_ok\<close>: \<^verbatim>\<open>crypto_pwhash\<close> returned 0.\<close>

definition password_key :: "sodium \<Rightarrow> bool \<Rightarrow> pv_keyslot_password \<Rightarrow> byte list \<Rightarrow> byte list pv_result" where
  "password_key S hash_ok slot password =
     (if length password = 0 \<or> length password > crypto_pwhash_PASSWD_MAX \<or> \<not> slot_limits_ok slot
      then Inl PV_ERR_AUTH
      else if \<not> hash_ok then Inl PV_ERR_SECURE_MEMORY
      else Inr (crypto_pwhash S password (ps_salt slot) (ps_opslimit slot) (ps_memlimit slot)))"

definition recovery_wrap_key :: "sodium \<Rightarrow> byte list \<Rightarrow> byte list pv_result" where
  "recovery_wrap_key S recovery_key =
     (case crypto_kdf_derive_from_key S PV_WRAP_KEY_BYTES 0 recovery_kdf_context recovery_key of
        None \<Rightarrow> Inl PV_ERR_STATE
      | Some k \<Rightarrow> Inr k)"

definition body_key :: "sodium \<Rightarrow> byte list \<Rightarrow> byte list pv_result" where
  "body_key S vmk =
     (case crypto_kdf_derive_from_key S PV_BODY_KEY_BYTES 1 body_kdf_context vmk of
        None \<Rightarrow> Inl PV_ERR_STATE
      | Some k \<Rightarrow> Inr k)"

definition wrap_vmk ::
  "sodium \<Rightarrow> byte list \<Rightarrow> byte list \<Rightarrow> byte list \<Rightarrow> byte list \<Rightarrow> byte list pv_result" where
  "wrap_vmk S aad nonce key vmk =
     (case aead_encrypt S vmk aad nonce key of
        None \<Rightarrow> Inl PV_ERR_STATE
      | Some wrapped \<Rightarrow> if length wrapped \<noteq> PV_WRAPPED_VMK_BYTES then Inl PV_ERR_STATE else Inr wrapped)"

definition unwrap_vmk ::
  "sodium \<Rightarrow> byte list \<Rightarrow> byte list \<Rightarrow> byte list \<Rightarrow> byte list \<Rightarrow> byte list pv_result" where
  "unwrap_vmk S aad nonce key wrapped =
     (case aead_decrypt S wrapped aad nonce key of
        None \<Rightarrow> Inl PV_ERR_AUTH
      | Some vmk \<Rightarrow> if length vmk \<noteq> PV_WRAP_KEY_BYTES then Inl PV_ERR_AUTH else Inr vmk)"

section \<open>Key slots\<close>

text \<open>
  Wrapping and unwrapping change or read one slot. \<open>salt\<close> and \<open>nonce\<close> are the bytes
  \<^verbatim>\<open>randombytes_buf\<close> delivers; a failed call leaves the header with the fields set so far.
\<close>

definition prepare_password :: "byte list \<Rightarrow> byte list \<Rightarrow> pv_file_header \<Rightarrow> pv_file_header" where
  "prepare_password salt nonce h =
     h\<lparr>password_slot := (password_slot h)\<lparr>ps_opslimit := PV_V1_PASSWORD_OPSLIMIT,
         ps_memlimit := PV_V1_PASSWORD_MEMLIMIT, ps_salt := salt, ps_nonce := nonce\<rparr>\<rparr>"

definition pv_crypto_rewrap_password ::
  "sodium \<Rightarrow> alloc \<Rightarrow> bool \<Rightarrow> byte list \<Rightarrow> byte list \<Rightarrow> byte list \<Rightarrow> byte list \<Rightarrow>
     pv_file_header \<Rightarrow> unit pv_result \<times> pv_file_header" where
  "pv_crypto_rewrap_password S mem hash_ok salt nonce new_password vmk h =
     (let h1 = prepare_password salt nonce h;
          outcome =
            res_bind (secure_key_alloc mem) (\<lambda>_.
            res_bind (password_key S hash_ok (password_slot h1) new_password) (\<lambda>key.
            wrap_vmk S (take PV_PASSWORD_AAD_LEN (pv_header_encode h1)) (ps_nonce (password_slot h1)) key vmk))
      in case outcome of
           Inl e \<Rightarrow> (Inl e, h1)
         | Inr wrapped \<Rightarrow>
             (Inr (), h1\<lparr>password_slot := (password_slot h1)\<lparr>ps_wrapped_vmk := wrapped\<rparr>\<rparr>))"

definition prepare_recovery :: "byte list \<Rightarrow> pv_file_header \<Rightarrow> pv_file_header" where
  "prepare_recovery nonce h = h\<lparr>recovery_slot := (recovery_slot h)\<lparr>rs_nonce := nonce\<rparr>\<rparr>"

definition pv_crypto_rewrap_recovery ::
  "sodium \<Rightarrow> alloc \<Rightarrow> byte list \<Rightarrow> byte list \<Rightarrow> byte list \<Rightarrow>
     pv_file_header \<Rightarrow> unit pv_result \<times> pv_file_header" where
  "pv_crypto_rewrap_recovery S mem nonce recovery_key vmk h =
     (let h1 = prepare_recovery nonce h;
          outcome =
            res_bind (secure_key_alloc mem) (\<lambda>_.
            res_bind (recovery_wrap_key S recovery_key) (\<lambda>key.
            wrap_vmk S (take PV_RECOVERY_AAD_LEN (pv_header_encode h1)) (rs_nonce (recovery_slot h1)) key vmk))
      in case outcome of
           Inl e \<Rightarrow> (Inl e, h1)
         | Inr wrapped \<Rightarrow>
             (Inr (), h1\<lparr>recovery_slot := (recovery_slot h1)\<lparr>rs_wrapped_vmk := wrapped\<rparr>\<rparr>))"

definition slot_password_zero :: pv_keyslot_password where
  "slot_password_zero =
     \<lparr>ps_opslimit = 0, ps_memlimit = 0, ps_salt = replicate PV_SALT_BYTES 0,
      ps_nonce = replicate PV_WRAP_NONCE_BYTES 0, ps_wrapped_vmk = replicate PV_WRAPPED_VMK_BYTES 0\<rparr>"

definition slot_recovery_zero :: pv_keyslot_recovery where
  "slot_recovery_zero =
     \<lparr>rs_nonce = replicate PV_WRAP_NONCE_BYTES 0, rs_wrapped_vmk = replicate PV_WRAPPED_VMK_BYTES 0\<rparr>"

text \<open>
  The draws of \<^verbatim>\<open>pv_crypto_create_header\<close>: an identifier (used when the caller set none),
  the salt and nonce of the password slot, the nonce of the recovery slot; and the outcomes of the
  two allocations and of the password hash.
\<close>

record create_env =
  draw_vault_id :: "byte list"
  draw_salt :: "byte list"
  draw_password_nonce :: "byte list"
  draw_recovery_nonce :: "byte list"
  password_mem :: alloc
  recovery_mem :: alloc
  pwhash_ok :: bool

definition base_header :: "byte list \<Rightarrow> pv_file_header" where
  "base_header vault_id =
     \<lparr>h_magic = pv_magic, h_major = PV_FILE_MAJOR, h_minor = PV_FILE_MINOR,
      h_header_len = word_of_nat PV_FILE_HEADER_LEN, h_flags = 0, h_vault_id = vault_id,
      h_kdf_id = PV_KDF_ARGON2ID13, h_wrap_aead_id = PV_AEAD_XCHACHA20POLY1305,
      h_body_aead_id = PV_AEAD_XCHACHA20POLY1305, h_slot_count = 2,
      password_slot = slot_password_zero, recovery_slot = slot_recovery_zero,
      h_body_nonce = replicate PV_WRAP_NONCE_BYTES 0, h_body_ciphertext_len = 0\<rparr>"

definition pv_crypto_create_header ::
  "sodium \<Rightarrow> create_env \<Rightarrow> byte list \<Rightarrow> byte list \<Rightarrow> byte list \<Rightarrow>
     pv_file_header \<Rightarrow> unit pv_result \<times> pv_file_header" where
  "pv_crypto_create_header S env password recovery_key vmk h =
     (let requested_id = h_vault_id h;
          has_requested_id = list_ex (\<lambda>b. b \<noteq> 0) requested_id;
          h0 = base_header (if has_requested_id then requested_id else draw_vault_id env)
      in pv_bind
           (pv_crypto_rewrap_password S (password_mem env) (pwhash_ok env) (draw_salt env)
              (draw_password_nonce env) password vmk)
           (\<lambda>_. pv_crypto_rewrap_recovery S (recovery_mem env) (draw_recovery_nonce env) recovery_key vmk)
           h0)"

definition pv_crypto_unlock_password ::
  "sodium \<Rightarrow> alloc \<Rightarrow> bool \<Rightarrow> pv_file_header \<Rightarrow> byte list \<Rightarrow> byte list pv_result" where
  "pv_crypto_unlock_password S mem hash_ok h password =
     res_bind (secure_key_alloc mem) (\<lambda>_.
     res_bind (password_key S hash_ok (password_slot h) password) (\<lambda>key.
     unwrap_vmk S (take PV_PASSWORD_AAD_LEN (pv_header_encode h)) (ps_nonce (password_slot h)) key
       (ps_wrapped_vmk (password_slot h))))"

definition pv_crypto_unlock_recovery ::
  "sodium \<Rightarrow> alloc \<Rightarrow> pv_file_header \<Rightarrow> byte list \<Rightarrow> byte list pv_result" where
  "pv_crypto_unlock_recovery S mem h recovery_key =
     res_bind (secure_key_alloc mem) (\<lambda>_.
     res_bind (recovery_wrap_key S recovery_key) (\<lambda>key.
     unwrap_vmk S (take PV_RECOVERY_AAD_LEN (pv_header_encode h)) (rs_nonce (recovery_slot h)) key
       (rs_wrapped_vmk (recovery_slot h))))"

section \<open>The body\<close>

text \<open>
  \<open>fill n\<close> is what \<^verbatim>\<open>randombytes_buf\<close> writes into the padding of \<open>n\<close> bytes;
  \<open>buffers\<close> is whether the two buffers could be allocated and locked.
\<close>

definition body_padded_len :: "size_t \<Rightarrow> (size_t \<times> size_t) pv_result" where
  "body_padded_len plaintext_len =
     (case pv_size_add plaintext_len 4 of
        None \<Rightarrow> Inl PV_ERR_LIMIT
      | Some raw_len \<Rightarrow>
          if raw_len > word_of_nat PV_MAX_PLAINTEXT then Inl PV_ERR_LIMIT
          else
            (let padded_len = (raw_len + 4095) AND NOT 4095
             in if padded_len = 0 \<or> padded_len > word_of_nat PV_MAX_PLAINTEXT then Inl PV_ERR_LIMIT
                else Inr (raw_len, padded_len)))"

definition pv_crypto_encrypt_body ::
  "sodium \<Rightarrow> alloc \<Rightarrow> bool \<Rightarrow> (nat \<Rightarrow> byte list) \<Rightarrow> byte list \<Rightarrow> byte list \<Rightarrow> byte list \<Rightarrow>
     pv_file_header \<Rightarrow> byte list pv_result \<times> pv_file_header" where
  "pv_crypto_encrypt_body S mem buffers fill nonce vmk plaintext h =
     (if plaintext = [] then (Inl PV_ERR_USAGE, h)
      else case
          res_bind (body_padded_len (word_of_nat (length plaintext))) (\<lambda>lens.
          res_bind (secure_key_alloc mem) (\<lambda>_.
          res_bind (body_key S vmk) (\<lambda>key.
          if \<not> buffers then Inl PV_ERR_SECURE_MEMORY else Inr (lens, key)))) of
        Inl e \<Rightarrow> (Inl e, h)
      | Inr ((raw_len, padded_len), key) \<Rightarrow>
          (let padded = put_u32_le (word_of_nat (length plaintext)) @ plaintext @
                 (if padded_len > raw_len then fill (unat (padded_len - raw_len)) else []);
               h1 = h\<lparr>h_body_nonce := nonce,
                      h_body_ciphertext_len := padded_len + word_of_nat PV_BODY_TAG_BYTES\<rparr>
           in case aead_encrypt S padded (pv_header_encode h1) (h_body_nonce h1) key of
                None \<Rightarrow> (Inl PV_ERR_STATE, h1)
              | Some ciphertext \<Rightarrow>
                  if word_of_nat (length ciphertext) \<noteq> h_body_ciphertext_len h1 then (Inl PV_ERR_STATE, h1)
                  else (Inr ciphertext, h1)))"

definition body_content :: "byte list \<Rightarrow> byte list pv_result" where
  "body_content decoded =
     (if length decoded < 4 \<or> length decoded > PV_MAX_PLAINTEXT \<or> length decoded mod 4096 \<noteq> 0
      then Inl PV_ERR_FORMAT
      else
        (let content_len = unat (get_u32_le (take 4 decoded))
         in if content_len > length decoded - 4 \<or> content_len = 0 then Inl PV_ERR_FORMAT
            else Inr (take content_len (drop 4 decoded))))"

definition pv_crypto_decrypt_body ::
  "sodium \<Rightarrow> alloc \<Rightarrow> bool \<Rightarrow> pv_file_header \<Rightarrow> byte list \<Rightarrow> byte list \<Rightarrow> byte list pv_result" where
  "pv_crypto_decrypt_body S mem buffer h vmk ciphertext =
     (if word_of_nat (length ciphertext) \<noteq> h_body_ciphertext_len h \<or>
         length ciphertext < 4096 + PV_BODY_TAG_BYTES \<or>
         (length ciphertext - PV_BODY_TAG_BYTES) mod 4096 \<noteq> 0
      then Inl PV_ERR_FORMAT
      else
        res_bind (secure_key_alloc mem) (\<lambda>_.
        res_bind (body_key S vmk) (\<lambda>key.
        if \<not> buffer then Inl PV_ERR_SECURE_MEMORY
        else case aead_decrypt S ciphertext (pv_header_encode h) (h_body_nonce h) key of
          None \<Rightarrow> Inl PV_ERR_AUTH
        | Some decoded \<Rightarrow> body_content decoded)))"

section \<open>Integers in little-endian order\<close>

text \<open>Writing and reading an integer of \<open>n\<close> bytes are inverse to each other.\<close>

locale le_codec =
  fixes put :: "'w::len word \<Rightarrow> byte list" and get :: "byte list \<Rightarrow> 'w word" and n :: nat
  assumes length_put: "length (put v) = n"
    and get_put: "get (put v) = v"
    and put_get: "length bs = n \<Longrightarrow> put (get bs) = bs"
begin

lemma put_inject: "put v @ rest = put w @ rest' \<longleftrightarrow> v = w \<and> rest = rest'"
  by (metis append_eq_append_conv get_put length_put)

lemma get_front: "get (take n (put v @ rest)) = v"
  by (simp add: length_put get_put)

end

text \<open>The three pairs of functions are one loop at three widths.\<close>

definition le_put :: "nat \<Rightarrow> 'a::len word \<Rightarrow> byte list" where
  "le_put k v = map (\<lambda>i. ucast (drop_bit (i * 8) v)) [0..<k]"

definition le_get :: "nat \<Rightarrow> byte list \<Rightarrow> 'a::len word" where
  "le_get k bs = fold (\<lambda>i v. v OR push_bit (i * 8) (ucast (bs ! i))) [0..<k] 0"

lemma byte_bit_less: "bit (b :: byte) k \<Longrightarrow> k < 8"
  using bit_imp_le_length [of b k] by simp

lemma bit_le_get:
  "bit (le_get k bs :: 'a::len word) n \<longleftrightarrow> n < LENGTH('a) \<and> n div 8 < k \<and> bit (bs ! (n div 8)) (n mod 8)"
proof (induction k)
  case 0
  then show ?case by (simp add: le_get_def)
next
  case (Suc k)
  have split: "k * 8 \<le> n \<and> n - k * 8 < 8 \<longleftrightarrow> n div 8 = k" by auto
  have "bit (le_get (Suc k) bs :: 'a word) n \<longleftrightarrow>
      bit (le_get k bs :: 'a word) n \<or> (n < LENGTH('a) \<and> k * 8 \<le> n \<and> bit (bs ! k) (n - k * 8))"
    by (auto simp: le_get_def bit_or_iff bit_push_bit_iff bit_ucast_iff dest: bit_imp_le_length)
  moreover have "k * 8 \<le> n \<and> bit (bs ! k) (n - k * 8) \<longleftrightarrow> n div 8 = k \<and> bit (bs ! (n div 8)) (n mod 8)"
    using split byte_bit_less by (auto simp: minus_div_mult_eq_mod [symmetric])
  ultimately show ?case using Suc by auto
qed

lemma le_get_put:
  assumes "LENGTH('a) = 8 * k"
  shows "le_get k (le_put k v) = (v :: 'a::len word)"
proof (rule bit_word_eqI)
  fix n assume n: "n < LENGTH('a)"
  then have "n div 8 < k" using assms by simp
  with n show "bit (le_get k (le_put k v) :: 'a word) n = bit v n"
    by (simp add: bit_le_get le_put_def bit_ucast_iff bit_drop_bit_eq)
qed

lemma le_put_get:
  assumes "LENGTH('a) = 8 * k" and "length bs = k"
  shows "le_put k (le_get k bs :: 'a::len word) = bs"
proof (rule nth_equalityI)
  fix i assume "i < length (le_put k (le_get k bs :: 'a word))"
  then have i: "i < k" by (simp add: le_put_def)
  show "le_put k (le_get k bs :: 'a word) ! i = bs ! i"
  proof (rule bit_word_eqI)
    fix j assume j: "j < LENGTH(8)"
    then have "i * 8 + j < LENGTH('a)" using i assms(1) by simp
    with i j show "bit (le_put k (le_get k bs :: 'a word) ! i) j = bit (bs ! i) j"
      by (simp add: le_put_def bit_ucast_iff bit_drop_bit_eq bit_le_get)
  qed
qed (simp add: le_put_def assms)

lemma le_put_length: "length (le_put k v) = k"
  by (simp add: le_put_def)

lemma le_pairs:
  "put_u16_le = le_put 2" "get_u16_le = le_get 2"
  "put_u32_le = le_put 4" "get_u32_le = le_get 4"
  "put_u64_le = le_put 8" "get_u64_le = le_get 8"
proof -
  have two: "[0..<2] = [0, 1::nat]" by (simp add: upt_rec)
  show "put_u16_le = le_put 2" "get_u16_le = le_get 2"
    by (auto simp: put_u16_le_def get_u16_le_def le_put_def le_get_def two)
qed (auto simp: put_u32_le_def put_u64_le_def get_u32_le_def get_u64_le_def le_put_def le_get_def)

interpretation u16: le_codec put_u16_le get_u16_le 2
  unfolding le_pairs by unfold_locales (simp_all add: le_put_length le_get_put le_put_get)

interpretation u32: le_codec put_u32_le get_u32_le 4
  unfolding le_pairs by unfold_locales (simp_all add: le_put_length le_get_put le_put_get)

interpretation u64: le_codec put_u64_le get_u64_le 8
  unfolding le_pairs by unfold_locales (simp_all add: le_put_length le_get_put le_put_get)

lemmas le_codecs = u16.length_put u32.length_put u64.length_put u16.get_put u32.get_put u64.get_put
  u16.put_get u32.put_get u64.put_get

section \<open>The header codec\<close>

definition header_shape :: "pv_file_header \<Rightarrow> bool" where
  "header_shape h \<longleftrightarrow>
     length (h_magic h) = 8 \<and> length (h_vault_id h) = PV_VAULT_ID_BYTES \<and>
     length (ps_salt (password_slot h)) = PV_SALT_BYTES \<and>
     length (ps_nonce (password_slot h)) = PV_WRAP_NONCE_BYTES \<and>
     length (ps_wrapped_vmk (password_slot h)) = PV_WRAPPED_VMK_BYTES \<and>
     length (rs_nonce (recovery_slot h)) = PV_WRAP_NONCE_BYTES \<and>
     length (rs_wrapped_vmk (recovery_slot h)) = PV_WRAPPED_VMK_BYTES \<and>
     length (h_body_nonce h) = PV_WRAP_NONCE_BYTES"

lemma field_chain: "k = off + n \<Longrightarrow> field off n xs @ drop k xs = drop off xs"
  by (simp add: field_def add.commute flip: drop_drop)

lemma field_last: "length xs = off + n \<Longrightarrow> field off n xs = drop off xs"
  by (simp add: field_def)

lemma field_length: "off + n \<le> length xs \<Longrightarrow> length (field off n xs) = n"
  by (simp add: field_def)

lemma header_encode_length: "header_shape h \<Longrightarrow> length (pv_header_encode h) = PV_FILE_HEADER_LEN"
  by (simp add: header_shape_def pv_header_encode_def le_codecs)

lemma header_read_encode: "header_shape h \<Longrightarrow> header_read (pv_header_encode h) = h"
  by (simp add: header_shape_def pv_header_encode_def header_read_def field_def le_codecs)

lemma header_encode_read:
  assumes "length input = PV_FILE_HEADER_LEN"
  shows "pv_header_encode (header_read input) = input" "header_shape (header_read input)"
proof -
  have "pv_header_encode (header_read input) = drop 0 input"
    using assms by (simp add: pv_header_encode_def header_read_def field_length le_codecs field_last field_chain)
  then show "pv_header_encode (header_read input) = input" by simp
  show "header_shape (header_read input)"
    using assms by (simp add: header_shape_def header_read_def field_length)
qed

definition header_valid :: "pv_file_header \<Rightarrow> bool" where
  "header_valid h \<longleftrightarrow>
     header_shape h \<and> h_magic h = pv_magic \<and> h_major h = 1 \<and> h_minor h = 0 \<and>
     h_vault_id h \<noteq> replicate PV_VAULT_ID_BYTES 0 \<and> h_header_len h = 252 \<and> h_flags h = 0 \<and>
     h_kdf_id h = 1 \<and> h_wrap_aead_id h = 1 \<and> h_body_aead_id h = 1 \<and> h_slot_count h = 2 \<and>
     unat (ps_opslimit (password_slot h)) \<in> {3..10} \<and>
     unat (ps_memlimit (password_slot h)) \<in> {2 ^ 28..2 ^ 30} \<and>
     (\<exists>blocks \<in> {1..512}. unat (h_body_ciphertext_len h) = 4096 * blocks + 16)"

lemma body_len_blocks:
  "body_len_ok w \<longleftrightarrow> (\<exists>blocks \<in> {1..512}. unat w = 4096 * blocks + 16)" (is "?lhs \<longleftrightarrow> ?rhs")
proof -
  let ?n = "unat w"
  have "?lhs \<longleftrightarrow> 4112 \<le> ?n \<and> (?n - 16) mod 4096 = 0 \<and> ?n \<le> 2097168"
  proof (cases "4112 \<le> ?n")
    case True
    then have "unat (w - 16) = ?n - 16" by (simp add: unat_sub word_le_nat_alt)
    then show ?thesis
      using True
      by (simp add: body_len_ok_def word_less_nat_alt word_le_nat_alt PV_MAX_PLAINTEXT_def not_less word_unat_eq_iff unat_mod)
  next
    case False
    then show ?thesis by (simp add: body_len_ok_def word_less_nat_alt)
  qed
  also have "\<dots> \<longleftrightarrow> ?rhs"
  proof
    assume *: "4112 \<le> ?n \<and> (?n - 16) mod 4096 = 0 \<and> ?n \<le> 2097168"
    then have "?n = 4096 * ((?n - 16) div 4096) + 16" "(?n - 16) div 4096 \<in> {1..512}" by auto
    then show ?rhs by blast
  qed auto
  finally show ?thesis .
qed

lemma all_zero_replicate: "bytes_all_zero bs \<longleftrightarrow> bs = replicate (length bs) 0"
proof -
  have "bytes_all_zero bs \<longleftrightarrow> list_all (\<lambda>b. b = 0) bs"
    using id_is_zero_iff [of bs] by (simp add: bytes_all_zero_def id_is_zero_def)
  also have "\<dots> \<longleftrightarrow> bs = replicate (length bs) 0" by (induction bs) simp_all
  finally show ?thesis .
qed

lemma header_decode_checks:
  "pv_header_decode input = Inr h \<longleftrightarrow> h = header_read input \<and> h_magic h = pv_magic \<and>
     h_major h = 1 \<and> h_minor h = 0 \<and> \<not> bytes_all_zero (h_vault_id h) \<and> h_header_len h = 252 \<and>
     h_flags h = 0 \<and> h_kdf_id h = 1 \<and> h_wrap_aead_id h = 1 \<and> h_body_aead_id h = 1 \<and>
     h_slot_count h = 2 \<and> slot_limits_ok (password_slot h) \<and>
     body_len_ok (h_body_ciphertext_len h)"
  by (auto simp: pv_header_decode_def Let_def)

lemma slot_limits_nat:
  "slot_limits_ok s \<longleftrightarrow> unat (ps_opslimit s) \<in> {3..10} \<and> unat (ps_memlimit s) \<in> {2 ^ 28..2 ^ 30}"
  by (auto simp: slot_limits_ok_def word_less_nat_alt)

text \<open>
  C12. The header codec is exact. Over inputs of 252 bytes, decoding succeeds with the header
  \<open>h\<close> precisely when \<open>h\<close> is a valid version 1.0 header (magic, version, algorithms, a
  vault identifier that is not zero, key derivation costs within their bounds, a body of 1 to 512
  blocks of 4096 bytes) and the input is the encoding of \<open>h\<close>. So every valid header survives a
  write and a read, and nothing but the encoding of a valid header is accepted.
\<close>

theorem pv_header_decode_iff:
  assumes "length input = PV_FILE_HEADER_LEN"
  shows "pv_header_decode input = Inr h \<longleftrightarrow> header_valid h \<and> pv_header_encode h = input"
proof -
  have "h = header_read input \<longleftrightarrow> header_shape h \<and> pv_header_encode h = input"
    using header_encode_read [OF assms] header_read_encode [of h] by auto
  then show ?thesis
    unfolding header_decode_checks header_valid_def slot_limits_nat body_len_blocks all_zero_replicate
    by (auto simp: header_shape_def)
qed

section \<open>Key slots keep the master key\<close>

definition password_aad :: "pv_file_header \<Rightarrow> byte list" where
  "password_aad h = take PV_PASSWORD_AAD_LEN (pv_header_encode h)"

definition recovery_aad :: "pv_file_header \<Rightarrow> byte list" where
  "recovery_aad h = take PV_RECOVERY_AAD_LEN (pv_header_encode h)"

lemma recovery_aad_prefix:
  assumes "header_shape h"
  shows "recovery_aad h = h_magic h @ put_u16_le (h_major h) @ put_u16_le (h_minor h) @
    put_u32_le (h_header_len h) @ put_u32_le (h_flags h) @ h_vault_id h @ put_u16_le (h_kdf_id h) @
    put_u16_le (h_wrap_aead_id h) @ put_u16_le (h_body_aead_id h) @ put_u16_le (h_slot_count h)"
  using assms by (simp add: recovery_aad_def pv_header_encode_def header_shape_def le_codecs)

lemma password_aad_prefix:
  assumes "header_shape h"
  shows "password_aad h = recovery_aad h @ put_u64_le (ps_opslimit (password_slot h)) @
    put_u64_le (ps_memlimit (password_slot h)) @ ps_salt (password_slot h)"
  using assms
  by (simp add: password_aad_def recovery_aad_def pv_header_encode_def header_shape_def le_codecs)

lemma sodium_okD:
  assumes "sodium_ok S"
  shows "length (crypto_pwhash S pw salt ops mem) = PV_WRAP_KEY_BYTES"
    and "16 \<le> n \<Longrightarrow> n \<le> 64 \<Longrightarrow> \<exists>k. crypto_kdf_derive_from_key S n i ctx key = Some k \<and> length k = n"
    and "length nonce = PV_WRAP_NONCE_BYTES \<Longrightarrow> length key = PV_WRAP_KEY_BYTES \<Longrightarrow>
      \<exists>c. aead_encrypt S m ad nonce key = Some c \<and> length c = length m + PV_BODY_TAG_BYTES \<and>
        aead_decrypt S c ad nonce key = Some m"
    and "aead_decrypt S c ad nonce key = Some m \<Longrightarrow> length c = length m + PV_BODY_TAG_BYTES"
    and "length (generichash S m) = crypto_generichash_BYTES"
  using assms unfolding sodium_ok_def by simp_all

lemma sodium_encrypt:
  assumes "sodium_ok S" "length nonce = PV_WRAP_NONCE_BYTES" "length key = PV_WRAP_KEY_BYTES"
    and "aead_encrypt S m ad nonce key = Some c"
  shows "length c = length m + PV_BODY_TAG_BYTES" "aead_decrypt S c ad nonce key = Some m"
  using sodium_okD(3) [OF assms(1-3), of m ad] assms(4) by auto

lemma sodium_wrap:
  assumes "sodium_ok S" "length nonce = PV_WRAP_NONCE_BYTES" "length key = PV_WRAP_KEY_BYTES"
    and "length vmk = PV_WRAP_KEY_BYTES" "wrap_vmk S aad nonce key vmk = Inr wrapped"
  shows "length wrapped = PV_WRAPPED_VMK_BYTES" "unwrap_vmk S aad nonce key wrapped = Inr vmk"
proof -
  have enc: "aead_encrypt S vmk aad nonce key = Some wrapped"
    using assms(5) by (auto simp: wrap_vmk_def split: option.splits if_splits)
  from sodium_encrypt [OF assms(1-3) this] assms(4)
  show "length wrapped = PV_WRAPPED_VMK_BYTES" "unwrap_vmk S aad nonce key wrapped = Inr vmk"
    by (simp_all add: unwrap_vmk_def)
qed

lemma sodium_key_lengths:
  assumes "sodium_ok S"
  shows "password_key S ok slot pw = Inr key \<Longrightarrow> length key = PV_WRAP_KEY_BYTES"
    and "recovery_wrap_key S rk = Inr key \<Longrightarrow> length key = PV_WRAP_KEY_BYTES"
    and "\<exists>key. recovery_wrap_key S rk = Inr key" and "\<exists>key. body_key S vmk = Inr key \<and> length key = PV_BODY_KEY_BYTES"
proof -
  have kdf: "\<exists>k. crypto_kdf_derive_from_key S 32 i ctx m = Some k \<and> length k = 32" for i ctx m
    using sodium_okD(2) [OF assms, of 32] by simp
  show "password_key S ok slot pw = Inr key \<Longrightarrow> length key = PV_WRAP_KEY_BYTES"
    using sodium_okD(1) [OF assms] by (auto simp: password_key_def split: if_splits)
  show "recovery_wrap_key S rk = Inr key \<Longrightarrow> length key = PV_WRAP_KEY_BYTES"
    "\<exists>key. recovery_wrap_key S rk = Inr key" "\<exists>key. body_key S vmk = Inr key \<and> length key = PV_BODY_KEY_BYTES"
    using kdf [of 0 recovery_kdf_context rk] kdf [of 1 body_kdf_context vmk]
    by (auto simp: recovery_wrap_key_def body_key_def)
qed

text \<open>
  What the two slots promise: wrapping keeps the shape of the header, whoever wrapped the key can
  unwrap it, and unwrapping reads nothing but the slot and the authenticated prefix of the header.
\<close>

locale key_slot =
  fixes rewrap :: "sodium \<Rightarrow> 'e \<Rightarrow> byte list \<Rightarrow> byte list \<Rightarrow> pv_file_header \<Rightarrow> unit pv_result \<times> pv_file_header"
    and unlock :: "sodium \<Rightarrow> 'u \<Rightarrow> pv_file_header \<Rightarrow> byte list \<Rightarrow> byte list pv_result"
    and draws_ok :: "'e \<Rightarrow> bool" and works :: "'u \<Rightarrow> bool"
    and aad :: "pv_file_header \<Rightarrow> byte list" and slot :: "pv_file_header \<Rightarrow> 'slot"
  assumes unlock_local: "aad h = aad h' \<Longrightarrow> slot h = slot h' \<Longrightarrow> unlock S u h c = unlock S u h' c"
    and rewrap_shape: "sodium_ok S \<Longrightarrow> draws_ok e \<Longrightarrow> header_shape h \<Longrightarrow> length vmk = PV_WRAP_KEY_BYTES \<Longrightarrow>
      rewrap S e c vmk h = (res, h') \<Longrightarrow> header_shape h'"
    and rewrap_unlocks: "sodium_ok S \<Longrightarrow> draws_ok e \<Longrightarrow> header_shape h \<Longrightarrow> length vmk = PV_WRAP_KEY_BYTES \<Longrightarrow>
      rewrap S e c vmk h = (Inr (), h') \<Longrightarrow> works u \<Longrightarrow> unlock S u h' c = Inr vmk"
begin

lemma unlocks_later:
  assumes "sodium_ok S" "draws_ok e" "header_shape h" "length vmk = PV_WRAP_KEY_BYTES"
    and "rewrap S e c vmk h = (Inr (), h')" "works u" "aad h'' = aad h'" "slot h'' = slot h'"
  shows "unlock S u h'' c = Inr vmk"
  using unlock_local [OF assms(7,8), of S u c] rewrap_unlocks [OF assms(1-6)] by simp

end

definition rewrap_password_with where
  "rewrap_password_with S = (\<lambda>(mem, ok, salt, nonce). pv_crypto_rewrap_password S mem ok salt nonce)"

definition rewrap_recovery_with where
  "rewrap_recovery_with S = (\<lambda>(mem, nonce). pv_crypto_rewrap_recovery S mem nonce)"

definition unlock_password_with where
  "unlock_password_with S = (\<lambda>(mem, ok). pv_crypto_unlock_password S mem ok)"

lemma prepare_password_shape:
  assumes "header_shape h" "length salt = PV_SALT_BYTES" "length nonce = PV_WRAP_NONCE_BYTES"
  shows "header_shape (prepare_password salt nonce h)"
  using assms by (simp add: prepare_password_def header_shape_def)

lemma prepare_recovery_shape:
  "header_shape h \<Longrightarrow> length nonce = PV_WRAP_NONCE_BYTES \<Longrightarrow> header_shape (prepare_recovery nonce h)"
  by (simp add: prepare_recovery_def header_shape_def)

lemma prepare_nonce [simp]:
  "ps_nonce (password_slot (prepare_password salt nonce h)) = nonce"
  "rs_nonce (recovery_slot (prepare_recovery nonce h)) = nonce"
  by (simp_all add: prepare_password_def prepare_recovery_def)

definition store_password :: "byte list \<Rightarrow> pv_file_header \<Rightarrow> pv_file_header" where
  "store_password w h = h\<lparr>password_slot := (password_slot h)\<lparr>ps_wrapped_vmk := w\<rparr>\<rparr>"

definition store_recovery :: "byte list \<Rightarrow> pv_file_header \<Rightarrow> pv_file_header" where
  "store_recovery w h = h\<lparr>recovery_slot := (recovery_slot h)\<lparr>rs_wrapped_vmk := w\<rparr>\<rparr>"

lemma store_simps [simp]:
  "ps_nonce (password_slot (store_password w h)) = ps_nonce (password_slot h)"
  "ps_wrapped_vmk (password_slot (store_password w h)) = w"
  "rs_nonce (recovery_slot (store_recovery w h)) = rs_nonce (recovery_slot h)"
  "rs_wrapped_vmk (recovery_slot (store_recovery w h)) = w"
  "password_key S ok (password_slot (store_password w h)) pw = password_key S ok (password_slot h) pw"
  by (simp_all add: store_password_def store_recovery_def password_key_def slot_limits_ok_def)

lemma store_shape:
  "header_shape h \<Longrightarrow> length w = PV_WRAPPED_VMK_BYTES \<Longrightarrow> header_shape (store_password w h)"
  "header_shape h \<Longrightarrow> length w = PV_WRAPPED_VMK_BYTES \<Longrightarrow> header_shape (store_recovery w h)"
  by (simp_all add: header_shape_def store_password_def store_recovery_def)

lemma store_aad:
  assumes "header_shape h" "length w = PV_WRAPPED_VMK_BYTES"
  shows "password_aad (store_password w h) = password_aad h" "recovery_aad (store_recovery w h) = recovery_aad h"
  using assms store_shape [OF assms]
  by (simp_all add: password_aad_prefix recovery_aad_prefix) (simp_all add: store_password_def store_recovery_def)

text \<open>Either only the parameters of the slot changed, or the key was wrapped under them.\<close>

lemma rewrap_password_cases:
  assumes "pv_crypto_rewrap_password S mem ok salt nonce pw vmk h = (res, h')"
  obtains e where "res = Inl e" "h' = prepare_password salt nonce h"
  | key wrapped where "res = Inr ()" "secure_key_alloc mem = Inr ()"
      "password_key S ok (password_slot (prepare_password salt nonce h)) pw = Inr key"
      "wrap_vmk S (password_aad (prepare_password salt nonce h)) nonce key vmk = Inr wrapped"
      "h' = store_password wrapped (prepare_password salt nonce h)"
proof -
  let ?h1 = "prepare_password salt nonce h"
  let ?o = "res_bind (secure_key_alloc mem) (\<lambda>_. res_bind (password_key S ok (password_slot ?h1) pw) (\<lambda>key.
      wrap_vmk S (password_aad ?h1) nonce key vmk))"
  have run: "(case ?o of Inl e \<Rightarrow> (Inl e, ?h1) | Inr w \<Rightarrow> (Inr (), store_password w ?h1)) = (res, h')"
    using assms unfolding pv_crypto_rewrap_password_def Let_def password_aad_def store_password_def prepare_nonce .
  show thesis
  proof (cases ?o)
    case (Inl e)
    with run show thesis by (intro that(1)) auto
  next
    case (Inr w)
    moreover from this obtain key where "secure_key_alloc mem = Inr ()" "password_key S ok (password_slot ?h1) pw = Inr key"
      "wrap_vmk S (password_aad ?h1) nonce key vmk = Inr w" unfolding res_bind_Inr by auto
    ultimately show thesis using run by (intro that(2)) auto
  qed
qed

lemma rewrap_recovery_cases:
  assumes "pv_crypto_rewrap_recovery S mem nonce rk vmk h = (res, h')"
  obtains e where "res = Inl e" "h' = prepare_recovery nonce h"
  | key wrapped where "res = Inr ()" "secure_key_alloc mem = Inr ()" "recovery_wrap_key S rk = Inr key"
      "wrap_vmk S (recovery_aad (prepare_recovery nonce h)) nonce key vmk = Inr wrapped"
      "h' = store_recovery wrapped (prepare_recovery nonce h)"
proof -
  let ?h1 = "prepare_recovery nonce h"
  let ?o = "res_bind (secure_key_alloc mem) (\<lambda>_. res_bind (recovery_wrap_key S rk) (\<lambda>key.
      wrap_vmk S (recovery_aad ?h1) nonce key vmk))"
  have run: "(case ?o of Inl e \<Rightarrow> (Inl e, ?h1) | Inr w \<Rightarrow> (Inr (), store_recovery w ?h1)) = (res, h')"
    using assms unfolding pv_crypto_rewrap_recovery_def Let_def recovery_aad_def store_recovery_def prepare_nonce .
  show thesis
  proof (cases ?o)
    case (Inl e)
    with run show thesis by (intro that(1)) auto
  next
    case (Inr w)
    moreover from this obtain key where "secure_key_alloc mem = Inr ()" "recovery_wrap_key S rk = Inr key"
      "wrap_vmk S (recovery_aad ?h1) nonce key vmk = Inr w" unfolding res_bind_Inr by auto
    ultimately show thesis using run by (intro that(2)) auto
  qed
qed

lemma password_key_any:
  "password_key S ok slot pw = Inr key \<Longrightarrow> password_key S True slot pw = Inr key"
  by (auto simp: password_key_def split: if_splits)

interpretation password: key_slot rewrap_password_with unlock_password_with
  "\<lambda>(mem, ok, salt, nonce). length salt = PV_SALT_BYTES \<and> length nonce = PV_WRAP_NONCE_BYTES"
  "\<lambda>u. u = (Alloc_ok, True)" password_aad password_slot
proof
  fix h h' and S u c
  assume "password_aad h = password_aad h'" "password_slot h = password_slot h'"
  then show "unlock_password_with S u h c = unlock_password_with S u h' c"
    by (simp add: unlock_password_with_def pv_crypto_unlock_password_def password_aad_def split: prod.split)
next
  fix S e h vmk c res h'
  assume S: "sodium_ok S" and e: "case e of (mem, ok, salt, nonce) \<Rightarrow> length salt = PV_SALT_BYTES \<and>
      length nonce = PV_WRAP_NONCE_BYTES" and h: "header_shape h" and vmk: "length vmk = PV_WRAP_KEY_BYTES"
    and run: "rewrap_password_with S e c vmk h = (res, h')"
  obtain mem ok salt nonce where e': "e = (mem, ok, salt, nonce)" by (cases e) auto
  note shape = prepare_password_shape [OF h]
  have run': "pv_crypto_rewrap_password S mem ok salt nonce c vmk h = (res, h')"
    using run by (simp add: rewrap_password_with_def e')
  then show "header_shape h'"
  proof (cases rule: rewrap_password_cases)
    case (2 key wrapped)
    with sodium_wrap [OF S _ sodium_key_lengths(1) [OF S 2(3)] vmk 2(4)] shape e e' show ?thesis
      by (simp add: store_shape)
  qed (use shape e e' in simp)
next
  fix S e h vmk c h' u
  assume S: "sodium_ok S" and e: "case e of (mem, ok, salt, nonce) \<Rightarrow> length salt = PV_SALT_BYTES \<and>
      length nonce = PV_WRAP_NONCE_BYTES" and h: "header_shape h" and vmk: "length vmk = PV_WRAP_KEY_BYTES"
    and run: "rewrap_password_with S e c vmk h = (Inr (), h')" and u: "u = (Alloc_ok, True)"
  obtain mem ok salt nonce where e': "e = (mem, ok, salt, nonce)" by (cases e) auto
  have len: "length nonce = PV_WRAP_NONCE_BYTES" "header_shape (prepare_password salt nonce h)"
    using prepare_password_shape [OF h] e e' by simp_all
  have run': "pv_crypto_rewrap_password S mem ok salt nonce c vmk h = (Inr (), h')"
    using run by (simp add: rewrap_password_with_def e')
  then show "unlock_password_with S u h' c = Inr vmk"
  proof (cases rule: rewrap_password_cases)
    case (2 key wrapped)
    note w = sodium_wrap [OF S len(1) sodium_key_lengths(1) [OF S 2(3)] vmk 2(4)]
    show ?thesis
      using w(2) password_key_any [OF 2(3)] store_aad(1) [OF len(2) w(1)]
      by (simp add: unlock_password_with_def pv_crypto_unlock_password_def u 2(5) secure_key_alloc_def
          flip: password_aad_def)
  qed simp
qed

interpretation recovery: key_slot rewrap_recovery_with pv_crypto_unlock_recovery
  "\<lambda>(mem, nonce). length nonce = PV_WRAP_NONCE_BYTES" "\<lambda>u. u = Alloc_ok" recovery_aad recovery_slot
proof
  fix h h' and S u c
  assume "recovery_aad h = recovery_aad h'" "recovery_slot h = recovery_slot h'"
  then show "pv_crypto_unlock_recovery S u h c = pv_crypto_unlock_recovery S u h' c"
    by (simp add: pv_crypto_unlock_recovery_def recovery_aad_def)
next
  fix S e h vmk c res h'
  assume S: "sodium_ok S" and e: "case e of (mem, nonce) \<Rightarrow> length nonce = PV_WRAP_NONCE_BYTES"
    and h: "header_shape h" and vmk: "length vmk = PV_WRAP_KEY_BYTES"
    and run: "rewrap_recovery_with S e c vmk h = (res, h')"
  obtain mem nonce where e': "e = (mem, nonce)" "length nonce = PV_WRAP_NONCE_BYTES" using e by (cases e) auto
  have "pv_crypto_rewrap_recovery S mem nonce c vmk h = (res, h')"
    using run by (simp add: rewrap_recovery_with_def e')
  then show "header_shape h'"
  proof (cases rule: rewrap_recovery_cases)
    case (2 key wrapped)
    with sodium_wrap [OF S e'(2) sodium_key_lengths(2) [OF S 2(3)] vmk 2(4)] prepare_recovery_shape [OF h e'(2)]
    show ?thesis by (simp add: store_shape)
  qed (use prepare_recovery_shape [OF h e'(2)] in simp)
next
  fix S e h vmk c h' u
  assume S: "sodium_ok S" and e: "case e of (mem, nonce) \<Rightarrow> length nonce = PV_WRAP_NONCE_BYTES"
    and h: "header_shape h" and vmk: "length vmk = PV_WRAP_KEY_BYTES"
    and run: "rewrap_recovery_with S e c vmk h = (Inr (), h')" and u: "u = Alloc_ok"
  obtain mem nonce where e': "e = (mem, nonce)" "length nonce = PV_WRAP_NONCE_BYTES" using e by (cases e) auto
  have "pv_crypto_rewrap_recovery S mem nonce c vmk h = (Inr (), h')"
    using run by (simp add: rewrap_recovery_with_def e')
  then show "pv_crypto_unlock_recovery S u h' c = Inr vmk"
  proof (cases rule: rewrap_recovery_cases)
    case (2 key wrapped)
    note w = sodium_wrap [OF S e'(2) sodium_key_lengths(2) [OF S 2(3)] vmk 2(4)]
    show ?thesis
      using w(2) 2(3) store_aad(2) [OF prepare_recovery_shape [OF h e'(2)] w(1)]
      by (simp add: pv_crypto_unlock_recovery_def u 2(5) secure_key_alloc_def flip: recovery_aad_def)
  qed simp
qed

text \<open>Wrapping in one slot leaves the other slot and what authenticates it alone.\<close>

lemma rewrap_password_frame:
  assumes "pv_crypto_rewrap_password S mem ok salt nonce pw vmk h = (res, h')"
  obtains s where "h' = h\<lparr>password_slot := s\<rparr>"
  using assms
  by (cases rule: rewrap_password_cases) (auto simp: prepare_password_def store_password_def intro: that)

lemma rewrap_recovery_frame:
  assumes "pv_crypto_rewrap_recovery S mem nonce rk vmk h = (res, h')"
  obtains s where "h' = h\<lparr>recovery_slot := s\<rparr>"
  using assms
  by (cases rule: rewrap_recovery_cases) (auto simp: prepare_recovery_def store_recovery_def intro: that)

lemma other_slot_aad:
  assumes "header_shape h" "header_shape h'"
  shows "h' = h\<lparr>password_slot := s\<rparr> \<Longrightarrow> recovery_aad h' = recovery_aad h"
    and "h' = h\<lparr>recovery_slot := r\<rparr> \<Longrightarrow> password_aad h' = password_aad h"
  using assms by (simp_all add: recovery_aad_prefix password_aad_prefix)

lemmas password_shape = password.rewrap_shape
  [of _ "(mem, ok, salt, nonce)" for mem ok salt nonce, unfolded rewrap_password_with_def, simplified]

lemmas recovery_shape = recovery.rewrap_shape
  [of _ "(mem, nonce)" for mem nonce, unfolded rewrap_recovery_with_def, simplified]

lemmas password_unlocks = password.unlocks_later
  [of _ "(mem, ok, salt, nonce)" _ _ _ _ "(Alloc_ok, True)" for mem ok salt nonce,
    unfolded rewrap_password_with_def unlock_password_with_def, simplified]

lemmas recovery_unlocks = recovery.unlocks_later
  [of _ "(mem, nonce)" _ _ _ _ Alloc_ok for mem nonce, unfolded rewrap_recovery_with_def, simplified]

lemma base_header_shape: "length vault_id = PV_VAULT_ID_BYTES \<Longrightarrow> header_shape (base_header vault_id)"
  by (simp add: header_shape_def base_header_def slot_password_zero_def slot_recovery_zero_def pv_magic_def ascii_def)

definition draws_ok :: "create_env \<Rightarrow> bool" where
  "draws_ok env \<longleftrightarrow> length (draw_vault_id env) = PV_VAULT_ID_BYTES \<and> length (draw_salt env) = PV_SALT_BYTES \<and>
     length (draw_password_nonce env) = PV_WRAP_NONCE_BYTES \<and>
     length (draw_recovery_nonce env) = PV_WRAP_NONCE_BYTES"

lemma create_header_steps:
  assumes "pv_crypto_create_header S env password recovery_key vmk h0 = (Inr (), h)"
  obtains vault_id h1 where
    "vault_id = (if h_vault_id h0 = replicate (length (h_vault_id h0)) 0 then draw_vault_id env else h_vault_id h0)"
    "pv_crypto_rewrap_password S (password_mem env) (pwhash_ok env) (draw_salt env) (draw_password_nonce env)
       password vmk (base_header vault_id) = (Inr (), h1)"
    "pv_crypto_rewrap_recovery S (recovery_mem env) (draw_recovery_nonce env) recovery_key vmk h1 = (Inr (), h)"
proof -
  have "list_ex (\<lambda>b. b \<noteq> 0) bs \<longleftrightarrow> bs \<noteq> replicate (length bs) 0" for bs :: "byte list"
    by (induction bs) auto
  then show thesis
    using assms that by (auto simp: pv_crypto_create_header_def Let_def pv_bind_def split: prod.splits sum.splits if_splits)
qed

lemma created_header:
  assumes "sodium_ok S" and "draws_ok env" and "length vmk = PV_WRAP_KEY_BYTES"
    and "length (h_vault_id h0) = PV_VAULT_ID_BYTES"
    and "pv_crypto_create_header S env password recovery_key vmk h0 = (Inr (), h)"
  shows "pv_crypto_unlock_password S Alloc_ok True h password = Inr vmk"
    and "pv_crypto_unlock_recovery S Alloc_ok h recovery_key = Inr vmk"
    and "h_vault_id h = (if h_vault_id h0 = replicate 16 0 then draw_vault_id env else h_vault_id h0)"
    and "header_shape h"
    and "h = (base_header (h_vault_id h))\<lparr>password_slot := password_slot h, recovery_slot := recovery_slot h\<rparr>"
    and "ps_opslimit (password_slot h) = PV_V1_PASSWORD_OPSLIMIT" "ps_memlimit (password_slot h) = PV_V1_PASSWORD_MEMLIMIT"
proof -
  from assms(5) obtain vault_id h1 where
    id: "vault_id = (if h_vault_id h0 = replicate (length (h_vault_id h0)) 0 then draw_vault_id env else h_vault_id h0)"
    and pw: "pv_crypto_rewrap_password S (password_mem env) (pwhash_ok env) (draw_salt env)
      (draw_password_nonce env) password vmk (base_header vault_id) = (Inr (), h1)"
    and rec: "pv_crypto_rewrap_recovery S (recovery_mem env) (draw_recovery_nonce env) recovery_key vmk h1 = (Inr (), h)"
    by (rule create_header_steps)
  have base: "header_shape (base_header vault_id)"
    using assms(2,4) id by (intro base_header_shape) (simp add: draws_ok_def)
  have draws: "length (draw_salt env) = PV_SALT_BYTES \<and> length (draw_password_nonce env) = PV_WRAP_NONCE_BYTES"
    "length (draw_recovery_nonce env) = PV_WRAP_NONCE_BYTES" using assms(2) by (simp_all add: draws_ok_def)
  note shape1 = password_shape [OF assms(1) draws(1) base assms(3) pw]
  note shape = recovery_shape [OF assms(1) draws(2) shape1 assms(3) rec]
  have "\<exists>s. h1 = (base_header vault_id)\<lparr>password_slot := s\<rparr> \<and> ps_opslimit s = PV_V1_PASSWORD_OPSLIMIT \<and>
      ps_memlimit s = PV_V1_PASSWORD_MEMLIMIT"
    using pw by (cases rule: rewrap_password_cases) (auto simp: prepare_password_def store_password_def)
  then obtain s where s: "h1 = (base_header vault_id)\<lparr>password_slot := s\<rparr>" "ps_opslimit s = PV_V1_PASSWORD_OPSLIMIT"
    "ps_memlimit s = PV_V1_PASSWORD_MEMLIMIT" by blast
  obtain r where r: "h = h1\<lparr>recovery_slot := r\<rparr>" using rec by (rule rewrap_recovery_frame)
  show "pv_crypto_unlock_password S Alloc_ok True h password = Inr vmk"
    using other_slot_aad(2) [OF shape1 shape r]
    by (intro password_unlocks [OF assms(1) draws(1) base assms(3) pw]) (simp_all add: r)
  show "pv_crypto_unlock_recovery S Alloc_ok h recovery_key = Inr vmk"
    by (rule recovery_unlocks [OF assms(1) draws(2) shape1 assms(3) rec]) simp_all
  have "h_vault_id h = vault_id" by (simp add: r s base_header_def)
  then show "h_vault_id h = (if h_vault_id h0 = replicate 16 0 then draw_vault_id env else h_vault_id h0)"
    "h = (base_header (h_vault_id h))\<lparr>password_slot := password_slot h, recovery_slot := recovery_slot h\<rparr>"
    using id assms(4) by (simp_all add: r s)
  show "header_shape h" by (rule shape)
  show "ps_opslimit (password_slot h) = PV_V1_PASSWORD_OPSLIMIT" "ps_memlimit (password_slot h) = PV_V1_PASSWORD_MEMLIMIT"
    by (simp_all add: r s)
qed

text \<open>
  C9. Both credentials of a new vault open it. When \<^verbatim>\<open>pv_crypto_create_header\<close> succeeds, the
  master password and the recovery key each unwrap exactly the master key it was given, the header
  carries the identifier the caller asked for (or the one drawn), and every other fixed field is the
  one the decoder requires.
\<close>

theorem pv_crypto_create_unlocks:
  assumes "sodium_ok S" and "draws_ok env" and "length vmk = PV_WRAP_KEY_BYTES"
    and "length (h_vault_id h0) = PV_VAULT_ID_BYTES"
    and "pv_crypto_create_header S env password recovery_key vmk h0 = (Inr (), h)"
  shows "pv_crypto_unlock_password S Alloc_ok True h password = Inr vmk \<and>
    pv_crypto_unlock_recovery S Alloc_ok h recovery_key = Inr vmk \<and>
    h_vault_id h = (if h_vault_id h0 = replicate 16 0 then draw_vault_id env else h_vault_id h0) \<and>
    header_shape h \<and> h = (base_header (h_vault_id h))
      \<lparr>password_slot := password_slot h, recovery_slot := recovery_slot h\<rparr>"
  using created_header [OF assms] by simp

text \<open>
  C10. Changing the master password replaces one slot only: when
  \<^verbatim>\<open>pv_crypto_rewrap_password\<close> succeeds the new password unwraps the same master key, and
  whatever the call returned, unwrapping with any recovery key gives the same result (key or error)
  as before.
\<close>

theorem pv_crypto_rewrap_password_independent:
  assumes "sodium_ok S" and "header_shape h" and "length vmk = PV_WRAP_KEY_BYTES"
    and "length salt = PV_SALT_BYTES" and "length nonce = PV_WRAP_NONCE_BYTES"
    and "pv_crypto_rewrap_password S mem ok salt nonce password vmk h = (res, h')"
  shows "(res = Inr () \<longrightarrow> pv_crypto_unlock_password S Alloc_ok True h' password = Inr vmk) \<and>
    pv_crypto_unlock_recovery S mem' h' recovery_key = pv_crypto_unlock_recovery S mem' h recovery_key"
proof -
  have draws: "length salt = PV_SALT_BYTES \<and> length nonce = PV_WRAP_NONCE_BYTES" using assms(4,5) by simp
  note shape = password_shape [OF assms(1) draws assms(2,3,6)]
  obtain s where s: "h' = h\<lparr>password_slot := s\<rparr>" using assms(6) by (rule rewrap_password_frame)
  have "recovery_aad h' = recovery_aad h" by (rule other_slot_aad(1) [OF assms(2) shape s])
  then have "pv_crypto_unlock_recovery S mem' h' recovery_key = pv_crypto_unlock_recovery S mem' h recovery_key"
    by (rule recovery.unlock_local) (simp add: s)
  then show ?thesis using password_unlocks [OF assms(1) draws assms(2,3)] assms(6) by auto
qed

text \<open>
  C13. Rotating the recovery key replaces the other slot only: when
  \<^verbatim>\<open>pv_crypto_rewrap_recovery\<close> succeeds the new recovery key unwraps the same master key,
  and whatever the call returned, unlocking with any password gives the same result as before.
\<close>

theorem pv_crypto_rewrap_recovery_independent:
  assumes "sodium_ok S" and "header_shape h" and "length vmk = PV_WRAP_KEY_BYTES"
    and "length nonce = PV_WRAP_NONCE_BYTES"
    and "pv_crypto_rewrap_recovery S mem nonce recovery_key vmk h = (res, h')"
  shows "(res = Inr () \<longrightarrow> pv_crypto_unlock_recovery S Alloc_ok h' recovery_key = Inr vmk) \<and>
    pv_crypto_unlock_password S mem' ok h' password = pv_crypto_unlock_password S mem' ok h password"
proof -
  note shape = recovery_shape [OF assms(1,4,2,3,5)]
  obtain r where r: "h' = h\<lparr>recovery_slot := r\<rparr>" using assms(5) by (rule rewrap_recovery_frame)
  have "password_aad h' = password_aad h" by (rule other_slot_aad(2) [OF assms(2) shape r])
  then have "pv_crypto_unlock_password S mem' ok h' password = pv_crypto_unlock_password S mem' ok h password"
    using password.unlock_local [of h' h S "(mem', ok)" password] by (simp add: r unlock_password_with_def)
  then show ?thesis using recovery_unlocks [OF assms(1,4,2,3)] assms(5) by auto
qed

section \<open>The body\<close>

definition padded_size :: "nat \<Rightarrow> nat" where
  "padded_size n = 4096 * ((n + 4 + 4095) div 4096)"

lemma padded_size_bounds:
  "n + 4 \<le> padded_size n" "padded_size n < n + 4 + 4096" "padded_size n mod 4096 = 0"
  "n + 4 \<le> PV_MAX_PLAINTEXT \<Longrightarrow> padded_size n \<le> PV_MAX_PLAINTEXT" "4096 \<le> padded_size n"
proof -
  show "n + 4 \<le> padded_size n" "padded_size n < n + 4 + 4096" unfolding padded_size_def by linarith+
  show "padded_size n mod 4096 = 0" by (simp add: padded_size_def)
  show "4096 \<le> padded_size n" unfolding padded_size_def by simp
  assume "n + 4 \<le> PV_MAX_PLAINTEXT"
  then have "(n + 4 + 4095) div 4096 \<le> 512" by (simp add: PV_MAX_PLAINTEXT_def div_le_mono)
  then show "padded_size n \<le> PV_MAX_PLAINTEXT" by (simp add: padded_size_def PV_MAX_PLAINTEXT_def)
qed

lemma body_padded_len_eq:
  assumes "n < 2 ^ 64"
  shows "body_padded_len (word_of_nat n) =
    (if n + 4 \<le> PV_MAX_PLAINTEXT then Inr (word_of_nat (n + 4), word_of_nat (padded_size n)) else Inl PV_ERR_LIMIT)"
proof (cases "n + 4 \<le> PV_MAX_PLAINTEXT")
  case True
  note b = padded_size_bounds [of n]
  have small: "unat (word_of_nat m :: size_t) = m" if "m \<le> 2 ^ 22" for m
    using that by (simp add: unat_of_nat take_bit_nat_eq_self)
  have n: "n \<le> 2 ^ 21" using True by (simp add: PV_MAX_PLAINTEXT_def)
  have raw: "pv_size_add (word_of_nat n) 4 = Some (word_of_nat (n + 4))"
    using n by (simp add: pv_size_add_Some small)
  have "unat ((word_of_nat (n + 4) + 4095 :: size_t) AND NOT (2 ^ 12 - 1)) = padded_size n"
  proof -
    have *: "unat (word_of_nat (n + 4) + 4095 :: size_t) = n + 4 + 4095"
      using n small [of "n + 4 + 4095"] by (simp add: add.commute)
    show ?thesis unfolding unat_and_high * by (simp add: padded_size_def minus_mod_eq_mult_div)
  qed
  then have "(word_of_nat (n + 4) + 4095 :: size_t) AND NOT 4095 = word_of_nat (padded_size n)"
    using small [of "padded_size n"] b True by (simp add: word_unat_eq_iff PV_MAX_PLAINTEXT_def)
  moreover have "\<not> word_of_nat PV_MAX_PLAINTEXT < (word_of_nat (n + 4) :: size_t)"
    "\<not> word_of_nat PV_MAX_PLAINTEXT < (word_of_nat (padded_size n) :: size_t)"
    "(word_of_nat (padded_size n) :: size_t) \<noteq> 0"
    using small [of "padded_size n"] small [of "n + 4"] b True n
    by (simp_all add: word_less_nat_alt word_unat_eq_iff PV_MAX_PLAINTEXT_def)
  ultimately show ?thesis using True unfolding body_padded_len_def raw by (simp add: Let_def)
next
  case False
  have n: "unat (word_of_nat n :: size_t) = n" using assms by (simp add: unat_of_nat take_bit_nat_eq_self)
  have "raw > word_of_nat PV_MAX_PLAINTEXT" if "pv_size_add (word_of_nat n) 4 = Some raw" for raw
    using that False n unat_add64 [of "word_of_nat n" 4]
    by (auto simp: pv_size_add_Some word_less_nat_alt PV_MAX_PLAINTEXT_def)
  then show ?thesis using False by (auto simp: body_padded_len_def split: option.splits)
qed

text \<open>What is encrypted: the length in four bytes, the text, and the padding.\<close>

definition padded_body :: "(nat \<Rightarrow> byte list) \<Rightarrow> byte list \<Rightarrow> byte list" where
  "padded_body fill plaintext =
     put_u32_le (word_of_nat (length plaintext)) @ plaintext @
     (if length plaintext + 4 < padded_size (length plaintext)
      then fill (padded_size (length plaintext) - (length plaintext + 4)) else [])"

lemma padded_body_length:
  assumes "\<And>n. length (fill n) = n"
  shows "length (padded_body fill plaintext) = padded_size (length plaintext)"
  using assms padded_size_bounds(1) [of "length plaintext"] by (simp add: padded_body_def le_codecs)

lemma body_content_padded:
  assumes "\<And>n. length (fill n) = n" and "plaintext \<noteq> []" and "length plaintext + 4 \<le> PV_MAX_PLAINTEXT"
  shows "body_content (padded_body fill plaintext) = Inr plaintext"
proof -
  note b = padded_size_bounds [of "length plaintext"]
  have "unat (word_of_nat (length plaintext) :: u32) = length plaintext"
    using assms(3) by (simp add: PV_MAX_PLAINTEXT_def unat_of_nat take_bit_nat_eq_self)
  moreover have "take 4 (padded_body fill plaintext) = put_u32_le (word_of_nat (length plaintext))"
    "take (length plaintext) (drop 4 (padded_body fill plaintext)) = plaintext"
    by (simp_all add: padded_body_def le_codecs)
  ultimately show ?thesis
    using b assms(2,3) by (simp add: body_content_def Let_def padded_body_length [OF assms(1)] le_codecs)
qed

lemma encrypt_body_eq:
  assumes "length plaintext < 2 ^ 64" and "plaintext \<noteq> []" and "body_key S vmk = Inr key"
    and "length plaintext + 4 \<le> PV_MAX_PLAINTEXT"
  shows "pv_crypto_encrypt_body S Alloc_ok True fill nonce vmk plaintext h =
    (let h1 = h\<lparr>h_body_nonce := nonce, h_body_ciphertext_len := word_of_nat (padded_size (length plaintext)) + 16\<rparr>
     in case aead_encrypt S (padded_body fill plaintext) (pv_header_encode h1) nonce key of
          None \<Rightarrow> (Inl PV_ERR_STATE, h1)
        | Some c \<Rightarrow>
            if word_of_nat (length c) \<noteq> h_body_ciphertext_len h1 then (Inl PV_ERR_STATE, h1) else (Inr c, h1))"
proof -
  let ?n = "length plaintext"
  note b = padded_size_bounds [of ?n]
  have small: "unat (word_of_nat m :: size_t) = m" if "m \<le> 2 ^ 22" for m
    using that by (simp add: unat_of_nat take_bit_nat_eq_self)
  have lens: "unat (word_of_nat (?n + 4) :: size_t) = ?n + 4" "unat (word_of_nat (padded_size ?n) :: size_t) = padded_size ?n"
    using small [of "?n + 4"] small [of "padded_size ?n"] b assms(4) by (simp_all add: PV_MAX_PLAINTEXT_def)
  have less: "(word_of_nat (?n + 4) :: size_t) < word_of_nat (padded_size ?n) \<longleftrightarrow> ?n + 4 < padded_size ?n"
    unfolding word_less_nat_alt lens ..
  have diff: "unat (word_of_nat (padded_size ?n) - word_of_nat (?n + 4) :: size_t) = padded_size ?n - (?n + 4)"
    using b(1) lens by (subst unat_sub) (simp_all add: word_le_nat_alt)
  have steps: "res_bind (body_padded_len (word_of_nat ?n)) (\<lambda>lens. res_bind (secure_key_alloc Alloc_ok) (\<lambda>_.
      res_bind (body_key S vmk) (\<lambda>key. if \<not> True then Inl PV_ERR_SECURE_MEMORY else Inr (lens, key)))) =
      Inr ((word_of_nat (?n + 4), word_of_nat (padded_size ?n)), key)"
    using assms by (simp add: body_padded_len_eq secure_key_alloc_def)
  show ?thesis
    unfolding pv_crypto_encrypt_body_def steps
    using assms(2) by (simp add: less diff padded_body_def Let_def del: of_nat_add)
qed

lemma encrypt_body_cases:
  assumes "pv_crypto_encrypt_body S mem buffers fill nonce vmk plaintext h = (Inr ciphertext, h')"
    and "length plaintext < 2 ^ 64"
  obtains key where "plaintext \<noteq> []" "length plaintext + 4 \<le> PV_MAX_PLAINTEXT" "body_key S vmk = Inr key"
    "h' = h\<lparr>h_body_nonce := nonce, h_body_ciphertext_len := word_of_nat (padded_size (length plaintext)) + 16\<rparr>"
    "aead_encrypt S (padded_body fill plaintext) (pv_header_encode h') nonce key = Some ciphertext"
    "word_of_nat (length ciphertext) = h_body_ciphertext_len h'"
proof -
  have ne: "plaintext \<noteq> []" using assms(1) by (auto simp: pv_crypto_encrypt_body_def)
  have "length plaintext + 4 \<le> PV_MAX_PLAINTEXT \<and> mem = Alloc_ok \<and> buffers \<and> (\<exists>key. body_key S vmk = Inr key)"
    using assms ne
    by (auto simp: pv_crypto_encrypt_body_def body_padded_len_eq secure_key_alloc_def res_bind_Inr split: if_splits alloc.splits sum.splits)
  then obtain key where key: "length plaintext + 4 \<le> PV_MAX_PLAINTEXT" "mem = Alloc_ok" "buffers"
    "body_key S vmk = Inr key" by blast
  show thesis
    using assms(1) unfolding key(2) eqTrueI [OF key(3)] encrypt_body_eq [OF assms(2) ne key(4,1)]
    by (auto simp: Let_def split: option.splits if_splits intro: that [OF ne key(1,4)])
qed

lemma encrypt_body_frame:
  assumes "header_shape h" "length nonce = PV_WRAP_NONCE_BYTES"
    and "h' = h\<lparr>h_body_nonce := nonce, h_body_ciphertext_len := len\<rparr>"
  shows "header_shape h'" "password_aad h' = password_aad h" "recovery_aad h' = recovery_aad h"
proof -
  show "header_shape h'" using assms by (simp add: header_shape_def)
  with assms show "password_aad h' = password_aad h" "recovery_aad h' = recovery_aad h"
    by (simp_all add: password_aad_prefix recovery_aad_prefix)
qed

lemma encrypt_body_opens:
  assumes "sodium_ok S" and "length nonce = PV_WRAP_NONCE_BYTES"
    and fill: "\<And>n. length (fill n) = n" and "length plaintext < 2 ^ 64"
    and "pv_crypto_encrypt_body S mem buffers fill nonce vmk plaintext h = (Inr ciphertext, h')"
  shows "pv_crypto_decrypt_body S Alloc_ok True h' vmk ciphertext = Inr plaintext"
    and "length ciphertext = padded_size (length plaintext) + 16"
    and "length plaintext + 4 \<le> PV_MAX_PLAINTEXT"
    and "h' = h\<lparr>h_body_nonce := nonce, h_body_ciphertext_len := word_of_nat (padded_size (length plaintext)) + 16\<rparr>"
proof -
  from assms(5,4) obtain key where key: "plaintext \<noteq> []" "length plaintext + 4 \<le> PV_MAX_PLAINTEXT"
    "body_key S vmk = Inr key"
    "h' = h\<lparr>h_body_nonce := nonce, h_body_ciphertext_len := word_of_nat (padded_size (length plaintext)) + 16\<rparr>"
    "aead_encrypt S (padded_body fill plaintext) (pv_header_encode h') nonce key = Some ciphertext"
    "word_of_nat (length ciphertext) = h_body_ciphertext_len h'"
    by (rule encrypt_body_cases)
  have "length key = PV_WRAP_KEY_BYTES" using sodium_key_lengths(4) [OF assms(1), of vmk] key(3) by auto
  note enc = sodium_encrypt [OF assms(1,2) this key(5), unfolded padded_body_length [OF fill]]
  have "pv_crypto_decrypt_body S Alloc_ok True h' vmk ciphertext = body_content (padded_body fill plaintext)"
    using enc key(3,4,6) padded_size_bounds [of "length plaintext"]
    by (simp add: pv_crypto_decrypt_body_def secure_key_alloc_def)
  then show "pv_crypto_decrypt_body S Alloc_ok True h' vmk ciphertext = Inr plaintext"
    by (simp add: body_content_padded [OF fill key(1,2)])
  show "length ciphertext = padded_size (length plaintext) + 16" by (rule enc(1))
  show "length plaintext + 4 \<le> PV_MAX_PLAINTEXT" by (rule key(2))
  show "h' = h\<lparr>h_body_nonce := nonce, h_body_ciphertext_len := word_of_nat (padded_size (length plaintext)) + 16\<rparr>"
    by (rule key(4))
qed

lemma encrypt_body_succeeds:
  assumes "sodium_ok S" and "length nonce = PV_WRAP_NONCE_BYTES" and fill: "\<And>n. length (fill n) = n"
    and "plaintext \<noteq> []" and "length plaintext + 4 \<le> PV_MAX_PLAINTEXT"
  shows "\<exists>ciphertext h'. pv_crypto_encrypt_body S Alloc_ok True fill nonce vmk plaintext h = (Inr ciphertext, h')"
proof -
  obtain key where key: "body_key S vmk = Inr key" "length key = PV_WRAP_KEY_BYTES"
    using sodium_key_lengths(4) [OF assms(1)] by blast
  let ?h1 = "h\<lparr>h_body_nonce := nonce, h_body_ciphertext_len := word_of_nat (padded_size (length plaintext)) + 16\<rparr>"
  obtain c where "aead_encrypt S (padded_body fill plaintext) (pv_header_encode ?h1) nonce key = Some c"
    "length c = padded_size (length plaintext) + 16"
    using sodium_okD(3) [OF assms(1,2) key(2), of "padded_body fill plaintext" "pv_header_encode ?h1"]
    by (auto simp: padded_body_length [OF fill])
  moreover have "length plaintext < 2 ^ 64" using assms(5) by (simp add: PV_MAX_PLAINTEXT_def)
  ultimately show ?thesis using encrypt_body_eq [OF _ assms(4) key(1) assms(5), of fill nonce h] by (simp add: Let_def)
qed

text \<open>
  C11. What \<^verbatim>\<open>pv_crypto_encrypt_body\<close> seals, \<^verbatim>\<open>pv_crypto_decrypt_body\<close> gives back:
  with the updated header and the same master key the decrypted content is exactly the plaintext,
  without its length prefix and its padding, and both key slots keep working as they did. The size of
  the ciphertext reveals the length of the plaintext only up to blocks of 4096 bytes.
\<close>

theorem pv_crypto_body_roundtrip:
  assumes "sodium_ok S" and "header_shape h" and "length nonce = PV_WRAP_NONCE_BYTES"
    and "\<forall>n. length (fill n) = n" and "length plaintext < 2 ^ 64"
    and "pv_crypto_encrypt_body S mem buffers fill nonce vmk plaintext h = (Inr ciphertext, h')"
  shows "pv_crypto_decrypt_body S Alloc_ok True h' vmk ciphertext = Inr plaintext \<and>
    length ciphertext = 4096 * ((length plaintext + 4 + 4095) div 4096) + 16 \<and>
    pv_crypto_unlock_password S m2 ok h' password = pv_crypto_unlock_password S m2 ok h password \<and>
    pv_crypto_unlock_recovery S m2 h' recovery_key = pv_crypto_unlock_recovery S m2 h recovery_key"
proof -
  have fill: "\<And>n. length (fill n) = n" using assms(4) by simp
  note enc = encrypt_body_opens [OF assms(1,3) fill assms(5,6)]
  note frame = encrypt_body_frame [OF assms(2,3) enc(4)]
  have "pv_crypto_unlock_recovery S m2 h' recovery_key = pv_crypto_unlock_recovery S m2 h recovery_key"
    by (rule recovery.unlock_local [OF frame(3)]) (simp add: enc(4))
  moreover have "pv_crypto_unlock_password S m2 ok h' password = pv_crypto_unlock_password S m2 ok h password"
    using password.unlock_local [OF frame(2), of S "(m2, ok)" password] by (simp add: enc(4) unlock_password_with_def)
  ultimately show ?thesis using enc(1,2) by (simp add: padded_size_def)
qed

text \<open>
  C40. The size limit of a vault body is sharp. When memory is available, sealing succeeds exactly
  for plaintexts of 1 to 2097148 bytes (two mebibytes less the length prefix); an empty plaintext is
  a usage error, and any longer one is refused with \<open>PV_ERR_LIMIT\<close> and leaves the header as it
  was, including lengths near the top of \<^verbatim>\<open>size_t\<close>.
\<close>

theorem pv_crypto_encrypt_body_limit:
  assumes "sodium_ok S" and "length nonce = PV_WRAP_NONCE_BYTES" and "\<forall>n. length (fill n) = n"
    and "length plaintext < 2 ^ 64"
  shows "case pv_crypto_encrypt_body S Alloc_ok True fill nonce vmk plaintext h of
      (Inr ciphertext, h') \<Rightarrow> length plaintext \<in> {1..2097148}
    | (Inl e, h') \<Rightarrow> h' = h \<and> length plaintext \<notin> {1..2097148} \<and>
        e = (if plaintext = [] then PV_ERR_USAGE else PV_ERR_LIMIT)"
proof (cases "plaintext = [] \<or> PV_MAX_PLAINTEXT < length plaintext + 4")
  case True
  then show ?thesis
    using assms(4) by (auto simp: pv_crypto_encrypt_body_def body_padded_len_eq PV_MAX_PLAINTEXT_def)
next
  case False
  then have "plaintext \<noteq> []" "length plaintext + 4 \<le> PV_MAX_PLAINTEXT" by auto
  from encrypt_body_succeeds [OF assms(1,2) _ this, of fill vmk h] assms(3) False show ?thesis
    by (auto simp: PV_MAX_PLAINTEXT_def Suc_le_eq)
qed

text \<open>
  Decryption never reads outside the buffer: whatever the ciphertext, the content returned is not
  empty and lies, with its length prefix, within what was decrypted.
\<close>

lemma pv_crypto_decrypt_body_bounds:
  assumes "sodium_ok S" and "pv_crypto_decrypt_body S mem buffer h vmk ciphertext = Inr content"
  shows "content \<noteq> [] \<and> length content + 4 + PV_BODY_TAG_BYTES \<le> length ciphertext \<and>
    length content < PV_MAX_PLAINTEXT"
proof -
  obtain decoded key where dec: "aead_decrypt S ciphertext (pv_header_encode h) (h_body_nonce h) key = Some decoded"
    and content: "body_content decoded = Inr content"
    using assms(2) by (auto simp: pv_crypto_decrypt_body_def res_bind_Inr split: if_splits option.splits)
  from content sodium_okD(4) [OF assms(1) dec] show ?thesis
    by (auto simp: body_content_def Let_def split: if_splits)
qed

section \<open>An instance\<close>

text \<open>Functions with the lengths and the inverse law the code relies on.\<close>

definition demo_tag :: "byte list \<Rightarrow> byte list \<Rightarrow> byte list" where
  "demo_tag ad key = take 16 (key @ ad @ replicate 16 0)"

definition demo_sodium :: sodium where
  "demo_sodium =
     \<lparr>crypto_pwhash = \<lambda>pw salt ops mem. take 32 (pw @ salt @ replicate 32 0),
      crypto_kdf_derive_from_key = \<lambda>n i ctx key. Some (take n (ctx @ key @ replicate n 0)),
      aead_encrypt = \<lambda>m ad nonce key. Some (m @ demo_tag ad key),
      aead_decrypt = \<lambda>c ad nonce key.
        if length c < 16 \<or> drop (length c - 16) c \<noteq> demo_tag ad key then None
        else Some (take (length c - 16) c),
      generichash = \<lambda>m. take 32 (m @ replicate 32 0)\<rparr>"

lemma demo_sodium_ok: "sodium_ok demo_sodium"
  by (auto simp: sodium_ok_def demo_sodium_def demo_tag_def split: if_splits)

definition demo_env :: create_env where
  "demo_env =
     \<lparr>draw_vault_id = replicate 16 1, draw_salt = replicate 16 2, draw_password_nonce = replicate 24 3,
      draw_recovery_nonce = replicate 24 4, password_mem = Alloc_ok, recovery_mem = Alloc_ok, pwhash_ok = True\<rparr>"

definition demo_header :: pv_file_header where
  "demo_header =
     (base_header (replicate 16 1))
       \<lparr>password_slot := slot_password_zero\<lparr>ps_opslimit := 3, ps_memlimit := 268435456\<rparr>,
        h_body_ciphertext_len := 4112\<rparr>"

lemma demo_header_valid: "header_valid demo_header"
proof -
  have "header_shape demo_header"
    by (simp add: demo_header_def header_shape_def base_header_def slot_password_zero_def slot_recovery_zero_def
        pv_magic_def ascii_def)
  then show ?thesis
    by (auto simp: header_valid_def demo_header_def base_header_def slot_password_zero_def
        intro: bexI [of _ 1] dest: arg_cong [of _ _ hd])
qed

theorem pv_header_decode_iff_witness:
  "pv_header_decode (pv_header_encode demo_header) = Inr demo_header"
  using pv_header_decode_iff [of "pv_header_encode demo_header" demo_header] demo_header_valid
  by (simp add: header_encode_length header_valid_def)

definition demo_created :: pv_file_header where
  "demo_created = snd (pv_crypto_create_header demo_sodium demo_env (ascii ''a password'') (replicate 32 5) (replicate 32 6)
     (base_header (replicate 16 0)))"

lemma demo_create: "pv_crypto_create_header demo_sodium demo_env (ascii ''a password'') (replicate 32 5) (replicate 32 6)
     (base_header (replicate 16 0)) = (Inr (), demo_created)"
proof -
  have "fst (pv_crypto_create_header demo_sodium demo_env (ascii ''a password'') (replicate 32 5) (replicate 32 6)
     (base_header (replicate 16 0))) = Inr ()" by code_simp
  then show ?thesis by (simp add: demo_created_def prod_eq_iff)
qed

theorem pv_crypto_create_unlocks_witness:
  "\<exists>h. pv_crypto_create_header demo_sodium demo_env (ascii ''a password'') (replicate 32 5) (replicate 32 6)
      (base_header (replicate 16 0)) = (Inr (), h) \<and>
    pv_crypto_unlock_password demo_sodium Alloc_ok True h (ascii ''a password'') = Inr (replicate 32 6) \<and>
    pv_crypto_unlock_recovery demo_sodium Alloc_ok h (replicate 32 5) = Inr (replicate 32 6) \<and>
    h_vault_id h = replicate 16 1"
proof -
  have id: "h_vault_id (base_header (replicate 16 0)) = replicate 16 0" by (simp add: base_header_def)
  have "draws_ok demo_env" by (simp add: draws_ok_def demo_env_def)
  from pv_crypto_create_unlocks [OF demo_sodium_ok this _ _ demo_create] demo_create id show ?thesis
    by (simp add: demo_env_def)
qed

theorem pv_crypto_rewrap_password_independent_witness:
  "\<exists>h'. pv_crypto_rewrap_password demo_sodium Alloc_ok True (replicate 16 2) (replicate 24 3) (ascii ''new one'')
      (replicate 32 6) demo_header = (Inr (), h') \<and>
    pv_crypto_unlock_password demo_sodium Alloc_ok True h' (ascii ''new one'') = Inr (replicate 32 6) \<and>
    pv_crypto_unlock_recovery demo_sodium Alloc_ok h' (replicate 32 5) =
      pv_crypto_unlock_recovery demo_sodium Alloc_ok demo_header (replicate 32 5)"
proof -
  let ?run = "pv_crypto_rewrap_password demo_sodium Alloc_ok True (replicate 16 2) (replicate 24 3)
    (ascii ''new one'') (replicate 32 6) demo_header"
  have "fst ?run = Inr ()" by code_simp
  then obtain h' where run: "?run = (Inr (), h')" by (metis prod.collapse)
  have "header_shape demo_header" using demo_header_valid by (simp add: header_valid_def)
  from pv_crypto_rewrap_password_independent [OF demo_sodium_ok this _ _ _ run] run show ?thesis by simp
qed

theorem pv_crypto_rewrap_recovery_independent_witness:
  "\<exists>h'. pv_crypto_rewrap_recovery demo_sodium Alloc_ok (replicate 24 3) (replicate 32 8) (replicate 32 6)
      demo_header = (Inr (), h') \<and>
    pv_crypto_unlock_recovery demo_sodium Alloc_ok h' (replicate 32 8) = Inr (replicate 32 6) \<and>
    pv_crypto_unlock_password demo_sodium Alloc_ok True h' (ascii ''pw'') =
      pv_crypto_unlock_password demo_sodium Alloc_ok True demo_header (ascii ''pw'')"
proof -
  let ?run = "pv_crypto_rewrap_recovery demo_sodium Alloc_ok (replicate 24 3) (replicate 32 8) (replicate 32 6)
    demo_header"
  have "fst ?run = Inr ()" by code_simp
  then obtain h' where run: "?run = (Inr (), h')" by (metis prod.collapse)
  have "header_shape demo_header" using demo_header_valid by (simp add: header_valid_def)
  from pv_crypto_rewrap_recovery_independent [OF demo_sodium_ok this _ _ run] run show ?thesis by simp
qed

abbreviation demo_fill :: "nat \<Rightarrow> byte list" where "demo_fill n \<equiv> replicate n 7"

lemma demo_encrypts:
  obtains c h where "pv_crypto_encrypt_body demo_sodium Alloc_ok True demo_fill (replicate 24 3)
    (replicate 32 6) [1, 2, 3] demo_header = (Inr c, h)"
  using encrypt_body_succeeds [OF demo_sodium_ok, of "replicate 24 3" demo_fill "[1, 2, 3]" "replicate 32 6" demo_header]
  by (auto simp: PV_MAX_PLAINTEXT_def)

theorem pv_crypto_body_roundtrip_witness:
  "\<exists>c h. pv_crypto_encrypt_body demo_sodium Alloc_ok True demo_fill (replicate 24 3) (replicate 32 6) [1, 2, 3]
      demo_header = (Inr c, h) \<and>
    pv_crypto_decrypt_body demo_sodium Alloc_ok True h (replicate 32 6) c = Inr [1, 2, 3] \<and> length c = 4112"
proof -
  obtain c h where run: "pv_crypto_encrypt_body demo_sodium Alloc_ok True demo_fill (replicate 24 3)
    (replicate 32 6) [1, 2, 3] demo_header = (Inr c, h)" by (rule demo_encrypts)
  have "header_shape demo_header" using demo_header_valid by (simp add: header_valid_def)
  from pv_crypto_body_roundtrip [OF demo_sodium_ok this _ _ _ run] run show ?thesis by simp
qed

theorem pv_crypto_encrypt_body_limit_witness:
  "pv_crypto_encrypt_body demo_sodium Alloc_ok True demo_fill (replicate 24 3) (replicate 32 6)
     (replicate 2097149 0) demo_header = (Inl PV_ERR_LIMIT, demo_header)"
  using pv_crypto_encrypt_body_limit [OF demo_sodium_ok, where nonce = "replicate 24 3" and fill = demo_fill and
      plaintext = "replicate 2097149 0" and vmk = "replicate 32 6" and h = demo_header]
  by (simp split: prod.splits sum.splits)

lemma pv_crypto_decrypt_body_bounds_witness:
  "\<exists>c h content. pv_crypto_decrypt_body demo_sodium Alloc_ok True h (replicate 32 6) c = Inr content \<and>
     content = [1, 2, 3] \<and> length content + 20 \<le> length c"
proof -
  obtain c h where run: "pv_crypto_encrypt_body demo_sodium Alloc_ok True demo_fill (replicate 24 3)
    (replicate 32 6) [1, 2, 3] demo_header = (Inr c, h)" by (rule demo_encrypts)
  have "pv_crypto_decrypt_body demo_sodium Alloc_ok True h (replicate 32 6) c = Inr [1, 2, 3]"
    by (rule encrypt_body_opens(1) [OF demo_sodium_ok _ _ _ run]) simp_all
  from pv_crypto_decrypt_body_bounds [OF demo_sodium_ok this] this show ?thesis by auto
qed

end
