(* ===== verification/Pv_Recovery.thy ===== *)
theory Pv_Recovery
  imports Pv_Crypto
begin

text \<open>
  Recovery keys as text (\<^verbatim>\<open>src/recovery.c\<close>): 32 random bytes and a checksum of five bytes
  bound to the vault identifier, written in Crockford's base 32 in groups of five behind the prefix
  \<^verbatim>\<open>PV1R-\<close>. Reading is lenient: case, hyphens, white space and the confusable letters
  O, I and L make no difference.

  Characters are handled by the C locale's \<^verbatim>\<open>toupper\<close> and \<^verbatim>\<open>isspace\<close>. Whether
  guarded memory could be allocated, and whether the calls of the streaming hash returned 0, are
  arguments.
\<close>

section \<open>The code\<close>

definition crockford_alphabet :: "byte list" where
  "crockford_alphabet = ascii ''0123456789ABCDEFGHJKMNPQRSTVWXYZ''"

abbreviation PV_RECOVERY_CHECKSUM_BYTES :: nat where "PV_RECOVERY_CHECKSUM_BYTES \<equiv> 5"

definition toupper :: "byte \<Rightarrow> byte" where
  "toupper c = (if 0x61 \<le> c \<and> c \<le> 0x7a then c - 0x20 else c)"

definition isspace :: "byte \<Rightarrow> bool" where
  "isspace c \<longleftrightarrow> c = 0x20 \<or> (0x09 \<le> c \<and> c \<le> 0x0d)"

definition recovery_checksum ::
  "sodium \<Rightarrow> bool \<Rightarrow> bool \<Rightarrow> byte list \<Rightarrow> byte list \<Rightarrow> byte list pv_result" where
  "recovery_checksum S mem hash_ok vault_id key =
     (if \<not> mem then Inl PV_ERR_SECURE_MEMORY
      else if \<not> hash_ok then Inl PV_ERR_STATE
      else Inr (take PV_RECOVERY_CHECKSUM_BYTES (generichash S (vault_id @ key))))"

text \<open>
  The loop of the encoder: \<open>None\<close> is the return value 0 for lack of room. Its state is the
  buffer, the number of bits in it, the rest of the input and the position in the output.
\<close>

function base32_loop :: "nat \<Rightarrow> u32 \<Rightarrow> nat \<Rightarrow> byte list \<Rightarrow> nat \<Rightarrow> byte list option" where
  "base32_loop cap buffer bits input out_pos =
     (if input = [] \<and> bits = 0 then Some []
      else
        (let pull = bits < 5 \<and> input \<noteq> [];
             buffer1 = (if pull then push_bit 8 buffer OR ucast (hd input) else buffer);
             bits1 = (if pull then bits + 8 else bits);
             input1 = (if pull then tl input else input);
             buffer2 = (if bits1 < 5 then push_bit (5 - bits1) buffer1 else buffer1);
             bits2 = (if bits1 < 5 then 5 else bits1)
         in if out_pos + 1 \<ge> cap then None
            else
              (let bits3 = bits2 - 5;
                   digit = crockford_alphabet ! unat (drop_bit bits3 buffer2 AND 31);
                   buffer3 = (if bits3 = 0 then 0 else buffer2 AND (push_bit bits3 1 - 1))
               in map_option (\<lambda>rest. digit # rest) (base32_loop cap buffer3 bits3 input1 (out_pos + 1)))))"
  by pat_completeness auto
termination
proof (relation "measure (\<lambda>(cap, buffer, bits, input, out_pos). 8 * length input + bits)", goal_cases)
  case 1
  then show ?case by simp
next
  case (2 cap buffer bits input out_pos pull buffer1 bits1 input1 buffer2 bits2 bits3 digit buffer3)
  then show ?case by (cases input) (auto split: if_splits)
qed

declare base32_loop.simps [simp del]

definition base32_encode :: "byte list \<Rightarrow> nat \<Rightarrow> byte list option" where
  "base32_encode input cap = base32_loop cap 0 0 input 0"

fun strchr_index :: "byte list \<Rightarrow> byte \<Rightarrow> nat option" where
  "strchr_index [] c = None"
| "strchr_index (x # xs) c = (if x = c then Some 0 else map_option Suc (strchr_index xs c))"

definition crockford_value :: "byte \<Rightarrow> nat option" where
  "crockford_value c =
     (let upper = toupper c
      in if upper = of_char CHR ''O'' then Some 0
         else if upper = of_char CHR ''I'' \<or> upper = of_char CHR ''L'' then Some 1
         else strchr_index crockford_alphabet upper)"

text \<open>The decoder returns the output when it fills the buffer exactly and no bit is left over.\<close>

fun base32_decode_loop :: "nat \<Rightarrow> u32 \<Rightarrow> nat \<Rightarrow> byte list \<Rightarrow> byte list \<Rightarrow> byte list option" where
  "base32_decode_loop output_len buffer bits out [] =
     (if length out = output_len \<and> (bits = 0 \<or> buffer = 0) then Some out else None)"
| "base32_decode_loop output_len buffer bits out (c # input) =
     (case crockford_value c of
        None \<Rightarrow> None
      | Some v \<Rightarrow>
          (let buffer1 = push_bit 5 buffer OR word_of_nat v;
               bits1 = bits + 5
           in if bits1 \<ge> 8 then
                (let bits2 = bits1 - 8
                 in if length out \<ge> output_len then None
                    else base32_decode_loop output_len
                           (if bits2 = 0 then 0 else buffer1 AND (push_bit bits2 1 - 1)) bits2
                           (out @ [ucast (drop_bit bits2 buffer1)]) input)
              else base32_decode_loop output_len buffer1 bits1 out input))"

definition base32_decode :: "byte list \<Rightarrow> nat \<Rightarrow> byte list option" where
  "base32_decode input output_len = base32_decode_loop output_len 0 0 [] input"

definition group_text :: "byte list \<Rightarrow> byte list" where
  "group_text raw =
     concat (map (\<lambda>i. (if i > 0 \<and> i mod 5 = 0 then ascii ''-'' else []) @ [raw ! i]) [0..<length raw])"

text \<open>
  \<open>mem\<close>: the two buffers could be allocated; \<open>ws\<close>: the workspace of the hash could;
  \<open>hash_ok\<close>: the hash calls returned 0.
\<close>

definition pv_recovery_encode ::
  "sodium \<Rightarrow> bool \<Rightarrow> bool \<Rightarrow> bool \<Rightarrow> byte list \<Rightarrow> byte list \<Rightarrow> nat \<Rightarrow> byte list pv_result" where
  "pv_recovery_encode S mem ws hash_ok vault_id key encoded_len =
     (if encoded_len < 16 then Inl PV_ERR_USAGE
      else if \<not> mem then Inl PV_ERR_SECURE_MEMORY
      else
        res_bind (recovery_checksum S ws hash_ok vault_id key) (\<lambda>checksum.
          case base32_encode (key @ checksum) 80 of
            None \<Rightarrow> Inl PV_ERR_LIMIT
          | Some raw \<Rightarrow>
              if raw = [] then Inl PV_ERR_LIMIT
              else if encoded_len \<le> 5 + length raw + length raw div 5 then Inl PV_ERR_LIMIT
              else Inr (ascii ''PV1R-'' @ group_text raw)))"

definition pv_recovery_generate ::
  "sodium \<Rightarrow> bool \<Rightarrow> bool \<Rightarrow> bool \<Rightarrow> byte list \<Rightarrow> byte list \<Rightarrow> nat \<Rightarrow> (byte list \<times> byte list) pv_result" where
  "pv_recovery_generate S mem ws hash_ok drawn vault_id encoded_len =
     (case pv_recovery_encode S mem ws hash_ok vault_id drawn encoded_len of
        Inl e \<Rightarrow> Inl e
      | Inr encoded \<Rightarrow> Inr (drawn, encoded))"

fun skip_spaces :: "byte list \<Rightarrow> byte list" where
  "skip_spaces [] = []"
| "skip_spaces (c # text) = (if isspace c then skip_spaces text else c # text)"

definition has_prefix :: "byte list \<Rightarrow> bool" where
  "has_prefix text \<longleftrightarrow> map toupper (take 4 text) = ascii ''PV1R''"

fun normalize_text :: "nat \<Rightarrow> byte list \<Rightarrow> byte list option" where
  "normalize_text pos [] = Some []"
| "normalize_text pos (c # text) =
     (if c \<noteq> of_char CHR ''-'' \<and> \<not> isspace c then
        if pos + 1 \<ge> 80 then None
        else map_option (\<lambda>rest. toupper c # rest) (normalize_text (pos + 1) text)
      else normalize_text pos text)"

definition pv_recovery_decode ::
  "sodium \<Rightarrow> bool \<Rightarrow> bool \<Rightarrow> bool \<Rightarrow> byte list \<Rightarrow> byte list \<Rightarrow> byte list pv_result" where
  "pv_recovery_decode S mem ws hash_ok encoded vault_id =
     (let cursor = skip_spaces encoded
      in if \<not> has_prefix cursor then Inl PV_ERR_AUTH
         else if \<not> mem then Inl PV_ERR_SECURE_MEMORY
         else case normalize_text 0 (drop 4 cursor) of
           None \<Rightarrow> Inl PV_ERR_AUTH
         | Some normalized \<Rightarrow>
             (case base32_decode normalized (PV_RECOVERY_KEY_BYTES + PV_RECOVERY_CHECKSUM_BYTES) of
                None \<Rightarrow> Inl PV_ERR_AUTH
              | Some material \<Rightarrow>
                  (let key = take PV_RECOVERY_KEY_BYTES material
                   in if recovery_checksum S ws hash_ok vault_id key = Inr (drop PV_RECOVERY_KEY_BYTES material)
                      then Inr key else Inl PV_ERR_AUTH)))"

section \<open>Base 32\<close>

text \<open>Byte and digit sequences as numbers, most significant first.\<close>

fun val_of :: "nat \<Rightarrow> nat list \<Rightarrow> nat" where
  "val_of base [] = 0"
| "val_of base (d # ds) = d * base ^ length ds + val_of base ds"

lemma val_of_less: "list_all (\<lambda>d. d < base) ds \<Longrightarrow> val_of base ds < base ^ length ds"
proof (induction ds)
  case (Cons d ds)
  then have "d * base ^ length ds + val_of base ds < (d + 1) * base ^ length ds" by simp
  also have "\<dots> \<le> base * base ^ length ds" using Cons.prems by (intro mult_right_mono) simp_all
  finally show ?case by simp
qed simp

abbreviation val256 :: "byte list \<Rightarrow> nat" where "val256 bs \<equiv> val_of 256 (map unat bs)"
abbreviation val32 :: "nat list \<Rightarrow> nat" where "val32 ds \<equiv> val_of 32 ds"

lemma byte_less: "unat (b :: byte) < 256"
  using unsigned_less [of b, where ?'a = nat] by simp

lemma val256_less: "val256 bs < 256 ^ length bs"
  using val_of_less [of 256 "map unat bs"] byte_less by (simp add: list_all_iff)

fun bytes_of :: "nat \<Rightarrow> nat \<Rightarrow> byte list" where
  "bytes_of 0 n = []"
| "bytes_of (Suc k) n = word_of_nat (n div 256 ^ k) # bytes_of k (n mod 256 ^ k)"

lemma bytes_of_val256: "bytes_of (length bs) (val256 bs) = bs"
proof (induction bs)
  case (Cons b bs)
  have "val256 (b # bs) div 256 ^ length bs = unat b" "val256 (b # bs) mod 256 ^ length bs = val256 bs"
    using val256_less [of bs] by simp_all
  with Cons show ?case by simp
qed simp

lemma bytes_of_Suc: "n < 256 ^ k \<Longrightarrow> b < 256 \<Longrightarrow> bytes_of (Suc k) (b * 256 ^ k + n) = word_of_nat b # bytes_of k n"
  by simp

lemma length_bytes_of [simp]: "length (bytes_of k n) = k"
  by (induction k arbitrary: n) simp_all

section \<open>The encoder\<close>

abbreviation symbols_for :: "nat \<Rightarrow> nat" where "symbols_for bits \<equiv> (bits + 4) div 5"

lemma shift_in:
  fixes buffer :: u32
  assumes "unat buffer < 2 ^ bits" "bits \<le> 7"
  shows "unat (push_bit 8 buffer OR ucast (b :: byte)) = unat buffer * 256 + unat b"
proof -
  have "unat buffer < 128" using assms power_increasing [of bits 7 "2::nat"] by simp
  then show ?thesis
    using byte_less [of b] by (subst unat_push_bit_or) (simp_all add: unat_ucast_byte)
qed

lemma low_bits:
  fixes buffer :: u32
  shows "unat (if k = 0 then 0 else buffer AND (push_bit k 1 - 1)) = unat buffer mod 2 ^ k"
  using unat_and_low [of buffer k] by (simp add: push_bit_eq_mult)

lemma top_digit:
  fixes buffer :: u32
  assumes "unat buffer < 2 ^ (k + 5)"
  shows "unat (drop_bit k buffer AND 31) = unat buffer div 2 ^ k" "unat buffer div 2 ^ k < 32"
proof -
  have "unat buffer < 32 * 2 ^ k" using assms by (simp add: power_add)
  then show less: "unat buffer div 2 ^ k < 32" by (simp add: div_less_iff_less_mult)
  have "unat (drop_bit k buffer AND (2 ^ 5 - 1)) = (unat buffer div 2 ^ k) mod 2 ^ 5"
    unfolding unat_and_low unat_drop_bit_div ..
  with less show "unat (drop_bit k buffer AND 31) = unat buffer div 2 ^ k" by simp
qed

text \<open>One digit in front of the digits of the rest.\<close>

lemma emit_digit:
  assumes "val32 ds = (low * 256 ^ n + v) * 2 ^ (5 * length ds - (k + 8 * n))" and "k + 8 * n \<le> 5 * length ds"
  shows "val32 (d # ds) = ((d * 2 ^ k + low) * 256 ^ n + v) * 2 ^ (5 * length ds - (k + 8 * n))"
proof -
  let ?e = "5 * length ds - (k + 8 * n)"
  have "(32::nat) ^ length ds = 2 ^ (5 * length ds)" by (simp add: power_mult)
  also have "\<dots> = 2 ^ (k + 8 * n) * 2 ^ ?e" using assms(2) by (simp flip: power_add)
  also have "\<dots> = 2 ^ k * 256 ^ n * 2 ^ ?e" by (simp add: power_add power_mult)
  finally show ?thesis using assms(1) by (simp add: algebra_simps)
qed

text \<open>The buffer once it holds at least five bits.\<close>

definition refill :: "u32 \<Rightarrow> nat \<Rightarrow> byte list \<Rightarrow> u32 \<times> nat \<times> byte list" where
  "refill buffer bits input =
     (if bits \<ge> 5 then (buffer, bits, input)
      else case input of
        [] \<Rightarrow> (push_bit (5 - bits) buffer, 5, [])
      | b # rest \<Rightarrow> (push_bit 8 buffer OR ucast b, bits + 8, rest))"

lemma symbols_room: "L \<le> 5 * symbols_for L"
  by linarith

lemma base32_loop_step:
  assumes "\<not> (input = [] \<and> bits = 0)" and "refill buffer bits input = (buffer', bits', input')"
    and "pos + 1 < cap"
  shows "base32_loop cap buffer bits input pos =
    map_option ((#) (crockford_alphabet ! unat (drop_bit (bits' - 5) buffer' AND 31)))
      (base32_loop cap (if bits' - 5 = 0 then 0 else buffer' AND (push_bit (bits' - 5) 1 - 1)) (bits' - 5)
        input' (pos + 1))"
  using assms
  by (subst base32_loop.simps) (auto simp: refill_def Let_def split: if_splits list.splits)

lemma refill_value:
  assumes "unat buffer < 2 ^ bits" "bits \<le> 7" "\<not> (input = [] \<and> bits = 0)"
    and "refill buffer bits input = (buffer', bits', input')"
  defines "L \<equiv> bits + 8 * length input" and "L' \<equiv> bits' + 8 * length input'"
  shows "unat buffer' < 2 ^ bits'" "5 \<le> bits'" "bits' \<le> 12" "symbols_for L' = symbols_for L" "L' \<le> 5 * symbols_for L"
    "(unat buffer' * 256 ^ length input' + val256 input') * 2 ^ (5 * symbols_for L - L') =
     (unat buffer * 256 ^ length input + val256 input) * 2 ^ (5 * symbols_for L - L)"
    "8 * length input' + (bits' - 5) < 8 * length input + bits"
proof -
  consider (enough) "bits \<ge> 5" | (pad) "bits < 5" "input = []" | (pull) b rest where "bits < 5" "input = b # rest"
    by (cases input) (use leI in blast)+
  then have "unat buffer' < 2 ^ bits' \<and> 5 \<le> bits' \<and> bits' \<le> 12 \<and> symbols_for L' = symbols_for L \<and>
      L' \<le> 5 * symbols_for L \<and>
      (unat buffer' * 256 ^ length input' + val256 input') * 2 ^ (5 * symbols_for L - L') =
      (unat buffer * 256 ^ length input + val256 input) * 2 ^ (5 * symbols_for L - L) \<and>
      8 * length input' + (bits' - 5) < 8 * length input + bits"
  proof cases
    case enough
    with assms show ?thesis by (auto simp: refill_def)
  next
    case pad
    then have r: "buffer' = push_bit (5 - bits) buffer" "bits' = 5" "input' = []"
      using assms(4) by (simp_all add: refill_def)
    have s: "unat buffer * 2 ^ (5 - bits) < 2 ^ 5"
    proof -
      have "unat buffer * 2 ^ (5 - bits) < 2 ^ bits * 2 ^ (5 - bits)" using assms(1) by simp
      also have "\<dots> = (2::nat) ^ 5" using pad by (simp flip: power_add)
      finally show ?thesis .
    qed
    have "unat buffer' = unat buffer * 2 ^ (5 - bits)"
      unfolding r using s by (intro unat_push_bit) simp
    moreover have "symbols_for L = 1" using pad assms(3) by (auto simp: L_def)
    moreover from this have "5 * symbols_for L - L = 5 - bits" using pad by (simp add: L_def)
    ultimately show ?thesis using s pad r assms(3) by (simp add: L_def L'_def)
  next
    case (pull b rest)
    then have r: "buffer' = push_bit 8 buffer OR ucast b" "bits' = bits + 8" "input' = rest"
      using assms(4) by (simp_all add: refill_def)
    have v: "unat buffer' = unat buffer * 256 + unat b" unfolding r by (rule shift_in [OF assms(1,2)])
    moreover have "unat buffer * 256 + unat b < 2 ^ bits'"
    proof -
      have "unat buffer * 256 + unat b < (unat buffer + 1) * 256" using byte_less [of b] by simp
      also have "\<dots> \<le> 2 ^ bits * 256" using assms(1) by (intro mult_right_mono) simp_all
      finally show ?thesis by (simp add: r power_add)
    qed
    moreover have "L' = L" using pull r by (simp add: L_def L'_def)
    ultimately show ?thesis using pull r by (auto simp: L_def algebra_simps)
  qed
  then show "unat buffer' < 2 ^ bits'" "5 \<le> bits'" "bits' \<le> 12" "symbols_for L' = symbols_for L" "L' \<le> 5 * symbols_for L"
    "(unat buffer' * 256 ^ length input' + val256 input') * 2 ^ (5 * symbols_for L - L') =
     (unat buffer * 256 ^ length input + val256 input) * 2 ^ (5 * symbols_for L - L)"
    "8 * length input' + (bits' - 5) < 8 * length input + bits" by blast+
qed

lemma base32_loop_digits:
  assumes "unat buffer < 2 ^ bits" "bits \<le> 7" "pos + symbols_for (bits + 8 * length input) < cap"
  shows "\<exists>ds. base32_loop cap buffer bits input pos = Some (map ((!) crockford_alphabet) ds) \<and>
    list_all (\<lambda>d. d < 32) ds \<and> length ds = symbols_for (bits + 8 * length input) \<and>
    val32 ds = (unat buffer * 256 ^ length input + val256 input) * 2 ^ (5 * length ds - (bits + 8 * length input))"
  using assms
proof (induction "8 * length input + bits" arbitrary: buffer bits input pos rule: less_induct)
  case less
  show ?case
  proof (cases "input = [] \<and> bits = 0")
    case True
    with less.prems show ?thesis by (simp add: base32_loop.simps)
  next
    case False
    obtain buffer' bits' input' where r: "refill buffer bits input = (buffer', bits', input')"
      by (cases "refill buffer bits input") auto
    note v = refill_value [OF less.prems(1,2) False r]
    let ?L = "bits + 8 * length input" and ?k = "bits' - 5"
    let ?low = "if ?k = 0 then 0 else buffer' AND (push_bit ?k 1 - 1)"
    have s: "symbols_for ?L = symbols_for (?k + 8 * length input') + 1"
      using v(2,4) by simp
    have "unat ?low < 2 ^ ?k" unfolding low_bits by simp
    moreover have "pos + 1 + symbols_for (?k + 8 * length input') < cap" using less.prems(3) s by simp
    ultimately obtain ds where ds: "base32_loop cap ?low ?k input' (pos + 1) = Some (map ((!) crockford_alphabet) ds)"
      "list_all (\<lambda>d. d < 32) ds" "length ds = symbols_for (?k + 8 * length input')"
      "val32 ds = (unat ?low * 256 ^ length input' + val256 input') * 2 ^ (5 * length ds - (?k + 8 * length input'))"
      using less.hyps [OF v(7)] v(3) by fastforce
    have buf: "unat buffer' < 2 ^ (?k + 5)" using v(1,2) by simp
    let ?d = "unat buffer' div 2 ^ ?k"
    have "val32 (?d # ds) = ((?d * 2 ^ ?k + unat buffer' mod 2 ^ ?k) * 256 ^ length input' + val256 input') *
        2 ^ (5 * length ds - (?k + 8 * length input'))"
      using ds(3,4) symbols_room unfolding low_bits by (intro emit_digit) simp_all
    also have "\<dots> = (unat buffer' * 256 ^ length input' + val256 input') * 2 ^ (5 * symbols_for ?L - (bits' + 8 * length input'))"
      using ds(3) s v(2) by (simp only: div_mult_mod_eq) (simp add: algebra_simps)
    also have "\<dots> = (unat buffer * 256 ^ length input + val256 input) * 2 ^ (5 * symbols_for ?L - ?L)" by (rule v(6))
    finally have val: "val32 (?d # ds) = (unat buffer * 256 ^ length input + val256 input) * 2 ^ (5 * symbols_for ?L - ?L)" .
    have "pos + 1 < cap" using less.prems(3) s by simp
    from base32_loop_step [OF False r this] ds(1)
    have "base32_loop cap buffer bits input pos = Some (map ((!) crockford_alphabet) (?d # ds))"
      by (simp only: top_digit(1) [OF buf]) simp
    moreover have "list_all (\<lambda>d. d < 32) (?d # ds)" "length (?d # ds) = symbols_for ?L"
      using ds(2,3) s top_digit(2) [OF buf] by simp_all
    ultimately show ?thesis using val by metis
  qed
qed

section \<open>The decoder\<close>

lemma strchr_index_nth: "distinct xs \<Longrightarrow> i < length xs \<Longrightarrow> strchr_index xs (xs ! i) = Some i"
  by (induction xs arbitrary: i) (auto simp: nth_Cons split: nat.splits dest: nth_mem)

lemma strchr_index_less: "strchr_index xs c = Some i \<Longrightarrow> i < length xs"
  by (induction xs arbitrary: i) (auto split: if_splits)

lemma crockford_value_less: "crockford_value c = Some v \<Longrightarrow> v < 32"
proof -
  have "length crockford_alphabet = 32" by (simp add: crockford_alphabet_def ascii_def)
  then show "crockford_value c = Some v \<Longrightarrow> v < 32"
    using strchr_index_less [of crockford_alphabet "toupper c" v]
    by (auto simp: crockford_value_def Let_def split: if_splits)
qed

lemma alphabet_symbols:
  "distinct crockford_alphabet" "length crockford_alphabet = 32"
  "list_all (\<lambda>c. toupper c = c \<and> \<not> isspace c \<and>
     c \<notin> {of_char CHR ''-'', of_char CHR ''O'', of_char CHR ''I'', of_char CHR ''L''}) crockford_alphabet"
  by code_simp+

lemma alphabet_value:
  assumes "d < 32"
  shows "crockford_value (crockford_alphabet ! d) = Some d" "toupper (crockford_alphabet ! d) = crockford_alphabet ! d"
    "\<not> isspace (crockford_alphabet ! d)" "crockford_alphabet ! d \<noteq> of_char CHR ''-''"
proof -
  let ?c = "crockford_alphabet ! d"
  have "toupper ?c = ?c \<and> \<not> isspace ?c \<and>
      ?c \<notin> {of_char CHR ''-'', of_char CHR ''O'', of_char CHR ''I'', of_char CHR ''L''}"
    using alphabet_symbols(3) assms unfolding list_all_length alphabet_symbols(2) by blast
  moreover have "strchr_index crockford_alphabet ?c = Some d"
    using assms by (intro strchr_index_nth) (simp_all add: alphabet_symbols(1,2))
  ultimately show "crockford_value ?c = Some d" "toupper ?c = ?c" "\<not> isspace ?c" "?c \<noteq> of_char CHR ''-''"
    by (simp_all add: crockford_value_def Let_def)
qed

lemma ucast_drop_byte: "(ucast (drop_bit k w) :: byte) = word_of_nat (unat w div 2 ^ k)" for w :: u32
  by (simp add: word_unat_eq_iff unsigned_ucast_eq unsigned_of_nat unat_drop_bit_div)

lemma numeral_eq_pow: "(2::nat) ^ 8 = 256" by simp

lemma take_in:
  fixes buffer :: u32
  assumes "unat buffer < 2 ^ bits" "bits < 8" "v < 32"
  shows "unat (push_bit 5 buffer OR word_of_nat v) = unat buffer * 32 + v" "unat buffer * 32 + v < 2 ^ (bits + 5)"
proof -
  have v: "unat (word_of_nat v :: u32) = v" using assms(3) by (simp add: unat_of_nat take_bit_nat_eq_self)
  have "unat buffer < 128" using assms power_increasing [of bits 7 "2::nat"] by simp
  then show "unat (push_bit 5 buffer OR word_of_nat v) = unat buffer * 32 + v"
    using v assms(3) by (subst unat_push_bit_or) simp_all
  have "unat buffer * 32 + v < (unat buffer + 1) * 32" using assms(3) by simp
  also have "\<dots> \<le> 2 ^ bits * 32" using assms(1) by (intro mult_right_mono) simp_all
  finally show "unat buffer * 32 + v < 2 ^ (bits + 5)" by (simp add: power_add)
qed

text \<open>A whole byte in front of what follows.\<close>

lemma take_byte:
  fixes b :: nat
  assumes "t < 2 ^ L" "b < 256"
  shows "(b * 2 ^ L + t) mod 2 ^ (L mod 8) = t mod 2 ^ (L mod 8)"
    "bytes_of (Suc (L div 8)) ((b * 2 ^ L + t) div 2 ^ (L mod 8)) = word_of_nat b # bytes_of (L div 8) (t div 2 ^ (L mod 8))"
proof -
  let ?r = "L mod 8" and ?q = "L div 8"
  have L: "(2::nat) ^ L = 2 ^ ?r * 256 ^ ?q"
  proof -
    have "(2::nat) ^ L = 2 ^ (?r + 8 * ?q)" by simp
    then show ?thesis by (simp only: power_add power_mult) simp
  qed
  have "(b * 2 ^ L + t) mod 2 ^ ?r = (b * 256 ^ ?q * 2 ^ ?r + t) mod 2 ^ ?r" unfolding L by (simp add: mult.commute mult.left_commute)
  then show "(b * 2 ^ L + t) mod 2 ^ ?r = t mod 2 ^ ?r" by simp
  have "(b * 2 ^ L + t) div 2 ^ ?r = (b * 256 ^ ?q * 2 ^ ?r + t) div 2 ^ ?r"
    unfolding L by (simp add: mult.commute mult.left_commute)
  also have "\<dots> = b * 256 ^ ?q + t div 2 ^ ?r" by simp
  finally have "(b * 2 ^ L + t) div 2 ^ ?r = b * 256 ^ ?q + t div 2 ^ ?r" .
  moreover have "t div 2 ^ ?r < 256 ^ ?q" using assms(1) unfolding L by (simp add: div_less_iff_less_mult mult.commute)
  ultimately show "bytes_of (Suc ?q) ((b * 2 ^ L + t) div 2 ^ ?r) = word_of_nat b # bytes_of ?q (t div 2 ^ ?r)"
    using bytes_of_Suc [OF _ assms(2)] by simp
qed

lemma digits_value_less:
  assumes "low < 2 ^ k" "list_all (\<lambda>d. d < 32) vs"
  shows "low * 32 ^ length vs + val32 vs < 2 ^ (k + 5 * length vs)"
proof -
  have "low * 32 ^ length vs + val32 vs < (low + 1) * 32 ^ length vs" using val_of_less [OF assms(2)] by simp
  also have "\<dots> \<le> 2 ^ k * 32 ^ length vs" using assms(1) by (intro mult_right_mono) simp_all
  finally show ?thesis by (simp add: power_add power_mult)
qed

lemma split_value:
  fixes b :: nat
  shows "b * 32 ^ n + t = b div 2 ^ k * 2 ^ (k + 5 * n) + (b mod 2 ^ k * 32 ^ n + t)"
proof -
  have "b * 32 ^ n = (b div 2 ^ k * 2 ^ k + b mod 2 ^ k) * 32 ^ n" by (simp only: div_mult_mod_eq)
  also have "\<dots> = b div 2 ^ k * (2 ^ k * 32 ^ n) + b mod 2 ^ k * 32 ^ n" by (simp only: algebra_simps)
  also have "(2::nat) ^ k * 32 ^ n = 2 ^ (k + 5 * n)" by (simp add: power_add power_mult)
  finally show ?thesis by simp
qed

lemma decode_output:
  assumes "X mod R = t mod R" "bytes_of (Suc q) (X div R) = x # bytes_of q (t div R)"
  shows "(if length out \<ge> n then None else if length out + 1 + q = n \<and> t mod R = 0
      then Some (out @ [x] @ bytes_of q (t div R)) else None) =
    (if length out + Suc q = n \<and> X mod R = 0 then Some (out @ bytes_of (Suc q) (X div R)) else None)"
  using assms by (simp del: bytes_of.simps)

lemma values_less: "map crockford_value input = map Some vs \<Longrightarrow> list_all (\<lambda>d. d < 32) vs"
proof (induction input arbitrary: vs)
  case (Cons c input)
  then show ?case by (cases vs) (auto intro: crockford_value_less)
qed simp

lemma base32_decode_loop_value:
  assumes "unat buffer < 2 ^ bits" "bits < 8" "map crockford_value input = map Some vs"
  defines "L \<equiv> bits + 5 * length vs" and "T \<equiv> unat buffer * 32 ^ length vs + val32 vs"
  shows "base32_decode_loop n buffer bits out input =
    (if length out + L div 8 = n \<and> T mod 2 ^ (L mod 8) = 0
     then Some (out @ bytes_of (L div 8) (T div 2 ^ (L mod 8))) else None)"
  using assms(1-3) unfolding L_def T_def
proof (induction input arbitrary: buffer bits out vs)
  case Nil
  have "unat buffer = 0 \<longleftrightarrow> buffer = 0" by (simp add: unat_eq_0)
  moreover have "bits = 0 \<Longrightarrow> unat buffer = 0" using Nil.prems(1) by simp
  ultimately show ?case using Nil.prems by auto
next
  case (Cons c input)
  then obtain v vs' where vs: "vs = v # vs'" "crockford_value c = Some v" "map crockford_value input = map Some vs'"
    by (cases vs) auto
  have v32: "v < 32" by (rule crockford_value_less [OF vs(2)])
  note b = take_in [OF Cons.prems(1,2) v32]
  let ?b1 = "push_bit 5 buffer OR word_of_nat v :: u32"
  have T: "unat buffer * 32 ^ length vs + val32 vs = unat ?b1 * 32 ^ length vs' + val32 vs'"
    unfolding b(1) vs by (simp add: algebra_simps)
  show ?case
  proof (cases "bits + 5 < 8")
    case True
    have "base32_decode_loop n buffer bits out (c # input) = base32_decode_loop n ?b1 (bits + 5) out input"
      using True vs(2) by (simp add: Let_def)
    also note Cons.IH [OF _ True vs(3), of ?b1 out]
    finally show ?thesis using b unfolding T by (simp add: vs(1) algebra_simps)
  next
    case False
    let ?k = "bits + 5 - 8"
    let ?low = "if ?k = 0 then 0 else ?b1 AND (push_bit ?k 1 - 1)"
    let ?byte = "unat ?b1 div 2 ^ ?k" and ?L = "?k + 5 * length vs'"
    let ?t = "unat ?low * 32 ^ length vs' + val32 vs'"
    have byte: "?byte < 256" "ucast (drop_bit ?k ?b1) = (word_of_nat ?byte :: byte)"
    proof -
      have "bits + 5 = 8 + ?k" using False by simp
      then have "(2::nat) ^ (bits + 5) = 256 * 2 ^ ?k" by (metis power_add numeral_eq_pow)
      then have "unat ?b1 < 256 * 2 ^ ?k" using b by metis
      then show "?byte < 256" by (simp add: div_less_iff_less_mult)
      show "ucast (drop_bit ?k ?b1) = (word_of_nat ?byte :: byte)"
        by (rule ucast_drop_byte)
    qed
    have low: "unat ?low < 2 ^ ?k" unfolding low_bits by simp
    note vs32 = values_less [OF vs(3)]
    have T': "unat ?b1 * 32 ^ length vs' + val32 vs' = ?byte * 2 ^ ?L + ?t"
      unfolding low_bits by (rule split_value)
    note tb = take_byte [OF digits_value_less [OF low vs32] byte(1)]
    have L: "(bits + 5 * length vs) div 8 = Suc (?L div 8)" "(bits + 5 * length vs) mod 8 = ?L mod 8"
    proof -
      have "bits + 5 * length vs = 8 + ?L" using False by (simp add: vs(1))
      then show "(bits + 5 * length vs) div 8 = Suc (?L div 8)" "(bits + 5 * length vs) mod 8 = ?L mod 8"
        by (simp_all only:) simp_all
    qed
    have "base32_decode_loop n buffer bits out (c # input) =
      (if length out \<ge> n then None else base32_decode_loop n ?low ?k (out @ [word_of_nat ?byte]) input)"
      using False vs(2) byte(2) by (simp add: Let_def)
    also have "\<dots> = (if length out \<ge> n then None
      else if length out + 1 + ?L div 8 = n \<and> ?t mod 2 ^ (?L mod 8) = 0
      then Some (out @ [word_of_nat ?byte] @ bytes_of (?L div 8) (?t div 2 ^ (?L mod 8))) else None)"
      using Cons.IH [OF low _ vs(3), of "out @ [word_of_nat ?byte]"] Cons.prems(2) by simp
    also note decode_output [OF tb]
    finally show ?thesis unfolding L T T' .
  qed
qed

lemma base32_roundtrip:
  assumes "symbols_for (8 * length input) < cap"
  shows "\<exists>ds. base32_encode input cap = Some (map ((!) crockford_alphabet) ds) \<and> list_all (\<lambda>d. d < 32) ds \<and>
    length ds = symbols_for (8 * length input) \<and>
    base32_decode (map ((!) crockford_alphabet) ds) (length input) = Some input"
proof -
  let ?n = "length input"
  obtain ds where ds: "base32_loop cap 0 0 input 0 = Some (map ((!) crockford_alphabet) ds)"
    "list_all (\<lambda>d. d < 32) ds" "length ds = symbols_for (8 * ?n)"
    "val32 ds = val256 input * 2 ^ (5 * length ds - 8 * ?n)"
    using base32_loop_digits [of 0 0 0 input cap] assms by auto
  define pad where "pad = 5 * length ds - 8 * ?n"
  have "8 * ?n \<le> 5 * length ds" "5 * length ds < 8 * ?n + 5" unfolding ds(3) by linarith+
  then have "5 * length ds = 8 * ?n + pad" "pad < 8" unfolding pad_def by linarith+
  then have L: "(5 * length ds) div 8 = ?n" "(5 * length ds) mod 8 = pad" by simp_all
  have "map crockford_value (map ((!) crockford_alphabet) ds) = map Some ds"
    using ds(2) alphabet_value(1) by (simp add: list_all_iff)
  from base32_decode_loop_value [OF _ _ this, of 0 0 ?n "[]"]
  have "base32_decode (map ((!) crockford_alphabet) ds) ?n = Some (bytes_of ?n (val256 input))"
    unfolding base32_decode_def using ds(4) [folded pad_def] by (simp add: L)
  then show ?thesis using ds by (auto simp: base32_encode_def bytes_of_val256)
qed

section \<open>Recovery texts\<close>

text \<open>The characters that count.\<close>

definition symbol :: "byte \<Rightarrow> bool" where
  "symbol c \<longleftrightarrow> c \<noteq> of_char CHR ''-'' \<and> \<not> isspace c"

lemma normalize_text_eq:
  "pos \<le> 79 \<Longrightarrow> normalize_text pos chars =
    (if pos + length (filter symbol chars) < 80 then Some (map toupper (filter symbol chars)) else None)"
  by (induction chars arbitrary: pos) (auto simp: symbol_def)

lemma group_text_symbols:
  assumes "list_all symbol raw"
  shows "filter symbol (group_text raw) = raw"
proof -
  have dash: "\<not> symbol c" if "c \<in> set (ascii ''-'')" for c using that by (simp add: symbol_def ascii_def)
  have "map (\<lambda>i. filter symbol ((if i > 0 \<and> i mod 5 = 0 then ascii ''-'' else []) @ [raw ! i])) [0..<length raw] =
      map (\<lambda>i. [raw ! i]) [0..<length raw]"
    using assms dash by (intro map_cong) (auto simp: list_all_length filter_empty_conv)
  then have "filter symbol (group_text raw) = concat (map (\<lambda>i. [raw ! i]) [0..<length raw])"
    unfolding group_text_def filter_concat map_map comp_def by (rule arg_cong)
  then show ?thesis by (simp add: map_nth flip: concat_map_singleton [of "(!) raw"])
qed

lemma group_text_length: "length (group_text raw) = length raw + (length raw - 1) div 5"
proof -
  have "length (concat (map (\<lambda>i. (if i > 0 \<and> i mod 5 = 0 then ascii ''-'' else []) @ [f i]) [0..<n])) =
      n + (n - 1) div 5" for n and f :: "nat \<Rightarrow> byte"
  proof (induction n)
    case (Suc n)
    have "n div 5 = (n - 1) div 5 + (if n > 0 \<and> n mod 5 = 0 then 1 else 0)" by presburger
    with Suc show ?case by (simp add: ascii_def)
  qed simp
  then show ?thesis by (simp add: group_text_def)
qed

lemma symbol_digits:
  "list_all (\<lambda>d. d < 32) ds \<Longrightarrow> list_all symbol (map ((!) crockford_alphabet) ds) \<and>
    map toupper (map ((!) crockford_alphabet) ds) = map ((!) crockford_alphabet) ds"
  using alphabet_value(2,3,4) by (auto simp: list_all_iff symbol_def)

lemma prefix_text:
  "skip_spaces (ascii ''PV1R-'' @ text) = ascii ''PV1R-'' @ text" "has_prefix (ascii ''PV1R-'' @ text)"
  "drop 4 (ascii ''PV1R-'' @ text) = ascii ''-'' @ text"
proof -
  have c: "ascii ''PV1R-'' = [0x50, 0x56, 0x31, 0x52, 0x2d]" "ascii ''PV1R'' = [0x50, 0x56, 0x31, 0x52]"
    "ascii ''-'' = [0x2d]"
    by (simp_all add: ascii_def)
  show "skip_spaces (ascii ''PV1R-'' @ text) = ascii ''PV1R-'' @ text" by (simp add: c isspace_def)
  show "has_prefix (ascii ''PV1R-'' @ text)" by (simp add: c has_prefix_def toupper_def)
  show "drop 4 (ascii ''PV1R-'' @ text) = ascii ''-'' @ text" by (simp add: c)
qed

lemma recovery_material:
  assumes "sodium_ok S" "length key = PV_RECOVERY_KEY_BYTES" "recovery_checksum S ws hash_ok vault_id key = Inr checksum"
  shows "length (key @ checksum) = 37" "recovery_checksum S True True vault_id key = Inr checksum"
  using assms sodium_okD(5) [OF assms(1), of "vault_id @ key"] by (auto simp: recovery_checksum_def split: if_splits)

lemma recovery_text_decodes:
  assumes "sodium_ok S" and "length key = PV_RECOVERY_KEY_BYTES"
    and "pv_recovery_encode S mem ws hash_ok vault_id key encoded_len = Inr encoded"
  shows "pv_recovery_decode S True True True encoded vault_id = Inr key \<and> length encoded < encoded_len"
proof -
  from assms(3) obtain checksum raw where c: "recovery_checksum S ws hash_ok vault_id key = Inr checksum"
    and raw: "base32_encode (key @ checksum) 80 = Some raw" "\<not> encoded_len \<le> 5 + length raw + length raw div 5"
    and enc: "encoded = ascii ''PV1R-'' @ group_text raw"
    by (auto simp: pv_recovery_encode_def res_bind_Inr split: if_splits option.splits)
  note m = recovery_material [OF assms(1,2) c]
  obtain ds where ds: "raw = map ((!) crockford_alphabet) ds" "list_all (\<lambda>d. d < 32) ds" "length ds = 60"
    "base32_decode raw 37 = Some (key @ checksum)"
    using base32_roundtrip [of "key @ checksum" 80, unfolded m(1)] raw(1) by auto
  have sym: "list_all symbol raw" "map toupper raw = raw" using symbol_digits [OF ds(2)] ds(1) by simp_all
  have "filter symbol (ascii ''-'' @ group_text raw) = raw"
    using group_text_symbols [OF sym(1)] by (simp add: symbol_def ascii_def)
  then have "normalize_text 0 (drop 4 encoded) = Some raw"
    using normalize_text_eq [of 0 "drop 4 encoded"] ds(1,3) sym(2) unfolding enc prefix_text by simp
  then have "pv_recovery_decode S True True True encoded vault_id = Inr key"
    using ds(4) assms(2) m(2) by (simp add: pv_recovery_decode_def enc prefix_text Let_def)
  then show ?thesis using raw(2) enc by (simp add: ascii_def group_text_length)
qed

text \<open>
  C14. A recovery key survives being written down: the text \<^verbatim>\<open>pv_recovery_encode\<close> produces (76
  characters) is read back by \<^verbatim>\<open>pv_recovery_decode\<close>, for the same vault, as exactly the key.
\<close>

theorem pv_recovery_roundtrip:
  assumes "sodium_ok S" and "length key = PV_RECOVERY_KEY_BYTES"
    and "pv_recovery_encode S mem ws hash_ok vault_id key encoded_len = Inr encoded"
  shows "pv_recovery_decode S True True True encoded vault_id = Inr key \<and> length encoded < encoded_len"
  using assms by (rule recovery_text_decodes)

lemma base32_decode_loop_length: "base32_decode_loop n buffer bits out input = Some r \<Longrightarrow> length r = n"
  by (induction n buffer bits out input rule: base32_decode_loop.induct)
    (auto simp: Let_def split: if_splits option.splits)

lemma recovery_decode_steps:
  assumes "pv_recovery_decode S mem ws hash_ok encoded vault_id = Inr key"
  obtains normalized material where "normalize_text 0 (drop 4 (skip_spaces encoded)) = Some normalized"
    "base32_decode normalized 37 = Some material" "key = take 32 material"
    "recovery_checksum S ws hash_ok vault_id key = Inr (drop 32 material)"
  using assms by (auto simp: pv_recovery_decode_def Let_def split: if_splits option.splits)


text \<open>What the reader sees in a text: the values of the characters that count, behind the prefix.\<close>

definition symbol_values :: "byte list \<Rightarrow> nat option list" where
  "symbol_values chars = map crockford_value (filter symbol (drop 4 (skip_spaces chars)))"

lemma toupper_twice: "toupper (toupper c) = toupper c"
proof -
  have "\<not> (0x61 \<le> c - 0x20 \<and> c - 0x20 \<le> 0x7a)" if "0x61 \<le> c" "c \<le> 0x7a" for c :: byte
    using that by (simp add: word_le_nat_alt unat_sub)
  then show ?thesis by (auto simp: toupper_def)
qed

lemma crockford_value_toupper: "crockford_value (toupper c) = crockford_value c"
  by (simp add: crockford_value_def toupper_twice)

lemma base32_decode_loop_cong:
  "map crockford_value input = map crockford_value input' \<Longrightarrow>
    base32_decode_loop n buffer bits out input = base32_decode_loop n buffer bits out input'"
proof (induction input arbitrary: input' buffer bits out)
  case (Cons c input)
  then obtain c' rest where "input' = c' # rest" "crockford_value c' = crockford_value c"
    "map crockford_value input = map crockford_value rest" by (cases input') auto
  with Cons.IH [OF this(3)] show ?case by (simp add: Let_def split: option.split)
qed simp


section \<open>An instance\<close>

lemma demo_recovery_text:
  obtains encoded where "pv_recovery_encode demo_sodium True True True (replicate 16 1) (replicate 32 2) 128 = Inr encoded"
proof -
  have c: "recovery_checksum demo_sodium True True (replicate 16 1) (replicate 32 2) = Inr [1, 1, 1, 1, 1]" by code_simp
  obtain ds where "base32_encode (replicate 32 2 @ [1, 1, 1, 1, 1]) 80 = Some (map ((!) crockford_alphabet) ds)"
    "length ds = 60"
    using base32_roundtrip [of "replicate 32 2 @ [1, 1, 1, 1, 1]" 80] by auto
  moreover from this have "ds \<noteq> []" by auto
  ultimately show thesis using c by (intro that) (simp add: pv_recovery_encode_def)
qed

theorem pv_recovery_roundtrip_witness:
  "\<exists>encoded. pv_recovery_encode demo_sodium True True True (replicate 16 1) (replicate 32 2) 128 = Inr encoded \<and>
     pv_recovery_decode demo_sodium True True True encoded (replicate 16 1) = Inr (replicate 32 2)"
proof -
  obtain encoded where run: "pv_recovery_encode demo_sodium True True True (replicate 16 1) (replicate 32 2) 128 = Inr encoded"
    by (rule demo_recovery_text)
  from pv_recovery_roundtrip [OF demo_sodium_ok _ run] run show ?thesis by simp
qed



end
