(* ===== verification/Pv_Posix.thy ===== *)
theory Pv_Posix
  imports Pv_Util "HOL-Library.State_Monad" "HOL-Library.AList"
begin

text \<open>
  What the program sees of the operating system: error numbers, the fields of
  \<^verbatim>\<open>struct stat\<close> it examines, the answers of \<^verbatim>\<open>read\<close>, and a file system with the
  system calls the store uses. Every call may fail, transfer fewer bytes than asked for, or be the
  moment of a power loss; the file system records what is certain to be on the disk, so that the
  possible contents of a file after a power loss are a set.
\<close>

datatype errno = EEXIST | ENOENT | EIO | EINTR | EWOULDBLOCK | ELOOP | ENOTDIR | EINVAL

datatype file_kind = Regular_file | Directory | Symbolic_link | Special_file

record stat =
  st_kind :: file_kind
  st_mode :: u32
  st_uid :: nat
  st_nlink :: nat
  st_size :: int
  st_dev :: nat
  st_ino :: nat
  st_mtim :: "int \<times> int"
  st_ctim :: "int \<times> int"

text \<open>\<open>st_mode\<close> holds the permission bits, \<^verbatim>\<open>07777\<close>; the file type is \<open>st_kind\<close>.\<close>

definition perm_bits :: "stat \<Rightarrow> u32" where
  "perm_bits st = st_mode st AND 0xfff"

text \<open>One answer of \<^verbatim>\<open>read\<close>: some bytes (none at the end of the file) or an error.\<close>

datatype read_answer = Got "byte list" | Read_failed errno

section \<open>The file system\<close>

text \<open>
  An inode keeps its data and whether that data is on the disk. A directory is a list of entries;
  \<open>fs_past\<close> holds the earlier values of an entry since its directory was last synchronised: any
  of them may be the one found after a power loss. \<open>fs_dirs\<close> says which directory a path leads
  to, \<open>fs_locks\<close> which inodes are locked.
\<close>

record inode =
  i_kind :: file_kind
  i_mode :: u32
  i_uid :: nat
  i_nlink :: nat
  i_data :: "byte list"
  i_synced :: bool

record fs =
  fs_inode :: "nat \<Rightarrow> inode"
  fs_next :: nat
  fs_entries :: "nat \<Rightarrow> (byte list \<times> nat) list"
  fs_past :: "nat \<Rightarrow> byte list \<Rightarrow> nat option list"
  fs_dirs :: "(byte list \<times> nat) list"
  fs_locks :: "nat list"

definition entry :: "fs \<Rightarrow> nat \<Rightarrow> byte list \<Rightarrow> nat option" where
  "entry F d n = map_of (fs_entries F d) n"

definition remember :: "nat \<Rightarrow> byte list \<Rightarrow> fs \<Rightarrow> fs" where
  "remember d n F = F\<lparr>fs_past := (fs_past F)(d := (fs_past F d)(n := entry F d n # fs_past F d n))\<rparr>"

definition fs_link :: "nat \<Rightarrow> byte list \<Rightarrow> nat \<Rightarrow> fs \<Rightarrow> fs" where
  "fs_link d n i F = (remember d n F)\<lparr>fs_entries := (fs_entries F)(d := AList.update n i (fs_entries F d))\<rparr>"

definition fs_drop :: "nat \<Rightarrow> byte list \<Rightarrow> fs \<Rightarrow> fs" where
  "fs_drop d n F = (remember d n F)\<lparr>fs_entries := (fs_entries F)(d := AList.delete n (fs_entries F d))\<rparr>"

definition fs_change :: "nat \<Rightarrow> (inode \<Rightarrow> inode) \<Rightarrow> fs \<Rightarrow> fs" where
  "fs_change i f F = F\<lparr>fs_inode := (fs_inode F)(i := f (fs_inode F i))\<rparr>"

definition fs_new :: "inode \<Rightarrow> fs \<Rightarrow> fs" where
  "fs_new x F = F\<lparr>fs_inode := (fs_inode F)(fs_next F := x), fs_next := fs_next F + 1\<rparr>"

definition fs_unref :: "nat \<Rightarrow> fs \<Rightarrow> fs" where
  "fs_unref i = fs_change i (\<lambda>x. x\<lparr>i_nlink := i_nlink x - 1\<rparr>)"

definition stat_of :: "fs \<Rightarrow> nat \<Rightarrow> stat" where
  "stat_of F i =
     (let x = fs_inode F i
      in \<lparr>st_kind = i_kind x, st_mode = i_mode x, st_uid = i_uid x, st_nlink = i_nlink x,
          st_size = int (length (i_data x)), st_dev = 0, st_ino = i, st_mtim = (0, 0), st_ctim = (0, 0)\<rparr>)"

section \<open>System calls\<close>

text \<open>
  The state of the system around the process: the file system, a schedule that says what happens to
  the next calls (all further ones succeed), whether the machine still runs, the random numbers to
  come, the read positions of descriptors, the identity and file creation mask of the process, and
  the clock.
\<close>

datatype fault = Call_ok | Call_fails errno | Call_short nat | Power_loss

record os =
  os_fs :: fs
  os_faults :: "fault list"
  os_alive :: bool
  os_random :: "u32 list"
  os_pos :: "nat \<Rightarrow> nat"
  os_fd_next :: nat
  os_euid :: nat
  os_umask :: u32
  os_clock :: "(int \<times> nat) option"

type_synonym 'a io = "(os, 'a) state"

text \<open>A descriptor is bound to an inode; its number tells descriptors of the same inode apart.\<close>

record fd =
  fd_id :: nat
  fd_ino :: nat

text \<open>After a power loss no call has an effect any more.\<close>

definition sys :: "(nat option \<Rightarrow> os \<Rightarrow> (errno + 'a) \<times> os) \<Rightarrow> (errno + 'a) io" where
  "sys act = State (\<lambda>s.
     if \<not> os_alive s then (Inl EIO, s)
     else
       (let s1 = s\<lparr>os_faults := tl (os_faults s)\<rparr>
        in case os_faults s of
             [] \<Rightarrow> act None s1
           | Call_ok # _ \<Rightarrow> act None s1
           | Call_short n # _ \<Rightarrow> act (Some n) s1
           | Call_fails e # _ \<Rightarrow> (Inl e, s1)
           | Power_loss # _ \<Rightarrow> (Inl EIO, s1\<lparr>os_alive := False\<rparr>)))"

definition new_fd :: "nat \<Rightarrow> os \<Rightarrow> (errno + fd) \<times> os" where
  "new_fd i s =
     (Inr \<lparr>fd_id = os_fd_next s, fd_ino = i\<rparr>,
      s\<lparr>os_pos := (os_pos s)(os_fd_next s := 0), os_fd_next := os_fd_next s + 1\<rparr>)"

definition on_fs :: "(fs \<Rightarrow> fs) \<Rightarrow> os \<Rightarrow> os" where
  "on_fs f s = s\<lparr>os_fs := f (os_fs s)\<rparr>"

text \<open>\<^verbatim>\<open>open(path, O_RDONLY | O_DIRECTORY | O_NOFOLLOW)\<close>\<close>

definition sys_open_dir :: "byte list \<Rightarrow> (errno + fd) io" where
  "sys_open_dir path = sys (\<lambda>_ s.
     case map_of (fs_dirs (os_fs s)) path of None \<Rightarrow> (Inl ENOENT, s) | Some i \<Rightarrow> new_fd i s)"

text \<open>\<^verbatim>\<open>openat(dir, name, O_RDONLY | O_NOFOLLOW)\<close>, without and with \<^verbatim>\<open>O_DIRECTORY\<close>\<close>

definition sys_openat :: "fd \<Rightarrow> byte list \<Rightarrow> (errno + fd) io" where
  "sys_openat dir name = sys (\<lambda>_ s.
     case entry (os_fs s) (fd_ino dir) name of
       None \<Rightarrow> (Inl ENOENT, s)
     | Some i \<Rightarrow> if i_kind (fs_inode (os_fs s) i) = Symbolic_link then (Inl ELOOP, s) else new_fd i s)"

definition sys_openat_dir :: "fd \<Rightarrow> byte list \<Rightarrow> (errno + fd) io" where
  "sys_openat_dir dir name = sys (\<lambda>_ s.
     case entry (os_fs s) (fd_ino dir) name of
       None \<Rightarrow> (Inl ENOENT, s)
     | Some i \<Rightarrow> if i_kind (fs_inode (os_fs s) i) \<noteq> Directory then (Inl ENOTDIR, s) else new_fd i s)"

text \<open>\<^verbatim>\<open>openat(dir, name, O_WRONLY | O_CREAT | O_EXCL | O_NOFOLLOW, mode)\<close>\<close>

definition created :: "file_kind \<Rightarrow> u32 \<Rightarrow> os \<Rightarrow> inode" where
  "created kind mode s =
     \<lparr>i_kind = kind, i_mode = mode AND NOT (os_umask s), i_uid = os_euid s, i_nlink = 1, i_data = [], i_synced = False\<rparr>"

definition create_file :: "nat \<Rightarrow> byte list \<Rightarrow> file_kind \<Rightarrow> u32 \<Rightarrow> os \<Rightarrow> os" where
  "create_file d name kind mode s =
     on_fs (\<lambda>F. fs_link d name (fs_next F) (fs_new (created kind mode s) F)) s"

definition sys_create :: "fd \<Rightarrow> byte list \<Rightarrow> u32 \<Rightarrow> (errno + fd) io" where
  "sys_create dir name mode = sys (\<lambda>_ s.
     if entry (os_fs s) (fd_ino dir) name \<noteq> None then (Inl EEXIST, s)
     else new_fd (fs_next (os_fs s)) (create_file (fd_ino dir) name Regular_file mode s))"

text \<open>\<^verbatim>\<open>openat(dir, name, O_RDWR | O_CREAT | O_NOFOLLOW, mode)\<close>, for the lock file, which is never written\<close>

definition sys_open_create :: "fd \<Rightarrow> byte list \<Rightarrow> u32 \<Rightarrow> (errno + fd) io" where
  "sys_open_create dir name mode = sys (\<lambda>_ s.
     case entry (os_fs s) (fd_ino dir) name of
       None \<Rightarrow> new_fd (fs_next (os_fs s)) (create_file (fd_ino dir) name Regular_file mode s)
     | Some i \<Rightarrow> if i_kind (fs_inode (os_fs s) i) = Symbolic_link then (Inl ELOOP, s) else new_fd i s)"

definition sys_close :: "fd \<Rightarrow> (errno + unit) io" where
  "sys_close f = sys (\<lambda>_ s. (Inr (), s))"

definition sys_fstat :: "fd \<Rightarrow> (errno + stat) io" where
  "sys_fstat f = sys (\<lambda>_ s. (Inr (stat_of (os_fs s) (fd_ino f)), s))"

text \<open>\<^verbatim>\<open>fstatat(dir, name, AT_SYMLINK_NOFOLLOW)\<close>\<close>

definition sys_fstatat :: "fd \<Rightarrow> byte list \<Rightarrow> (errno + stat) io" where
  "sys_fstatat dir name = sys (\<lambda>_ s.
     case entry (os_fs s) (fd_ino dir) name of
       None \<Rightarrow> (Inl ENOENT, s)
     | Some i \<Rightarrow> (Inr (stat_of (os_fs s) i), s))"

text \<open>A call of \<^verbatim>\<open>read\<close> returns no bytes only at the end of the file.\<close>

definition sys_read :: "fd \<Rightarrow> nat \<Rightarrow> (errno + byte list) io" where
  "sys_read f n = sys (\<lambda>limit s.
     let count = (case limit of None \<Rightarrow> n | Some k \<Rightarrow> min n (max 1 k));
         bytes = take count (drop (os_pos s (fd_id f)) (i_data (fs_inode (os_fs s) (fd_ino f))))
     in (Inr bytes, s\<lparr>os_pos := (os_pos s)(fd_id f := os_pos s (fd_id f) + length bytes)\<rparr>))"

text \<open>The files that are written are new, so a write appends; the result is the number of bytes taken.\<close>

definition append_data :: "byte list \<Rightarrow> inode \<Rightarrow> inode" where
  "append_data bytes x = x\<lparr>i_data := i_data x @ bytes, i_synced := False\<rparr>"

definition sys_write :: "fd \<Rightarrow> byte list \<Rightarrow> (errno + nat) io" where
  "sys_write f bytes = sys (\<lambda>limit s.
     let count = (case limit of None \<Rightarrow> length bytes | Some k \<Rightarrow> min (length bytes) k)
     in (Inr count, on_fs (fs_change (fd_ino f) (append_data (take count bytes))) s))"

definition fs_sync :: "nat \<Rightarrow> fs \<Rightarrow> fs" where
  "fs_sync i F =
     (if i_kind (fs_inode F i) = Directory then F\<lparr>fs_past := (fs_past F)(i := (\<lambda>n. []))\<rparr>
      else fs_change i (\<lambda>x. x\<lparr>i_synced := True\<rparr>) F)"

definition sys_fsync :: "fd \<Rightarrow> (errno + unit) io" where
  "sys_fsync f = sys (\<lambda>_ s. (Inr (), on_fs (fs_sync (fd_ino f)) s))"

text \<open>\<^verbatim>\<open>renameat\<close> within one directory, with or without \<^verbatim>\<open>RENAME_NOREPLACE\<close>\<close>

definition fs_rename :: "nat \<Rightarrow> byte list \<Rightarrow> byte list \<Rightarrow> nat \<Rightarrow> fs \<Rightarrow> fs" where
  "fs_rename d old name i F =
     (let F1 = (case entry F d name of None \<Rightarrow> F | Some j \<Rightarrow> fs_unref j F)
      in fs_drop d old (fs_link d name i F1))"

definition sys_rename :: "fd \<Rightarrow> byte list \<Rightarrow> byte list \<Rightarrow> bool \<Rightarrow> (errno + unit) io" where
  "sys_rename dir old name no_replace = sys (\<lambda>_ s.
     case entry (os_fs s) (fd_ino dir) old of
       None \<Rightarrow> (Inl ENOENT, s)
     | Some i \<Rightarrow>
         if no_replace \<and> entry (os_fs s) (fd_ino dir) name \<noteq> None then (Inl EEXIST, s)
         else (Inr (), on_fs (fs_rename (fd_ino dir) old name i) s))"

definition sys_unlink :: "fd \<Rightarrow> byte list \<Rightarrow> (errno + unit) io" where
  "sys_unlink dir name = sys (\<lambda>_ s.
     case entry (os_fs s) (fd_ino dir) name of
       None \<Rightarrow> (Inl ENOENT, s)
     | Some i \<Rightarrow> (Inr (), on_fs (\<lambda>F. fs_drop (fd_ino dir) name (fs_unref i F)) s))"

text \<open>A new directory is found under every path of its parent.\<close>

definition make_dir :: "nat \<Rightarrow> byte list \<Rightarrow> u32 \<Rightarrow> os \<Rightarrow> os" where
  "make_dir d name mode s =
     on_fs (\<lambda>F. F\<lparr>fs_dirs := fs_dirs F @ map (\<lambda>(p, i). (p @ (if p = [0x2f] then [] else [0x2f]) @ name, fs_next (os_fs s)))
         (filter (\<lambda>(p, i). i = d) (fs_dirs F))\<rparr>)
       (create_file d name Directory mode s)"

definition sys_mkdirat :: "fd \<Rightarrow> byte list \<Rightarrow> u32 \<Rightarrow> (errno + unit) io" where
  "sys_mkdirat dir name mode = sys (\<lambda>_ s.
     if entry (os_fs s) (fd_ino dir) name \<noteq> None then (Inl EEXIST, s)
     else (Inr (), make_dir (fd_ino dir) name mode s))"

definition sys_fchmod :: "fd \<Rightarrow> u32 \<Rightarrow> (errno + unit) io" where
  "sys_fchmod f mode = sys (\<lambda>_ s. (Inr (), on_fs (fs_change (fd_ino f) (\<lambda>x. x\<lparr>i_mode := mode\<rparr>)) s))"

text \<open>\<^verbatim>\<open>flock(fd, LOCK_EX | LOCK_NB)\<close> and \<^verbatim>\<open>flock(fd, LOCK_UN)\<close>\<close>

definition sys_flock :: "fd \<Rightarrow> (errno + unit) io" where
  "sys_flock f = sys (\<lambda>_ s.
     if fd_ino f \<in> set (fs_locks (os_fs s)) then (Inl EWOULDBLOCK, s)
     else (Inr (), on_fs (\<lambda>F. F\<lparr>fs_locks := fd_ino f # fs_locks F\<rparr>) s))"

definition sys_unlock :: "fd \<Rightarrow> (errno + unit) io" where
  "sys_unlock f = sys (\<lambda>_ s. (Inr (), on_fs (\<lambda>F. F\<lparr>fs_locks := remove1 (fd_ino f) (fs_locks F)\<rparr>) s))"

text \<open>The names in a directory, and one step of \<^verbatim>\<open>readdir\<close> through them.\<close>

definition sys_opendir :: "fd \<Rightarrow> (errno + byte list list) io" where
  "sys_opendir dir = sys (\<lambda>_ s. (Inr (map fst (fs_entries (os_fs s) (fd_ino dir))), s))"

definition sys_readdir :: "(errno + unit) io" where
  "sys_readdir = sys (\<lambda>_ s. (Inr (), s))"

text \<open>\<^verbatim>\<open>malloc\<close> or a library call without an effect on the system; its failure is a matter of the schedule too.\<close>

definition sys_library :: "(errno + unit) io" where
  "sys_library = sys (\<lambda>_ s. (Inr (), s))"

definition geteuid :: "nat io" where
  "geteuid = State (\<lambda>s. (os_euid s, s))"

definition now_ms :: "i64 io" where
  "now_ms = State (\<lambda>s. (pv_now_ms (os_clock s), s))"

definition random_u32 :: "u32 io" where
  "random_u32 = State (\<lambda>s. (case os_random s of [] \<Rightarrow> 0 | x # _ \<Rightarrow> x, s\<lparr>os_random := tl (os_random s)\<rparr>))"

text \<open>
  Calls that take a path: the directory is the part before the last slash. The paths given to these
  calls have no trailing slash.
\<close>

definition path_base :: "byte list \<Rightarrow> byte list" where
  "path_base path = rev (takeWhile (\<lambda>c. c \<noteq> 0x2f) (rev path))"

definition path_parent :: "byte list \<Rightarrow> byte list" where
  "path_parent path =
     (if 0x2f \<notin> set path then ascii ''.''
      else if length path - length (path_base path) = 1 then [0x2f]
      else take (length path - length (path_base path) - 1) path)"

definition sys_mkdir :: "byte list \<Rightarrow> u32 \<Rightarrow> (errno + unit) io" where
  "sys_mkdir path mode = sys (\<lambda>_ s.
     case map_of (fs_dirs (os_fs s)) (path_parent path) of
       None \<Rightarrow> (Inl ENOENT, s)
     | Some d \<Rightarrow>
         if entry (os_fs s) d (path_base path) \<noteq> None then (Inl EEXIST, s)
         else (Inr (), make_dir d (path_base path) mode s))"

definition sys_lstat :: "byte list \<Rightarrow> (errno + stat) io" where
  "sys_lstat path = sys (\<lambda>_ s.
     case map_of (fs_dirs (os_fs s)) (path_parent path) of
       None \<Rightarrow> (Inl ENOENT, s)
     | Some d \<Rightarrow>
         (case entry (os_fs s) d (path_base path) of
            None \<Rightarrow> (Inl ENOENT, s)
          | Some i \<Rightarrow> (Inr (stat_of (os_fs s) i), s)))"

section \<open>What calls leave alone\<close>

text \<open>
  Well-formed file systems: entries, also earlier ones, refer to existing inodes and no directory
  contains itself; paths lead to existing inodes; a directory has one entry of a name.
\<close>

definition fs_ok :: "fs \<Rightarrow> bool" where
  "fs_ok F \<longleftrightarrow>
     (\<forall>d n i. entry F d n = Some i \<or> Some i \<in> set (fs_past F d n) \<longrightarrow> i < fs_next F \<and> i \<noteq> d) \<and>
     (\<forall>(p, i) \<in> set (fs_dirs F). i < fs_next F) \<and>
     (\<forall>d. distinct (map fst (fs_entries F d)))"

text \<open>Existing files keep their data, and what is on the disk stays there.\<close>

definition grows :: "fs \<Rightarrow> fs \<Rightarrow> bool" where
  "grows F F' \<longleftrightarrow> fs_next F \<le> fs_next F' \<and>
     (\<forall>i < fs_next F. i_kind (fs_inode F' i) = i_kind (fs_inode F i) \<and> i_data (fs_inode F' i) = i_data (fs_inode F i) \<and>
        (i_synced (fs_inode F i) \<longrightarrow> i_synced (fs_inode F' i)))"

text \<open>
  \<open>changes X F F'\<close>: on the way from \<open>F\<close> to \<open>F'\<close> no existing file changed its data and no
  directory entry changed except those in \<open>X\<close>.
\<close>

definition changes :: "(nat \<times> byte list) set \<Rightarrow> fs \<Rightarrow> fs \<Rightarrow> bool" where
  "changes X F F' \<longleftrightarrow> grows F F' \<and> (fs_ok F \<longrightarrow> fs_ok F') \<and>
     (\<forall>d n. d < fs_next F \<and> (d, n) \<notin> X \<longrightarrow>
        entry F' d n = entry F d n \<and> set (fs_past F' d n) \<subseteq> set (fs_past F d n))"

lemma changes_refl [simp]: "changes X F F"
  by (simp add: changes_def grows_def)

lemma changes_trans:
  assumes "changes X F G" "changes Y G H" "X \<subseteq> Z" "Y \<subseteq> Z"
  shows "changes Z F H"
proof -
  have "grows F H" using assms(1,2) by (auto simp: changes_def grows_def)
  moreover have "entry H d n = entry F d n \<and> set (fs_past H d n) \<subseteq> set (fs_past F d n)"
    if "d < fs_next F" "(d, n) \<notin> Z" for d n
  proof -
    have "(d, n) \<notin> X" "(d, n) \<notin> Y" "d < fs_next G" using assms that by (auto simp: changes_def grows_def)
    then show ?thesis using assms(1,2) that(1) by (fastforce simp: changes_def)
  qed
  ultimately show ?thesis using assms(1,2) by (auto simp: changes_def)
qed

lemma changes_mono: "changes X F G \<Longrightarrow> X \<subseteq> Y \<Longrightarrow> changes Y F G"
  by (rule changes_trans [of X F G Y G]) auto

lemma changes_step: "changes X F G \<Longrightarrow> changes X G H \<Longrightarrow> changes X F H"
  by (rule changes_trans) auto

lemma entry_simps [simp]:
  "entry (fs_change i f F) = entry F"
  "entry (fs_new x F) = entry F"
  "entry (fs_unref i F) = entry F"
  "entry (remember d n F) = entry F"
  "entry (F\<lparr>fs_dirs := ds\<rparr>) = entry F"
  "entry (F\<lparr>fs_locks := ls\<rparr>) = entry F"
  "entry (F\<lparr>fs_past := p\<rparr>) = entry F"
  by (simp_all add: fun_eq_iff entry_def fs_change_def fs_new_def fs_unref_def remember_def)

lemma entry_link [simp]:
  "entry (fs_link d n i F) d' n' = (if d' = d \<and> n' = n then Some i else entry F d' n')"
  by (simp add: entry_def fs_link_def remember_def update_conv')

lemma entry_drop [simp]:
  "entry (fs_drop d n F) d' n' = (if d' = d \<and> n' = n then None else entry F d' n')"
  by (simp add: entry_def fs_drop_def remember_def delete_conv' restrict_map_def)

lemma past_simps [simp]:
  "fs_past (fs_link d n i F) d' n' = (if d' = d \<and> n' = n then entry F d n # fs_past F d n else fs_past F d' n')"
  "fs_past (fs_drop d n F) d' n' = (if d' = d \<and> n' = n then entry F d n # fs_past F d n else fs_past F d' n')"
  "fs_past (fs_change i f F) = fs_past F" "fs_past (fs_new x F) = fs_past F" "fs_past (fs_unref i F) = fs_past F"
  by (simp_all add: fs_link_def fs_drop_def fs_change_def fs_new_def fs_unref_def remember_def)

lemma next_simps [simp]:
  "fs_next (fs_link d n i F) = fs_next F" "fs_next (fs_drop d n F) = fs_next F"
  "fs_next (fs_change i f F) = fs_next F" "fs_next (fs_new x F) = fs_next F + 1" "fs_next (fs_unref i F) = fs_next F"
  by (simp_all add: fs_link_def fs_drop_def fs_change_def fs_new_def fs_unref_def remember_def)

lemma dirs_simps [simp]:
  "fs_dirs (fs_link d n i F) = fs_dirs F" "fs_dirs (fs_drop d n F) = fs_dirs F"
  "fs_dirs (fs_change i f F) = fs_dirs F" "fs_dirs (fs_new x F) = fs_dirs F" "fs_dirs (fs_unref i F) = fs_dirs F"
  by (simp_all add: fs_link_def fs_drop_def fs_change_def fs_new_def fs_unref_def remember_def)

lemma locks_simps [simp]:
  "fs_locks (fs_link d n i F) = fs_locks F" "fs_locks (fs_drop d n F) = fs_locks F"
  "fs_locks (fs_change i f F) = fs_locks F" "fs_locks (fs_new x F) = fs_locks F" "fs_locks (fs_unref i F) = fs_locks F"
  by (simp_all add: fs_link_def fs_drop_def fs_change_def fs_new_def fs_unref_def remember_def)

lemma inode_simps [simp]:
  "fs_inode (fs_link d n i F) = fs_inode F" "fs_inode (fs_drop d n F) = fs_inode F"
  "fs_inode (fs_change i f F) = (fs_inode F)(i := f (fs_inode F i))"
  "fs_inode (fs_new x F) = (fs_inode F)(fs_next F := x)"
  by (simp_all add: fs_link_def fs_drop_def fs_change_def fs_new_def remember_def)

lemma inode_unref [simp]:
  "i_kind (fs_inode (fs_unref j F) i) = i_kind (fs_inode F i)"
  "i_data (fs_inode (fs_unref j F) i) = i_data (fs_inode F i)"
  "i_synced (fs_inode (fs_unref j F) i) = i_synced (fs_inode F i)"
  "i_mode (fs_inode (fs_unref j F) i) = i_mode (fs_inode F i)"
  "i_uid (fs_inode (fs_unref j F) i) = i_uid (fs_inode F i)"
  by (simp_all add: fs_unref_def)

lemma entries_simps [simp]:
  "fs_entries (fs_change i f F) = fs_entries F" "fs_entries (fs_new x F) = fs_entries F"
  "fs_entries (fs_unref i F) = fs_entries F"
  "fs_entries (fs_link d n i F) = (fs_entries F)(d := AList.update n i (fs_entries F d))"
  "fs_entries (fs_drop d n F) = (fs_entries F)(d := AList.delete n (fs_entries F d))"
  by (simp_all add: fs_change_def fs_new_def fs_unref_def fs_link_def fs_drop_def remember_def)

text \<open>The elementary changes, seen from an earlier state of the file system.\<close>

lemma changes_next: "changes X F G \<Longrightarrow> fs_next F \<le> fs_next G"
  by (simp add: changes_def grows_def)

lemma changes_extend:
  assumes "changes X F G" "fs_next G \<le> fs_next H" "fs_ok G \<Longrightarrow> fs_ok H"
    and "\<And>i. i < fs_next F \<Longrightarrow> i_kind (fs_inode H i) = i_kind (fs_inode G i)"
    and "\<And>i. i < fs_next F \<Longrightarrow> i_data (fs_inode H i) = i_data (fs_inode G i)"
    and "\<And>i. i < fs_next F \<Longrightarrow> i_synced (fs_inode G i) \<Longrightarrow> i_synced (fs_inode H i)"
    and "\<And>d n. (d, n) \<notin> X \<Longrightarrow> d < fs_next F \<Longrightarrow> entry H d n = entry G d n"
    and "\<And>d n. (d, n) \<notin> X \<Longrightarrow> d < fs_next F \<Longrightarrow> set (fs_past H d n) \<subseteq> set (fs_past G d n)"
  shows "changes X F H"
proof -
  have g: "grows F G" "fs_ok F \<longrightarrow> fs_ok G" and e: "\<And>d n. d < fs_next F \<Longrightarrow> (d, n) \<notin> X \<Longrightarrow>
      entry G d n = entry F d n \<and> set (fs_past G d n) \<subseteq> set (fs_past F d n)"
    using assms(1) unfolding changes_def by blast+
  have "grows F H" using g(1) assms(2,4,5,6) unfolding grows_def by simp
  moreover have "entry H d n = entry F d n \<and> set (fs_past H d n) \<subseteq> set (fs_past F d n)"
    if "d < fs_next F" "(d, n) \<notin> X" for d n
    using e [OF that] assms(7,8) [OF that(2,1)] by auto
  ultimately show ?thesis using g(2) assms(3) unfolding changes_def by blast
qed

lemma fs_ok_inodes:
  assumes "fs_ok G" "fs_entries H = fs_entries G" "fs_past H = fs_past G" "fs_dirs H = fs_dirs G" "fs_next G \<le> fs_next H"
  shows "fs_ok H"
proof -
  have entries: "entry H = entry G" by (simp add: entry_def fun_eq_iff assms(2))
  show ?thesis
    unfolding fs_ok_def assms(2,3,4) entries
    using assms(1,5) unfolding fs_ok_def by (fastforce dest: order.strict_trans2)
qed

lemma changes_change:
  assumes "changes X F G" "\<And>x. i_kind (f x) = i_kind x"
    and "fs_next F \<le> i \<or> (\<forall>x. i_data (f x) = i_data x \<and> (i_synced x \<longrightarrow> i_synced (f x)))"
  shows "changes X F (fs_change i f G)"
proof (rule changes_extend [OF assms(1)])
  show "fs_ok (fs_change i f G)" if "fs_ok G" by (rule fs_ok_inodes [OF that]) simp_all
qed (use assms(2,3) in auto)

lemma changes_link:
  assumes "changes X F G" "(d, n) \<in> X" "i < fs_next G" "i \<noteq> d"
  shows "changes X F (fs_link d n i G)"
proof (rule changes_extend [OF assms(1)])
  show "fs_ok (fs_link d n i G)" if "fs_ok G"
    using that assms(3,4) unfolding fs_ok_def by (auto intro: distinct_update)
qed (use assms(2) in auto)

lemma changes_drop:
  assumes "changes X F G" "(d, n) \<in> X"
  shows "changes X F (fs_drop d n G)"
proof (rule changes_extend [OF assms(1)])
  show "fs_ok (fs_drop d n G)" if "fs_ok G"
    using that unfolding fs_ok_def by (auto intro: distinct_delete)
qed (use assms(2) in auto)

lemma changes_new:
  assumes "changes X F G"
  shows "changes X F (fs_new x G)"
proof (rule changes_extend [OF assms(1)])
  show "fs_ok (fs_new x G)" if "fs_ok G" by (rule fs_ok_inodes [OF that]) simp_all
qed (use changes_next [OF assms] in auto)

lemma changes_unref: "changes X F G \<Longrightarrow> changes X F (fs_unref i G)"
  unfolding fs_unref_def by (rule changes_change) auto

lemma changes_sync:
  assumes "changes X F G"
  shows "changes X F (fs_sync i G)"
proof (cases "i_kind (fs_inode G i) = Directory")
  case True
  show ?thesis
  proof (rule changes_extend [OF assms])
    show "fs_ok (fs_sync i G)" if "fs_ok G" using that True unfolding fs_ok_def by (auto simp: fs_sync_def)
  qed (auto simp: fs_sync_def True)
next
  case False
  then show ?thesis using assms unfolding fs_sync_def by (auto intro!: changes_change)
qed

lemma changes_locks:
  assumes "changes X F G"
  shows "changes X F (G\<lparr>fs_locks := ls\<rparr>)"
proof (rule changes_extend [OF assms])
  show "fs_ok (G\<lparr>fs_locks := ls\<rparr>)" if "fs_ok G" by (rule fs_ok_inodes [OF that]) simp_all
qed auto

lemma changes_rename:
  assumes "changes X F G" "(d, n) \<in> X" "(d, old) \<in> X" "i < fs_next G" "i \<noteq> d"
  shows "changes X F (fs_rename d old n i G)"
  using assms by (auto simp: fs_rename_def Let_def intro!: changes_drop changes_link changes_unref split: option.split)

section \<open>Program logic\<close>

text \<open>
  \<open>keeps I m R\<close>: the program \<open>m\<close> started in a state with the invariant \<open>I\<close> ends in one and
  returns a value with the property \<open>R\<close>.
\<close>

definition keeps :: "(os \<Rightarrow> bool) \<Rightarrow> 'a io \<Rightarrow> ('a \<Rightarrow> bool) \<Rightarrow> bool" where
  "keeps I m R \<longleftrightarrow> (\<forall>s r s'. I s \<longrightarrow> run_state m s = (r, s') \<longrightarrow> I s' \<and> R r)"

named_theorems frame \<open>rules for what programs keep, whatever they return\<close>

lemma keepsD: "keeps I m R \<Longrightarrow> I s \<Longrightarrow> run_state m s = (r, s') \<Longrightarrow> I s' \<and> R r"
  by (simp add: keeps_def)

lemma keeps_weaken: "keeps I m R \<Longrightarrow> (\<And>r. R r \<Longrightarrow> S r) \<Longrightarrow> keeps I m S"
  by (auto simp: keeps_def)

lemma keeps_any: "keeps I m R \<Longrightarrow> keeps I m (\<lambda>_. True)"
  by (rule keeps_weaken) simp_all

lemma keeps_return: "R a \<Longrightarrow> keeps I (State_Monad.return a) R"
  by (simp add: keeps_def)

lemma keeps_bind:
  assumes "keeps I m R" "\<And>a. R a \<Longrightarrow> keeps I (k a) S"
  shows "keeps I (m \<bind> k) S"
  unfolding keeps_def
proof (intro allI impI)
  fix s r s'
  assume I: "I s" and run: "run_state (m \<bind> k) s = (r, s')"
  obtain a s1 where m: "run_state m s = (a, s1)" by fastforce
  with assms(1) I have "I s1" "R a" by (auto simp: keeps_def)
  moreover have "run_state (k a) s1 = (r, s')" using run m by simp
  ultimately show "I s' \<and> S r" using assms(2) by (auto simp: keeps_def)
qed

lemma keeps_done [frame]: "keeps I (State_Monad.return a) (\<lambda>_. True)"
  by (rule keeps_return) simp

lemma keeps_bind_any [frame]:
  "keeps I m (\<lambda>_. True) \<Longrightarrow> (\<And>a. keeps I (k a) S) \<Longrightarrow> keeps I (m \<bind> k) S"
  by (rule keeps_bind)

lemma keeps_if [frame]: "(b \<Longrightarrow> keeps I m R) \<Longrightarrow> (\<not> b \<Longrightarrow> keeps I m' R) \<Longrightarrow> keeps I (if b then m else m') R"
  by simp

lemma keeps_sum [frame]:
  "(\<And>x. r = Inl x \<Longrightarrow> keeps I (m x) R) \<Longrightarrow> (\<And>y. r = Inr y \<Longrightarrow> keeps I (m' y) R) \<Longrightarrow>
     keeps I (case r of Inl x \<Rightarrow> m x | Inr y \<Rightarrow> m' y) R"
  by (cases r) simp_all

lemma keeps_prod [frame]:
  "(\<And>x y. p = (x, y) \<Longrightarrow> keeps I (m x y) R) \<Longrightarrow> keeps I (case p of (x, y) \<Rightarrow> m x y) R"
  by (cases p) simp

lemma keeps_Let [frame]: "(\<And>x. x = t \<Longrightarrow> keeps I (m x) R) \<Longrightarrow> keeps I (Let t m) R"
  by simp

text \<open>System calls: a failure changes nothing, otherwise the call acts.\<close>

lemma sys_cases:
  assumes "run_state (sys act) s = (r, s')"
  obtains (failed) e fs al where "r = Inl e" "s' = s\<lparr>os_faults := fs, os_alive := al\<rparr>"
  | (acts) limit where "act limit (s\<lparr>os_faults := tl (os_faults s)\<rparr>) = (r, s')" "os_alive s"
proof (cases "os_alive s")
  case False
  then have "r = Inl EIO" "s' = s\<lparr>os_faults := os_faults s, os_alive := False\<rparr>"
    using assms by (simp_all add: sys_def)
  then show ?thesis by (rule failed)
next
  case True
  show ?thesis
  proof (cases "os_faults s")
    case Nil
    then show ?thesis using assms True acts [of None] by (simp add: sys_def)
  next
    case (Cons f fs)
    have alive: "s\<lparr>os_faults := fs\<rparr> = s\<lparr>os_faults := fs, os_alive := True\<rparr>" using True by simp
    show ?thesis
    proof (cases f)
      case (Call_fails e)
      then have "r = Inl e" "s' = s\<lparr>os_faults := fs, os_alive := True\<rparr>"
        using assms True Cons alive by (simp_all add: sys_def Let_def)
      then show ?thesis by (rule failed)
    qed (use assms True Cons in \<open>auto simp: sys_def Let_def intro: acts failed\<close>)
  qed
qed

abbreviation frame :: "(nat \<times> byte list) set \<Rightarrow> fs \<Rightarrow> 'a io \<Rightarrow> ('a \<Rightarrow> bool) \<Rightarrow> bool" where
  "frame X F \<equiv> keeps (\<lambda>s. changes X F (os_fs s))"

abbreviation quiet :: "(fs \<Rightarrow> bool) \<Rightarrow> 'a io \<Rightarrow> bool" where
  "quiet P m \<equiv> keeps (\<lambda>s. P (os_fs s)) m (\<lambda>_. True)"

lemma quiet_sys:
  assumes "\<And>l s r s'. act l s = (r, s') \<Longrightarrow> P (os_fs s) \<Longrightarrow> P (os_fs s')"
  shows "quiet P (sys act)"
  unfolding keeps_def
proof (intro allI impI)
  fix s r s'
  assume "P (os_fs s)" "run_state (sys act) s = (r, s')"
  from this(2,1) show "P (os_fs s') \<and> True"
    by (cases rule: sys_cases) (auto dest: assms)
qed

lemma frame_sys:
  assumes "\<And>e. R (Inl e)"
    and "\<And>l s r s'. changes X F (os_fs s) \<Longrightarrow> act l s = (r, s') \<Longrightarrow> changes X F (os_fs s') \<and> R r"
  shows "frame X F (sys act) R"
  unfolding keeps_def
proof (intro allI impI)
  fix s r s'
  assume I: "changes X F (os_fs s)" and run: "run_state (sys act) s = (r, s')"
  from run show "changes X F (os_fs s') \<and> R r"
  proof (cases rule: sys_cases)
    case failed
    with I assms(1) show ?thesis by simp
  next
    case (acts limit)
    with I show ?thesis by (intro assms(2) [OF _ acts(1)]) simp
  qed
qed

lemma on_fs_simps [simp]:
  "os_fs (on_fs f s) = f (os_fs s)" "os_pos (on_fs f s) = os_pos s" "os_euid (on_fs f s) = os_euid s"
  "os_fd_next (on_fs f s) = os_fd_next s" "os_umask (on_fs f s) = os_umask s" "os_faults (on_fs f s) = os_faults s"
  "os_alive (on_fs f s) = os_alive s" "os_random (on_fs f s) = os_random s" "os_clock (on_fs f s) = os_clock s"
  by (simp_all add: on_fs_def)

lemma new_fd_fs [simp]: "os_fs (snd (new_fd i s)) = os_fs s" "fst (new_fd i s) = Inr \<lparr>fd_id = os_fd_next s, fd_ino = i\<rparr>"
  by (simp_all add: new_fd_def)

lemma quiet_readers [frame]:
  "quiet P (sys_open_dir path)" "quiet P (sys_openat dir n)" "quiet P (sys_openat_dir dir n)" "quiet P (sys_close f)"
  "quiet P (sys_fstat f)" "quiet P (sys_fstatat dir n)" "quiet P (sys_read f k)" "quiet P (sys_opendir dir)"
  "quiet P sys_readdir" "quiet P sys_library" "quiet P (sys_lstat path)"
  unfolding sys_open_dir_def sys_openat_def sys_openat_dir_def sys_close_def sys_fstat_def sys_fstatat_def
    sys_read_def sys_opendir_def sys_readdir_def sys_library_def sys_lstat_def Let_def
  by (rule quiet_sys; auto simp: new_fd_def split: option.splits if_splits)+

lemma quiet_pure [frame]: "quiet P geteuid" "quiet P now_ms" "quiet P random_u32"
  by (auto simp: keeps_def geteuid_def now_ms_def random_u32_def)

text \<open>A program that keeps every property of the file system leaves it as it is.\<close>

lemma quiet_same:
  assumes "\<And>P. quiet P m" "run_state m s = (r, s')"
  shows "os_fs s' = os_fs s"
  using keepsD [OF assms(1) [of "\<lambda>F. F = os_fs s"] _ assms(2)] by simp

lemma frame_create:
  assumes "(fd_ino dir, n) \<in> X" "fd_ino dir < fs_next F"
  shows "frame X F (sys_create dir n mode) (\<lambda>r. \<forall>f. r = Inr f \<longrightarrow> fs_next F \<le> fd_ino f)"
  unfolding sys_create_def
proof (rule frame_sys)
  fix l s r s'
  assume I: "changes X F (os_fs s)" and act: "(if entry (os_fs s) (fd_ino dir) n \<noteq> None then (Inl EEXIST, s)
    else new_fd (fs_next (os_fs s)) (create_file (fd_ino dir) n Regular_file mode s)) = (r, s')"
  have "changes X F (fs_link (fd_ino dir) n (fs_next (os_fs s)) (fs_new x (os_fs s)))" for x
    using assms changes_next [OF I] by (intro changes_link changes_new I) auto
  then show "changes X F (os_fs s') \<and> (\<forall>f. r = Inr f \<longrightarrow> fs_next F \<le> fd_ino f)"
    using act I changes_next [OF I] by (auto simp: new_fd_def create_file_def split: if_splits)
qed simp

lemma frame_open_create:
  assumes "(fd_ino dir, n) \<in> X" "fd_ino dir < fs_next F"
  shows "frame X F (sys_open_create dir n mode) (\<lambda>_. True)"
  unfolding sys_open_create_def
proof (rule frame_sys)
  fix l s r s'
  assume I: "changes X F (os_fs s)" and act: "(case entry (os_fs s) (fd_ino dir) n of
      None \<Rightarrow> new_fd (fs_next (os_fs s)) (create_file (fd_ino dir) n Regular_file mode s)
    | Some i \<Rightarrow> if i_kind (fs_inode (os_fs s) i) = Symbolic_link then (Inl ELOOP, s) else new_fd i s) = (r, s')"
  have "changes X F (fs_link (fd_ino dir) n (fs_next (os_fs s)) (fs_new x (os_fs s)))" for x
    using assms changes_next [OF I] by (intro changes_link changes_new I) auto
  then show "changes X F (os_fs s') \<and> True"
    using act I by (auto simp: new_fd_def create_file_def split: if_splits option.splits)
qed simp

lemma frame_write: "fs_next F \<le> fd_ino f \<Longrightarrow> frame X F (sys_write f bytes) (\<lambda>_. True)"
  unfolding sys_write_def Let_def
  by (rule frame_sys) (auto simp: append_data_def intro!: changes_change)

lemma frame_fsync [frame]: "frame X F (sys_fsync f) (\<lambda>_. True)"
  unfolding sys_fsync_def by (rule frame_sys) (auto intro!: changes_sync)

lemma frame_fchmod [frame]: "frame X F (sys_fchmod f mode) (\<lambda>_. True)"
  unfolding sys_fchmod_def by (rule frame_sys) (auto intro!: changes_change)

lemma frame_locks [frame]: "frame X F (sys_flock f) (\<lambda>_. True)" "frame X F (sys_unlock f) (\<lambda>_. True)"
  unfolding sys_flock_def sys_unlock_def by (rule frame_sys; auto intro!: changes_locks split: if_splits)+

lemma fs_okD: "fs_ok F \<Longrightarrow> entry F d n = Some i \<Longrightarrow> i < fs_next F \<and> i \<noteq> d"
  by (simp add: fs_ok_def)

lemma changes_ok: "changes X F G \<Longrightarrow> fs_ok F \<Longrightarrow> fs_ok G"
  by (simp add: changes_def)

lemma frame_rename:
  assumes "fs_ok F" "(fd_ino dir, old) \<in> X" "(fd_ino dir, n) \<in> X"
  shows "frame X F (sys_rename dir old n nr) (\<lambda>_. True)"
  unfolding sys_rename_def
  by (rule frame_sys) (use assms in \<open>auto intro!: changes_rename dest: fs_okD [OF changes_ok] split: option.splits if_splits\<close>)

lemma frame_unlink:
  assumes "(fd_ino dir, n) \<in> X"
  shows "frame X F (sys_unlink dir n) (\<lambda>_. True)"
  unfolding sys_unlink_def
  by (rule frame_sys) (use assms in \<open>auto intro!: changes_drop changes_unref split: option.splits\<close>)

lemma changes_dirs:
  assumes "changes X F G" "\<And>p i. (p, i) \<in> set ds \<Longrightarrow> (p, i) \<in> set (fs_dirs G) \<or> i < fs_next G"
  shows "changes X F (G\<lparr>fs_dirs := ds\<rparr>)"
proof (rule changes_extend [OF assms(1)])
  show "fs_ok (G\<lparr>fs_dirs := ds\<rparr>)" if "fs_ok G" using that assms(2) by (fastforce simp: fs_ok_def)
qed auto

text \<open>Making a directory changes an entry only if there was none.\<close>

definition fresh_entry :: "fs \<Rightarrow> nat \<Rightarrow> byte list \<Rightarrow> (nat \<times> byte list) set" where
  "fresh_entry F d n = (if entry F d n = None then {(d, n)} else {})"

lemma sys_mkdirat_spec:
  assumes "run_state (sys_mkdirat dir n mode) s = (r, s')" "fd_ino dir < fs_next (os_fs s)"
  shows "changes (fresh_entry (os_fs s) (fd_ino dir) n) (os_fs s) (os_fs s')"
  using assms(1) unfolding sys_mkdirat_def
proof (cases rule: sys_cases)
  case (acts limit)
  let ?F = "os_fs s" and ?d = "fd_ino dir"
  show ?thesis
  proof (cases "entry ?F ?d n")
    case None
    have "changes (fresh_entry ?F ?d n) ?F (fs_link ?d n (fs_next ?F) (fs_new x ?F))" for x
      using assms(2) None by (intro changes_link changes_new changes_refl) (auto simp: fresh_entry_def)
    then show ?thesis
      using acts None by (auto simp: make_dir_def create_file_def intro!: changes_dirs)
  qed (use acts in auto)
qed simp

end
