(* ===== verification/Pv_Disk.thy ===== *)
theory Pv_Disk
  imports Pv_Crypto Pv_Posix
begin

text \<open>
  The part of \<^verbatim>\<open>src/store.c\<close> that deals with files as such: locating a vault in a private
  directory, reading and hashing a vault file, locking, and the three ways of publishing a file, each
  through a temporary file that is written, synchronised and renamed.

  The status of a call is its result; the functions named \<^verbatim>\<open>store_...\<close> in the source are the
  system calls of \<open>Pv_Posix\<close>. The optional argument \<^verbatim>\<open>issue\<close> of the functions that
  open a location is left out, as every caller passes \<^verbatim>\<open>NULL\<close>.
\<close>

section \<open>Sequencing\<close>

abbreviation done_with :: "'a \<Rightarrow> 'a io" where "done_with \<equiv> State_Monad.return"

text \<open>Go on if the call returned \<^verbatim>\<open>PV_OK\<close>, return its status otherwise.\<close>

definition io_bind :: "'a pv_result io \<Rightarrow> ('a \<Rightarrow> 'b pv_result io) \<Rightarrow> 'b pv_result io" where
  "io_bind m k = do { r \<leftarrow> m; case r of Inl e \<Rightarrow> done_with (Inl e) | Inr x \<Rightarrow> k x }"

text \<open>\<^verbatim>\<open>if (status == PV_OK) status = ...\<close>\<close>

definition if_ok :: "pv_status \<Rightarrow> pv_status io \<Rightarrow> pv_status io" where
  "if_ok status m = (if status = PV_OK then m else done_with status)"

fun io_status :: "errno + 'a \<Rightarrow> pv_status" where
  "io_status (Inl e) = PV_ERR_IO"
| "io_status (Inr x) = PV_OK"

text \<open>\<^verbatim>\<open>if (close(...) != 0 && status == PV_OK) status = PV_ERR_IO;\<close>\<close>

definition close_status :: "fd \<Rightarrow> pv_status \<Rightarrow> pv_status io" where
  "close_status f status = do { r \<leftarrow> sys_close f; done_with (if status = PV_OK then io_status r else status) }"

section \<open>Transfers\<close>

text \<open>The loops end because a schedule is finite: every further call makes progress or uses it up.\<close>

lemma sys_write_progress:
  "run_state (sys_write f bytes) s = (Inl EINTR, s1) \<Longrightarrow> length (os_faults s1) < length (os_faults s)"
  "run_state (sys_write f bytes) s = (Inr n, s1) \<Longrightarrow> length (os_faults s1) \<le> length (os_faults s)"
  by (auto simp: sys_write_def sys_def on_fs_def Let_def split: if_splits list.splits fault.splits)

lemma sys_read_progress:
  "run_state (sys_read f n) s = (Inl EINTR, s1) \<Longrightarrow> length (os_faults s1) < length (os_faults s)"
  "run_state (sys_read f n) s = (Inr bytes, s1) \<Longrightarrow> length (os_faults s1) \<le> length (os_faults s)"
  by (auto simp: sys_read_def sys_def Let_def split: if_splits list.splits fault.splits)

function write_loop :: "fd \<Rightarrow> byte list \<Rightarrow> os \<Rightarrow> pv_status \<times> os" where
  "write_loop f bytes s =
     (if bytes = [] then (PV_OK, s)
      else case run_state (sys_write f bytes) s of
        (Inl e, s1) \<Rightarrow> if e = EINTR then write_loop f bytes s1 else (PV_ERR_IO, s1)
      | (Inr written, s1) \<Rightarrow> if written = 0 then (PV_ERR_IO, s1) else write_loop f (drop written bytes) s1)"
  by pat_completeness auto
termination
  by (relation "measure (\<lambda>(f, bytes, s). length bytes + length (os_faults s))")
    (auto dest!: sym [of "(_, _)" "run_state _ _"] sys_write_progress simp flip: length_greater_0_conv)

definition write_all :: "fd \<Rightarrow> byte list \<Rightarrow> pv_status io" where
  "write_all f data = State (write_loop f data)"

function read_loop :: "fd \<Rightarrow> nat \<Rightarrow> byte list \<Rightarrow> os \<Rightarrow> byte list pv_result \<times> os" where
  "read_loop f remaining got s =
     (if remaining = 0 then (Inr got, s)
      else case run_state (sys_read f remaining) s of
        (Inl e, s1) \<Rightarrow> if e = EINTR then read_loop f remaining got s1 else (Inl PV_ERR_IO, s1)
      | (Inr bytes, s1) \<Rightarrow>
          if bytes = [] then (Inl PV_ERR_IO, s1) else read_loop f (remaining - length bytes) (got @ bytes) s1)"
  by pat_completeness auto
termination
  by (relation "measure (\<lambda>(f, n, got, s). n + length (os_faults s))")
    (auto dest!: sym [of "(_, _)" "run_state _ _"] sys_read_progress simp flip: length_greater_0_conv)

definition read_all :: "fd \<Rightarrow> nat \<Rightarrow> byte list pv_result io" where
  "read_all f len = State (read_loop f len [])"

text \<open>\<^verbatim>\<open>do { ... read ... } while (result < 0 && errno == EINTR)\<close>\<close>

function read_nointr_loop :: "fd \<Rightarrow> nat \<Rightarrow> os \<Rightarrow> (errno + byte list) \<times> os" where
  "read_nointr_loop f n s =
     (case run_state (sys_read f n) s of
        (Inl e, s1) \<Rightarrow> if e = EINTR then read_nointr_loop f n s1 else (Inl e, s1)
      | (Inr bytes, s1) \<Rightarrow> (Inr bytes, s1))"
  by pat_completeness auto
termination
  by (relation "measure (\<lambda>(f, n, s). length (os_faults s))")
    (auto dest!: sym [of "(_, _)" "run_state _ _"] sys_read_progress)

definition read_retry :: "fd \<Rightarrow> nat \<Rightarrow> (errno + byte list) io" where
  "read_retry f n = State (read_nointr_loop f n)"

declare write_loop.simps [simp del] read_loop.simps [simp del] read_nointr_loop.simps [simp del]

section \<open>Locations\<close>

record pv_store_location =
  directory_fd :: fd
  loc_name :: "byte list"
  loc_device :: nat
  loc_inode :: nat

definition split_parent_and_name :: "byte list \<Rightarrow> (byte list \<times> byte list) pv_result" where
  "split_parent_and_name path =
     (if path = [] \<or> length path \<ge> PATH_MAX then Inl PV_ERR_USAGE
      else
        (let base = rev (takeWhile (\<lambda>c. c \<noteq> 0x2f) (rev path));
             parent_len = length path - length base - 1;
             parent = (if 0x2f \<notin> set path then ascii ''.'' else if parent_len = 0 then [0x2f] else take parent_len path)
         in if base = [] \<or> length base \<ge> PATH_MAX \<or> base = ascii ''.'' \<or> base = ascii ''..'' then Inl PV_ERR_USAGE
            else Inr (parent, base)))"

definition path_entry_exists_at :: "fd \<Rightarrow> byte list \<Rightarrow> bool pv_result io" where
  "path_entry_exists_at dir name = do {
     r \<leftarrow> sys_fstatat dir name;
     done_with (case r of Inr st \<Rightarrow> Inr True | Inl e \<Rightarrow> if e = ENOENT then Inr False else Inl PV_ERR_IO) }"

datatype pv_private_snapshot_issue =
    PV_PRIVATE_SNAPSHOT_OK
  | PV_PRIVATE_SNAPSHOT_PATH
  | PV_PRIVATE_SNAPSHOT_PARENT
  | PV_PRIVATE_SNAPSHOT_TYPE
  | PV_PRIVATE_SNAPSHOT_OWNER
  | PV_PRIVATE_SNAPSHOT_LINKS
  | PV_PRIVATE_SNAPSHOT_MODE

definition private_snapshot_stat_issue :: "nat \<Rightarrow> stat \<Rightarrow> pv_private_snapshot_issue" where
  "private_snapshot_stat_issue euid st =
     (let access_mode = perm_bits st
      in if st_kind st \<noteq> Regular_file then PV_PRIVATE_SNAPSHOT_TYPE
         else if st_uid st \<noteq> euid then PV_PRIVATE_SNAPSHOT_OWNER
         else if st_nlink st \<noteq> 1 then PV_PRIVATE_SNAPSHOT_LINKS
         else if access_mode \<noteq> 0x100 \<and> access_mode \<noteq> 0x180 then PV_PRIVATE_SNAPSHOT_MODE
         else PV_PRIVATE_SNAPSHOT_OK)"

text \<open>\<^verbatim>\<open>fstat(fd, &st) == 0 && private_snapshot_stat_issue(&st) == PV_PRIVATE_SNAPSHOT_OK\<close>\<close>

definition fstat_private :: "fd \<Rightarrow> stat pv_result io" where
  "fstat_private f = do {
     r \<leftarrow> sys_fstat f;
     euid \<leftarrow> geteuid;
     done_with (case r of
         Inl e \<Rightarrow> Inl PV_ERR_IO
       | Inr st \<Rightarrow> if private_snapshot_stat_issue euid st = PV_PRIVATE_SNAPSHOT_OK then Inr st else Inl PV_ERR_IO) }"

definition open_private_parent :: "byte list \<Rightarrow> (fd \<times> byte list) pv_result io" where
  "open_private_parent path =
     (case split_parent_and_name path of
        Inl e \<Rightarrow> done_with (Inl e)
      | Inr (parent, name) \<Rightarrow> do {
          opened \<leftarrow> sys_open_dir parent;
          case opened of
            Inl e \<Rightarrow> done_with (Inl PV_ERR_IO)
          | Inr dir \<Rightarrow> do {
              r \<leftarrow> sys_fstat dir;
              euid \<leftarrow> geteuid;
              if (case r of Inl e \<Rightarrow> True
                  | Inr st \<Rightarrow> st_kind st \<noteq> Directory \<or> st_uid st \<noteq> euid \<or> st_mode st AND 0x12 \<noteq> 0)
              then do { _ \<leftarrow> sys_close dir; done_with (Inl PV_ERR_IO) }
              else done_with (Inr (dir, name)) } })"

definition open_store_location :: "byte list \<Rightarrow> pv_store_location pv_result io" where
  "open_store_location path = io_bind (open_private_parent path) (\<lambda>(dir, name). do {
     r \<leftarrow> sys_fstat dir;
     case r of
       Inl e \<Rightarrow> do { _ \<leftarrow> sys_close dir; done_with (Inl PV_ERR_IO) }
     | Inr st \<Rightarrow> done_with (Inr \<lparr>directory_fd = dir, loc_name = name, loc_device = st_dev st, loc_inode = st_ino st\<rparr>) })"

definition close_store_location :: "pv_store_location \<Rightarrow> unit io" where
  "close_store_location location = do { _ \<leftarrow> sys_close (directory_fd location); done_with () }"

definition revalidate_store_location :: "byte list \<Rightarrow> pv_store_location \<Rightarrow> pv_status io" where
  "revalidate_store_location path held = do {
     r \<leftarrow> open_store_location path;
     case r of
       Inl e \<Rightarrow> done_with e
     | Inr current \<Rightarrow> do {
         _ \<leftarrow> close_store_location current;
         done_with (if loc_device current \<noteq> loc_device held \<or> loc_inode current \<noteq> loc_inode held \<or>
             loc_name current \<noteq> loc_name held then PV_ERR_LOCKED else PV_OK) } }"

definition open_private_snapshot_at :: "fd \<Rightarrow> byte list \<Rightarrow> (fd \<times> stat) pv_result io" where
  "open_private_snapshot_at dir name = do {
     opened \<leftarrow> sys_openat dir name;
     case opened of
       Inl e \<Rightarrow> done_with (Inl PV_ERR_IO)
     | Inr f \<Rightarrow> do {
         r \<leftarrow> fstat_private f;
         case r of
           Inl e \<Rightarrow> do { _ \<leftarrow> sys_close f; done_with (Inl e) }
         | Inr st \<Rightarrow> done_with (Inr (f, st)) } }"

section \<open>Reading a vault file\<close>

record pv_disk_file =
  df_header_bytes :: "byte list"
  df_header :: pv_file_header
  df_ciphertext :: "byte list"
  df_hash :: "byte list"
  df_stat :: stat

definition hash_disk_file :: "sodium \<Rightarrow> byte list \<Rightarrow> byte list \<Rightarrow> byte list pv_result io" where
  "hash_disk_file S header_bytes ciphertext = do {
     r \<leftarrow> sys_library;
     done_with (case r of Inl e \<Rightarrow> Inl PV_ERR_STATE | Inr _ \<Rightarrow> Inr (generichash S (header_bytes @ ciphertext))) }"

text \<open>The body: the ciphertext of the announced length, then the end of the file.\<close>

definition read_disk_body :: "sodium \<Rightarrow> fd \<Rightarrow> stat \<Rightarrow> byte list \<Rightarrow> pv_file_header \<Rightarrow> pv_disk_file pv_result io" where
  "read_disk_body S f st header_bytes header = do {
     m \<leftarrow> sys_library;
     if m \<noteq> Inr () then do { _ \<leftarrow> sys_close f; done_with (Inl PV_ERR_NOMEM) }
     else do {
       r \<leftarrow> read_all f (unat (h_body_ciphertext_len header));
       s1 \<leftarrow> (case r of
           Inl e \<Rightarrow> done_with e
         | Inr _ \<Rightarrow> do { extra \<leftarrow> read_retry f 1; done_with (if extra \<noteq> Inr [] then PV_ERR_FORMAT else PV_OK) });
       s2 \<leftarrow> close_status f s1;
       case r of
         Inl e \<Rightarrow> done_with (Inl e)
       | Inr ciphertext \<Rightarrow>
           if s2 \<noteq> PV_OK then done_with (Inl s2)
           else io_bind (hash_disk_file S header_bytes ciphertext) (\<lambda>hash.
             done_with (Inr \<lparr>df_header_bytes = header_bytes, df_header = header, df_ciphertext = ciphertext,
               df_hash = hash, df_stat = st\<rparr>)) } }"

definition read_disk_file_at :: "sodium \<Rightarrow> fd \<Rightarrow> byte list \<Rightarrow> pv_disk_file pv_result io" where
  "read_disk_file_at S dir name = io_bind (open_private_snapshot_at dir name) (\<lambda>(f, st).
     if st_size st < int PV_FILE_HEADER_LEN then do { _ \<leftarrow> sys_close f; done_with (Inl PV_ERR_FORMAT) }
     else do {
       r \<leftarrow> read_all f PV_FILE_HEADER_LEN;
       case res_bind r (\<lambda>header_bytes. res_bind (pv_header_decode header_bytes) (\<lambda>header. Inr (header_bytes, header))) of
         Inl e \<Rightarrow> do { _ \<leftarrow> sys_close f; done_with (Inl e) }
       | Inr (header_bytes, header) \<Rightarrow>
           (let expected_size = word_of_nat PV_FILE_HEADER_LEN + h_body_ciphertext_len header
            in if expected_size > 0x7fffffffffffffff \<or> st_size st \<noteq> uint expected_size
               then do { _ \<leftarrow> sys_close f; done_with (Inl PV_ERR_FORMAT) }
               else read_disk_body S f st header_bytes header) })"

definition read_disk_file :: "sodium \<Rightarrow> byte list \<Rightarrow> pv_disk_file pv_result io" where
  "read_disk_file S path = io_bind (open_store_location path) (\<lambda>location. do {
     r \<leftarrow> read_disk_file_at S (directory_fd location) (loc_name location);
     v \<leftarrow> (case r of Inl e \<Rightarrow> done_with PV_OK | Inr _ \<Rightarrow> revalidate_store_location path location);
     _ \<leftarrow> close_store_location location;
     done_with (if v \<noteq> PV_OK then Inl PV_ERR_LOCKED else r) })"

section \<open>Directories\<close>

definition fsync_parent_path :: "byte list \<Rightarrow> pv_status io" where
  "fsync_parent_path path =
     (if length path \<ge> PATH_MAX then done_with PV_ERR_LIMIT
      else do {
        opened \<leftarrow> sys_open_dir (path_parent path);
        case opened of
          Inl e \<Rightarrow> done_with PV_ERR_IO
        | Inr f \<Rightarrow> do { r \<leftarrow> sys_fsync f; close_status f (io_status r) } })"

definition make_directory :: "byte list \<Rightarrow> pv_status io" where
  "make_directory path = do {
     r \<leftarrow> sys_mkdir path 0x1c0;
     case r of
       Inr _ \<Rightarrow> fsync_parent_path path
     | Inl e \<Rightarrow>
         if e \<noteq> EEXIST then done_with PV_ERR_IO
         else do {
           st \<leftarrow> sys_lstat path;
           done_with (case st of Inl e \<Rightarrow> PV_ERR_IO | Inr st \<Rightarrow> if st_kind st \<noteq> Directory then PV_ERR_IO else PV_OK) } }"

text \<open>A directory of the user is made private.\<close>

definition private_directory :: "fd \<Rightarrow> bool io" where
  "private_directory dir = do {
     euid \<leftarrow> geteuid;
     r1 \<leftarrow> sys_fstat dir;
     case r1 of
       Inl e \<Rightarrow> done_with False
     | Inr st \<Rightarrow>
         if st_kind st \<noteq> Directory \<or> st_uid st \<noteq> euid then done_with False
         else do {
           c \<leftarrow> sys_fchmod dir 0x1c0;
           if c \<noteq> Inr () then done_with False
           else do {
             r2 \<leftarrow> sys_fstat dir;
             done_with (case r2 of Inl e \<Rightarrow> False | Inr st2 \<Rightarrow> perm_bits st2 = 0x1c0) } } }"

definition make_private_directory_at :: "fd \<Rightarrow> byte list \<Rightarrow> fd pv_result io" where
  "make_private_directory_at parent name =
     (if name = [] \<or> 0x2f \<in> set name then done_with (Inl PV_ERR_USAGE)
      else do {
        made \<leftarrow> sys_mkdirat parent name 0x1c0;
        if made \<noteq> Inr () \<and> made \<noteq> Inl EEXIST then done_with (Inl PV_ERR_IO)
        else do {
          opened \<leftarrow> sys_openat_dir parent name;
          case opened of
            Inl e \<Rightarrow> done_with (Inl PV_ERR_IO)
          | Inr dir \<Rightarrow> do {
              ok \<leftarrow> private_directory dir;
              if \<not> ok then do { _ \<leftarrow> sys_close dir; done_with (Inl PV_ERR_IO) }
              else if made = Inr () then do {
                s \<leftarrow> sys_fsync parent;
                if s \<noteq> Inr () then do { _ \<leftarrow> sys_close dir; done_with (Inl PV_ERR_IO) }
                else done_with (Inr dir) }
              else done_with (Inr dir) } } })"

definition validate_parent_security :: "byte list \<Rightarrow> pv_status io" where
  "validate_parent_security path = do {
     r \<leftarrow> open_private_parent path;
     case r of
       Inl e \<Rightarrow> done_with e
     | Inr (dir, _) \<Rightarrow> do { c \<leftarrow> sys_close dir; done_with (io_status c) } }"

text \<open>The components \<^verbatim>\<open>strtok\<close> finds between slashes.\<close>

fun path_components :: "byte list \<Rightarrow> byte list \<Rightarrow> byte list list" where
  "path_components acc [] = (if acc = [] then [] else [acc])"
| "path_components acc (c # rest) =
     (if c = 0x2f then (if acc = [] then [] else [acc]) @ path_components [] rest
      else path_components (acc @ [c]) rest)"

fun make_directories :: "byte list \<Rightarrow> byte list list \<Rightarrow> pv_status io" where
  "make_directories current [] = done_with PV_OK"
| "make_directories current (component # rest) =
     (let next_path = current @ (if length current > 1 then [0x2f] else []) @ component
      in if length next_path \<ge> PATH_MAX then done_with PV_ERR_LIMIT
         else do { status \<leftarrow> make_directory next_path; if_ok status (make_directories next_path rest) })"

definition ensure_parent_directory :: "byte list \<Rightarrow> pv_status io" where
  "ensure_parent_directory path =
     (if path = [] \<or> hd path \<noteq> 0x2f \<or> length path \<ge> PATH_MAX then done_with PV_ERR_USAGE
      else if length path - length (path_base path) = 1 then done_with PV_OK
      else do {
        status \<leftarrow> make_directories [0x2f] (path_components [] (path_parent path));
        if_ok status (validate_parent_security path) })"

section \<open>The lock\<close>

definition lock_name :: "byte list \<Rightarrow> byte list" where
  "lock_name name = name @ ascii ''.lock''"

definition lock_vault :: "byte list \<Rightarrow> (pv_store_location \<times> fd) pv_result io" where
  "lock_vault path = io_bind (open_store_location path) (\<lambda>location.
     if length (lock_name (loc_name location)) \<ge> PATH_MAX
     then do { _ \<leftarrow> close_store_location location; done_with (Inl PV_ERR_LIMIT) }
     else do {
       opened \<leftarrow> sys_open_create (directory_fd location) (lock_name (loc_name location)) 0x180;
       case opened of
         Inl e \<Rightarrow> do { _ \<leftarrow> close_store_location location; done_with (Inl PV_ERR_IO) }
       | Inr lock \<Rightarrow> do {
           r \<leftarrow> sys_fstat lock;
           euid \<leftarrow> geteuid;
           ok \<leftarrow> (case r of
               Inl e \<Rightarrow> done_with False
             | Inr st \<Rightarrow>
                 if st_kind st \<noteq> Regular_file \<or> st_uid st \<noteq> euid \<or> st_nlink st \<noteq> 1 then done_with False
                 else do { c \<leftarrow> sys_fchmod lock 0x180; done_with (c = Inr ()) });
           if \<not> ok then do {
             _ \<leftarrow> sys_close lock; _ \<leftarrow> close_store_location location; done_with (Inl PV_ERR_IO) }
           else do {
             l \<leftarrow> sys_flock lock;
             case l of
               Inl e \<Rightarrow> do {
                 _ \<leftarrow> sys_close lock; _ \<leftarrow> close_store_location location;
                 done_with (Inl (if e = EWOULDBLOCK then PV_ERR_LOCKED else PV_ERR_IO)) }
             | Inr _ \<Rightarrow> done_with (Inr (location, lock)) } } })"

definition unlock_vault :: "fd \<Rightarrow> pv_store_location \<Rightarrow> unit io" where
  "unlock_vault lock location = do {
     _ \<leftarrow> sys_unlock lock; _ \<leftarrow> sys_close lock; close_store_location location }"

section \<open>Publishing a file\<close>

text \<open>\<^verbatim>\<open>"%s.tmp.%08x"\<close>\<close>

definition hex8 :: "u32 \<Rightarrow> byte list" where
  "hex8 n = map (\<lambda>k. hex_alphabet ! unat (drop_bit (4 * k) n AND 0x0f)) [7, 6, 5, 4, 3, 2, 1, 0]"

definition temporary_name :: "byte list \<Rightarrow> u32 \<Rightarrow> byte list" where
  "temporary_name name random_suffix = name @ ascii ''.tmp.'' @ hex8 random_suffix"

text \<open>The loop over 32 random names; it ends with the first one that does not exist.\<close>

fun open_temporary :: "nat \<Rightarrow> fd \<Rightarrow> byte list \<Rightarrow> (fd \<times> byte list) pv_result io" where
  "open_temporary 0 dir name = done_with (Inl PV_ERR_IO)"
| "open_temporary (Suc attempts) dir name = do {
     random_suffix \<leftarrow> random_u32;
     (let temporary = temporary_name name random_suffix
      in if length temporary \<ge> PATH_MAX then done_with (Inl PV_ERR_LIMIT)
         else do {
           opened \<leftarrow> sys_create dir temporary 0x180;
           case opened of
             Inr f \<Rightarrow> done_with (Inr (f, temporary))
           | Inl e \<Rightarrow> if e = EEXIST then open_temporary attempts dir name else done_with (Inl PV_ERR_IO) }) }"

text \<open>
  The end of all three functions: rename, synchronise the directory, and remove the temporary file
  if it was not renamed. \<open>sync_error\<close> is the status of a failure after the rename.
\<close>

definition publish :: "fd \<Rightarrow> byte list \<Rightarrow> byte list \<Rightarrow> bool \<Rightarrow> pv_status \<Rightarrow> pv_status \<Rightarrow> pv_status io" where
  "publish dir temporary name no_replace sync_error status = do {
     s1 \<leftarrow> (if status = PV_OK then do {
         r \<leftarrow> sys_rename dir temporary name no_replace;
         done_with (case r of
             Inr _ \<Rightarrow> (PV_OK, True)
           | Inl e \<Rightarrow> (if no_replace \<and> e = EEXIST then PV_ERR_EXISTS else PV_ERR_IO, False)) }
       else done_with (status, False));
     s2 \<leftarrow> if_ok (fst s1) (do {
         r \<leftarrow> sys_fsync dir;
         done_with (case r of Inr _ \<Rightarrow> PV_OK | Inl e \<Rightarrow> sync_error) });
     _ \<leftarrow> (if snd s1 then done_with (Inr ()) else sys_unlink dir temporary);
     done_with s2 }"

definition check_private :: "fd \<Rightarrow> pv_status io" where
  "check_private f = do { r \<leftarrow> fstat_private f; done_with (case r of Inl e \<Rightarrow> e | Inr _ \<Rightarrow> PV_OK) }"

definition sync_status :: "fd \<Rightarrow> pv_status io" where
  "sync_status f = do { r \<leftarrow> sys_fsync f; done_with (io_status r) }"

definition write_atomic_at :: "pv_store_location \<Rightarrow> byte list \<Rightarrow> byte list \<Rightarrow> bool \<Rightarrow> pv_status io" where
  "write_atomic_at location header ciphertext no_replace =
     (if ciphertext = [] then done_with PV_ERR_USAGE
      else do {
        opened \<leftarrow> open_temporary 32 (directory_fd location) (loc_name location);
        case opened of
          Inl e \<Rightarrow> done_with e
        | Inr (f, temporary) \<Rightarrow> do {
            s0 \<leftarrow> check_private f;
            if s0 \<noteq> PV_OK then do {
              _ \<leftarrow> sys_close f; _ \<leftarrow> sys_unlink (directory_fd location) temporary; done_with PV_ERR_IO }
            else do {
              s1 \<leftarrow> write_all f header;
              s2 \<leftarrow> if_ok s1 (write_all f ciphertext);
              s3 \<leftarrow> if_ok s2 (check_private f);
              s4 \<leftarrow> if_ok s3 (sync_status f);
              s5 \<leftarrow> close_status f s4;
              publish (directory_fd location) temporary (loc_name location) no_replace PV_ERR_DURABILITY s5 } } })"

definition write_snapshot_exclusive_at ::
  "fd \<Rightarrow> byte list \<Rightarrow> byte list \<Rightarrow> byte list \<Rightarrow> u32 \<Rightarrow> pv_status io" where
  "write_snapshot_exclusive_at dir name header ciphertext final_mode =
     (if ciphertext = [] \<or> final_mode \<noteq> 0x100 \<and> final_mode \<noteq> 0x180 then done_with PV_ERR_USAGE
      else do {
        opened \<leftarrow> open_temporary 32 dir name;
        case opened of
          Inl e \<Rightarrow> done_with e
        | Inr (f, temporary) \<Rightarrow> do {
            s0 \<leftarrow> check_private f;
            s1 \<leftarrow> if_ok s0 (write_all f header);
            s2 \<leftarrow> if_ok s1 (write_all f ciphertext);
            s3 \<leftarrow> if_ok s2 (do { r \<leftarrow> sys_fchmod f final_mode; done_with (io_status r) });
            s4 \<leftarrow> if_ok s3 (check_private f);
            s5 \<leftarrow> if_ok s4 (sync_status f);
            s6 \<leftarrow> close_status f s5;
            publish dir temporary name True PV_ERR_DURABILITY s6 } })"

definition write_snapshot_exclusive ::
  "byte list \<Rightarrow> byte list \<Rightarrow> byte list \<Rightarrow> u32 \<Rightarrow> pv_status io" where
  "write_snapshot_exclusive destination header ciphertext final_mode = do {
     r \<leftarrow> open_store_location destination;
     case r of
       Inl e \<Rightarrow> done_with e
     | Inr location \<Rightarrow> do {
         s1 \<leftarrow> write_snapshot_exclusive_at (directory_fd location) (loc_name location) header ciphertext final_mode;
         s2 \<leftarrow> if_ok s1 (do {
             v \<leftarrow> revalidate_store_location destination location;
             done_with (if v \<noteq> PV_OK then PV_ERR_DURABILITY else PV_OK) });
         _ \<leftarrow> close_store_location location;
         done_with s2 } }"

text \<open>
  Copying reads until the end of the input. Every round that goes on has read at least one byte, so
  the length of the input and one are enough rounds; \<open>PV_ERR_STATE\<close> would mean too few.
\<close>

fun copy_loop :: "nat \<Rightarrow> fd \<Rightarrow> fd \<Rightarrow> pv_status io" where
  "copy_loop 0 input output = done_with PV_ERR_STATE"
| "copy_loop (Suc rounds) input output = do {
     r \<leftarrow> read_retry input 65536;
     case r of
       Inl e \<Rightarrow> done_with PV_ERR_IO
     | Inr bytes \<Rightarrow>
         if bytes = [] then done_with PV_OK
         else do { status \<leftarrow> write_all output bytes; if_ok status (copy_loop rounds input output) } }"

definition copy_file_exclusive_at :: "fd \<Rightarrow> byte list \<Rightarrow> fd \<Rightarrow> byte list \<Rightarrow> pv_status io" where
  "copy_file_exclusive_at source_dir source_name dir name = do {
     r \<leftarrow> open_private_snapshot_at source_dir source_name;
     case r of
       Inl e \<Rightarrow> done_with e
     | Inr (input, st) \<Rightarrow> do {
         opened \<leftarrow> open_temporary 32 dir name;
         case opened of
           Inl e \<Rightarrow> do { _ \<leftarrow> sys_close input; done_with e }
         | Inr (output, temporary) \<Rightarrow> do {
             s0 \<leftarrow> check_private output;
             s1 \<leftarrow> if_ok s0 (copy_loop (nat (st_size st) + 1) input output);
             s2 \<leftarrow> if_ok s1 (check_private output);
             s3 \<leftarrow> if_ok s2 (sync_status output);
             s4 \<leftarrow> close_status input s3;
             s5 \<leftarrow> close_status output s4;
             publish dir temporary name True PV_ERR_IO s5 } } }"

section \<open>What the operations leave alone\<close>

lemma keeps_io_bind [frame]:
  "keeps I m (\<lambda>_. True) \<Longrightarrow> (\<And>x. keeps I (k x) (\<lambda>_. True)) \<Longrightarrow> keeps I (io_bind m k) (\<lambda>_. True)"
  unfolding io_bind_def by (intro frame)

lemma keeps_if_ok [frame]: "keeps I m (\<lambda>_. True) \<Longrightarrow> keeps I (if_ok status m) (\<lambda>_. True)"
  unfolding if_ok_def by (intro frame)

lemma quiet_close_status [frame]: "quiet P (close_status f status)"
  unfolding close_status_def by (intro frame)

lemma frame_write_all:
  assumes "fs_next F \<le> fd_ino f"
  shows "frame X F (write_all f bytes) (\<lambda>_. True)"
proof -
  have "changes X F (os_fs s')" if "write_loop f bytes s = (r, s')" "changes X F (os_fs s)" for bytes s r s'
    using that assms
  proof (induction f bytes s rule: write_loop.induct)
    case (1 f bytes s)
    obtain a s1 where w: "run_state (sys_write f bytes) s = (a, s1)" by fastforce
    have s1: "changes X F (os_fs s1)"
      using keepsD [OF frame_write [OF "1.prems"(3)] "1.prems"(2) w] by simp
    show ?case
      using 1 w s1 by (cases a) (auto simp: write_loop.simps [of f bytes s] split: if_splits)
  qed
  then show ?thesis by (auto simp: keeps_def write_all_def)
qed

lemma quiet_read_all [frame]: "quiet P (read_all f n)"
proof -
  have "P (os_fs s')" if "read_loop f n got s = (r, s')" "P (os_fs s)" for n got s r s'
    using that
  proof (induction f n got s rule: read_loop.induct)
    case (1 f n got s)
    obtain a s1 where w: "run_state (sys_read f n) s = (a, s1)" by fastforce
    have s1: "P (os_fs s1)"
      using quiet_same [OF quiet_readers(7) w] "1.prems"(2) by simp
    show ?case
      using 1 w s1 by (cases a) (auto simp: read_loop.simps [of f n got s] split: if_splits)
  qed
  then show ?thesis by (auto simp: keeps_def read_all_def)
qed

lemma quiet_read_retry [frame]: "quiet P (read_retry f n)"
proof -
  have "P (os_fs s')" if "read_nointr_loop f n s = (r, s')" "P (os_fs s)" for n s r s'
    using that
  proof (induction f n s rule: read_nointr_loop.induct)
    case (1 f n s)
    obtain a s1 where w: "run_state (sys_read f n) s = (a, s1)" by fastforce
    have s1: "P (os_fs s1)"
      using quiet_same [OF quiet_readers(7) w] "1.prems"(2) by simp
    show ?case
      using 1 w s1 by (cases a) (auto simp: read_nointr_loop.simps [of f n s] split: if_splits)
  qed
  then show ?thesis by (auto simp: keeps_def read_retry_def)
qed

lemma quiet_paths [frame]:
  "quiet P (path_entry_exists_at dir n)" "quiet P (fstat_private f)"
  unfolding path_entry_exists_at_def fstat_private_def by (intro frame)+

lemma quiet_private_parent [frame]: "quiet P (open_private_parent path)"
  unfolding open_private_parent_def by (intro frame)

lemma quiet_locations [frame]:
  "quiet P (open_store_location path)" "quiet P (close_store_location location)"
  unfolding open_store_location_def close_store_location_def by (intro frame)+

lemma quiet_revalidate [frame]: "quiet P (revalidate_store_location path location)"
  unfolding revalidate_store_location_def by (intro frame)

lemma quiet_snapshot_open [frame]: "quiet P (open_private_snapshot_at dir n)"
  unfolding open_private_snapshot_at_def by (intro frame)

lemma quiet_disk_body [frame]: "quiet P (read_disk_body S f st hb h)"
  unfolding read_disk_body_def hash_disk_file_def by (intro frame)

lemma quiet_disk_file_at [frame]: "quiet P (read_disk_file_at S dir n)"
  unfolding read_disk_file_at_def by (intro frame)

lemma quiet_disk_file [frame]: "quiet P (read_disk_file S path)"
  unfolding read_disk_file_def by (intro frame)

lemma quiet_check [frame]: "quiet P (check_private f)"
  unfolding check_private_def by (intro frame)

lemma frame_sync_status [frame]: "frame X F (sync_status f) (\<lambda>_. True)"
  unfolding sync_status_def by (intro frame)

section \<open>The new file\<close>

text \<open>The entries publishing a file may change: its own and those of temporary files.\<close>

definition temporaries :: "nat \<Rightarrow> byte list \<Rightarrow> (nat \<times> byte list) set" where
  "temporaries d n = (\<lambda>x. (d, temporary_name n x)) ` UNIV"

lemma temporary_name_neq [simp]: "temporary_name n x \<noteq> n" "n \<noteq> temporary_name n x"
  by (auto simp: temporary_name_def ascii_def)

lemma run_bind_iff:
  "run_state (m \<bind> k) s = (r, s') \<longleftrightarrow> (\<exists>a s1. run_state m s = (a, s1) \<and> run_state (k a) s1 = (r, s'))"
  by (simp split: prod.split)

text \<open>
  \<open>drafting_in X F d x i t G\<close>: since \<open>F\<close> nothing but the entries in \<open>X\<close> has changed, and the
  inode \<open>i\<close>, new since \<open>F\<close>, is the file under the name \<open>t\<close> with the data \<open>x\<close>. For a
  file that is to be published these are the entries of temporary files.
\<close>

definition drafting_in :: "(nat \<times> byte list) set \<Rightarrow> fs \<Rightarrow> nat \<Rightarrow> byte list \<Rightarrow> nat \<Rightarrow> byte list \<Rightarrow> fs \<Rightarrow> bool" where
  "drafting_in X F d x i t G \<longleftrightarrow> changes X F G \<and> fs_next F \<le> i \<and> i < fs_next G \<and>
     (d, t) \<in> X \<and> entry G d t = Some i \<and> i_kind (fs_inode G i) = Regular_file \<and> i_data (fs_inode G i) = x"

abbreviation drafting :: "fs \<Rightarrow> nat \<Rightarrow> byte list \<Rightarrow> byte list \<Rightarrow> nat \<Rightarrow> byte list \<Rightarrow> fs \<Rightarrow> bool" where
  "drafting F d n x i t G \<equiv> drafting_in (temporaries d n) F d x i t G"

lemma open_temporary_drafts:
  assumes "run_state (open_temporary k dir n) s = (r, s')" "fd_ino dir < fs_next (os_fs s)"
  shows "case r of Inl e \<Rightarrow> os_fs s' = os_fs s \<and> e \<in> {PV_ERR_IO, PV_ERR_LIMIT}
    | Inr (f, t) \<Rightarrow> drafting (os_fs s) (fd_ino dir) n [] (fd_ino f) t (os_fs s')"
  using assms
proof (induction k arbitrary: s)
  case (Suc k)
  obtain x s1 where x: "run_state random_u32 s = (x, s1)" by fastforce
  note F1 = quiet_same [OF quiet_pure(3) x]
  show ?case
  proof (cases "length (temporary_name n x) \<ge> PATH_MAX")
    case True
    with Suc.prems x F1 show ?thesis by auto
  next
    case False
    obtain a s2 where a: "run_state (sys_create dir (temporary_name n x) 0x180) s1 = (a, s2)" by fastforce
    have run: "run_state (case a of
          Inl e \<Rightarrow> if e = EEXIST then open_temporary k dir n else done_with (Inl PV_ERR_IO)
        | Inr f \<Rightarrow> done_with (Inr (f, temporary_name n x))) s2 = (r, s')"
      using Suc.prems(1) x a False by (simp add: Let_def)
    from a [unfolded sys_create_def] show ?thesis
    proof (cases rule: sys_cases)
      case (failed e)
      then have "os_fs s2 = os_fs s" using F1 by simp
      with failed(1) Suc.IH [of s2, unfolded this] Suc.prems(2) run show ?thesis by (cases "e = EEXIST") auto
    next
      case (acts limit)
      show ?thesis
      proof (cases "entry (os_fs s1) (fd_ino dir) (temporary_name n x)")
        case None
        have "changes (temporaries (fd_ino dir) n) (os_fs s) (os_fs s2)"
          using keepsD [OF frame_create [of dir "temporary_name n x" "temporaries (fd_ino dir) n" "os_fs s"] _ a] Suc.prems(2) F1
          by (auto simp: temporaries_def)
        with None acts run F1 show ?thesis
          by (auto simp: new_fd_def create_file_def created_def drafting_in_def temporaries_def)
      next
        case (Some i)
        then have a2: "a = Inl EEXIST" and "os_fs s2 = os_fs s" using acts F1 by auto
        with Suc.IH [of s2, unfolded this(2)] Suc.prems(2) run show ?thesis by simp
      qed
    qed
  qed
qed auto

lemma sys_write_drafts:
  assumes "run_state (sys_write f bytes) s = (r, s')" "drafting_in X F d x (fd_ino f) t (os_fs s)"
  shows "case r of Inl e \<Rightarrow> drafting_in X F d x (fd_ino f) t (os_fs s')
    | Inr k \<Rightarrow> k \<le> length bytes \<and> drafting_in X F d (x @ take k bytes) (fd_ino f) t (os_fs s')"
proof -
  have new: "fs_next F \<le> fd_ino f" "changes X F (os_fs s)" using assms(2) by (auto simp: drafting_in_def)
  have c: "changes X F (os_fs s')"
    using keepsD [OF frame_write [OF new(1)] new(2) assms(1)] by simp
  show ?thesis
    using assms(1) [unfolded sys_write_def Let_def] assms(2) c
    by (cases rule: sys_cases) (auto simp: drafting_in_def append_data_def split: option.splits)
qed

lemma write_all_drafts:
  assumes "run_state (write_all f bytes) s = (r, s')" "drafting_in X F d x (fd_ino f) t (os_fs s)"
  shows "\<exists>y. drafting_in X F d y (fd_ino f) t (os_fs s') \<and> (r = PV_OK \<longrightarrow> y = x @ bytes) \<and> r \<in> {PV_OK, PV_ERR_IO}"
proof -
  have "write_loop f bytes s = (r, s') \<Longrightarrow> drafting_in X F d x (fd_ino f) t (os_fs s) \<Longrightarrow>
      \<exists>y. drafting_in X F d y (fd_ino f) t (os_fs s') \<and> (r = PV_OK \<longrightarrow> y = x @ bytes) \<and> r \<in> {PV_OK, PV_ERR_IO}"
  proof (induction f bytes s arbitrary: x rule: write_loop.induct)
    case (1 f bytes s)
    obtain a s1 where w: "run_state (sys_write f bytes) s = (a, s1)" by fastforce
    note d = sys_write_drafts [OF w "1.prems"(2)]
    show ?case
    proof (cases a)
      case (Inl e)
      with 1 w d show ?thesis by (auto simp: write_loop.simps [of f bytes s] split: if_splits)
    next
      case (Inr k)
      with w "1.prems" d show ?thesis
        using "1.IH"(2) [OF _ w [symmetric] Inr, of "x @ take k bytes"]
        by (auto simp: write_loop.simps [of f bytes s] split: if_splits)
    qed
  qed
  with assms show ?thesis by (simp add: write_all_def)
qed

lemma sys_fchmod_drafts:
  assumes "run_state (sys_fchmod f mode) s = (r, s')" "drafting_in X F d x (fd_ino f) t (os_fs s)"
  shows "drafting_in X F d x (fd_ino f) t (os_fs s')"
proof -
  have c: "changes X F (os_fs s')"
    using keepsD [OF frame_fchmod _ assms(1)] assms(2) by (auto simp: drafting_in_def)
  show ?thesis
    using assms(1) [unfolded sys_fchmod_def] assms(2) c by (cases rule: sys_cases) (auto simp: drafting_in_def)
qed

lemma sync_status_drafts:
  assumes "run_state (sync_status f) s = (r, s')" "drafting_in X F d x (fd_ino f) t (os_fs s)"
  shows "drafting_in X F d x (fd_ino f) t (os_fs s') \<and> r \<in> {PV_OK, PV_ERR_IO} \<and>
    (r = PV_OK \<longrightarrow> i_synced (fs_inode (os_fs s') (fd_ino f)))"
proof -
  obtain a where a: "run_state (sys_fsync f) s = (a, s')" "r = io_status a"
    using assms(1) by (auto simp: sync_status_def split: prod.splits)
  have c: "changes X F (os_fs s')"
    using keepsD [OF frame_fsync _ a(1)] assms(2) by (auto simp: drafting_in_def)
  show ?thesis
    using a(1) [unfolded sys_fsync_def] a(2) assms(2) c
    by (cases rule: sys_cases) (auto simp: drafting_in_def fs_sync_def)
qed

text \<open>
  \<open>placed F d n x G\<close>: since \<open>F\<close> the entry \<open>n\<close> of the directory has become a new file whose
  data \<open>x\<close> is on the disk; a power loss may still bring back what the entry was before.
\<close>

definition placed :: "fs \<Rightarrow> nat \<Rightarrow> byte list \<Rightarrow> byte list \<Rightarrow> fs \<Rightarrow> bool" where
  "placed F d n x G \<longleftrightarrow> changes (insert (d, n) (temporaries d n)) F G \<and>
     (\<exists>i \<ge> fs_next F. i < fs_next G \<and> entry G d n = Some i \<and> i_kind (fs_inode G i) = Regular_file \<and>
        i_data (fs_inode G i) = x \<and> i_synced (fs_inode G i)) \<and>
     set (fs_past G d n) \<subseteq> insert (entry F d n) (set (fs_past F d n))"

lemma temporaries_other [simp]: "(d, n) \<notin> temporaries d' n"
  by (auto simp: temporaries_def)

lemma sys_rename_places:
  assumes "run_state (sys_rename dir t n no_replace) s = (r, s')" "drafting F (fd_ino dir) n x i t (os_fs s)"
    and "i_synced (fs_inode (os_fs s) i)" "fs_ok F" "fd_ino dir < fs_next F"
  shows "case r of Inl e \<Rightarrow> os_fs s' = os_fs s
    | Inr _ \<Rightarrow> placed F (fd_ino dir) n x (os_fs s') \<and> (no_replace \<longrightarrow> entry F (fd_ino dir) n = None)"
proof -
  let ?d = "fd_ino dir" and ?G = "os_fs s" and ?X = "insert (fd_ino dir, n) (temporaries (fd_ino dir) n)"
  have G: "changes (temporaries ?d n) F ?G" "fs_next F \<le> i" "i < fs_next ?G" "(?d, t) \<in> temporaries ?d n"
    "entry ?G ?d t = Some i" "i_kind (fs_inode ?G i) = Regular_file" "i_data (fs_inode ?G i) = x"
    using assms(2) by (auto simp: drafting_in_def)
  have old: "entry ?G ?d n = entry F ?d n" "set (fs_past ?G ?d n) \<subseteq> set (fs_past F ?d n)"
    using G(1) assms(5) unfolding changes_def by auto
  have c: "changes ?X F (os_fs s')"
    using keepsD [OF frame_rename [OF assms(4), of dir t ?X n no_replace] _ assms(1)] G(1,4) changes_mono [of _ F ?G ?X]
    by auto
  have tn: "t \<noteq> n" using G(4) by (auto simp: temporaries_def)
  from assms(1) [unfolded sys_rename_def] show ?thesis
  proof (cases rule: sys_cases)
    case (acts limit)
    show ?thesis
    proof (cases "no_replace \<and> entry ?G ?d n \<noteq> None")
      case False
      then have s': "r = Inr ()" "os_fs s' = fs_rename ?d t n i ?G" using acts G(5) by auto
      have "placed F ?d n x (os_fs s')"
        using c tn G(2,3,6,7) assms(3) old unfolding placed_def s'(2)
        by (auto simp: fs_rename_def Let_def split: option.splits)
      with s'(1) False old show ?thesis by auto
    qed (use acts G(5) in auto)
  qed simp
qed

lemma publish_spec:
  assumes "run_state (publish dir t n no_replace sync_error status) s = (r, s')"
    and "drafting F (fd_ino dir) n x i t (os_fs s)" "status = PV_OK \<longrightarrow> i_synced (fs_inode (os_fs s) i)"
    and "fs_ok F" "fd_ino dir < fs_next F" "i_kind (fs_inode F (fd_ino dir)) = Directory"
  shows "changes (temporaries (fd_ino dir) n) F (os_fs s') \<and> r \<noteq> PV_OK \<and>
      (if status \<noteq> PV_OK then r = status else r \<in> {PV_ERR_IO, PV_ERR_EXISTS}) \<or>
    status = PV_OK \<and> placed F (fd_ino dir) n x (os_fs s') \<and> (no_replace \<longrightarrow> entry F (fd_ino dir) n = None) \<and>
      (r = sync_error \<or> r = PV_OK \<and> fs_past (os_fs s') (fd_ino dir) n = [])"
proof -
  let ?d = "fd_ino dir" and ?T = "temporaries (fd_ino dir) n"
  have G: "changes ?T F (os_fs s)" "(?d, t) \<in> ?T" using assms(2) by (auto simp: drafting_in_def)
  have unlinked: "changes ?T F (os_fs s2)" if "run_state (sys_unlink dir t) s1 = (a, s2)" "changes ?T F (os_fs s1)" for a s1 s2
    using keepsD [OF frame_unlink [OF G(2)] that(2,1)] by simp
  show ?thesis
  proof (cases "status = PV_OK")
    case False
    then obtain a where "run_state (sys_unlink dir t) s = (a, s')" "r = status"
      using assms(1) by (auto simp: publish_def if_ok_def split: prod.splits)
    with False unlinked G(1) show ?thesis by auto
  next
    case True
    obtain a s1 where a: "run_state (sys_rename dir t n no_replace) s = (a, s1)" by fastforce
    note re = sys_rename_places [OF a assms(2) _ assms(4,5)]
    show ?thesis
    proof (cases a)
      case (Inl e)
      then have "os_fs s1 = os_fs s" using re assms(3) True by simp
      moreover obtain b where "run_state (sys_unlink dir t) s1 = (b, s')" "r \<in> {PV_ERR_IO, PV_ERR_EXISTS}"
        using assms(1) a Inl True by (auto simp: publish_def if_ok_def split: prod.splits if_splits)
      ultimately show ?thesis using True unlinked G(1) by auto
    next
      case (Inr u)
      then have pl: "placed F ?d n x (os_fs s1)" "no_replace \<longrightarrow> entry F ?d n = None" using re assms(3) True by simp_all
      obtain b where b: "run_state (sys_fsync dir) s1 = (b, s')" "r = (case b of Inr _ \<Rightarrow> PV_OK | Inl e \<Rightarrow> sync_error)"
        using assms(1) a Inr True by (auto simp: publish_def if_ok_def split: prod.splits)
      let ?X = "insert (?d, n) ?T"
      have c: "changes ?X F (os_fs s')"
        using keepsD [OF frame_fsync _ b(1)] pl(1) by (auto simp: placed_def)
      have k: "i_kind (fs_inode (os_fs s1) ?d) = Directory"
        using pl(1) assms(5,6) by (auto simp: placed_def changes_def grows_def)
      have "placed F ?d n x (os_fs s') \<and> (\<forall>v. b = Inr v \<longrightarrow> fs_past (os_fs s') ?d n = [])"
        using b(1) [unfolded sys_fsync_def] pl(1) c k
        by (cases rule: sys_cases) (auto simp: placed_def fs_sync_def)
      with True pl(2) b(2) show ?thesis by (cases b) auto
    qed
  qed
qed

lemma if_ok_cases:
  assumes "run_state (if_ok status m) s = (r, s')"
  obtains (skip) "status \<noteq> PV_OK" "r = status" "s' = s" | (run) "status = PV_OK" "run_state m s = (r, s')"
  using assms by (auto simp: if_ok_def split: if_splits)

lemma io_status_range: "io_status x = PV_OK \<or> io_status x = PV_ERR_IO"
  by (cases x) auto

lemma check_private_result:
  assumes "run_state (check_private f) s = (r, s')"
  shows "os_fs s' = os_fs s" "r \<in> {PV_OK, PV_ERR_IO}"
  using quiet_same [OF quiet_check assms] assms
  by (auto simp: check_private_def fstat_private_def split: prod.splits sum.splits if_splits)

lemma close_status_result:
  assumes "run_state (close_status f status) s = (r, s')"
  shows "os_fs s' = os_fs s" "r = PV_OK \<Longrightarrow> status = PV_OK" "r \<in> {status, PV_ERR_IO}"
  using quiet_same [OF quiet_close_status assms] assms io_status_range
  by (auto simp: close_status_def split: prod.splits if_splits)

text \<open>
  \<open>drafted F d n x i t status G\<close>: a draft of a file that is to have the data \<open>x\<close>, complete if the
  status so far is \<^verbatim>\<open>PV_OK\<close>.
\<close>

definition drafted :: "fs \<Rightarrow> nat \<Rightarrow> byte list \<Rightarrow> byte list \<Rightarrow> nat \<Rightarrow> byte list \<Rightarrow> pv_status \<Rightarrow> fs \<Rightarrow> bool" where
  "drafted F d n x i t status G \<longleftrightarrow> (\<exists>y. drafting F d n y i t G \<and> (status = PV_OK \<longrightarrow> y = x)) \<and>
     status \<in> {PV_OK, PV_ERR_IO}"

lemma drafted_write:
  assumes "run_state (if_ok status (write_all f bytes)) s = (r, s')" "drafted F d n x (fd_ino f) t status (os_fs s)"
  shows "drafted F d n (x @ bytes) (fd_ino f) t r (os_fs s')"
  using assms(1)
proof (cases rule: if_ok_cases)
  case run
  then have "drafting F d n x (fd_ino f) t (os_fs s)" using assms(2) by (auto simp: drafted_def)
  from write_all_drafts [OF run(2) this] show ?thesis by (auto simp: drafted_def)
qed (use assms(2) in \<open>auto simp: drafted_def\<close>)

lemma drafted_check:
  assumes "run_state (if_ok status (check_private f)) s = (r, s')" "drafted F d n x i t status (os_fs s)"
  shows "drafted F d n x i t r (os_fs s')"
  using assms(1)
proof (cases rule: if_ok_cases)
  case run
  then show ?thesis using check_private_result [OF run(2)] assms(2) by (auto simp: drafted_def)
qed (use assms(2) in \<open>auto simp: drafted_def\<close>)

lemma drafted_fchmod:
  assumes "run_state (if_ok status (do { r \<leftarrow> sys_fchmod f mode; done_with (io_status r) })) s = (r, s')"
    and "drafted F d n x (fd_ino f) t status (os_fs s)"
  shows "drafted F d n x (fd_ino f) t r (os_fs s')"
  using assms(1)
proof (cases rule: if_ok_cases)
  case run
  then obtain a where a: "run_state (sys_fchmod f mode) s = (a, s')" "r = io_status a" by (auto split: prod.splits)
  have "drafting F d n x (fd_ino f) t (os_fs s')"
    using sys_fchmod_drafts [OF a(1)] assms(2) run(1) by (auto simp: drafted_def)
  with a(2) io_status_range [of a] show ?thesis by (auto simp: drafted_def)
qed (use assms(2) in \<open>auto simp: drafted_def\<close>)

lemma drafted_sync:
  assumes "run_state (if_ok status (sync_status f)) s = (r, s')" "drafted F d n x (fd_ino f) t status (os_fs s)"
  shows "drafted F d n x (fd_ino f) t r (os_fs s') \<and> (r = PV_OK \<longrightarrow> i_synced (fs_inode (os_fs s') (fd_ino f)))"
  using assms(1)
proof (cases rule: if_ok_cases)
  case run
  then have "drafting F d n x (fd_ino f) t (os_fs s)" using assms(2) by (auto simp: drafted_def)
  from sync_status_drafts [OF run(2) this] show ?thesis by (auto simp: drafted_def)
qed (use assms(2) in \<open>auto simp: drafted_def\<close>)

lemma drafted_close:
  assumes "run_state (close_status g status) s = (r, s')" "drafted F d n x i t status (os_fs s)"
    and "status = PV_OK \<longrightarrow> i_synced (fs_inode (os_fs s) i)"
  shows "drafted F d n x i t r (os_fs s') \<and> (r = PV_OK \<longrightarrow> i_synced (fs_inode (os_fs s') i))"
  using close_status_result [OF assms(1)] assms(2,3) by (auto simp: drafted_def)

text \<open>
  What publishing promises: either the entry is as it was and the call reports why, or the entry is
  the complete new file. \<open>late\<close> is the status that reports a failure after the renaming.
\<close>

definition published_or_not :: "fs \<Rightarrow> nat \<Rightarrow> byte list \<Rightarrow> byte list \<Rightarrow> bool \<Rightarrow> pv_status \<Rightarrow> pv_status \<Rightarrow> fs \<Rightarrow> bool" where
  "published_or_not F d n x no_replace late r G \<longleftrightarrow>
     changes (temporaries d n) F G \<and> r \<in> {PV_ERR_USAGE, PV_ERR_LIMIT, PV_ERR_IO, PV_ERR_EXISTS} \<or>
     placed F d n x G \<and> (no_replace \<longrightarrow> entry F d n = None) \<and> (r = late \<or> r = PV_OK \<and> fs_past G d n = [])"

lemma drafted_publish:
  assumes "run_state (publish dir t n no_replace late status) s = (r, s')"
    and "drafted F (fd_ino dir) n x i t status (os_fs s)" "status = PV_OK \<longrightarrow> i_synced (fs_inode (os_fs s) i)"
    and "fs_ok F" "fd_ino dir < fs_next F" "i_kind (fs_inode F (fd_ino dir)) = Directory"
  shows "published_or_not F (fd_ino dir) n x no_replace late r (os_fs s')"
proof -
  obtain y where y: "drafting F (fd_ino dir) n y i t (os_fs s)" "status = PV_OK \<longrightarrow> y = x" "status \<in> {PV_OK, PV_ERR_IO}"
    using assms(2) by (auto simp: drafted_def)
  from publish_spec [OF assms(1) y(1) assms(3-6)] y(2,3) show ?thesis
    by (auto simp: published_or_not_def split: if_splits)
qed

lemma drafted_start:
  assumes "run_state (open_temporary 32 dir n) s = (Inr (f, t), s')" "fd_ino dir < fs_next (os_fs s)"
  shows "drafted (os_fs s) (fd_ino dir) n [] (fd_ino f) t PV_OK (os_fs s')"
  using open_temporary_drafts [OF assms] by (auto simp: drafted_def)

lemma write_atomic_at_spec:
  assumes "run_state (write_atomic_at loc header ciphertext no_replace) s = (r, s')"
    and "fs_ok (os_fs s)" "fd_ino (directory_fd loc) < fs_next (os_fs s)"
    and "i_kind (fs_inode (os_fs s) (fd_ino (directory_fd loc))) = Directory"
  shows "published_or_not (os_fs s) (fd_ino (directory_fd loc)) (loc_name loc) (header @ ciphertext) no_replace
    PV_ERR_DURABILITY r (os_fs s')"
proof (cases "ciphertext = []")
  case True
  with assms(1) show ?thesis by (auto simp: write_atomic_at_def published_or_not_def)
next
  case False
  let ?d = "directory_fd loc" and ?n = "loc_name loc" and ?F = "os_fs s"
  obtain a s1 where a: "run_state (open_temporary 32 ?d ?n) s = (a, s1)" by fastforce
  show ?thesis
  proof (cases a)
    case (Inl e)
    then show ?thesis using assms(1) a False open_temporary_drafts [OF a assms(3)]
      by (auto simp: write_atomic_at_def published_or_not_def)
  next
    case (Inr ft)
    obtain f t where ft: "ft = (f, t)" by (cases ft)
    note d1 = drafted_start [OF a [unfolded Inr ft] assms(3)]
    obtain s0 s2 where c: "run_state (check_private f) s1 = (s0, s2)" by fastforce
    note d2 = drafted_check [of PV_OK f s1 s0 s2, OF _ d1]
    show ?thesis
    proof (cases "s0 = PV_OK")
      case bad: False
      then obtain b s3 b' where u: "run_state (sys_close f) s2 = (b, s3)" "run_state (sys_unlink ?d t) s3 = (b', s')" "r = PV_ERR_IO"
        using assms(1) a Inr ft c False by (auto simp: write_atomic_at_def split: prod.splits)
      have "drafted ?F (fd_ino ?d) ?n [] (fd_ino f) t s0 (os_fs s3)"
        using d2 c quiet_same [OF quiet_readers(4) u(1)] by (simp add: if_ok_def)
      then show ?thesis using keepsD [OF frame_unlink _ u(2)] u(3)
        by (fastforce simp: drafted_def drafting_in_def published_or_not_def)
    next
      case ok: True
      obtain r1 t1 r2 t2 r3 t3 r4 t4 r5 t5 where run:
        "run_state (write_all f header) s2 = (r1, t1)"
        "run_state (if_ok r1 (write_all f ciphertext)) t1 = (r2, t2)"
        "run_state (if_ok r2 (check_private f)) t2 = (r3, t3)"
        "run_state (if_ok r3 (sync_status f)) t3 = (r4, t4)"
        "run_state (close_status f r4) t4 = (r5, t5)"
        "run_state (publish ?d t ?n no_replace PV_ERR_DURABILITY r5) t5 = (r, s')"
        using assms(1) a Inr ft c False ok
        by (auto simp: write_atomic_at_def run_bind_iff simp del: run_state_bind)
      have "drafted ?F (fd_ino ?d) ?n [] (fd_ino f) t PV_OK (os_fs s2)" using d2 c ok by (simp add: if_ok_def)
      then have "drafted ?F (fd_ino ?d) ?n header (fd_ino f) t r1 (os_fs t1)"
        using drafted_write [of PV_OK f header s2] run(1) by (fastforce simp: if_ok_def)
      note sync = drafted_sync [OF run(4) drafted_check [OF run(3) drafted_write [OF run(2) this]]]
      note clo = drafted_close [OF run(5) conjunct1 [OF sync] conjunct2 [OF sync]]
      show ?thesis by (rule drafted_publish [OF run(6) conjunct1 [OF clo] conjunct2 [OF clo] assms(2-4)])
    qed
  qed
qed

lemma finish_snapshot:
  assumes "run_state (do {
      s4 \<leftarrow> if_ok s3 (check_private f);
      s5 \<leftarrow> if_ok s4 (sync_status f);
      s6 \<leftarrow> close_status f s5;
      publish dir t n no_replace late s6 }) s = (r, s')"
    and "drafted F (fd_ino dir) n x (fd_ino f) t s3 (os_fs s)"
    and "fs_ok F" "fd_ino dir < fs_next F" "i_kind (fs_inode F (fd_ino dir)) = Directory"
  shows "published_or_not F (fd_ino dir) n x no_replace late r (os_fs s')"
proof -
  obtain r3 t3 r4 t4 r5 t5 where run:
    "run_state (if_ok s3 (check_private f)) s = (r3, t3)"
    "run_state (if_ok r3 (sync_status f)) t3 = (r4, t4)"
    "run_state (close_status f r4) t4 = (r5, t5)"
    "run_state (publish dir t n no_replace late r5) t5 = (r, s')"
    using assms(1) by (auto simp: run_bind_iff simp del: run_state_bind)
  note sync = drafted_sync [OF run(2) drafted_check [OF run(1) assms(2)]]
  note clo = drafted_close [OF run(3) conjunct1 [OF sync] conjunct2 [OF sync]]
  show ?thesis by (rule drafted_publish [OF run(4) conjunct1 [OF clo] conjunct2 [OF clo] assms(3-5)])
qed

lemma write_snapshot_exclusive_at_spec:
  assumes "run_state (write_snapshot_exclusive_at dir n header ciphertext mode) s = (r, s')"
    and "fs_ok (os_fs s)" "fd_ino dir < fs_next (os_fs s)" "i_kind (fs_inode (os_fs s) (fd_ino dir)) = Directory"
  shows "published_or_not (os_fs s) (fd_ino dir) n (header @ ciphertext) True PV_ERR_DURABILITY r (os_fs s')"
proof (cases "ciphertext = [] \<or> mode \<noteq> 0x100 \<and> mode \<noteq> 0x180")
  case True
  with assms(1) show ?thesis by (auto simp: write_snapshot_exclusive_at_def published_or_not_def)
next
  case False
  obtain a s1 where a: "run_state (open_temporary 32 dir n) s = (a, s1)" by fastforce
  show ?thesis
  proof (cases a)
    case (Inl e)
    then show ?thesis using assms(1) a False open_temporary_drafts [OF a assms(3)]
      by (auto simp: write_snapshot_exclusive_at_def published_or_not_def)
  next
    case (Inr ft)
    obtain f t where ft: "ft = (f, t)" by (cases ft)
    note d1 = drafted_start [OF a [unfolded Inr ft] assms(3)]
    obtain r0 t0 r1 t1 r2 t2 r3 t3 where run:
      "run_state (check_private f) s1 = (r0, t0)"
      "run_state (if_ok r0 (write_all f header)) t0 = (r1, t1)"
      "run_state (if_ok r1 (write_all f ciphertext)) t1 = (r2, t2)"
      "run_state (if_ok r2 (do { r \<leftarrow> sys_fchmod f mode; done_with (io_status r) })) t2 = (r3, t3)"
      "run_state (do {
        s4 \<leftarrow> if_ok r3 (check_private f);
        s5 \<leftarrow> if_ok s4 (sync_status f);
        s6 \<leftarrow> close_status f s5;
        publish dir t n True PV_ERR_DURABILITY s6 }) t3 = (r, s')"
      using assms(1) a Inr ft False
      by (auto simp: write_snapshot_exclusive_at_def run_bind_iff simp del: run_state_bind)
    have "drafted (os_fs s) (fd_ino dir) n [] (fd_ino f) t r0 (os_fs t0)"
      using drafted_check [of PV_OK f s1 r0 t0, OF _ d1] run(1) by (simp add: if_ok_def)
    from drafted_fchmod [OF run(4) drafted_write [OF run(3) drafted_write [OF run(2) this]]]
    show ?thesis by (intro finish_snapshot [OF run(5)]) (use assms(2-4) in auto)
  qed
qed

section \<open>Reading back\<close>

abbreviation file_data :: "os \<Rightarrow> fd \<Rightarrow> byte list" where
  "file_data s f \<equiv> i_data (fs_inode (os_fs s) (fd_ino f))"

abbreviation position :: "os \<Rightarrow> fd \<Rightarrow> nat" where
  "position s f \<equiv> os_pos s (fd_id f)"

lemma sys_read_spec:
  assumes "run_state (sys_read f n) s = (r, s')"
  shows "case r of Inl e \<Rightarrow> os_pos s' = os_pos s
    | Inr bytes \<Rightarrow> position s' f = position s f + length bytes \<and>
        (\<exists>m \<le> n. (0 < n \<longrightarrow> 0 < m) \<and> bytes = take m (drop (position s f) (file_data s f)))"
  using assms [unfolded sys_read_def Let_def]
proof (cases rule: sys_cases)
  case (acts limit)
  let ?m = "case limit of None \<Rightarrow> n | Some k \<Rightarrow> min n (max 1 k)"
  have "?m \<le> n" "0 < n \<longrightarrow> 0 < ?m" by (auto split: option.split)
  with acts show ?thesis by auto
qed simp

lemma read_nointr_spec:
  assumes "run_state (read_retry f n) s = (Inr bytes, s')"
  shows "os_fs s' = os_fs s \<and> position s' f = position s f + length bytes \<and>
    (\<exists>m \<le> n. (0 < n \<longrightarrow> 0 < m) \<and> bytes = take m (drop (position s f) (file_data s f)))"
proof -
  have "read_nointr_loop f n s = (Inr bytes, s') \<Longrightarrow> position s' f = position s f + length bytes \<and>
    (\<exists>m \<le> n. (0 < n \<longrightarrow> 0 < m) \<and> bytes = take m (drop (position s f) (file_data s f)))"
  proof (induction f n s rule: read_nointr_loop.induct)
    case (1 f n s)
    obtain a s1 where w: "run_state (sys_read f n) s = (a, s1)" by fastforce
    have "os_fs s1 = os_fs s" by (rule quiet_same [OF quiet_readers(7) w])
    with 1 w sys_read_spec [OF w] show ?case
      by (cases a) (auto simp: read_nointr_loop.simps [of f n s] split: if_splits)
  qed
  with assms quiet_same [OF quiet_read_retry assms] show ?thesis by (simp add: read_retry_def)
qed

lemma read_all_spec:
  assumes "run_state (read_all f n) s = (Inr x, s')"
  shows "os_fs s' = os_fs s \<and> length x = n \<and> x = take n (drop (position s f) (file_data s f)) \<and>
    position s' f = position s f + n"
proof -
  have "read_loop f n got s = (Inr x, s') \<Longrightarrow> position s' f = position s f + n \<and>
      n \<le> length (drop (position s f) (file_data s f)) \<and> x = got @ take n (drop (position s f) (file_data s f))" for got
  proof (induction f n got s rule: read_loop.induct)
    case (1 f n got s)
    show ?case
    proof (cases "n = 0")
      case True
      with "1.prems" show ?thesis by (simp add: read_loop.simps [of f 0 got s])
    next
      case False
      obtain a s1 where w: "run_state (sys_read f n) s = (a, s1)" by fastforce
      have F: "os_fs s1 = os_fs s" by (rule quiet_same [OF quiet_readers(7) w])
      show ?thesis
      proof (cases a)
        case (Inl e)
        with 1 w F False sys_read_spec [OF w] show ?thesis
          by (auto simp: read_loop.simps [of f n got s] split: if_splits)
      next
        case (Inr bytes)
        obtain m where m: "m \<le> n" "bytes = take m (drop (position s f) (file_data s f))"
          "position s1 f = position s f + length bytes" using sys_read_spec [OF w] Inr by auto
        have ne: "bytes \<noteq> []" and run: "read_loop f (n - length bytes) (got @ bytes) s1 = (Inr x, s')"
          using "1.prems" w Inr False by (auto simp: read_loop.simps [of f n got s] split: if_splits)
        let ?k = "length bytes" and ?rest = "drop (position s f) (file_data s f)"
        have k: "?k \<le> n" "bytes = take ?k ?rest" using m(1,2) by (auto simp: min_def)
        from "1.IH"(2) [OF False w [symmetric] Inr ne run] F m(3)
        have ih: "position s' f = position s f + ?k + (n - ?k)" "n - ?k \<le> length (drop ?k ?rest)"
          "x = (got @ bytes) @ take (n - ?k) (drop ?k ?rest)" by (simp_all add: add.commute)
        have "take n ?rest = bytes @ take (n - ?k) (drop ?k ?rest)"
          using k take_add [of ?k "n - ?k" ?rest] by simp
        moreover have "?k \<le> length ?rest" using m(2) by simp
        ultimately show ?thesis using ih k(1) by auto
      qed
    qed
  qed
  with assms quiet_same [OF quiet_read_all assms] show ?thesis by (fastforce simp: read_all_def)
qed

lemma sys_openat_spec:
  assumes "run_state (sys_openat dir n) s = (Inr f, s')"
  shows "os_fs s' = os_fs s" "os_euid s' = os_euid s" "entry (os_fs s) (fd_ino dir) n = Some (fd_ino f)"
    "position s' f = 0" "fd_id f < os_fd_next s'"
  using assms [unfolded sys_openat_def]
  by (cases rule: sys_cases; auto simp: new_fd_def split: option.splits if_splits)+

lemma sys_fstat_spec:
  assumes "run_state (sys_fstat f) s = (r, s')"
  shows "os_fs s' = os_fs s" "os_pos s' = os_pos s" "os_euid s' = os_euid s" "os_fd_next s' = os_fd_next s"
    "r = Inr st \<Longrightarrow> st = stat_of (os_fs s) (fd_ino f)"
  using assms [unfolded sys_fstat_def] by (cases rule: sys_cases; auto)+

definition private_file :: "os \<Rightarrow> nat \<Rightarrow> bool" where
  "private_file s i \<longleftrightarrow> private_snapshot_stat_issue (os_euid s) (stat_of (os_fs s) i) = PV_PRIVATE_SNAPSHOT_OK"

lemma fstat_private_spec:
  assumes "run_state (fstat_private f) s = (r, s')"
  shows "os_fs s' = os_fs s" "os_pos s' = os_pos s" "os_euid s' = os_euid s" "os_fd_next s' = os_fd_next s"
    "r = Inr st \<Longrightarrow> st = stat_of (os_fs s) (fd_ino f) \<and> private_file s (fd_ino f)"
proof -
  obtain a s1 where a: "run_state (sys_fstat f) s = (a, s1)" by fastforce
  note st = sys_fstat_spec [OF a]
  from assms a have s': "s' = s1" and r: "r = (case a of Inl e \<Rightarrow> Inl PV_ERR_IO
      | Inr st \<Rightarrow> if private_snapshot_stat_issue (os_euid s1) st = PV_PRIVATE_SNAPSHOT_OK then Inr st else Inl PV_ERR_IO)"
    by (auto simp: fstat_private_def geteuid_def)
  show "os_fs s' = os_fs s" "os_pos s' = os_pos s" "os_euid s' = os_euid s" "os_fd_next s' = os_fd_next s"
    using st s' by simp_all
  show "r = Inr st \<Longrightarrow> st = stat_of (os_fs s) (fd_ino f) \<and> private_file s (fd_ino f)"
    using st r by (auto simp: private_file_def split: sum.splits if_splits)
qed

lemma open_private_snapshot_spec:
  assumes "run_state (open_private_snapshot_at dir n) s = (Inr (f, st), s')"
  shows "os_fs s' = os_fs s" "entry (os_fs s) (fd_ino dir) n = Some (fd_ino f)" "st = stat_of (os_fs s) (fd_ino f)"
    "private_file s (fd_ino f)" "position s' f = 0" "fd_id f < os_fd_next s'"
proof -
  obtain a s1 where a: "run_state (sys_openat dir n) s = (a, s1)" by fastforce
  with assms obtain g where g: "a = Inr g" by (cases a) (auto simp: open_private_snapshot_at_def)
  obtain b s2 where b: "run_state (fstat_private g) s1 = (b, s2)" by fastforce
  with assms a g have "b = Inr st" "f = g" "s' = s2"
    by (cases b; auto simp: open_private_snapshot_at_def split: prod.splits)+
  note o = sys_openat_spec [OF a [unfolded g]] and p = fstat_private_spec [OF b]
  show "os_fs s' = os_fs s" "entry (os_fs s) (fd_ino dir) n = Some (fd_ino f)" "position s' f = 0" "fd_id f < os_fd_next s'"
    using o p \<open>f = g\<close> \<open>s' = s2\<close> by simp_all
  show "st = stat_of (os_fs s) (fd_ino f)" "private_file s (fd_ino f)"
    using o(1,2) p(5) \<open>b = Inr st\<close> \<open>f = g\<close> by (simp_all add: private_file_def)
qed

lemma sys_library_spec:
  assumes "run_state sys_library s = (r, s')"
  shows "os_fs s' = os_fs s" "os_pos s' = os_pos s"
  using assms [unfolded sys_library_def] by (cases rule: sys_cases; auto)+

lemma read_disk_body_spec:
  assumes "run_state (read_disk_body S f st hb h) s = (Inr df, s')"
  shows "df = \<lparr>df_header_bytes = hb, df_header = h, df_ciphertext = drop (position s f) (file_data s f),
      df_hash = generichash S (hb @ drop (position s f) (file_data s f)), df_stat = st\<rparr> \<and>
    length (drop (position s f) (file_data s f)) = unat (h_body_ciphertext_len h)"
proof -
  let ?n = "unat (h_body_ciphertext_len h)"
  obtain m s1 where m: "run_state sys_library s = (m, s1)" by fastforce
  obtain a s2 where a: "run_state (read_all f ?n) s1 = (a, s2)" by fastforce
  obtain c where c: "a = Inr c"
    using assms m a by (auto simp: read_disk_body_def split: prod.splits sum.splits if_splits)
  obtain x s3 where x: "run_state (read_retry f 1) s2 = (x, s3)" by fastforce
  obtain u s4 where u: "run_state (close_status f (if x \<noteq> Inr [] then PV_ERR_FORMAT else PV_OK)) s3 = (u, s4)" by fastforce
  have run: "run_state (if u \<noteq> PV_OK then done_with (Inl u)
      else io_bind (hash_disk_file S hb c) (\<lambda>hash. done_with (Inr \<lparr>df_header_bytes = hb, df_header = h,
        df_ciphertext = c, df_hash = hash, df_stat = st\<rparr>))) s4 = (Inr df, s')"
    using assms m a c x u by (auto simp: read_disk_body_def split: prod.splits if_splits)
  then have "u = PV_OK" by (auto split: if_splits)
  then have "x = Inr []" using close_status_result(2) [OF u] by (auto split: if_splits)
  note ra = read_all_spec [OF a [unfolded c]] and rx = read_nointr_spec [OF x [unfolded \<open>x = Inr []\<close>]]
  have "drop (position s2 f) (file_data s2 f) = []" using rx by auto
  then have "length (file_data s f) \<le> position s f + ?n" using ra sys_library_spec [OF m] by simp
  then have "c = drop (position s f) (file_data s f)" using ra sys_library_spec [OF m] by simp
  moreover have "length c = ?n" using ra by blast
  moreover have "df = \<lparr>df_header_bytes = hb, df_header = h, df_ciphertext = c,
      df_hash = generichash S (hb @ c), df_stat = st\<rparr>"
    using run \<open>u = PV_OK\<close> by (auto simp: io_bind_def hash_disk_file_def split: prod.splits sum.splits)
  ultimately show ?thesis by simp
qed

text \<open>A file that was read successfully is complete: its data is the header and the ciphertext.\<close>

lemma read_disk_file_at_spec:
  assumes "run_state (read_disk_file_at S dir n) s = (Inr df, s')"
  obtains i where "os_fs s' = os_fs s" "entry (os_fs s) (fd_ino dir) n = Some i" "private_file s i"
    "i_data (fs_inode (os_fs s) i) = df_header_bytes df @ df_ciphertext df"
    "length (df_header_bytes df) = PV_FILE_HEADER_LEN" "pv_header_decode (df_header_bytes df) = Inr (df_header df)"
    "length (df_ciphertext df) = unat (h_body_ciphertext_len (df_header df))"
    "df_hash df = generichash S (df_header_bytes df @ df_ciphertext df)" "df_stat df = stat_of (os_fs s) i"
proof -
  have F: "os_fs s' = os_fs s" by (rule quiet_same [OF quiet_disk_file_at assms])
  obtain f st s1 where o: "run_state (open_private_snapshot_at dir n) s = (Inr (f, st), s1)"
    and size: "\<not> st_size st < int PV_FILE_HEADER_LEN"
    using assms by (auto simp: read_disk_file_at_def io_bind_def split: prod.splits sum.splits if_splits)
  note os = open_private_snapshot_spec [OF o]
  obtain a s2 where a: "run_state (read_all f PV_FILE_HEADER_LEN) s1 = (a, s2)" by fastforce
  obtain hb h where h: "a = Inr hb" "pv_header_decode hb = Inr h"
    and body: "run_state (read_disk_body S f st hb h) s2 = (Inr df, s')"
    using assms o size a
    by (auto simp: read_disk_file_at_def io_bind_def Let_def res_bind_def split: sum.splits if_splits prod.splits)
  note ra = read_all_spec [OF a [unfolded h(1)]]
  note rb = read_disk_body_spec [OF body]
  have pos: "position s2 f = PV_FILE_HEADER_LEN" "file_data s2 f = i_data (fs_inode (os_fs s) (fd_ino f))"
    using ra os by simp_all
  have hb: "hb = take PV_FILE_HEADER_LEN (i_data (fs_inode (os_fs s) (fd_ino f)))" "length hb = PV_FILE_HEADER_LEN"
    using ra os(1,5) by simp (use ra in blast)
  let ?c = "drop PV_FILE_HEADER_LEN (i_data (fs_inode (os_fs s) (fd_ino f)))"
  have df: "df = \<lparr>df_header_bytes = hb, df_header = h, df_ciphertext = ?c, df_hash = generichash S (hb @ ?c), df_stat = st\<rparr>"
    "length ?c = unat (h_body_ciphertext_len h)"
    using rb unfolding pos by blast+
  show thesis
  proof (rule that [OF F os(2,4)])
    show "i_data (fs_inode (os_fs s) (fd_ino f)) = df_header_bytes df @ df_ciphertext df"
      using df(1) hb(1) by simp
  qed (use df hb(2) h(2) os(3) in simp_all)
qed

section \<open>Copying\<close>

lemma write_all_pos:
  assumes "run_state (write_all f bytes) s = (r, s')"
  shows "os_pos s' = os_pos s"
proof -
  have "write_loop f bytes s = (r, s') \<Longrightarrow> os_pos s' = os_pos s"
  proof (induction f bytes s rule: write_loop.induct)
    case (1 f bytes s)
    obtain a s1 where w: "run_state (sys_write f bytes) s = (a, s1)" by fastforce
    have "os_pos s1 = os_pos s"
      using w [unfolded sys_write_def Let_def] by (cases rule: sys_cases) auto
    with 1 w show ?case by (cases a) (auto simp: write_loop.simps [of f bytes s] split: if_splits)
  qed
  with assms show ?thesis by (simp add: write_all_def)
qed

lemma read_retry_failed:
  assumes "run_state (read_retry f n) s = (Inl e, s')"
  shows "os_fs s' = os_fs s"
  by (rule quiet_same [OF quiet_read_retry assms])

lemma copy_loop_spec:
  assumes "run_state (copy_loop k input out) s = (r, s')"
    and "drafting F d n (take p x) (fd_ino out) t (os_fs s)" "position s input = p" "p \<le> length x"
    and "fd_ino input < fs_next F" "x = i_data (fs_inode F (fd_ino input))" "length x < k + p"
  shows "drafted F d n x (fd_ino out) t r (os_fs s')"
  using assms(1-4,7)
proof (induction k arbitrary: s p)
  case (Suc k)
  have data: "file_data s input = x"
    using Suc.prems(2) assms(5,6) by (auto simp: drafting_in_def changes_def grows_def)
  obtain a s1 where a: "run_state (read_retry input 65536) s = (a, s1)" by fastforce
  show ?case
  proof (cases a)
    case (Inl e)
    then have "r = PV_ERR_IO" "s' = s1" using Suc.prems(1) a by auto
    with read_retry_failed [OF a [unfolded Inl]] Suc.prems(2) show ?thesis by (auto simp: drafted_def)
  next
    case (Inr bytes)
    note re = read_nointr_spec [OF a [unfolded Inr]]
    obtain m where m: "0 < m" "bytes = take m (drop p x)" using re data Suc.prems(3) by auto
    show ?thesis
    proof (cases "bytes = []")
      case True
      then have "r = PV_OK" "s' = s1" "take p x = x" using Suc.prems(1,4) a Inr m by auto
      with Suc.prems(2) re show ?thesis by (auto simp: drafted_def)
    next
      case False
      obtain st s2 where w: "run_state (write_all out bytes) s1 = (st, s2)" by fastforce
      have run: "run_state (if_ok st (copy_loop k input out)) s2 = (r, s')"
        using Suc.prems(1) a Inr False w by simp
      have "drafting F d n (take p x) (fd_ino out) t (os_fs s1)" using re Suc.prems(2) by simp
      from write_all_drafts [OF w this] obtain y where y: "drafting F d n y (fd_ino out) t (os_fs s2)"
        "st = PV_OK \<longrightarrow> y = take p x @ bytes" "st \<in> {PV_OK, PV_ERR_IO}" by blast
      from run show ?thesis
      proof (cases rule: if_ok_cases)
        case skip
        with y show ?thesis by (auto simp: drafted_def)
      next
        case run
        have len: "0 < length bytes" "p + length bytes \<le> length x" using False m(2) Suc.prems(4) by auto
        have "bytes = take (length bytes) (drop p x)" using m(2) by (simp add: min_def)
        then have "take p x @ bytes = take (p + length bytes) x" by (metis take_add)
        with y(1,2) run(1) have dr: "drafting F d n (take (p + length bytes) x) (fd_ino out) t (os_fs s2)" by simp
        have pos: "position s2 input = p + length bytes" using write_all_pos [OF w] re Suc.prems(3) by simp
        show ?thesis by (rule Suc.IH [OF run(2) dr pos len(2)]) (use Suc.prems(5) len(1) in linarith)
      qed
    qed
  qed
qed simp

lemma sys_create_pos:
  assumes "run_state (sys_create dir n mode) s = (r, s')" "k < os_fd_next s"
  shows "os_pos s' k = os_pos s k" "k < os_fd_next s'"
  using assms(1) [unfolded sys_create_def] assms(2)
  by (cases rule: sys_cases; auto simp: new_fd_def create_file_def split: if_splits)+

lemma open_temporary_pos:
  assumes "run_state (open_temporary a dir n) s = (r, s')" "k < os_fd_next s"
  shows "os_pos s' k = os_pos s k"
  using assms
proof (induction a arbitrary: s)
  case (Suc a)
  obtain x s1 where x: "run_state random_u32 s = (x, s1)" by fastforce
  then have s1: "os_pos s1 = os_pos s" "os_fd_next s1 = os_fd_next s" by (auto simp: random_u32_def)
  obtain b s2 where b: "run_state (sys_create dir (temporary_name n x) 0x180) s1 = (b, s2)" by fastforce
  note c = sys_create_pos [OF b, of k]
  show ?case
  proof (cases "length (temporary_name n x) \<ge> PATH_MAX")
    case True
    with Suc.prems x s1 show ?thesis by auto
  next
    case False
    then have "run_state (case b of
          Inl e \<Rightarrow> if e = EEXIST then open_temporary a dir n else done_with (Inl PV_ERR_IO)
        | Inr f \<Rightarrow> done_with (Inr (f, temporary_name n x))) s2 = (r, s')"
      using Suc.prems(1) x b by (simp add: Let_def)
    with c s1 Suc.prems(2) Suc.IH [of s2] show ?thesis by (cases b) (auto split: if_splits)
  qed
qed simp

lemma check_private_pos: "run_state (check_private f) s = (r, s') \<Longrightarrow> os_pos s' = os_pos s"
  using fstat_private_spec(2) by (auto simp: check_private_def split: prod.splits)

lemma copy_file_exclusive_at_spec:
  assumes "run_state (copy_file_exclusive_at source_dir source_name dir n) s = (r, s')"
    and "fs_ok (os_fs s)" "fd_ino dir < fs_next (os_fs s)" "i_kind (fs_inode (os_fs s) (fd_ino dir)) = Directory"
  shows "os_fs s' = os_fs s \<and> r \<noteq> PV_OK \<or>
    (\<exists>j. entry (os_fs s) (fd_ino source_dir) source_name = Some j \<and>
       published_or_not (os_fs s) (fd_ino dir) n (i_data (fs_inode (os_fs s) j)) True PV_ERR_IO r (os_fs s'))"
proof -
  obtain a s1 where a: "run_state (open_private_snapshot_at source_dir source_name) s = (a, s1)" by fastforce
  have F1: "os_fs s1 = os_fs s" by (rule quiet_same [OF quiet_snapshot_open a])
  show ?thesis
  proof (cases a)
    case (Inl e)
    then have "e \<noteq> PV_OK"
      using a by (auto simp: open_private_snapshot_at_def fstat_private_def split: prod.splits sum.splits if_splits)
    with Inl assms(1) a F1 show ?thesis by (auto simp: copy_file_exclusive_at_def)
  next
    case (Inr ip)
    obtain input st where ip: "ip = (input, st)" by (cases ip)
    note os = open_private_snapshot_spec [OF a [unfolded Inr ip]]
    obtain b s2 where b: "run_state (open_temporary 32 dir n) s1 = (b, s2)" by fastforce
    note ot = open_temporary_drafts [OF b, unfolded F1, OF assms(3)]
    show ?thesis
    proof (cases b)
      case Inl': (Inl e)
      then have "r = e" "os_fs s' = os_fs s2"
        using assms(1) a b Inr ip quiet_same [OF quiet_readers(4), of input s2]
        by (auto simp: copy_file_exclusive_at_def split: prod.splits)
      with ot Inl' show ?thesis by auto
    next
      case Inr': (Inr ft)
      obtain out t where ft: "ft = (out, t)" by (cases ft)
      note d1 = drafted_start [OF b [unfolded Inr' ft], unfolded F1, OF assms(3)]
      let ?x = "i_data (fs_inode (os_fs s) (fd_ino input))"
      obtain r0 t0 r1 t1 r2 t2 r3 t3 r4 t4 r5 t5 where run:
        "run_state (check_private out) s2 = (r0, t0)"
        "run_state (if_ok r0 (copy_loop (nat (st_size st) + 1) input out)) t0 = (r1, t1)"
        "run_state (if_ok r1 (check_private out)) t1 = (r2, t2)"
        "run_state (if_ok r2 (sync_status out)) t2 = (r3, t3)"
        "run_state (close_status input r3) t3 = (r4, t4)"
        "run_state (close_status out r4) t4 = (r5, t5)"
        "run_state (publish dir t n True PV_ERR_IO r5) t5 = (r, s')"
        using assms(1) a b Inr ip Inr' ft
        by (auto simp: copy_file_exclusive_at_def run_bind_iff simp del: run_state_bind)
      have d0: "drafted (os_fs s) (fd_ino dir) n [] (fd_ino out) t r0 (os_fs t0)"
        using drafted_check [of PV_OK out s2 r0 t0, OF _ d1] run(1) by (simp add: if_ok_def)
      have pos: "position t0 input = 0"
        using check_private_pos [OF run(1)] open_temporary_pos [OF b os(6)] os(5) by simp
      have "drafted (os_fs s) (fd_ino dir) n ?x (fd_ino out) t r1 (os_fs t1)"
        using run(2)
      proof (cases rule: if_ok_cases)
        case run
        show ?thesis
          by (rule copy_loop_spec [OF run(2), where p = 0])
            (use d0 run(1) pos os fs_okD [OF assms(2)] in \<open>auto simp: drafted_def stat_of_def Let_def\<close>)
      qed (use d0 in \<open>auto simp: drafted_def\<close>)
      note sync = drafted_sync [OF run(4) drafted_check [OF run(3) this]]
      note c1 = drafted_close [OF run(5) conjunct1 [OF sync] conjunct2 [OF sync]]
      note c2 = drafted_close [OF run(6) conjunct1 [OF c1] conjunct2 [OF c1]]
      show ?thesis
        using drafted_publish [OF run(7) conjunct1 [OF c2] conjunct2 [OF c2] assms(2-4)] os(2) by blast
    qed
  qed
qed

section \<open>Power loss\<close>

text \<open>
  What a directory entry may lead to after a power loss: the entry is its last value or an earlier
  one that was not replaced on the disk for certain, and a file whose data is not known to be on the
  disk may have any content.
\<close>

definition file_states :: "fs \<Rightarrow> nat option \<Rightarrow> byte list option set" where
  "file_states F e =
     (case e of
        None \<Rightarrow> {None}
      | Some i \<Rightarrow> if i_synced (fs_inode F i) then {Some (i_data (fs_inode F i))} else range Some)"

definition outcomes :: "fs \<Rightarrow> nat \<Rightarrow> byte list \<Rightarrow> byte list option set" where
  "outcomes F d n = (\<Union>e \<in> insert (entry F d n) (set (fs_past F d n)). file_states F e)"

definition content :: "fs \<Rightarrow> nat \<Rightarrow> byte list \<Rightarrow> byte list option" where
  "content F d n = map_option (\<lambda>i. i_data (fs_inode F i)) (entry F d n)"

lemma grows_file_states:
  assumes "grows F G" "\<And>i. e = Some i \<Longrightarrow> i < fs_next F"
  shows "file_states G e \<subseteq> file_states F e"
  using assms by (auto simp: file_states_def grows_def split: option.split)

lemma past_bound:
  assumes "fs_ok F" "e \<in> insert (entry F d n) (set (fs_past F d n))" "e = Some i"
  shows "i < fs_next F"
  using assms unfolding fs_ok_def by (metis insert_iff)

lemma grows_outcomes:
  assumes "grows F G" "fs_ok F" "e \<in> insert (entry F d n) (set (fs_past F d n))"
  shows "file_states G e \<subseteq> outcomes F d n"
  using grows_file_states [OF assms(1) past_bound [OF assms(2,3)]] assms(3) unfolding outcomes_def by blast

lemma changes_outcomes:
  assumes "changes X F G" "(d, n) \<notin> X" "d < fs_next F" "fs_ok F"
  shows "outcomes G d n \<subseteq> outcomes F d n" "content G d n = content F d n"
proof -
  have e: "entry G d n = entry F d n" "set (fs_past G d n) \<subseteq> set (fs_past F d n)" "grows F G"
    using assms unfolding changes_def by auto
  show "outcomes G d n \<subseteq> outcomes F d n"
    using e(1,2) grows_outcomes [OF e(3) assms(4), of _ d n] unfolding outcomes_def [of G] by blast
  show "content G d n = content F d n"
    using e fs_okD [OF assms(4), of d n] by (cases "entry F d n") (auto simp: content_def grows_def)
qed

lemma placed_outcomes:
  assumes "placed F d n x G" "fs_ok F"
  shows "outcomes G d n \<subseteq> insert (Some x) (outcomes F d n)" "content G d n = Some x"
    "fs_past G d n = [] \<Longrightarrow> outcomes G d n = {Some x}"
proof -
  obtain i where i: "entry G d n = Some i" "i_data (fs_inode G i) = x" "i_synced (fs_inode G i)"
    and past: "set (fs_past G d n) \<subseteq> insert (entry F d n) (set (fs_past F d n))" and g: "grows F G"
    using assms(1) by (auto simp: placed_def changes_def)
  have now: "file_states G (entry G d n) = {Some x}" using i by (simp add: file_states_def)
  show "outcomes G d n \<subseteq> insert (Some x) (outcomes F d n)"
    using now past grows_outcomes [OF g assms(2), of _ d n] unfolding outcomes_def [of G] by blast
  show "content G d n = Some x" using i by (simp add: content_def)
  show "outcomes G d n = {Some x}" if "fs_past G d n = []" using that now by (simp add: outcomes_def)
qed

text \<open>
  \<open>replaced_or_kept F d n x late r G\<close>: the entry is replaced as a whole or not at all, at every
  moment and whatever a power loss leaves, and the status says which.
\<close>

definition replaced_or_kept :: "fs \<Rightarrow> nat \<Rightarrow> byte list \<Rightarrow> byte list \<Rightarrow> pv_status \<Rightarrow> fs \<Rightarrow> bool" where
  "replaced_or_kept F d n x r G \<longleftrightarrow>
     outcomes G d n \<subseteq> insert (Some x) (outcomes F d n) \<and>
     (r = PV_OK \<longrightarrow> outcomes G d n = {Some x}) \<and>
     (r \<in> {PV_OK, PV_ERR_DURABILITY} \<longrightarrow> content G d n = Some x) \<and>
     (r \<notin> {PV_OK, PV_ERR_DURABILITY} \<longrightarrow> content G d n = content F d n \<and> outcomes G d n \<subseteq> outcomes F d n)"

lemma published_replaced:
  assumes "published_or_not F d n x no_replace PV_ERR_DURABILITY r G" "fs_ok F" "d < fs_next F"
  shows "replaced_or_kept F d n x r G" "no_replace \<Longrightarrow> r \<in> {PV_OK, PV_ERR_DURABILITY} \<Longrightarrow> entry F d n = None"
proof -
  from assms(1) consider
      (kept) "changes (temporaries d n) F G" "r \<in> {PV_ERR_USAGE, PV_ERR_LIMIT, PV_ERR_IO, PV_ERR_EXISTS}"
    | (new) "placed F d n x G" "no_replace \<longrightarrow> entry F d n = None"
        "r = PV_ERR_DURABILITY \<or> r = PV_OK \<and> fs_past G d n = []"
    by (auto simp: published_or_not_def)
  then show "replaced_or_kept F d n x r G"
  proof cases
    case kept
    then show ?thesis using changes_outcomes [OF kept(1) _ assms(3,2), of n] by (auto simp: replaced_or_kept_def)
  next
    case new
    then show ?thesis using placed_outcomes [OF new(1) assms(2)] by (auto simp: replaced_or_kept_def)
  qed
  show "no_replace \<Longrightarrow> r \<in> {PV_OK, PV_ERR_DURABILITY} \<Longrightarrow> entry F d n = None"
    using assms(1) by (auto simp: published_or_not_def)
qed

lemma published_changes:
  "published_or_not F d n x no_replace late r G \<Longrightarrow> changes (insert (d, n) (temporaries d n)) F G"
  by (auto simp: published_or_not_def placed_def intro: changes_mono)

text \<open>
  C1. Writing a vault file is atomic. Whatever calls fail or are cut short, and whenever the power
  fails, the name leads to the complete new file or to what it led to before. The call returns
  \<^verbatim>\<open>PV_OK\<close> only if the new file is there for certain, \<^verbatim>\<open>PV_ERR_DURABILITY\<close> only if it is there
  now, and any other status only if the name leads to the old file, which no power loss can change.
  With \<open>no_replace\<close> an existing entry is never replaced. No other file changes its data, and no
  entry but those of temporary files is touched.
\<close>

theorem write_atomic_at_atomic:
  assumes "run_state (write_atomic_at loc header ciphertext no_replace) s = (r, s')"
    and "fs_ok (os_fs s)" "fd_ino (directory_fd loc) < fs_next (os_fs s)"
    and "i_kind (fs_inode (os_fs s) (fd_ino (directory_fd loc))) = Directory"
  defines "d \<equiv> fd_ino (directory_fd loc)" and "n \<equiv> loc_name loc"
  shows "replaced_or_kept (os_fs s) d n (header @ ciphertext) r (os_fs s') \<and>
    (no_replace \<and> r \<in> {PV_OK, PV_ERR_DURABILITY} \<longrightarrow> entry (os_fs s) d n = None) \<and>
    changes (insert (d, n) (temporaries d n)) (os_fs s) (os_fs s')"
proof -
  note spec = write_atomic_at_spec [OF assms(1-4), folded d_def n_def]
  from published_replaced [OF spec assms(2) assms(3) [folded d_def]] published_changes [OF spec]
  show ?thesis by blast
qed

section \<open>An instance\<close>

definition demo_inode :: "file_kind \<Rightarrow> u32 \<Rightarrow> byte list \<Rightarrow> inode" where
  "demo_inode kind mode bytes =
     \<lparr>i_kind = kind, i_mode = mode, i_uid = 7, i_nlink = 1, i_data = bytes, i_synced = True\<rparr>"

definition demo_fs :: "byte list \<Rightarrow> fs" where
  "demo_fs bytes =
     \<lparr>fs_inode = (\<lambda>i. if i = 0 then demo_inode Directory 0x1c0 [] else demo_inode Regular_file 0x180 bytes),
      fs_next = 2, fs_entries = (\<lambda>d. if d = 0 then [(ascii ''v'', 1)] else []), fs_past = (\<lambda>d n. []),
      fs_dirs = [(ascii ''/d'', 0)], fs_locks = []\<rparr>"

definition demo_os :: "fault list \<Rightarrow> byte list \<Rightarrow> os" where
  "demo_os faults bytes =
     \<lparr>os_fs = demo_fs bytes, os_faults = faults, os_alive = True, os_random = [0xabcd], os_pos = (\<lambda>i. 0), os_fd_next = 3,
      os_euid = 7, os_umask = 0x3f, os_clock = Some (1, 0)\<rparr>"

definition demo_location :: pv_store_location where
  "demo_location = \<lparr>directory_fd = \<lparr>fd_id = 0, fd_ino = 0\<rparr>, loc_name = ascii ''v'', loc_device = 0, loc_inode = 0\<rparr>"

lemma demo_fs_ok: "fs_ok (demo_fs bytes)"
  by (auto simp: fs_ok_def demo_fs_def entry_def split: if_splits)

lemma demo_os_simps [simp]:
  "os_fs (demo_os faults bytes) = demo_fs bytes" "fs_next (demo_fs bytes) = 2" "fd_ino (directory_fd demo_location) = 0"
  "i_kind (fs_inode (demo_fs bytes) 0) = Directory" "loc_name demo_location = ascii ''v''"
  by (simp_all add: demo_os_def demo_fs_def demo_location_def demo_inode_def)

theorem write_atomic_at_atomic_witness:
  "outcomes (os_fs (snd (run_state (write_atomic_at demo_location [1, 2] [3, 4] False)
     (demo_os [Call_ok, Call_ok, Call_short 1, Call_fails EINTR] [9])))) 0 (ascii ''v'') = {Some [1, 2, 3, 4]}"
proof -
  let ?run = "run_state (write_atomic_at demo_location [1, 2] [3, 4] False)
     (demo_os [Call_ok, Call_ok, Call_short 1, Call_fails EINTR] [9])"
  have "fst ?run = PV_OK" by code_simp
  with write_atomic_at_atomic [of demo_location "[1, 2]" "[3, 4]" False "demo_os _ [9]" "fst ?run" "snd ?run"] demo_fs_ok
  show ?thesis by (simp add: replaced_or_kept_def)
qed

end
