(* ===== verification/Pv_Backup.thy ===== *)
theory Pv_Backup
  imports Pv_Disk "HOL-Library.Product_Lexorder" "HOL-Library.List_Lexorder"
begin

text \<open>
  Automatic backups (\<^verbatim>\<open>src/store.c\<close>): the names of backup files, checking a backup,
  removing the oldest ones and making a new one.

  The code outside the sources is a parameter: libsodium, libcbor's streaming decoder and what the
  random generator delivers. Whether memory can be had is decided by the schedule of the system.
\<close>

record library =
  lib_sodium :: sodium
  lib_stream_decode :: "byte list \<Rightarrow> bool \<times> nat"
  lib_draws :: "nat \<Rightarrow> byte list list"
  lib_nonce :: "byte list"
  lib_fill :: "nat \<Rightarrow> byte list"

definition lib_ok :: "bool io" where
  "lib_ok = do { r \<leftarrow> sys_library; done_with (r = Inr ()) }"

definition lib_alloc :: "alloc io" where
  "lib_alloc = do { r \<leftarrow> sys_library;
     done_with (case r of Inr _ \<Rightarrow> Alloc_ok | Inl e \<Rightarrow> if e = EINVAL then Mlock_failed else Malloc_null) }"

definition decrypt_body :: "library \<Rightarrow> pv_file_header \<Rightarrow> byte list \<Rightarrow> byte list \<Rightarrow> byte list pv_result io" where
  "decrypt_body L header vmk ciphertext = do {
     mem \<leftarrow> lib_alloc; buffer \<leftarrow> lib_ok;
     done_with (pv_crypto_decrypt_body (lib_sodium L) mem buffer header vmk ciphertext) }"

definition init_model :: "byte list \<Rightarrow> pv_vault pv_result io" where
  "init_model path = do { arena \<leftarrow> lib_alloc; key \<leftarrow> lib_alloc; done_with (pv_model_init arena key path) }"

text \<open>Decoding always returns (\<open>pv_cbor_decode_total\<close> below), so the last case does not occur.\<close>

definition decode_vault :: "library \<Rightarrow> byte list \<Rightarrow> pv_vault \<Rightarrow> pv_vault pv_result io" where
  "decode_vault L input v = do {
     mp \<leftarrow> lib_ok; now \<leftarrow> now_ms;
     done_with (case pv_cbor_decode (lib_stream_decode L) mp now (lib_draws L) input v of
         Some r \<Rightarrow> r
       | None \<Rightarrow> Inl PV_ERR_STATE) }"

section \<open>Names\<close>

abbreviation PV_AUTO_BACKUP_NAME_LEN :: nat where "PV_AUTO_BACKUP_NAME_LEN \<equiv> 67"
abbreviation PV_AUTO_BACKUP_VAULT_OFFSET :: nat where "PV_AUTO_BACKUP_VAULT_OFFSET \<equiv> 8"
abbreviation PV_AUTO_BACKUP_MARKER_OFFSET :: nat where "PV_AUTO_BACKUP_MARKER_OFFSET \<equiv> 40"
abbreviation PV_AUTO_BACKUP_GENERATION_OFFSET :: nat where "PV_AUTO_BACKUP_GENERATION_OFFSET \<equiv> 42"
abbreviation PV_AUTO_BACKUP_EXTENSION_OFFSET :: nat where "PV_AUTO_BACKUP_EXTENSION_OFFSET \<equiv> 62"

definition PV_AUTO_BACKUP_PREFIX :: "byte list" where
  "PV_AUTO_BACKUP_PREFIX = ascii ''auto-v1-''"

text \<open>\<^verbatim>\<open>"%020llu"\<close>: the twenty decimal digits of a 64-bit number\<close>

fun decimal :: "nat \<Rightarrow> nat \<Rightarrow> byte list" where
  "decimal 0 n = []"
| "decimal (Suc k) n = decimal k (n div 10) @ [decimal_digit (n mod 10)]"

definition format_automatic_backup_name :: "byte list \<Rightarrow> u64 \<Rightarrow> byte list pv_result" where
  "format_automatic_backup_name vault_id generation =
     (if generation = 0 then Inl PV_ERR_USAGE
      else case pv_hex_encode vault_id (PV_VAULT_ID_BYTES * 2 + 1) of
        None \<Rightarrow> Inl PV_ERR_STATE
      | Some vault_hex \<Rightarrow>
          if vault_hex = [] then Inl PV_ERR_STATE
          else
            (let written = PV_AUTO_BACKUP_PREFIX @ vault_hex @ ascii ''-g'' @ decimal 20 (unat generation) @ ascii ''.pvlt''
             in if length written = PV_AUTO_BACKUP_NAME_LEN then Inr written else Inl PV_ERR_LIMIT))"

definition lowercase_hex_value :: "byte \<Rightarrow> nat option" where
  "lowercase_hex_value c =
     (if 0x30 \<le> c \<and> c \<le> 0x39 then Some (unat (c - 0x30))
      else if 0x61 \<le> c \<and> c \<le> 0x66 then Some (unat (c - 0x61) + 10)
      else None)"

fun parse_hex :: "byte list \<Rightarrow> byte list option" where
  "parse_hex (h # l # rest) =
     (case (lowercase_hex_value h, lowercase_hex_value l) of
        (Some high, Some low) \<Rightarrow> map_option ((#) (word_of_nat (high * 16 + low))) (parse_hex rest)
      | _ \<Rightarrow> None)"
| "parse_hex [] = Some []"
| "parse_hex [c] = None"

fun parse_generation :: "u64 \<Rightarrow> byte list \<Rightarrow> u64 option" where
  "parse_generation parsed [] = Some parsed"
| "parse_generation parsed (c # rest) =
     (if c < 0x30 \<or> c > 0x39 then None
      else
        (let digit = ucast (c - 0x30) :: u64
         in if parsed > (0xffffffffffffffff - digit) div 10 then None
            else parse_generation (parsed * 10 + digit) rest))"

definition parse_automatic_backup_name :: "byte list \<Rightarrow> (byte list \<times> u64) option" where
  "parse_automatic_backup_name name =
     (if length name \<noteq> PV_AUTO_BACKUP_NAME_LEN \<or>
         take PV_AUTO_BACKUP_VAULT_OFFSET name \<noteq> PV_AUTO_BACKUP_PREFIX \<or>
         take 2 (drop PV_AUTO_BACKUP_MARKER_OFFSET name) \<noteq> ascii ''-g'' \<or>
         take 5 (drop PV_AUTO_BACKUP_EXTENSION_OFFSET name) \<noteq> ascii ''.pvlt'' then None
      else case parse_hex (take (2 * PV_VAULT_ID_BYTES) (drop PV_AUTO_BACKUP_VAULT_OFFSET name)) of
        None \<Rightarrow> None
      | Some vault_id \<Rightarrow>
          (case parse_generation 0 (take 20 (drop PV_AUTO_BACKUP_GENERATION_OFFSET name)) of
             None \<Rightarrow> None
           | Some generation \<Rightarrow> if generation = 0 then None else Some (vault_id, generation)))"

section \<open>Pruning\<close>

definition validate_automatic_backup_entry ::
  "library \<Rightarrow> fd \<Rightarrow> byte list \<Rightarrow> byte list \<Rightarrow> byte list \<Rightarrow> u64 \<Rightarrow> stat pv_result io" where
  "validate_automatic_backup_entry L dir name vault_id vmk expected_generation =
     (if expected_generation = 0 then done_with (Inl PV_ERR_USAGE)
      else
        io_bind (read_disk_file_at (lib_sodium L) dir name) (\<lambda>disk.
        io_bind (decrypt_body L (df_header disk) vmk (df_ciphertext disk)) (\<lambda>plaintext.
        io_bind (init_model (ascii ''.'')) (\<lambda>v0.
        io_bind (decode_vault L plaintext v0) (\<lambda>decoded.
          done_with (if h_vault_id (df_header disk) \<noteq> vault_id \<or> v_generation decoded \<noteq> expected_generation
            then Inl PV_ERR_AUTH else Inr (df_stat disk)))))))"

record pv_backup_candidate =
  bc_name :: "byte list"
  bc_generation :: u64
  bc_device :: nat
  bc_inode :: nat

text \<open>
  \<^verbatim>\<open>compare_backup_candidates\<close> orders by generation, then by name as \<^verbatim>\<open>strcmp\<close> does,
  and \<^verbatim>\<open>qsort\<close> sorts by it.
\<close>

definition compare_key :: "pv_backup_candidate \<Rightarrow> nat \<times> nat list" where
  "compare_key c = (unat (bc_generation c), map unat (bc_name c))"

definition sort_candidates :: "pv_backup_candidate list \<Rightarrow> pv_backup_candidate list" where
  "sort_candidates = sort_key compare_key"

abbreviation sizeof_candidate :: size_t where "sizeof_candidate \<equiv> 96"

text \<open>Room for one more candidate in an array of the given capacity.\<close>

definition grow_candidates :: "nat \<Rightarrow> size_t \<Rightarrow> size_t pv_result io" where
  "grow_candidates count capacity =
     (if count \<noteq> unat capacity then done_with (Inr capacity)
      else
        (let next_capacity = (if capacity = 0 then 32 else capacity * 2)
         in if next_capacity < capacity \<or> pv_size_mul next_capacity sizeof_candidate = None then done_with (Inl PV_ERR_LIMIT)
            else do { r \<leftarrow> sys_library; done_with (case r of Inl e \<Rightarrow> Inl PV_ERR_NOMEM | Inr _ \<Rightarrow> Inr next_capacity) }))"

definition private_stat :: "nat \<Rightarrow> errno + stat \<Rightarrow> stat option" where
  "private_stat euid r =
     (case r of
        Inl e \<Rightarrow> None
      | Inr st \<Rightarrow> if private_snapshot_stat_issue euid st = PV_PRIVATE_SNAPSHOT_OK then Some st else None)"

fun scan_backups ::
  "library \<Rightarrow> fd \<Rightarrow> byte list \<Rightarrow> byte list \<Rightarrow> u64 \<Rightarrow> byte list list \<Rightarrow> pv_backup_candidate list \<Rightarrow> size_t \<Rightarrow>
     pv_backup_candidate list pv_result io" where
  "scan_backups L dir vault_id vmk maximum_generation [] candidates capacity = do {
     r \<leftarrow> sys_readdir;
     done_with (case r of Inl e \<Rightarrow> Inl PV_ERR_IO | Inr _ \<Rightarrow> Inr candidates) }"
| "scan_backups L dir vault_id vmk maximum_generation (name # names) candidates capacity = do {
     r \<leftarrow> sys_readdir;
     if r \<noteq> Inr () then done_with (Inl PV_ERR_IO)
     else case parse_automatic_backup_name name of
       None \<Rightarrow> scan_backups L dir vault_id vmk maximum_generation names candidates capacity
     | Some (parsed_vault_id, generation) \<Rightarrow>
         if parsed_vault_id \<noteq> vault_id
         then scan_backups L dir vault_id vmk maximum_generation names candidates capacity
         else do {
           st \<leftarrow> sys_fstatat dir name;
           euid \<leftarrow> geteuid;
           case private_stat euid st of
             None \<Rightarrow> done_with (Inl PV_ERR_IO)
           | Some listed_stat \<Rightarrow>
               io_bind (validate_automatic_backup_entry L dir name vault_id vmk generation) (\<lambda>opened_stat.
                 if st_dev listed_stat \<noteq> st_dev opened_stat \<or> st_ino listed_stat \<noteq> st_ino opened_stat
                 then done_with (Inl PV_ERR_IO)
                 else if perm_bits opened_stat = 0x100 \<or> generation > maximum_generation
                 then scan_backups L dir vault_id vmk maximum_generation names candidates capacity
                 else io_bind (grow_candidates (length candidates) capacity) (\<lambda>capacity1.
                   scan_backups L dir vault_id vmk maximum_generation names
                     (candidates @ [\<lparr>bc_name = name, bc_generation = generation, bc_device = st_dev opened_stat,
                        bc_inode = st_ino opened_stat\<rparr>])
                     capacity1)) } }"

definition still_there :: "fd \<Rightarrow> pv_backup_candidate \<Rightarrow> bool io" where
  "still_there dir c = do {
     st \<leftarrow> sys_fstatat dir (bc_name c);
     euid \<leftarrow> geteuid;
     done_with (case private_stat euid st of
         None \<Rightarrow> False
       | Some current \<Rightarrow> st_dev current = bc_device c \<and> st_ino current = bc_inode c) }"

fun check_candidates :: "fd \<Rightarrow> pv_backup_candidate list \<Rightarrow> pv_status io" where
  "check_candidates dir [] = done_with PV_OK"
| "check_candidates dir (c # cs) = do {
     ok \<leftarrow> still_there dir c;
     if ok then check_candidates dir cs else done_with PV_ERR_IO }"

text \<open>The result says also whether anything was deleted.\<close>

fun unlink_candidates :: "fd \<Rightarrow> pv_backup_candidate list \<Rightarrow> bool \<Rightarrow> (pv_status \<times> bool) io" where
  "unlink_candidates dir [] deleted = done_with (PV_OK, deleted)"
| "unlink_candidates dir (c # cs) deleted = do {
     ok \<leftarrow> still_there dir c;
     if \<not> ok then done_with (PV_ERR_IO, deleted)
     else do {
       u \<leftarrow> sys_unlink dir (bc_name c);
       case u of
         Inl e \<Rightarrow> done_with (PV_ERR_IO, deleted)
       | Inr _ \<Rightarrow> unlink_candidates dir cs True } }"

definition remove_oldest :: "fd \<Rightarrow> pv_backup_candidate list \<Rightarrow> nat \<Rightarrow> (pv_status \<times> bool) io" where
  "remove_oldest dir candidates retention =
     (if length candidates \<le> retention then done_with (PV_OK, False)
      else
        (let doomed = take (length candidates - retention) (sort_candidates candidates)
         in do {
           status \<leftarrow> check_candidates dir doomed;
           if status \<noteq> PV_OK then done_with (status, False) else unlink_candidates dir doomed False }))"

text \<open>
  The directory is opened a second time, as \<^verbatim>\<open>"."\<close>, for reading its entries;
  \<^verbatim>\<open>dirfd\<close> of an open stream does not fail.
\<close>

definition sys_open_self :: "fd \<Rightarrow> (errno + fd) io" where
  "sys_open_self dir = sys (\<lambda>_ s. new_fd (fd_ino dir) s)"

definition prune_names ::
  "library \<Rightarrow> fd \<Rightarrow> byte list \<Rightarrow> byte list \<Rightarrow> u64 \<Rightarrow> u32 \<Rightarrow> byte list list \<Rightarrow> pv_status io" where
  "prune_names L dir vault_id vmk maximum_generation retention names = do {
     found \<leftarrow> scan_backups L dir vault_id vmk maximum_generation names [] 0;
     result \<leftarrow> (case found of
         Inl e \<Rightarrow> done_with (e, False)
       | Inr candidates \<Rightarrow> remove_oldest dir candidates (unat retention));
     synced \<leftarrow> (if snd result then do {
         r \<leftarrow> sys_fsync dir;
         done_with (if fst result = PV_OK \<and> r \<noteq> Inr () then PV_ERR_DURABILITY else fst result) }
       else done_with (fst result));
     close_status dir synced }"

definition prune_automatic_backups ::
  "library \<Rightarrow> fd \<Rightarrow> byte list \<Rightarrow> byte list \<Rightarrow> u64 \<Rightarrow> u32 \<Rightarrow> pv_status io" where
  "prune_automatic_backups L held_dir vault_id vmk maximum_generation retention =
     (if maximum_generation = 0 \<or> retention = 0 then done_with PV_ERR_USAGE
      else do {
        st \<leftarrow> sys_fstat held_dir;
        euid \<leftarrow> geteuid;
        if (case st of Inl e \<Rightarrow> True
            | Inr st \<Rightarrow> st_kind st \<noteq> Directory \<or> st_uid st \<noteq> euid \<or> perm_bits st \<noteq> 0x1c0)
        then done_with PV_ERR_IO
        else do {
          opened \<leftarrow> sys_open_self held_dir;
          case opened of
            Inl e \<Rightarrow> done_with PV_ERR_IO
          | Inr dir \<Rightarrow> do {
              stream \<leftarrow> sys_opendir dir;
              case stream of
                Inl e \<Rightarrow> do { _ \<leftarrow> sys_close dir; done_with PV_ERR_IO }
              | Inr names \<Rightarrow> prune_names L dir vault_id vmk maximum_generation retention names } } })"

section \<open>Making a backup\<close>

definition write_backup :: "library \<Rightarrow> fd \<Rightarrow> byte list \<Rightarrow> byte list \<Rightarrow> pv_disk_file \<Rightarrow> pv_status io" where
  "write_backup L dir vault_id backup_name snapshot = do {
     w \<leftarrow> write_snapshot_exclusive_at dir backup_name (df_header_bytes snapshot) (df_ciphertext snapshot) 0x180;
     if w = PV_ERR_DURABILITY then done_with PV_ERR_IO
     else if w = PV_ERR_EXISTS then do {
       r \<leftarrow> read_disk_file_at (lib_sodium L) dir backup_name;
       case r of
         Inr existing \<Rightarrow>
           if h_vault_id (df_header existing) \<noteq> vault_id \<or> df_hash existing \<noteq> df_hash snapshot
           then done_with PV_ERR_EXISTS
           else sync_status dir
       | Inl e \<Rightarrow> done_with (if e = PV_ERR_FORMAT \<or> e = PV_ERR_UNSUPPORTED then PV_ERR_EXISTS else e) }
     else done_with w }"

text \<open>The result is the status and the descriptor of the backup directory, if it is still open.\<close>

definition automatic_backup ::
  "library \<Rightarrow> pv_store_location \<Rightarrow> pv_vault \<Rightarrow> pv_disk_file \<Rightarrow> u64 \<Rightarrow> (pv_status \<times> fd option) io" where
  "automatic_backup L active_location vault snapshot snapshot_generation = do {
     made \<leftarrow> make_private_directory_at (directory_fd active_location) (ascii ''backups'');
     case made of
       Inl e \<Rightarrow> done_with (e, None)
     | Inr dir \<Rightarrow>
         (case format_automatic_backup_name (v_vault_id vault) snapshot_generation of
            Inl e \<Rightarrow> done_with (e, Some dir)
          | Inr backup_name \<Rightarrow> do {
              status \<leftarrow> write_backup L dir (v_vault_id vault) backup_name snapshot;
              if status \<noteq> PV_OK then do { _ \<leftarrow> sys_close dir; done_with (status, None) }
              else done_with (status, Some dir) }) }"

section \<open>Names are canonical\<close>

lemma lowercase_hex_value_alphabet: "k < 16 \<Longrightarrow> lowercase_hex_value (hex_alphabet ! k) = Some k"
proof -
  have "list_all (\<lambda>n. lowercase_hex_value (hex_alphabet ! n) = Some n) [0..<16]" by code_simp
  then show "k < 16 \<Longrightarrow> ?thesis" by (simp add: list_all_iff)
qed

lemma hex_alphabet_nth: 
  "k < 10 \<Longrightarrow> hex_alphabet ! k = 0x30 + word_of_nat k"
  "k < 6 \<Longrightarrow> hex_alphabet ! (k + 10) = 0x61 + word_of_nat k"
proof -
  have "list_all (\<lambda>n. hex_alphabet ! n = 0x30 + word_of_nat n) [0..<10]"
    "list_all (\<lambda>n. hex_alphabet ! (n + 10) = 0x61 + word_of_nat n) [0..<6]" by code_simp+
  then show "k < 10 \<Longrightarrow> hex_alphabet ! k = 0x30 + word_of_nat k"
    "k < 6 \<Longrightarrow> hex_alphabet ! (k + 10) = 0x61 + word_of_nat k" by (simp_all add: list_all_iff)
qed

lemma unat_byte_diff: "a \<le> c \<Longrightarrow> unat (c - a) = unat c - unat a" for a c :: byte
  by (simp add: unat_sub)

lemma lowercase_hex_value_range:
  assumes "lowercase_hex_value c = Some k"
  shows "k < 16 \<and> c = hex_alphabet ! k"
proof (cases "0x30 \<le> c \<and> c \<le> 0x39")
  case True
  then have k: "k = unat (c - 0x30)" using assms by (simp add: lowercase_hex_value_def)
  have "k < 10" using True unfolding k by (simp add: unat_byte_diff word_le_nat_alt; linarith)
  then show ?thesis using k by (simp add: hex_alphabet_nth(1))
next
  case False
  then have c: "0x61 \<le> c" "c \<le> 0x66" "k = unat (c - 0x61) + 10"
    using assms by (auto simp: lowercase_hex_value_def split: if_splits)
  have "unat (c - 0x61) < 6" using c(1,2) by (simp add: unat_byte_diff word_le_nat_alt)
  then show ?thesis using c by (simp add: hex_alphabet_nth(2))
qed

lemma hex_pair_nibbles:
  assumes "h < 16" "l < 16"
  shows "hex_pair (word_of_nat (h * 16 + l)) = [hex_alphabet ! h, hex_alphabet ! l]"
proof -
  have "list_all (\<lambda>h. list_all (\<lambda>l. unat (drop_bit 4 (word_of_nat (h * 16 + l) :: byte)) = h \<and>
      unat ((word_of_nat (h * 16 + l) :: byte) AND 0x0f) = l) [0..<16]) [0..<16]"
    by code_simp
  with assms show ?thesis by (simp add: hex_pair_def list_all_iff)
qed

lemma hex_pair_cases:
  fixes b :: byte
  obtains h l where "h < 16" "l < 16" "b = word_of_nat (h * 16 + l)"
proof
  show "unat b div 16 < 16" "unat b mod 16 < 16" using unsigned_less [of b, where 'a = nat] by simp_all
  show "b = word_of_nat (unat b div 16 * 16 + unat b mod 16)" by simp
qed

lemma parse_hex_iff: "parse_hex xs = Some ys \<longleftrightarrow> xs = concat (map hex_pair ys)"
proof
  show "parse_hex xs = Some ys \<Longrightarrow> xs = concat (map hex_pair ys)"
    by (induction xs arbitrary: ys rule: parse_hex.induct)
      (auto simp: hex_pair_nibbles simp del: of_nat_add of_nat_mult dest!: lowercase_hex_value_range split: option.splits)
  have "parse_hex (concat (map hex_pair ys)) = Some ys"
  proof (induction ys)
    case (Cons b ys)
    obtain h l where "h < 16" "l < 16" "b = word_of_nat (h * 16 + l)" by (rule hex_pair_cases)
    with Cons show ?case by (simp add: hex_pair_nibbles lowercase_hex_value_alphabet del: of_nat_add of_nat_mult)
  qed simp
  then show "xs = concat (map hex_pair ys) \<Longrightarrow> parse_hex xs = Some ys" by simp
qed

text \<open>The value of a sequence of decimal digits\<close>

fun decimal_value :: "nat \<Rightarrow> byte list \<Rightarrow> nat" where
  "decimal_value p [] = p"
| "decimal_value p (c # cs) = decimal_value (p * 10 + unat (c - 0x30)) cs"

abbreviation digits :: "byte list \<Rightarrow> bool" where
  "digits \<equiv> list_all (\<lambda>c. 0x30 \<le> c \<and> c \<le> 0x39)"

lemma decimal_value_le: "p \<le> decimal_value p cs"
proof (induction cs arbitrary: p)
  case (Cons c cs)
  have "p * 10 + unat (c - 0x30) \<le> decimal_value (p * 10 + unat (c - 0x30)) cs" by (rule Cons)
  then show ?case by simp
qed simp

lemma decimal_value_append [simp]: "decimal_value p (xs @ ys) = decimal_value (decimal_value p xs) ys"
  by (induction xs arbitrary: p) simp_all

lemma overflow_guard:
  fixes p digit :: u64
  assumes "unat digit < 10"
  shows "p > (0xffffffffffffffff - digit) div 10 \<longleftrightarrow> 2 ^ 64 \<le> unat p * 10 + unat digit"
proof -
  have "unat (0xffffffffffffffff - digit) = 2 ^ 64 - 1 - unat digit"
    using assms by (subst unat_sub) (simp_all add: word_le_nat_alt)
  then have "unat ((0xffffffffffffffff - digit) div 10) = (2 ^ 64 - 1 - unat digit) div 10"
    by (simp add: unat_div)
  moreover have "(2 ^ 64 - 1 - unat digit) div 10 < unat p \<longleftrightarrow> 2 ^ 64 - 1 - unat digit < unat p * 10"
    by (rule div_less_iff_less_mult) simp
  ultimately show ?thesis using assms by (auto simp: word_less_nat_alt)
qed

lemma parse_generation_iff:
  "parse_generation p cs = Some g \<longleftrightarrow> digits cs \<and> decimal_value (unat p) cs = unat g"
proof (induction cs arbitrary: p)
  case Nil
  show ?case by (auto simp: unat_arith_simps(3))
next
  case (Cons c cs)
  let ?digit = "ucast (c - 0x30) :: u64"
  show ?case
  proof (cases "0x30 \<le> c \<and> c \<le> 0x39")
    case False
    then show ?thesis by (auto simp: not_less)
  next
    case True
    have small: "unat (c - 0x30) < 10" using True by (simp add: unat_byte_diff word_le_nat_alt; linarith)
    have d: "unat ?digit = unat (c - 0x30)"
      using small by (simp add: unsigned_ucast_eq take_bit_nat_eq_self)
    have guard: "p > (0xffffffffffffffff - ?digit) div 10 \<longleftrightarrow> 2 ^ 64 \<le> unat p * 10 + unat (c - 0x30)"
      using overflow_guard [of ?digit p] small d by simp
    have step: "parse_generation p (c # cs) =
        (if p > (0xffffffffffffffff - ?digit) div 10 then None else parse_generation (p * 10 + ?digit) cs)"
      using True by (auto simp: Let_def)
    show ?thesis
    proof (cases "2 ^ 64 \<le> unat p * 10 + unat (c - 0x30)")
      case overflow: True
      then have "2 ^ 64 \<le> decimal_value (unat p * 10 + unat (c - 0x30)) cs"
        using decimal_value_le order.trans by blast
      then have "decimal_value (unat p * 10 + unat (c - 0x30)) cs \<noteq> unat g" using unsigned_less [of g, where 'a = nat] by simp
      then show ?thesis unfolding step using overflow guard by simp
    next
      case False
      then have "unat (p * 10 + ?digit) = unat p * 10 + unat (c - 0x30)"
        by (simp add: unat_word_ariths d)
      then show ?thesis unfolding step using Cons True False guard by simp
    qed
  qed
qed

lemma decimal_digit_value:
  assumes "k < 10"
  shows "0x30 \<le> decimal_digit k \<and> decimal_digit k \<le> 0x39 \<and> unat (decimal_digit k - 0x30) = k"
proof -
  have "list_all (\<lambda>k. 0x30 \<le> decimal_digit k \<and> decimal_digit k \<le> 0x39 \<and> unat (decimal_digit k - 0x30) = k) [0..<10]"
    by code_simp
  with assms show ?thesis by (simp add: list_all_iff)
qed

lemma length_decimal [simp]: "length (decimal k n) = k"
  by (induction k arbitrary: n) simp_all

lemma digits_decimal: "digits (decimal k n)"
  by (induction k arbitrary: n) (simp_all add: decimal_digit_value)

lemma decimal_value_decimal: "decimal_value 0 (decimal k n) = n mod 10 ^ k"
proof (induction k arbitrary: n)
  case (Suc k)
  have "n mod 10 ^ Suc k = n div 10 mod 10 ^ k * 10 + n mod 10"
    by (simp add: mod_mult2_eq)
  with Suc show ?case by (simp add: decimal_digit_value)
qed simp

lemma decimal_digits:
  assumes "digits cs"
  shows "decimal (length cs) (decimal_value 0 cs) = cs"
  using assms
proof (induction cs rule: rev_induct)
  case (snoc c cs)
  have c: "0x30 \<le> c" "c \<le> 0x39" using snoc.prems by simp_all
  have small: "unat (c - 0x30) < 10" using c by (simp add: unat_byte_diff word_le_nat_alt; linarith)
  have "decimal_digit (unat (c - 0x30)) = c" by (simp add: decimal_digit_def)
  with snoc small show ?case by simp
qed simp

lemma generation_text:
  assumes "length cs = 20"
  shows "parse_generation 0 cs = Some g \<longleftrightarrow> cs = decimal 20 (unat g)"
proof -
  have g: "unat g < 10 ^ 20" using unsigned_less [of g, where 'a = nat] by simp
  show ?thesis
    using decimal_digits [of cs] decimal_value_decimal [of 20 "unat g"] g assms
    by (auto simp: parse_generation_iff digits_decimal)
qed

lemma backup_name_parts:
  assumes "length name = PV_AUTO_BACKUP_NAME_LEN"
  shows "name = take 8 name @ take 32 (drop 8 name) @ take 2 (drop 40 name) @ take 20 (drop 42 name) @ take 5 (drop 62 name)"
proof -
  have "drop (m + k) name = drop k (drop m name)" for m k by (simp add: add.commute)
  then have *: "drop 40 name = drop 32 (drop 8 name)" "drop 42 name = drop 2 (drop 40 name)"
    "drop 62 name = drop 20 (drop 42 name)" by simp_all
  have "take 5 (drop 62 name) = drop 62 name" using assms by simp
  then show ?thesis using * by (metis append_take_drop_id)
qed

lemma format_automatic_backup_name_iff:
  assumes "length vault_id = PV_VAULT_ID_BYTES"
  shows "format_automatic_backup_name vault_id g = Inr name \<longleftrightarrow> g \<noteq> 0 \<and>
    name = PV_AUTO_BACKUP_PREFIX @ concat (map hex_pair vault_id) @ ascii ''-g'' @ decimal 20 (unat g) @ ascii ''.pvlt''"
proof -
  have "concat (map hex_pair vault_id) \<noteq> []" using length_hex [of vault_id] assms by force
  then show ?thesis using assms
    by (auto simp: format_automatic_backup_name_def pv_hex_encode_def length_hex PV_AUTO_BACKUP_PREFIX_def ascii_def Let_def)
qed

lemma parse_automatic_backup_name_iff:
  "parse_automatic_backup_name name = Some (vault_id, g) \<longleftrightarrow> length vault_id = PV_VAULT_ID_BYTES \<and> g \<noteq> 0 \<and>
     name = PV_AUTO_BACKUP_PREFIX @ concat (map hex_pair vault_id) @ ascii ''-g'' @ decimal 20 (unat g) @ ascii ''.pvlt''"
proof
  assume p: "parse_automatic_backup_name name = Some (vault_id, g)"
  then have len: "length name = PV_AUTO_BACKUP_NAME_LEN" and hex: "take 32 (drop 8 name) = concat (map hex_pair vault_id)"
    and dec: "take 20 (drop 42 name) = decimal 20 (unat g)" and g: "g \<noteq> 0"
    and fixed: "take 8 name = PV_AUTO_BACKUP_PREFIX" "take 2 (drop 40 name) = ascii ''-g''" "take 5 (drop 62 name) = ascii ''.pvlt''"
    by (auto simp: parse_automatic_backup_name_def parse_hex_iff generation_text split: if_splits option.splits)
      (simp add: ascii_def)
  have "length vault_id = PV_VAULT_ID_BYTES" using arg_cong [OF hex, of length] len by (simp add: length_hex)
  then show "length vault_id = PV_VAULT_ID_BYTES \<and> g \<noteq> 0 \<and> name = PV_AUTO_BACKUP_PREFIX @ concat (map hex_pair vault_id) @
      ascii ''-g'' @ decimal 20 (unat g) @ ascii ''.pvlt''"
    using backup_name_parts [OF len] g unfolding hex dec fixed by simp
next
  assume f: "length vault_id = PV_VAULT_ID_BYTES \<and> g \<noteq> 0 \<and> name = PV_AUTO_BACKUP_PREFIX @ concat (map hex_pair vault_id) @
      ascii ''-g'' @ decimal 20 (unat g) @ ascii ''.pvlt''"
  have len: "length (concat (map hex_pair vault_id)) = 32" using f by (simp add: length_hex)
  have "parse_hex (concat (map hex_pair vault_id)) = Some vault_id" "parse_generation 0 (decimal 20 (unat g)) = Some g"
    by (simp_all add: parse_hex_iff generation_text)
  then show "parse_automatic_backup_name name = Some (vault_id, g)"
    using f len by (simp add: parse_automatic_backup_name_def PV_AUTO_BACKUP_PREFIX_def ascii_def)
qed

text \<open>
  C25. Backup names are canonical: a file name is read as a backup of generation \<open>g\<close> of the vault
  \<open>vault_id\<close> exactly if it is the name that is written for that vault and generation. So two
  backups of a vault with the same generation have the same name, no name is read in two ways, and a
  name whose number does not fit in 64 bits is not taken for one that does.
\<close>

theorem automatic_backup_name_canonical:
  "parse_automatic_backup_name name = Some (vault_id, g) \<longleftrightarrow>
     length vault_id = PV_VAULT_ID_BYTES \<and> format_automatic_backup_name vault_id g = Inr name"
  by (auto simp: parse_automatic_backup_name_iff format_automatic_backup_name_iff)

section \<open>What pruning removes\<close>

lemma quiet_library [frame]: "quiet P lib_ok" "quiet P lib_alloc"
  unfolding lib_ok_def lib_alloc_def by (intro frame)+

lemma quiet_validate [frame]:
  "quiet P (decrypt_body L h vmk c)" "quiet P (init_model path)" "quiet P (decode_vault L x v)"
  unfolding decrypt_body_def init_model_def decode_vault_def by (intro frame)+

lemma quiet_validate_entry [frame]: "quiet P (validate_automatic_backup_entry L dir n vault_id vmk g)"
  unfolding validate_automatic_backup_entry_def by (intro frame)

lemma quiet_grow [frame]: "quiet P (grow_candidates k capacity)"
  unfolding grow_candidates_def by (intro frame)

lemma keeps_option [frame]:
  "(r = None \<Longrightarrow> keeps I m R) \<Longrightarrow> (\<And>y. r = Some y \<Longrightarrow> keeps I (m' y) R) \<Longrightarrow>
     keeps I (case r of None \<Rightarrow> m | Some y \<Rightarrow> m' y) R"
  by (cases r) simp_all

lemma quiet_scan [frame]: "quiet P (scan_backups L dir vault_id vmk mx names cs capacity)"
proof (induction names arbitrary: cs capacity)
  case Nil
  show ?case unfolding scan_backups.simps by (intro frame)
next
  case (Cons n names)
  show ?case unfolding scan_backups.simps by (intro frame Cons)
qed

lemma quiet_still_there [frame]: "quiet P (still_there dir c)"
  unfolding still_there_def by (intro frame)

lemma quiet_check_candidates [frame]: "quiet P (check_candidates dir cs)"
  by (induction cs) (auto intro: frame)

text \<open>
  \<open>genuine_backup\<close>: the bytes are a vault file of the vault that the key opens, and its content
  has the generation.
\<close>

definition genuine_backup :: "library \<Rightarrow> byte list \<Rightarrow> byte list \<Rightarrow> u64 \<Rightarrow> byte list \<Rightarrow> bool" where
  "genuine_backup L vault_id vmk g bytes \<longleftrightarrow>
     (\<exists>header_bytes h ciphertext plaintext mp now v0 v.
        bytes = header_bytes @ ciphertext \<and> pv_header_decode header_bytes = Inr h \<and> h_vault_id h = vault_id \<and>
        pv_crypto_decrypt_body (lib_sodium L) Alloc_ok True h vmk ciphertext = Inr plaintext \<and>
        pv_cbor_decode (lib_stream_decode L) mp now (lib_draws L) plaintext v0 = Some (Inr v) \<and> v_generation v = g)"

lemma io_bind_Inr:
  assumes "run_state (io_bind m k) s = (Inr x, s')"
  obtains y s1 where "run_state m s = (Inr y, s1)" "run_state (k y) s1 = (Inr x, s')"
proof -
  obtain a s1 where "run_state m s = (a, s1)" by fastforce
  then show thesis using assms that by (cases a) (auto simp: io_bind_def)
qed

lemma decrypt_body_Inr:
  assumes "run_state (decrypt_body L h vmk c) s = (Inr x, s')"
  shows "pv_crypto_decrypt_body (lib_sodium L) Alloc_ok True h vmk c = Inr x"
proof -
  obtain mem buffer where "pv_crypto_decrypt_body (lib_sodium L) mem buffer h vmk c = Inr x"
    using assms by (auto simp: decrypt_body_def run_bind_iff simp del: run_state_bind)
  then show ?thesis
    by (cases mem; cases buffer; cases "body_key (lib_sodium L) vmk")
      (auto simp: pv_crypto_decrypt_body_def secure_key_alloc_def split: if_splits)
qed

lemma validate_entry_spec:
  assumes "run_state (validate_automatic_backup_entry L dir n vault_id vmk g) s = (Inr st, s')"
  shows "\<exists>i. entry (os_fs s) (fd_ino dir) n = Some i \<and> st = stat_of (os_fs s) i \<and> private_file s i \<and>
    genuine_backup L vault_id vmk g (i_data (fs_inode (os_fs s) i))"
proof -
  obtain disk s1 plaintext s2 v0 s3 decoded s4
    where d: "run_state (read_disk_file_at (lib_sodium L) dir n) s = (Inr disk, s1)"
      and p: "run_state (decrypt_body L (df_header disk) vmk (df_ciphertext disk)) s1 = (Inr plaintext, s2)"
      and v: "run_state (decode_vault L plaintext v0) s3 = (Inr decoded, s4)"
      and r: "h_vault_id (df_header disk) = vault_id" "v_generation decoded = g" "st = df_stat disk"
    using assms
    by (auto simp: validate_automatic_backup_entry_def split: if_splits elim!: io_bind_Inr)
  have dec: "pv_crypto_decrypt_body (lib_sodium L) Alloc_ok True (df_header disk) vmk (df_ciphertext disk) = Inr plaintext"
    by (rule decrypt_body_Inr [OF p])
  obtain mp now where "pv_cbor_decode (lib_stream_decode L) mp now (lib_draws L) plaintext v0 = Some (Inr decoded)"
    using v by (auto simp: decode_vault_def run_bind_iff simp del: run_state_bind split: option.splits)
  with d dec r show ?thesis
    by (elim read_disk_file_at_spec) (force simp: genuine_backup_def)
qed

text \<open>A backup that may be removed if there are enough newer ones.\<close>

definition removable :: "library \<Rightarrow> fs \<Rightarrow> nat \<Rightarrow> byte list \<Rightarrow> byte list \<Rightarrow> u64 \<Rightarrow> pv_backup_candidate \<Rightarrow> bool" where
  "removable L F d vault_id vmk maximum_generation c \<longleftrightarrow>
     parse_automatic_backup_name (bc_name c) = Some (vault_id, bc_generation c) \<and> bc_generation c \<le> maximum_generation \<and>
     entry F d (bc_name c) = Some (bc_inode c) \<and> perm_bits (stat_of F (bc_inode c)) = 0x180 \<and>
     genuine_backup L vault_id vmk (bc_generation c) (i_data (fs_inode F (bc_inode c)))"

lemma private_file_mode: "private_file s i \<Longrightarrow> perm_bits (stat_of (os_fs s) i) \<in> {0x100, 0x180}"
  by (auto simp: private_file_def private_snapshot_stat_issue_def Let_def split: if_splits)

text \<open>One step of the scan adds nothing, or the entry if it is a backup that may be removed.\<close>

lemma scan_accepted:
  assumes "run_state (if st_dev listed \<noteq> st_dev opened \<or> st_ino listed \<noteq> st_ino opened then done_with (Inl PV_ERR_IO)
      else if perm_bits opened = 0x100 \<or> g > mx then scan_backups L dir vault_id vmk mx names cs capacity
      else io_bind (grow_candidates (length cs) capacity) (\<lambda>capacity1. scan_backups L dir vault_id vmk mx names
        (cs @ [\<lparr>bc_name = n, bc_generation = g, bc_device = st_dev opened, bc_inode = st_ino opened\<rparr>]) capacity1)) s
      = (Inr cs', s')"
    and "run_state (validate_automatic_backup_entry L dir n vault_id vmk g) s0 = (Inr opened, s)"
    and "parse_automatic_backup_name n = Some (vault_id, g)"
  shows "\<exists>s1 added capacity1. os_fs s1 = os_fs s0 \<and> run_state (scan_backups L dir vault_id vmk mx names (cs @ added) capacity1) s1 =
    (Inr cs', s') \<and> (added = [] \<or> (\<exists>c. added = [c] \<and> bc_name c = n \<and> removable L (os_fs s0) (fd_ino dir) vault_id vmk mx c))"
proof -
  have s: "os_fs s = os_fs s0" using quiet_same [OF _ assms(2)] by (simp add: frame)
  obtain i where i: "entry (os_fs s0) (fd_ino dir) n = Some i" "opened = stat_of (os_fs s0) i" "private_file s0 i"
    "genuine_backup L vault_id vmk g (i_data (fs_inode (os_fs s0) i))"
    using validate_entry_spec [OF assms(2)] by auto
  show ?thesis
  proof (cases "perm_bits opened = 0x100 \<or> g > mx")
    case True
    then have "run_state (scan_backups L dir vault_id vmk mx names (cs @ []) capacity) s = (Inr cs', s')"
      using assms(1) by (auto split: if_splits)
    with s show ?thesis by blast
  next
    case False
    let ?c = "\<lparr>bc_name = n, bc_generation = g, bc_device = st_dev opened, bc_inode = st_ino opened\<rparr>"
    obtain capacity1 s1 where gr: "run_state (grow_candidates (length cs) capacity) s = (Inr capacity1, s1)"
      and more: "run_state (scan_backups L dir vault_id vmk mx names (cs @ [?c]) capacity1) s1 = (Inr cs', s')"
      using assms(1) False by (auto split: if_splits elim: io_bind_Inr)
    have "os_fs s1 = os_fs s0" using quiet_same [OF _ gr] s by (simp add: frame)
    moreover have "removable L (os_fs s0) (fd_ino dir) vault_id vmk mx ?c"
      using i False assms(3) private_file_mode [OF i(3)] by (simp add: removable_def stat_of_def Let_def not_less)
    ultimately show ?thesis using more by fastforce
  qed
qed

lemma scan_step:
  assumes "run_state (scan_backups L dir vault_id vmk mx (n # names) cs capacity) s = (Inr cs', s')"
  shows "\<exists>s1 added capacity1. os_fs s1 = os_fs s \<and> run_state (scan_backups L dir vault_id vmk mx names (cs @ added) capacity1) s1 =
    (Inr cs', s') \<and> (added = [] \<or> (\<exists>c. added = [c] \<and> bc_name c = n \<and> removable L (os_fs s) (fd_ino dir) vault_id vmk mx c))"
proof -
  obtain r s1 where r: "run_state sys_readdir s = (r, s1)" by fastforce
  have s1: "os_fs s1 = os_fs s" using quiet_same [OF _ r] by (simp add: frame)
  have ok: "r = Inr ()" using assms r by (auto split: if_splits)
  show ?thesis
  proof (cases "\<exists>g. parse_automatic_backup_name n = Some (vault_id, g)")
    case False
    then have "run_state (scan_backups L dir vault_id vmk mx names (cs @ []) capacity) s1 = (Inr cs', s')"
      using assms r ok by (auto split: option.splits prod.splits)
    with s1 show ?thesis by blast
  next
    case True
    then obtain g where name: "parse_automatic_backup_name n = Some (vault_id, g)" by blast
    obtain st s2 where st: "run_state (sys_fstatat dir n) s1 = (st, s2)" by fastforce
    obtain euid s3 where eu: "run_state geteuid s2 = (euid, s3)" by fastforce
    have s3: "os_fs s3 = os_fs s" using quiet_same [OF _ st] quiet_same [OF _ eu] s1 by (simp add: frame)
    obtain listed where listed: "private_stat euid st = Some listed"
      using assms r ok name st eu by (cases "private_stat euid st") auto
    show ?thesis
      using assms r ok name st eu listed scan_accepted [OF _ _ name, where ?s0.0 = s3] unfolding s3
      by (auto elim!: io_bind_Inr)
  qed
qed

lemma scan_backups_spec:
  assumes "run_state (scan_backups L dir vault_id vmk mx names cs capacity) s = (Inr cs', s')"
  shows "\<exists>new. cs' = cs @ new \<and> subseq (map bc_name new) names \<and>
    list_all (removable L (os_fs s) (fd_ino dir) vault_id vmk mx) new"
  using assms
proof (induction names arbitrary: cs capacity s)
  case Nil
  obtain r s1 where "run_state sys_readdir s = (r, s1)" by fastforce
  with Nil show ?case by (cases r) auto
next
  case (Cons n names)
  obtain s1 added capacity1 where s1: "os_fs s1 = os_fs s"
    and run: "run_state (scan_backups L dir vault_id vmk mx names (cs @ added) capacity1) s1 = (Inr cs', s')"
    and added: "added = [] \<or> (\<exists>c. added = [c] \<and> bc_name c = n \<and> removable L (os_fs s) (fd_ino dir) vault_id vmk mx c)"
    using scan_step [OF Cons.prems] by blast
  obtain new where "cs' = cs @ added @ new" "subseq (map bc_name new) names"
    "list_all (removable L (os_fs s) (fd_ino dir) vault_id vmk mx) new"
    using Cons.IH [OF run] s1 by auto
  then show ?case using added by (intro exI [of _ "added @ new"]) (auto intro: list_emb_Cons)
qed

lemma frame_unlink_candidates:
  assumes "\<And>c. c \<in> set cs \<Longrightarrow> (fd_ino dir, bc_name c) \<in> X"
  shows "frame X F (unlink_candidates dir cs deleted) (\<lambda>_. True)"
  using assms
proof (induction cs arbitrary: deleted)
  case Nil
  show ?case unfolding unlink_candidates.simps by (intro frame)
next
  case (Cons c cs)
  then show ?case unfolding unlink_candidates.simps by (intro frame frame_unlink Cons.IH) auto
qed

lemma frame_remove_oldest:
  assumes "(\<lambda>c. (fd_ino dir, bc_name c)) ` set (take (length cs - k) (sort_candidates cs)) \<subseteq> X"
  shows "frame X F (remove_oldest dir cs k) (\<lambda>_. True)"
  unfolding remove_oldest_def Let_def using assms by (intro frame frame_unlink_candidates) auto

lemma sys_open_self_spec:
  assumes "run_state (sys_open_self dir) s = (r, s')"
  shows "os_fs s' = os_fs s" "r = Inr f \<Longrightarrow> fd_ino f = fd_ino dir"
  using assms unfolding sys_open_self_def by (cases rule: sys_cases; auto simp: new_fd_def)+

lemma sys_opendir_spec:
  assumes "run_state (sys_opendir dir) s = (Inr names, s')"
  shows "names = map fst (fs_entries (os_fs s) (fd_ino dir))"
  using assms unfolding sys_opendir_def by (cases rule: sys_cases) auto

definition pruned :: "library \<Rightarrow> nat \<Rightarrow> byte list \<Rightarrow> byte list \<Rightarrow> u64 \<Rightarrow> nat \<Rightarrow> fs \<Rightarrow> pv_backup_candidate list \<Rightarrow> fs \<Rightarrow> bool" where
  "pruned L d vault_id vmk mx k F cs G \<longleftrightarrow> distinct (map bc_name cs) \<and> list_all (removable L F d vault_id vmk mx) cs \<and>
     changes ((\<lambda>c. (d, bc_name c)) ` set (take (length cs - k) (sort_candidates cs))) F G"

lemma pruned_none: "pruned L d vault_id vmk mx k F [] F"
  by (simp add: pruned_def)

lemma prune_names_spec:
  assumes "run_state (prune_names L dir vault_id vmk mx retention names) s = (r, s')" "distinct names"
  shows "\<exists>cs. pruned L (fd_ino dir) vault_id vmk mx (unat retention) (os_fs s) cs (os_fs s')"
proof -
  obtain found s1 where f: "run_state (scan_backups L dir vault_id vmk mx names [] 0) s = (found, s1)" by fastforce
  have s1: "os_fs s1 = os_fs s" using quiet_same [OF _ f] by (simp add: frame)
  define cs where "cs = (case found of Inl e \<Rightarrow> [] | Inr cs \<Rightarrow> cs)"
  have cs: "subseq (map bc_name cs) names" "list_all (removable L (os_fs s) (fd_ino dir) vault_id vmk mx) cs"
    using scan_backups_spec [of L dir vault_id vmk mx names "[]" 0 s cs s1] f by (auto simp: cs_def split: sum.splits)
  have "distinct (map bc_name cs)" using cs(1) assms(2) by (metis subseq_conv_nths distinct_nthsI)
  moreover define X where "X = (\<lambda>c. (fd_ino dir, bc_name c)) ` set (take (length cs - unat retention) (sort_candidates cs))"
  obtain result s2 where res: "run_state (case found of Inl e \<Rightarrow> done_with (e, False)
      | Inr candidates \<Rightarrow> remove_oldest dir candidates (unat retention)) s1 = (result, s2)" by fastforce
  have "frame X (os_fs s) (case found of Inl e \<Rightarrow> done_with (e, False)
      | Inr candidates \<Rightarrow> remove_oldest dir candidates (unat retention)) (\<lambda>_. True)"
    by (intro frame frame_remove_oldest) (simp add: X_def cs_def)
  from keepsD [OF this _ res] have s2: "changes X (os_fs s) (os_fs s2)" using s1 by simp
  have "frame X (os_fs s) (do {
      synced \<leftarrow> (if snd result then do {
          r \<leftarrow> sys_fsync dir;
          done_with (if fst result = PV_OK \<and> r \<noteq> Inr () then PV_ERR_DURABILITY else fst result) }
        else done_with (fst result));
      close_status dir synced }) (\<lambda>_. True)"
    by (intro frame)
  from keepsD [OF this s2] have "changes X (os_fs s) (os_fs s')"
    using assms(1) f res by (simp add: prune_names_def)
  ultimately show ?thesis using cs unfolding pruned_def X_def by blast
qed

lemma prune_automatic_backups_spec:
  assumes "run_state (prune_automatic_backups L held_dir vault_id vmk mx retention) s = (r, s')" "fs_ok (os_fs s)"
  shows "\<exists>cs. (retention = 0 \<longrightarrow> cs = []) \<and> pruned L (fd_ino held_dir) vault_id vmk mx (unat retention) (os_fs s) cs (os_fs s')"
proof -
  have idle: ?thesis if "os_fs s' = os_fs s" using that pruned_none by auto
  obtain st s1 where st: "run_state (sys_fstat held_dir) s = (st, s1)" by fastforce
  obtain euid s2 where eu: "run_state geteuid s1 = (euid, s2)" by fastforce
  have s2: "os_fs s2 = os_fs s" using quiet_same [OF _ st] quiet_same [OF _ eu] by (simp add: frame)
  obtain opened s3 where op: "run_state (sys_open_self held_dir) s2 = (opened, s3)" by fastforce
  have s3: "os_fs s3 = os_fs s" using sys_open_self_spec(1) [OF op] s2 by simp
  obtain stream s4 where str: "run_state (sys_opendir (projr opened)) s3 = (stream, s4)" by fastforce
  have s4: "os_fs s4 = os_fs s" using quiet_same [OF _ str] s3 by (simp add: frame)
  obtain c s5 where cl: "run_state (sys_close (projr opened)) s4 = (c, s5)" by fastforce
  have s5: "os_fs s5 = os_fs s" using quiet_same [OF _ cl] s4 by (simp add: frame)
  show ?thesis
  proof (cases "s' \<in> {s, s2, s3, s5}")
    case True
    then show ?thesis using idle s2 s3 s5 by auto
  next
    case False
    then obtain dir names where o: "opened = Inr dir" "stream = Inr names" "retention \<noteq> 0"
      using assms(1) st eu op str cl
      by (cases opened; cases stream) (auto simp: prune_automatic_backups_def split: if_splits)
    have names: "names = map fst (fs_entries (os_fs s) (fd_ino dir))" and dir: "fd_ino dir = fd_ino held_dir"
      using sys_opendir_spec [of dir s3 names s4] str sys_open_self_spec(2) [OF op] o s3 by simp_all
    have "distinct names" using assms(2) unfolding names fs_ok_def by blast
    moreover have "run_state (prune_names L dir vault_id vmk mx retention names) s4 = (r, s')"
      using assms(1) st eu op str o False by (simp add: prune_automatic_backups_def split: if_splits)
    ultimately show ?thesis using prune_names_spec [of L dir vault_id vmk mx retention names s4 r s'] o(3) dir s4 by auto
  qed
qed

lemma finite_entries: "finite {n. entry F d n \<noteq> None}"
proof -
  have "{n. entry F d n \<noteq> None} = dom (map_of (fs_entries F d))" by (auto simp: entry_def)
  then show ?thesis by (simp add: finite_dom_map_of)
qed

text \<open>The names of the backups of a vault that are newer than a generation and the same in two file systems.\<close>

definition newer_kept :: "fs \<Rightarrow> fs \<Rightarrow> nat \<Rightarrow> byte list \<Rightarrow> u64 \<Rightarrow> u64 \<Rightarrow> byte list set" where
  "newer_kept F G d vault_id g mx = {m. \<exists>g'. parse_automatic_backup_name m = Some (vault_id, g') \<and> g < g' \<and> g' \<le> mx \<and>
     entry F d m \<noteq> None \<and> entry G d m = entry F d m}"

lemma distinct_sorted_names: "distinct (map bc_name cs) \<Longrightarrow> distinct (map bc_name (sort_candidates cs))"
  by (simp add: sort_candidates_def distinct_map)

lemma candidates_split:
  assumes "distinct (map bc_name cs)" "c \<in> set (take j (sort_candidates cs))" "c2 \<in> set (drop j (sort_candidates cs))"
  shows "bc_name c \<noteq> bc_name c2" "bc_generation c \<le> bc_generation c2"
proof -
  let ?cs = "sort_candidates cs"
  have "distinct (map bc_name ?cs)" by (rule distinct_sorted_names [OF assms(1)])
  moreover have split: "?cs = take j ?cs @ drop j ?cs" by simp
  ultimately have "set (map bc_name (take j ?cs)) \<inter> set (map bc_name (drop j ?cs)) = {}"
    by (metis distinct_append map_append)
  then show "bc_name c \<noteq> bc_name c2" using assms(2,3) by auto
  have "sorted (map compare_key ?cs)" by (simp add: sort_candidates_def)
  then have "sorted (map compare_key (take j ?cs) @ map compare_key (drop j ?cs))"
    by (metis split map_append)
  then have "compare_key c \<le> compare_key c2" using assms(2,3) by (auto simp: sorted_append)
  then show "bc_generation c \<le> bc_generation c2" by (auto simp: compare_key_def word_le_nat_alt)
qed

lemma pruned_entry:
  assumes p: "pruned L d vault_id vmk mx k F cs G" and d: "d' < fs_next F" and e: "entry G d' n \<noteq> entry F d' n"
  shows "d' = d \<and> (\<exists>c. bc_name c = n \<and> removable L F d vault_id vmk mx c \<and>
    k \<le> card (newer_kept F G d vault_id (bc_generation c) mx))"
proof -
  define j where "j = length cs - k"
  let ?old = "take j (sort_candidates cs)" and ?new = "drop j (sort_candidates cs)"
  have dist: "distinct (map bc_name cs)" and rem: "\<And>c. c \<in> set cs \<Longrightarrow> removable L F d vault_id vmk mx c"
    and ch: "changes ((\<lambda>c. (d, bc_name c)) ` set ?old) F G"
    using p by (auto simp: pruned_def j_def list_all_iff)
  have sub: "set ?old \<subseteq> set cs" "set ?new \<subseteq> set cs" and len: "length (sort_candidates cs) = length cs"
    using set_take_subset [of j "sort_candidates cs"] set_drop_subset [of j "sort_candidates cs"] by (auto simp: sort_candidates_def)
  have "(d', n) \<in> (\<lambda>c. (d, bc_name c)) ` set ?old" using ch d e by (auto simp: changes_def)
  then obtain c where c: "c \<in> set ?old" "d' = d" "n = bc_name c" by auto
  have k: "k \<le> length cs" using c(1) by (cases "k \<le> length cs") (auto simp: j_def)
  have "bc_name ` set ?new \<subseteq> newer_kept F G d vault_id (bc_generation c) mx"
  proof (clarify)
    fix c2 assume c2: "c2 \<in> set ?new"
    have "bc_name c \<noteq> bc_name c2" "bc_generation c \<le> bc_generation c2" by (rule candidates_split [OF dist c(1) c2])+
    moreover have r: "removable L F d vault_id vmk mx c" "removable L F d vault_id vmk mx c2" using rem sub c(1) c2 by auto
    ultimately have "bc_generation c < bc_generation c2"
      by (auto simp: removable_def parse_automatic_backup_name_iff order.order_iff_strict)
    moreover have "(d, bc_name c2) \<notin> (\<lambda>c. (d, bc_name c)) ` set ?old" using candidates_split(1) [OF dist _ c2] by (metis (no_types, lifting) Pair_inject imageE)
    then have "entry G d (bc_name c2) = entry F d (bc_name c2)" using ch d c(2) by (auto simp: changes_def)
    ultimately show "bc_name c2 \<in> newer_kept F G d vault_id (bc_generation c) mx"
      using r(2) by (auto simp: newer_kept_def removable_def)
  qed
  moreover have "finite (newer_kept F G d vault_id (bc_generation c) mx)"
    by (rule finite_subset [OF _ finite_entries [of F d]]) (auto simp: newer_kept_def)
  moreover have "distinct (map bc_name (sort_candidates cs))"
    by (rule distinct_sorted_names [OF dist])
  then have "card (bc_name ` set ?new) = k"
    using k len by (metis card_image distinct_card distinct_drop distinct_map drop_map diff_diff_cancel j_def length_drop length_map set_map)
  ultimately have "k \<le> card (newer_kept F G d vault_id (bc_generation c) mx)" using card_mono by metis
  then show ?thesis using c rem sub by blast
qed

lemma pruned_changes:
  "pruned L d vault_id vmk mx k F cs G \<Longrightarrow> changes ({d} \<times> {n. \<exists>g. parse_automatic_backup_name n = Some (vault_id, g) \<and> g \<le> mx}) F G"
  unfolding pruned_def
  by (elim conjE changes_mono)
    (auto simp: list_all_iff removable_def sort_candidates_def dest!: in_set_takeD)

text \<open>
  C4. Pruning is safe, whatever calls fail and whenever the power fails. No file changes its data,
  and only entries of the backup directory can go whose names are backup names of this vault of a
  generation that is not above the given one. What is removed was a file with mode 0600 (so not one
  the user protected with 0400) whose content the vault's key opens as that generation of the vault,
  and at least as many newer backups of the vault as are to be retained are still there.
\<close>

theorem prune_automatic_backups_safe:
  assumes "run_state (prune_automatic_backups L held_dir vault_id vmk mx retention) s = (r, s')" "fs_ok (os_fs s)"
  defines "F \<equiv> os_fs s" and "G \<equiv> os_fs s'"
  shows "changes ({fd_ino held_dir} \<times> {n. \<exists>g. parse_automatic_backup_name n = Some (vault_id, g) \<and> g \<le> mx}) F G \<and>
    (\<forall>d n. d < fs_next F \<and> entry G d n \<noteq> entry F d n \<longrightarrow> d = fd_ino held_dir \<and>
       (\<exists>g i. parse_automatic_backup_name n = Some (vault_id, g) \<and> entry F d n = Some i \<and>
          perm_bits (stat_of F i) = 0x180 \<and> genuine_backup L vault_id vmk g (i_data (fs_inode F i)) \<and>
          unat retention \<le> card (newer_kept F G d vault_id g mx)))"
proof -
  obtain cs where p: "pruned L (fd_ino held_dir) vault_id vmk mx (unat retention) F cs G"
    using prune_automatic_backups_spec [OF assms(1,2)] unfolding F_def G_def by blast
  show ?thesis using pruned_changes [OF p] pruned_entry [OF p] by (fastforce simp: removable_def)
qed
section \<open>An instance\<close>

definition demo_library :: library where
  "demo_library =
     \<lparr>lib_sodium = demo_sodium, lib_stream_decode = sample_stream, lib_draws = \<lambda>i. [], lib_nonce = replicate 24 3,
      lib_fill = \<lambda>n. replicate n 7\<rparr>"

theorem prune_automatic_backups_safe_witness:
  "entry (os_fs (snd (run_state (prune_automatic_backups demo_library \<lparr>fd_id = 0, fd_ino = 0\<rparr> (replicate 16 1) (replicate 32 6)
     5 1) (demo_os [Call_ok, Call_ok, Power_loss] [9])))) 0 (ascii ''v'') = Some 1"
proof -
  let ?run = "run_state (prune_automatic_backups demo_library \<lparr>fd_id = 0, fd_ino = 0\<rparr> (replicate 16 1) (replicate 32 6) 5 1)
    (demo_os [Call_ok, Call_ok, Power_loss] [9])"
  have run: "?run = (fst ?run, snd ?run)" by simp
  have v: "entry (demo_fs [9]) 0 (ascii ''v'') = Some 1" by code_simp
  have "parse_automatic_backup_name (ascii ''v'') = None" by code_simp
  moreover have "fs_ok (os_fs (demo_os [Call_ok, Call_ok, Power_loss] [9]))" by (simp add: demo_fs_ok)
  from prune_automatic_backups_safe [OF run this, THEN conjunct2, THEN spec, THEN spec, of 0 "ascii ''v''"]
  have "entry (os_fs (snd ?run)) 0 (ascii ''v'') = entry (demo_fs [9]) 0 (ascii ''v'') \<or>
      parse_automatic_backup_name (ascii ''v'') \<noteq> None"
    unfolding demo_os_simps by (metis option.distinct(1) zero_less_numeral)
  ultimately show ?thesis using v by simp
qed

lemma decode_records_total: "rd_ok r \<Longrightarrow> decode_records mp now draws i n r v \<noteq> None"
proof (induction n arbitrary: i r v)
  case (Suc n)
  obtain q r1 where t: "decode_temporary r = (q, r1)" by fastforce
  show ?case
  proof (cases q)
    case None
    then show ?thesis using t by (simp add: decode_record_def)
  next
    case (Some temporary)
    from acceptsD [OF accepts_temporary Suc.prems t [unfolded Some]] obtain rest where
      ok: "temporary_ok temporary" and tail: "rd_tail r = record_bytes (map_record slice_bytes temporary) @ rest"
      and r1: "r1 = advance (length (record_bytes (map_record slice_bytes temporary))) r" .
    have "\<not> id_is_zero (r_id temporary)"
      using ok by (auto simp: temporary_ok_def stored_wf_def)
    then obtain x v1 where add: "pv_model_add_record mp now (draws i) temporary v = Some (x, v1)"
      using add_record_returns by fastforce
    have "rd_ok r1" using rd_ok_advance [OF Suc.prems tail] r1 by simp
    from Suc.IH [OF this] show ?thesis using t add Some by (cases x) (simp_all add: decode_record_def)
  qed
qed simp

lemma pv_cbor_decode_total: "pv_cbor_decode stream_decode mp now draws input v \<noteq> None"
proof -
  let ?r = "\<lparr>rd_data = input, rd_pos = 0, rd_status = PV_OK\<rparr>"
  obtain q r where t: "decode_top ?r = (q, r)" by fastforce
  have "rd_ok ?r" if "length input \<le> PV_MAX_PLAINTEXT" using that by (simp add: rd_ok_def)
  then have "rd_ok r" if "q = Some x" "length input \<le> PV_MAX_PLAINTEXT" for x
    using acceptsD [OF accepts_top _ t [unfolded that(1)]] that rd_ok_advance by metis
  then show ?thesis
    using t by (auto simp: pv_cbor_decode_def not_less split: option.splits prod.splits sum.splits)
      (metis decode_records_total option.distinct(1))
qed

section \<open>What making a backup does\<close>

lemma sys_openat_dir_spec:
  assumes "run_state (sys_openat_dir dir n) s = (Inr f, s')"
  shows "os_fs s' = os_fs s" "entry (os_fs s) (fd_ino dir) n = Some (fd_ino f)"
    "i_kind (fs_inode (os_fs s) (fd_ino f)) = Directory"
  using assms unfolding sys_openat_dir_def
  by (cases rule: sys_cases; auto simp: new_fd_def split: option.splits if_splits)+

lemma changes_entry_kept:
  assumes "changes {} F G" "fs_ok F" "entry F d n = Some i" "d < fs_next F"
  shows "entry G d n = Some i" "i_kind (fs_inode G i) = i_kind (fs_inode F i)"
  using assms fs_okD [OF assms(2,3)] by (auto simp: changes_def grows_def)

lemma frame_private_directory [frame]: "frame X F (private_directory dir) (\<lambda>_. True)"
  unfolding private_directory_def by (intro frame)

lemma make_private_directory_spec:
  assumes "run_state (make_private_directory_at dir n) s = (r, s')" "fs_ok (os_fs s)" "fd_ino dir < fs_next (os_fs s)"
  shows "changes (fresh_entry (os_fs s) (fd_ino dir) n) (os_fs s) (os_fs s') \<and> r \<notin> {Inl PV_OK, Inl PV_ERR_DURABILITY} \<and>
    (\<forall>f. r = Inr f \<longrightarrow> entry (os_fs s') (fd_ino dir) n = Some (fd_ino f) \<and>
       i_kind (fs_inode (os_fs s') (fd_ino f)) = Directory)"
proof -
  let ?X = "fresh_entry (os_fs s) (fd_ino dir) n"
  obtain made s1 where mk: "run_state (sys_mkdirat dir n 0x1c0) s = (made, s1)" by fastforce
  have ch: "changes ?X (os_fs s) (os_fs s1)" by (rule sys_mkdirat_spec [OF mk assms(3)])
  obtain opened s2 where op: "run_state (sys_openat_dir dir n) s1 = (opened, s2)" by fastforce
  have s2: "os_fs s2 = os_fs s1" using quiet_same [OF _ op] by (simp add: frame)
  show ?thesis
  proof (cases "s' \<in> {s, s1, s2} \<and> r \<in> {Inl PV_ERR_USAGE, Inl PV_ERR_IO}")
    case True
    then show ?thesis using ch s2 by auto
  next
    case False
    then obtain f where f: "opened = Inr f" and rest: "run_state (do {
        ok \<leftarrow> private_directory f;
        if \<not> ok then do { _ \<leftarrow> sys_close f; done_with (Inl PV_ERR_IO) }
        else if made = Inr () then do {
          x \<leftarrow> sys_fsync dir;
          if x \<noteq> Inr () then do { _ \<leftarrow> sys_close f; done_with (Inl PV_ERR_IO) } else done_with (Inr f) }
        else done_with (Inr f) }) s2 = (r, s')"
      using assms(1) mk op by (cases opened) (auto simp: make_private_directory_at_def split: if_splits)
    have "keeps (\<lambda>s. changes {} (os_fs s2) (os_fs s)) (do {
        ok \<leftarrow> private_directory f;
        if \<not> ok then do { _ \<leftarrow> sys_close f; done_with (Inl PV_ERR_IO) }
        else if made = Inr () then do {
          x \<leftarrow> sys_fsync dir;
          if x \<noteq> Inr () then do { _ \<leftarrow> sys_close f; done_with (Inl PV_ERR_IO) } else done_with (Inr f) }
        else done_with (Inr f) }) (\<lambda>r. r \<in> {Inl PV_ERR_IO, Inr f})"
      by (intro frame keeps_return) simp_all
    from keepsD [OF this _ rest] have ch2: "changes {} (os_fs s2) (os_fs s')" and r: "r \<in> {Inl PV_ERR_IO, Inr f}" by auto
    have "changes ?X (os_fs s) (os_fs s')" using changes_trans [OF ch, of "{}" _ ?X] ch2 s2 by simp
    moreover have "entry (os_fs s') (fd_ino dir) n = Some (fd_ino f) \<and> i_kind (fs_inode (os_fs s') (fd_ino f)) = Directory"
      using changes_entry_kept [OF ch2, of "fd_ino dir" n "fd_ino f"] sys_openat_dir_spec [OF op [unfolded f]] s2
        changes_ok [OF ch assms(2)] changes_next [OF ch] assms(3) by simp
    ultimately show ?thesis using r by auto
  qed
qed

text \<open>The errors a program may report\<close>

abbreviation errors :: "pv_status set \<Rightarrow> 'a pv_result io \<Rightarrow> bool" where
  "errors E m \<equiv> keeps (\<lambda>_. True) m (\<lambda>r. \<forall>e. r = Inl e \<longrightarrow> e \<in> E)"

lemma errors_io_bind:
  assumes "errors E m" "\<And>x. errors E (k x)"
  shows "errors E (io_bind m k)"
  unfolding io_bind_def by (rule keeps_bind [OF assms(1)]) (auto intro!: frame keeps_return assms(2))

lemma keeps_anything: "keeps (\<lambda>_. True) m (\<lambda>_. True)"
  by (simp add: keeps_def)

lemma errors_after: "(\<And>a. errors E (k a)) \<Longrightarrow> errors E (m \<bind> k)"
  by (rule keeps_bind [OF keeps_anything])

lemma errors_return: "(\<And>e. r = Inl e \<Longrightarrow> e \<in> E) \<Longrightarrow> errors E (done_with r)"
  by (rule keeps_return) auto

lemmas errors_intros = errors_io_bind errors_after errors_return keeps_if keeps_sum keeps_prod keeps_Let keeps_option

lemma errors_bind:
  assumes "errors E m" "\<And>a. (\<And>e. a = Inl e \<Longrightarrow> e \<in> E) \<Longrightarrow> errors E' (k a)"
  shows "errors E' (m \<bind> k)"
  by (rule keeps_bind [OF assms(1)]) (blast intro: assms(2))

lemma errors_mono: "errors E m \<Longrightarrow> E \<subseteq> E' \<Longrightarrow> errors E' m"
  unfolding keeps_def by blast

lemma errors_fstat_private: "errors {PV_ERR_IO} (fstat_private f)"
  unfolding fstat_private_def by (intro errors_intros) (auto split: sum.splits if_splits)

lemma errors_snapshot_open: "errors {PV_ERR_IO} (open_private_snapshot_at dir n)"
  unfolding open_private_snapshot_at_def
  by (rule errors_after, rule keeps_sum, intro errors_intros, simp, rule errors_bind [OF errors_fstat_private])
    (intro errors_intros; simp)

lemma errors_read_all: "errors {PV_ERR_IO} (read_all f n)"
proof -
  have "e = PV_ERR_IO" if "read_loop f n got s = (Inl e, s')" for n got s e s'
    using that
  proof (induction f n got s rule: read_loop.induct)
    case (1 f n got s)
    obtain a s1 where "run_state (sys_read f n) s = (a, s1)" by fastforce
    with 1 show ?case by (cases a) (auto simp: read_loop.simps [of f n got s] split: if_splits)
  qed
  then show ?thesis by (auto simp: keeps_def read_all_def)
qed

lemma errors_disk_body: "errors {PV_ERR_IO, PV_ERR_NOMEM, PV_ERR_STATE, PV_ERR_FORMAT} (read_disk_body S f st hb h)"
  unfolding read_disk_body_def
proof (rule errors_after, rule keeps_if)
  fix m
  have extra: "keeps (\<lambda>_. True) (case r of Inl e \<Rightarrow> done_with e
      | Inr _ \<Rightarrow> do { extra \<leftarrow> read_retry f 1; done_with (if extra \<noteq> Inr [] then PV_ERR_FORMAT else PV_OK) })
      (\<lambda>s1. s1 \<in> {PV_OK, PV_ERR_IO, PV_ERR_FORMAT})"
    if "\<And>e. r = Inl e \<Longrightarrow> e \<in> {PV_ERR_IO}" for r :: "byte list pv_result"
    by (intro keeps_sum keeps_return keeps_bind [OF keeps_anything]) (use that in auto)
  have closed: "keeps (\<lambda>_. True) (close_status f s1) (\<lambda>s2. s2 \<in> {s1, PV_ERR_IO})" for s1
    unfolding keeps_def using close_status_result(3) by blast
  show "errors {PV_ERR_IO, PV_ERR_NOMEM, PV_ERR_STATE, PV_ERR_FORMAT} (sys_close f \<bind> (\<lambda>_. done_with (Inl PV_ERR_NOMEM)))"
    by (intro errors_intros) simp
  show "errors {PV_ERR_IO, PV_ERR_NOMEM, PV_ERR_STATE, PV_ERR_FORMAT} (do {
       r \<leftarrow> read_all f (unat (h_body_ciphertext_len h));
       s1 \<leftarrow> (case r of
           Inl e \<Rightarrow> done_with e
         | Inr _ \<Rightarrow> do { extra \<leftarrow> read_retry f 1; done_with (if extra \<noteq> Inr [] then PV_ERR_FORMAT else PV_OK) });
       s2 \<leftarrow> close_status f s1;
       case r of
         Inl e \<Rightarrow> done_with (Inl e)
       | Inr ciphertext \<Rightarrow>
           if s2 \<noteq> PV_OK then done_with (Inl s2)
           else io_bind (hash_disk_file S hb ciphertext) (\<lambda>hash.
             done_with (Inr \<lparr>df_header_bytes = hb, df_header = h, df_ciphertext = ciphertext, df_hash = hash, df_stat = st\<rparr>)) })"
    unfolding hash_disk_file_def
    by (rule errors_bind [OF errors_read_all], rule keeps_bind [OF extra], assumption, rule keeps_bind [OF closed])
      (intro errors_intros; auto split: sum.splits)
qed

abbreviation read_errors :: "pv_status set" where
  "read_errors \<equiv> {PV_ERR_IO, PV_ERR_NOMEM, PV_ERR_STATE, PV_ERR_FORMAT, PV_ERR_UNSUPPORTED}"

lemma header_decode_errors: "pv_header_decode x = Inl e \<Longrightarrow> e \<in> {PV_ERR_FORMAT, PV_ERR_UNSUPPORTED}"
  by (auto simp: pv_header_decode_def Let_def split: if_splits)

lemma errors_disk_file_at: "errors read_errors (read_disk_file_at S dir n)"
proof -
  have main: "errors read_errors (read_all f PV_FILE_HEADER_LEN \<bind> (\<lambda>r.
      case res_bind r (\<lambda>header_bytes. res_bind (pv_header_decode header_bytes) (\<lambda>header. Inr (header_bytes, header))) of
        Inl e \<Rightarrow> do { _ \<leftarrow> sys_close f; done_with (Inl e) }
      | Inr (header_bytes, header) \<Rightarrow>
          (let expected_size = word_of_nat PV_FILE_HEADER_LEN + h_body_ciphertext_len header
           in if expected_size > 0x7fffffffffffffff \<or> st_size st \<noteq> uint expected_size
              then do { _ \<leftarrow> sys_close f; done_with (Inl PV_ERR_FORMAT) }
              else read_disk_body S f st header_bytes header)))" for f st
  proof (rule errors_bind [OF errors_read_all], intro errors_intros errors_mono [OF errors_disk_body])
    fix r :: "byte list pv_result" and e e'
    assume r: "\<And>e. r = Inl e \<Longrightarrow> e \<in> {PV_ERR_IO}" and "Inl e = (Inl e' :: pv_disk_file pv_result)"
      and "res_bind r (\<lambda>header_bytes. res_bind (pv_header_decode header_bytes) (\<lambda>header. Inr (header_bytes, header))) = Inl e"
    then show "e' \<in> read_errors" using header_decode_errors by (cases r; cases "pv_header_decode (projr r)") fastforce+
  qed auto
  show ?thesis
    unfolding read_disk_file_at_def
    by (rule errors_io_bind, rule errors_mono [OF errors_snapshot_open], simp, rule keeps_prod, rule keeps_if)
      (intro errors_after errors_return, simp, rule main)
qed

abbreviation backups_name :: "byte list" where "backups_name \<equiv> ascii ''backups''"

text \<open>
  What a backup may change when the vault is in the directory \<open>d\<close>: the entry of the backup
  directory if there is none, and entries of other directories.
\<close>

definition elsewhere :: "fs \<Rightarrow> nat \<Rightarrow> (nat \<times> byte list) set" where
  "elsewhere F d = fresh_entry F d backups_name \<union> {(d', n). d' \<noteq> d}"

text \<open>The backup directory of \<open>d\<close> has a file of the given name whose content has the given hash.\<close>

definition backed_up :: "library \<Rightarrow> fs \<Rightarrow> nat \<Rightarrow> byte list \<Rightarrow> u64 \<Rightarrow> byte list \<Rightarrow> bool" where
  "backed_up L F d vault_id g hash \<longleftrightarrow>
     (\<exists>b name bytes. entry F d backups_name = Some b \<and> format_automatic_backup_name vault_id g = Inr name \<and>
        content F b name = Some bytes \<and> generichash (lib_sodium L) bytes = hash)"

lemma content_some: "entry F d n = Some i \<Longrightarrow> content F d n = Some (i_data (fs_inode F i))"
  by (simp add: content_def)

lemma sync_status_keeps:
  assumes "run_state (sync_status f) s = (r, s')"
  shows "changes {} (os_fs s) (os_fs s')" "r \<in> {PV_OK, PV_ERR_IO}"
proof -
  show "changes {} (os_fs s) (os_fs s')" using keepsD [OF frame_sync_status [of "{}" "os_fs s"] _ assms] by simp
  show "r \<in> {PV_OK, PV_ERR_IO}"
    using assms io_status_range by (auto simp: sync_status_def run_bind_iff simp del: run_state_bind)
qed

lemma write_backup_spec:
  assumes "run_state (write_backup L dir vault_id name snapshot) s = (status, s')"
    and ok: "fs_ok (os_fs s)" and d: "fd_ino dir < fs_next (os_fs s)" and kind: "i_kind (fs_inode (os_fs s) (fd_ino dir)) = Directory"
    and hash: "df_hash snapshot = generichash (lib_sodium L) (df_header_bytes snapshot @ df_ciphertext snapshot)"
  shows "changes {(d', n). d' = fd_ino dir} (os_fs s) (os_fs s') \<and> status \<noteq> PV_ERR_DURABILITY \<and>
    (status = PV_OK \<longrightarrow> (\<exists>bytes. content (os_fs s') (fd_ino dir) name = Some bytes \<and>
       generichash (lib_sodium L) bytes = df_hash snapshot))"
proof -
  let ?X = "{(d', n). d' = fd_ino dir}" and ?x = "df_header_bytes snapshot @ df_ciphertext snapshot"
  obtain w s1 where w: "run_state (write_snapshot_exclusive_at dir name (df_header_bytes snapshot) (df_ciphertext snapshot) 0x180) s =
      (w, s1)" by fastforce
  have pub: "published_or_not (os_fs s) (fd_ino dir) name ?x True PV_ERR_DURABILITY w (os_fs s1)"
    by (rule write_snapshot_exclusive_at_spec [OF w ok d kind])
  have ch: "changes ?X (os_fs s) (os_fs s1)"
    by (rule changes_mono [OF published_changes [OF pub]]) (auto simp: temporaries_def)
  show ?thesis
  proof (cases "w = PV_ERR_EXISTS")
    case False
    then have "s' = s1" "status = (if w = PV_ERR_DURABILITY then PV_ERR_IO else w)"
      using assms(1) w by (auto simp: write_backup_def split: if_splits)
    moreover have "content (os_fs s1) (fd_ino dir) name = Some ?x" if "w = PV_OK"
      using pub that placed_outcomes(2) [OF _ ok] by (auto simp: published_or_not_def)
    ultimately show ?thesis using ch hash by auto
  next
    case True
    obtain r s2 where r: "run_state (read_disk_file_at (lib_sodium L) dir name) s1 = (r, s2)" by fastforce
    have s2: "os_fs s2 = os_fs s1" using quiet_same [OF _ r] by (simp add: frame)
    show ?thesis
    proof (cases "s' = s2 \<and> status \<notin> {PV_OK, PV_ERR_DURABILITY}")
      case True
      then show ?thesis using ch s2 by auto
    next
      case False
      have "e \<notin> {PV_OK, PV_ERR_DURABILITY}" if "r = Inl e" for e
        using keepsD [OF errors_disk_file_at _ r] that by auto
      then obtain existing where ex: "r = Inr existing" "df_hash existing = df_hash snapshot"
        and sync: "run_state (sync_status dir) s2 = (status, s')"
        using assms(1) w r False True by (cases r) (auto simp: write_backup_def split: if_splits)
      have ch2: "changes {} (os_fs s1) (os_fs s')" using sync_status_keeps(1) [OF sync] s2 by simp
      obtain i where i: "entry (os_fs s1) (fd_ino dir) name = Some i"
        "i_data (fs_inode (os_fs s1) i) = df_header_bytes existing @ df_ciphertext existing"
        "df_hash existing = generichash (lib_sodium L) (df_header_bytes existing @ df_ciphertext existing)"
        using r ex by (auto elim: read_disk_file_at_spec)
      have "content (os_fs s') (fd_ino dir) name = content (os_fs s1) (fd_ino dir) name"
        by (rule changes_outcomes(2) [OF ch2]) (use changes_next [OF ch] d changes_ok [OF ch ok] in auto)
      moreover have "changes ?X (os_fs s) (os_fs s')" by (rule changes_trans [OF ch ch2]) auto
      ultimately show ?thesis using i ex(2) sync_status_keeps(2) [OF sync] by (auto simp: content_some)
    qed
  qed
qed

lemma automatic_backup_spec:
  assumes "run_state (automatic_backup L location v snapshot g) s = ((status, f), s')"
    and ok: "fs_ok (os_fs s)" and d: "fd_ino (directory_fd location) < fs_next (os_fs s)"
    and hash: "df_hash snapshot = generichash (lib_sodium L) (df_header_bytes snapshot @ df_ciphertext snapshot)"
  defines "d \<equiv> fd_ino (directory_fd location)"
  shows "changes (elsewhere (os_fs s) d) (os_fs s) (os_fs s') \<and> status \<noteq> PV_ERR_DURABILITY \<and>
    (status = PV_OK \<longrightarrow> backed_up L (os_fs s') d (v_vault_id v) g (df_hash snapshot) \<and>
       (\<exists>dir. f = Some dir \<and> entry (os_fs s') d backups_name = Some (fd_ino dir) \<and>
          i_kind (fs_inode (os_fs s') (fd_ino dir)) = Directory))"
proof -
  obtain made s1 where mk: "run_state (make_private_directory_at (directory_fd location) backups_name) s = (made, s1)" by fastforce
  note mks = make_private_directory_spec [OF mk ok d, folded d_def]
  have sub: "fresh_entry (os_fs s) d backups_name \<subseteq> elsewhere (os_fs s) d" by (auto simp: elsewhere_def)
  have ch1: "changes (elsewhere (os_fs s) d) (os_fs s) (os_fs s1)" using changes_mono [OF _ sub] mks by blast
  show ?thesis
  proof (cases "s' = s1 \<and> status \<notin> {PV_OK, PV_ERR_DURABILITY}")
    case True
    then show ?thesis using ch1 by auto
  next
    case False
    have fmt: "e \<notin> {PV_OK, PV_ERR_DURABILITY}" if "format_automatic_backup_name (v_vault_id v) g = Inl e" for e
      using that by (auto simp: format_automatic_backup_name_def Let_def split: if_splits option.splits)
    obtain dir name where dir: "made = Inr dir" and name: "format_automatic_backup_name (v_vault_id v) g = Inr name"
      using assms(1) mk False fmt mks
      by (cases made; cases "format_automatic_backup_name (v_vault_id v) g") (auto simp: automatic_backup_def)
    have e: "entry (os_fs s1) d backups_name = Some (fd_ino dir)" "i_kind (fs_inode (os_fs s1) (fd_ino dir)) = Directory"
      using mks dir by auto
    have ok1: "fs_ok (os_fs s1)" by (rule changes_ok [OF ch1 ok])
    obtain st s2 where w: "run_state (write_backup L dir (v_vault_id v) name snapshot) s1 = (st, s2)" by fastforce
    note ws = write_backup_spec [OF w ok1 _ e(2) hash]
    have dir_ok: "fd_ino dir < fs_next (os_fs s1)" "fd_ino dir \<noteq> d" using fs_okD [OF ok1 e(1)] by auto
    obtain c s3 where cl: "run_state (sys_close dir) s2 = (c, s3)" by fastforce
    have s3: "os_fs s3 = os_fs s2" using quiet_same [OF _ cl] by (simp add: frame)
    have fin: "os_fs s' = os_fs s2" "status = st" "st = PV_OK \<Longrightarrow> f = Some dir"
      using assms(1) mk dir name w cl s3 by (auto simp: automatic_backup_def split: if_splits)
    have "changes (elsewhere (os_fs s) d) (os_fs s) (os_fs s2)"
      by (rule changes_trans [OF ch1 conjunct1 [OF ws]]) (use dir_ok in \<open>auto simp: elsewhere_def\<close>)
    moreover have "entry (os_fs s2) d backups_name = Some (fd_ino dir)"
      using ws dir_ok e(1) d changes_next [OF ch1] unfolding changes_def d_def by auto
    moreover have "i_kind (fs_inode (os_fs s2) (fd_ino dir)) = Directory"
      using ws dir_ok(1) e(2) unfolding changes_def grows_def by auto
    ultimately show ?thesis using ws dir_ok(1) fin name by (auto simp: backed_up_def)
  qed
qed

end
