(* ===== verification/Pv_Secure.thy ===== *)
theory Pv_Secure
  imports Pv_Crypto
begin

text \<open>
  Secrets and the terminal (\<^verbatim>\<open>src/secure.c\<close>): guarded buffers, the policy for master
  passwords, and reading a secret from \<^verbatim>\<open>/dev/tty\<close> with echo off and signals held back.

  The answers of the kernel are scripts in the state: the results of \<^verbatim>\<open>poll\<close> and
  \<^verbatim>\<open>read\<close> in order, each with the signal delivered while the call was running (0 for none);
  when a script of these two ends, the call has not returned yet. The other calls succeed once their
  script of failures is used up. Whether memory can be allocated and locked is an argument.
\<close>

section \<open>Buffers\<close>

record pv_buffer =
  b_data :: "byte list option"
  b_len :: nat
  b_secure :: bool

definition buffer_zero :: pv_buffer where
  "buffer_zero = \<lparr>b_data = None, b_len = 0, b_secure = False\<rparr>"

definition pv_secure_buffer_alloc :: "alloc \<Rightarrow> nat \<Rightarrow> pv_buffer \<Rightarrow> unit pv_result \<times> pv_buffer" where
  "pv_secure_buffer_alloc mem len buffer =
     (if len = 0 \<or> len > PV_MAX_PLAINTEXT then (Inl PV_ERR_USAGE, buffer)
      else case mem of
        Malloc_null \<Rightarrow> (Inl PV_ERR_NOMEM, \<lparr>b_data = None, b_len = len, b_secure = True\<rparr>)
      | Mlock_failed \<Rightarrow> (Inl PV_ERR_SECURE_MEMORY, buffer_zero)
      | Alloc_ok \<Rightarrow> (Inr (), \<lparr>b_data = Some (replicate len 0), b_len = len, b_secure = True\<rparr>))"

definition pv_buffer_secure_free :: "pv_buffer \<Rightarrow> pv_buffer" where
  "pv_buffer_secure_free buffer = buffer_zero"

abbreviation PV_SECRET_INPUT_MAX :: nat where "PV_SECRET_INPUT_MAX \<equiv> 1024"

definition allocate_secret :: "alloc \<Rightarrow> pv_buffer \<Rightarrow> unit pv_result \<times> pv_buffer" where
  "allocate_secret mem secret =
     (case pv_secure_buffer_alloc mem (PV_SECRET_INPUT_MAX + 1) secret of
        (Inl e, b) \<Rightarrow> (Inl e, b)
      | (Inr u, b) \<Rightarrow> (Inr u, b\<lparr>b_len := 0\<rparr>))"

section \<open>Process start-up\<close>

text \<open>The arguments say which of the calls succeed, in the order in which they are made.\<close>

definition pv_secure_process_hardening :: "bool \<Rightarrow> bool \<Rightarrow> unit pv_result" where
  "pv_secure_process_hardening core_limit dumpable =
     (if \<not> core_limit then Inl PV_ERR_SECURE_MEMORY
      else if \<not> dumpable then Inl PV_ERR_SECURE_MEMORY
      else Inr ())"

definition normalize_sigchld_state :: "bool list \<Rightarrow> unit pv_result" where
  "normalize_sigchld_state calls = (if list_ex Not (take 5 calls) then Inl PV_ERR_STATE else Inr ())"

definition pv_global_init :: "bool \<Rightarrow> bool list \<Rightarrow> bool \<Rightarrow> bool \<Rightarrow> unit pv_result" where
  "pv_global_init sodium calls core_limit dumpable =
     (if \<not> sodium then Inl PV_ERR_STATE
      else res_bind (normalize_sigchld_state calls) (\<lambda>_. pv_secure_process_hardening core_limit dumpable))"

section \<open>Master passwords\<close>

abbreviation PV_MASTER_PASSWORD_MIN_BYTES :: nat where "PV_MASTER_PASSWORD_MIN_BYTES \<equiv> 16"

definition ascii_lower :: "byte \<Rightarrow> byte" where
  "ascii_lower b = (if 0x41 \<le> b \<and> b \<le> 0x5a then b + (0x61 - 0x41) else b)"

definition password_equals_ascii_casefold :: "byte list \<Rightarrow> byte list \<Rightarrow> bool" where
  "password_equals_ascii_casefold password candidate \<longleftrightarrow>
     length password = length candidate \<and>
     fold (\<lambda>i difference. difference OR (ascii_lower (password ! i) XOR ascii_lower (candidate ! i)))
       [0..<length password] 0 = 0"

text \<open>An inner loop that runs to the end is a loop whose condition held at every index.\<close>

definition password_follows_cycle :: "byte list \<Rightarrow> byte list \<Rightarrow> bool" where
  "password_follows_cycle password cycle \<longleftrightarrow>
     list_ex (\<lambda>offset.
        list_all (\<lambda>i. ascii_lower (password ! i) = ascii_lower (cycle ! ((offset + i) mod length cycle)))
          [0..<length password])
       [0..<length cycle]"

definition cycles :: "byte list list" where
  "cycles =
     [ascii ''0123456789'', ascii ''9876543210'', ascii ''abcdefghijklmnopqrstuvwxyz'',
      ascii ''zyxwvutsrqponmlkjihgfedcba'', ascii ''qwertyuiopasdfghjklzxcvbnm'',
      ascii ''mnbvcxzlkjhgfdsapoiuytrewq'']"

definition password_is_full_sequence :: "byte list \<Rightarrow> bool" where
  "password_is_full_sequence password \<longleftrightarrow>
     (length password \<ge> 2 \<and>
      (let step = int (unat (password ! 1)) - int (unat (password ! 0))
       in (step = 1 \<or> step = - 1) \<and>
          list_all (\<lambda>i. int (unat (password ! i)) - int (unat (password ! (i - 1))) = step) [2..<length password])) \<or>
     list_ex (password_follows_cycle password) cycles"

definition password_is_periodic :: "byte list \<Rightarrow> bool" where
  "password_is_periodic password \<longleftrightarrow>
     list_ex (\<lambda>period. list_all (\<lambda>i. password ! i = password ! (i mod period)) [period..<length password])
       [1..<length password div 2 + 1]"

definition common_passwords :: "byte list list" where
  "common_passwords =
     [ascii ''correcthorsebatterystaple'', ascii ''correct horse battery staple'', ascii ''passwordpassword'',
      ascii ''password12345678'', ascii ''password123456789'', ascii ''letmeinletmeinletmein'',
      ascii ''adminadminadminadmin'', ascii ''qwertyqwertyqwerty'', ascii ''iloveyouiloveyou'',
      ascii ''thisisnotasecurepassword'']"

definition pv_master_password_is_acceptable :: "byte list \<Rightarrow> bool" where
  "pv_master_password_is_acceptable password \<longleftrightarrow>
     \<not> (length password < PV_MASTER_PASSWORD_MIN_BYTES \<or> password_is_full_sequence password \<or>
        password_is_periodic password) \<and>
     \<not> list_ex (password_equals_ascii_casefold password) common_passwords"

section \<open>The terminal\<close>

datatype poll_result = Poll_ready | Poll_timeout | Poll_eintr | Poll_error
datatype read_result = Read_byte byte | Read_eof | Read_eintr | Read_error
datatype set_result = Set_ok | Set_eintr | Set_error

datatype handler = Secret_handler | Other_handler nat

record termios =
  c_lflag :: u32
  c_other :: nat

abbreviation ECHO :: u32 where "ECHO \<equiv> 8"

text \<open>
  \<open>t_sig_valid\<close> are the signals \<^verbatim>\<open>sigaction\<close> accepts: it fails for all others, and only
  for those.
\<close>

record terminal =
  t_attr :: termios
  t_handlers :: "nat \<Rightarrow> handler"
  t_sig_valid :: "nat list"
  t_interrupted :: nat
  t_polls :: "(nat \<times> poll_result) list"
  t_reads :: "(nat \<times> read_result) list"
  t_sets :: "set_result list"
  t_prints :: "bool list"
  t_output :: "byte list"
  t_raised :: "nat list"

definition pv_secret_signals :: "nat list" where
  "pv_secret_signals = [2, 15, 1, 3, 20]"

definition secret_signal_handler :: "nat \<Rightarrow> terminal \<Rightarrow> terminal" where
  "secret_signal_handler signal_number w =
     (if t_interrupted w = 0 then w\<lparr>t_interrupted := signal_number\<rparr> else w)"

text \<open>A signal delivered during a call runs the handler installed for it; 0 is no signal.\<close>

definition deliver :: "nat \<Rightarrow> terminal \<Rightarrow> terminal" where
  "deliver signal_number w =
     (if signal_number \<noteq> 0 \<and> t_handlers w signal_number = Secret_handler
      then secret_signal_handler signal_number w else w)"

definition set_handler :: "nat \<Rightarrow> handler \<Rightarrow> terminal \<Rightarrow> terminal" where
  "set_handler signal_number h w = w\<lparr>t_handlers := (t_handlers w)(signal_number := h)\<rparr>"

text \<open>The handlers replaced so far, most recent first: restoring walks the array backwards.\<close>

fun secret_signal_guard_restore :: "(nat \<times> handler) list \<Rightarrow> terminal \<Rightarrow> terminal" where
  "secret_signal_guard_restore [] w = w"
| "secret_signal_guard_restore ((signal_number, previous) # guard) w =
     secret_signal_guard_restore guard (set_handler signal_number previous w)"

fun install_signals ::
  "nat list \<Rightarrow> (nat \<times> handler) list \<Rightarrow> terminal \<Rightarrow> (nat \<times> handler) list option \<times> terminal" where
  "install_signals [] guard w = (Some guard, w)"
| "install_signals (signal_number # rest) guard w =
     (if signal_number \<notin> set (t_sig_valid w) then (None, secret_signal_guard_restore guard w)
      else
        install_signals rest ((signal_number, t_handlers w signal_number) # guard)
          (set_handler signal_number Secret_handler w))"

definition secret_signal_guard_install :: "terminal \<Rightarrow> (nat \<times> handler) list option \<times> terminal" where
  "secret_signal_guard_install w = install_signals pv_secret_signals [] (w\<lparr>t_interrupted := 0\<rparr>)"

fun tcsetattr_script :: "set_result list \<Rightarrow> termios \<Rightarrow> terminal \<Rightarrow> bool \<times> terminal" where
  "tcsetattr_script [] attributes w = (True, w\<lparr>t_attr := attributes, t_sets := []\<rparr>)"
| "tcsetattr_script (Set_ok # rest) attributes w = (True, w\<lparr>t_attr := attributes, t_sets := rest\<rparr>)"
| "tcsetattr_script (Set_eintr # rest) attributes w = tcsetattr_script rest attributes w"
| "tcsetattr_script (Set_error # rest) attributes w = (False, w\<lparr>t_sets := rest\<rparr>)"

definition tcsetattr_nointr :: "termios \<Rightarrow> terminal \<Rightarrow> bool \<times> terminal" where
  "tcsetattr_nointr attributes w = tcsetattr_script (t_sets w) attributes w"

definition dprintf :: "byte list \<Rightarrow> terminal \<Rightarrow> bool \<times> terminal" where
  "dprintf bytes w =
     (case t_prints w of
        [] \<Rightarrow> (True, w\<lparr>t_output := t_output w @ bytes\<rparr>)
      | True # rest \<Rightarrow> (True, w\<lparr>t_prints := rest, t_output := t_output w @ bytes\<rparr>)
      | False # rest \<Rightarrow> (False, w\<lparr>t_prints := rest\<rparr>))"

text \<open>
  The two inner loops, which go on while the call is interrupted and no signal has been recorded.
  \<open>None\<close>: the call has not returned.
\<close>

fun nointr :: "'r \<Rightarrow> (nat \<times> 'r) list \<Rightarrow> terminal \<Rightarrow> ('r \<times> (nat \<times> 'r) list \<times> terminal) option" where
  "nointr eintr [] w = None"
| "nointr eintr ((signal_number, answer) # rest) w =
     (let w1 = deliver signal_number w
      in if answer = eintr \<and> t_interrupted w1 = 0 then nointr eintr rest w1 else Some (answer, rest, w1))"

definition poll_nointr :: "terminal \<Rightarrow> (poll_result \<times> terminal) option" where
  "poll_nointr w =
     (case nointr Poll_eintr (t_polls w) w of
        None \<Rightarrow> None | Some (ready, rest, w1) \<Rightarrow> Some (ready, w1\<lparr>t_polls := rest\<rparr>))"

definition read_nointr :: "terminal \<Rightarrow> (read_result \<times> terminal) option" where
  "read_nointr w =
     (case nointr Read_eintr (t_reads w) w of
        None \<Rightarrow> None | Some (received, rest, w1) \<Rightarrow> Some (received, w1\<lparr>t_reads := rest\<rparr>))"

lemma nointr_laws:
  "nointr eintr es w = Some (answer, rest, w') \<Longrightarrow>
     length rest < length es \<and> t_handlers w' = t_handlers w \<and> t_attr w' = t_attr w \<and>
     t_raised w' = t_raised w \<and> t_polls w' = t_polls w \<and> t_reads w' = t_reads w"
proof (induction eintr es w rule: nointr.induct)
  case (2 eintr s a es w)
  have d: "t_handlers (deliver s w) = t_handlers w" "t_attr (deliver s w) = t_attr w"
    "t_raised (deliver s w) = t_raised w" "t_polls (deliver s w) = t_polls w" "t_reads (deliver s w) = t_reads w"
    by (simp_all add: deliver_def secret_signal_handler_def)
  show ?case
  proof (cases "a = eintr \<and> t_interrupted (deliver s w) = 0")
    case True
    with 2 d show ?thesis by (simp add: less_SucI)
  next
    case False
    with 2 d show ?thesis by (auto simp: Let_def)
  qed
qed simp

lemma poll_nointr_shorter: "poll_nointr w = Some (answer, w') \<Longrightarrow> length (t_polls w') < length (t_polls w)"
  by (auto simp: poll_nointr_def dest: nointr_laws split: option.splits)

lemma read_nointr_polls: "read_nointr w = Some (answer, w') \<Longrightarrow> t_polls w' = t_polls w"
  by (auto simp: read_nointr_def dest: nointr_laws split: option.splits)

text \<open>
  The loop that collects a line: the outcome is the line (its first 1024 bytes) and whether there
  were more, or the error it stopped with.
\<close>

function read_secret_loop ::
  "byte list \<Rightarrow> bool \<Rightarrow> terminal \<Rightarrow> ((byte list \<times> bool) pv_result \<times> terminal) option" where
  "read_secret_loop line overflow w =
     (if t_interrupted w \<noteq> 0 then Some (Inl PV_ERR_IO, w)
      else case poll_nointr w of
        None \<Rightarrow> None
      | Some (ready, w1) \<Rightarrow>
          if ready = Poll_eintr \<or> ready = Poll_error then Some (Inl PV_ERR_IO, w1)
          else if ready = Poll_timeout then read_secret_loop line overflow w1
          else case read_nointr w1 of
            None \<Rightarrow> None
          | Some (received, w2) \<Rightarrow>
              (case received of
                 Read_byte b \<Rightarrow>
                   if b = 0x0a \<or> b = 0x0d then Some (Inr (line, overflow), w2)
                   else if length line < PV_SECRET_INPUT_MAX then read_secret_loop (line @ [b]) overflow w2
                   else read_secret_loop line True w2
               | _ \<Rightarrow> Some (Inl PV_ERR_IO, w2)))"
  by pat_completeness auto
termination
  by (relation "measure (\<lambda>(line, overflow, w). length (t_polls w))")
    (simp_all, (metis poll_nointr_shorter read_nointr_polls)+)

declare read_secret_loop.simps [simp del]

text \<open>The secret is the line; the buffer that holds it ends in a NUL byte.\<close>

definition read_one_secret ::
  "alloc \<Rightarrow> byte list \<Rightarrow> terminal \<Rightarrow> (byte list pv_result \<times> terminal) option" where
  "read_one_secret mem prompt w =
     (case allocate_secret mem buffer_zero of
        (Inl e, b) \<Rightarrow> Some (Inl e, w)
      | (Inr _, b) \<Rightarrow>
          (case dprintf prompt w of
             (False, w1) \<Rightarrow> Some (Inl PV_ERR_IO, w1)
           | (True, w1) \<Rightarrow>
               (case read_secret_loop [] False w1 of
                  None \<Rightarrow> None
                | Some (Inl e, w2) \<Rightarrow> Some (Inl e, w2)
                | Some (Inr (line, overflow), w2) \<Rightarrow>
                    (let w3 = snd (dprintf [0x0a] w2)
                     in if overflow then Some (Inl PV_ERR_LIMIT, w3)
                        else if line = [] then Some (Inl PV_ERR_USAGE, w3)
                        else Some (Inr line, w3)))))"

text \<open>
  \<open>opened\<close>: \<^verbatim>\<open>/dev/tty\<close> could be opened; \<open>got\<close>: \<^verbatim>\<open>tcgetattr\<close> succeeded;
  \<open>mem1\<close> and \<open>mem2\<close>: the outcomes of the two allocations.
\<close>

definition confirm_secret ::
  "alloc \<Rightarrow> bool \<Rightarrow> byte list pv_result \<Rightarrow> terminal \<Rightarrow> (byte list pv_result \<times> terminal) option" where
  "confirm_secret mem2 confirm first w =
     (case first of
        Inl e \<Rightarrow> Some (Inl e, w)
      | Inr secret \<Rightarrow>
          if \<not> confirm then Some (Inr secret, w)
          else case read_one_secret mem2 (ascii ''Confirm: '') w of
            None \<Rightarrow> None
          | Some (Inl e, w1) \<Rightarrow> Some (Inl e, w1)
          | Some (Inr second, w1) \<Rightarrow> Some (if second = secret then Inr secret else Inl PV_ERR_AUTH, w1))"

definition finish_secret ::
  "termios \<Rightarrow> (nat \<times> handler) list \<Rightarrow> byte list pv_result \<Rightarrow> terminal \<Rightarrow> byte list pv_result \<times> terminal" where
  "finish_secret original guard result w =
     (let (restored, w1) = tcsetattr_nointr original w;
          result1 = (if \<not> restored then (case result of Inr s \<Rightarrow> Inl PV_ERR_IO | Inl e \<Rightarrow> Inl e) else result);
          caught_signal = t_interrupted w1;
          w2 = (secret_signal_guard_restore guard w1)\<lparr>t_interrupted := 0\<rparr>
      in if caught_signal \<noteq> 0 then (Inl PV_ERR_IO, w2\<lparr>t_raised := t_raised w2 @ [caught_signal]\<rparr>)
         else (result1, w2))"

definition pv_secure_read_secret ::
  "bool \<Rightarrow> bool \<Rightarrow> alloc \<Rightarrow> alloc \<Rightarrow> byte list \<Rightarrow> bool \<Rightarrow> terminal \<Rightarrow>
     (byte list pv_result \<times> terminal) option" where
  "pv_secure_read_secret opened got mem1 mem2 prompt confirm w =
     (if \<not> opened \<or> \<not> got then Some (Inl PV_ERR_IO, w)
      else case secret_signal_guard_install w of
        (None, w1) \<Rightarrow> Some (Inl PV_ERR_IO, w1)
      | (Some guard, w1) \<Rightarrow>
          (let original = t_attr w;
               hidden = original\<lparr>c_lflag := c_lflag original AND NOT ECHO\<rparr>
           in case tcsetattr_nointr hidden w1 of
                (False, w2) \<Rightarrow> Some (Inl PV_ERR_IO, secret_signal_guard_restore guard w2)
              | (True, w2) \<Rightarrow>
                  (case read_one_secret mem1 prompt w2 of
                     None \<Rightarrow> None
                   | Some (first, w3) \<Rightarrow>
                       (case confirm_secret mem2 confirm first w3 of
                          None \<Rightarrow> None
                        | Some (result, w4) \<Rightarrow> Some (finish_secret original guard result w4)))))"

section \<open>The password policy\<close>

lemma fold_or_zero:
  fixes f :: "nat \<Rightarrow> byte"
  shows "fold (\<lambda>i d. d OR f i) is a = 0 \<longleftrightarrow> a = 0 \<and> (\<forall>i \<in> set is. f i = 0)"
  by (induction "is" arbitrary: a) (auto simp: or_eq_0_iff)

lemma xor_zero: "a XOR b = 0 \<longleftrightarrow> a = b" for a b :: byte
  by (auto simp: bit_eq_iff bit_xor_iff)

lemma password_equals_casefold:
  "password_equals_ascii_casefold pw c \<longleftrightarrow> map ascii_lower pw = map ascii_lower c"
  unfolding password_equals_ascii_casefold_def fold_or_zero xor_zero list_eq_iff_nth_eq by auto

lemma nth_power: "i < k * length u \<Longrightarrow> concat (replicate k u) ! i = u ! (i mod length u)"
proof (induction k arbitrary: i)
  case (Suc k)
  show ?case
  proof (cases "i < length u")
    case False
    then have "i - length u < k * length u" using Suc.prems by auto
    with Suc.IH [OF this] False show ?thesis by (simp add: nth_append le_mod_geq)
  qed (simp add: nth_append)
qed simp

lemma length_power: "length (concat (replicate k u)) = k * length u"
  by (induction k) simp_all

text \<open>A stretch of an endless repetition of \<open>u\<close>.\<close>

definition stretch :: "byte list \<Rightarrow> nat \<Rightarrow> byte list \<Rightarrow> bool" where
  "stretch u off pw \<longleftrightarrow> (\<exists>k. pw = take (length pw) (drop off (concat (replicate k u))))"

lemma stretch_nth:
  assumes "u \<noteq> []"
  shows "stretch u off pw \<longleftrightarrow> (\<forall>i < length pw. pw ! i = u ! ((off + i) mod length u))"
proof
  assume "stretch u off pw"
  then obtain k where k: "pw = take (length pw) (drop off (concat (replicate k u)))"
    by (auto simp: stretch_def)
  show "\<forall>i < length pw. pw ! i = u ! ((off + i) mod length u)"
  proof (intro allI impI)
    fix i assume i: "i < length pw"
    have "length pw \<le> length (concat (replicate k u)) - off" by (subst k) simp
    with i have "off + i < k * length u" by (simp add: length_power)
    then show "pw ! i = u ! ((off + i) mod length u)"
      using i by (subst k) (simp add: nth_power length_power)
  qed
next
  assume nth: "\<forall>i < length pw. pw ! i = u ! ((off + i) mod length u)"
  let ?k = "off + length pw"
  have big: "?k \<le> ?k * length u" using assms by (cases u) simp_all
  have "pw = take (length pw) (drop off (concat (replicate ?k u)))"
  proof (rule nth_equalityI)
    show "length pw = length (take (length pw) (drop off (concat (replicate ?k u))))"
      using big by (simp only: length_take length_drop length_power)
    fix i assume i: "i < length pw"
    then have "off + i < ?k * length u" using big by linarith
    then have "concat (replicate ?k u) ! (off + i) = pw ! i" using nth i by (simp only: nth_power)
    moreover have "off \<le> length (concat (replicate ?k u))" unfolding length_power using big by linarith
    ultimately show "pw ! i = take (length pw) (drop off (concat (replicate ?k u))) ! i"
      using i by (simp only: nth_take nth_drop)
  qed
  then show "stretch u off pw" unfolding stretch_def by blast
qed

lemma password_is_periodic_iff:
  "password_is_periodic pw \<longleftrightarrow> (\<exists>u. u \<noteq> [] \<and> 2 * length u \<le> length pw \<and> stretch u 0 pw)"
proof
  assume "password_is_periodic pw"
  then obtain p where p: "1 \<le> p" "p \<le> length pw div 2" "\<forall>i \<in> {p..<length pw}. pw ! i = pw ! (i mod p)"
    by (auto simp: password_is_periodic_def list_ex_iff list_all_iff)
  let ?u = "take p pw"
  have u: "length ?u = p" "?u \<noteq> []" using p by auto
  have "pw ! i = ?u ! ((0 + i) mod length ?u)" if "i < length pw" for i
    using p that u by (cases "i < p") auto
  then have "stretch ?u 0 pw" using stretch_nth [OF u(2)] by blast
  with u p show "\<exists>u. u \<noteq> [] \<and> 2 * length u \<le> length pw \<and> stretch u 0 pw"
    by (intro exI [of _ ?u]) auto
next
  assume "\<exists>u. u \<noteq> [] \<and> 2 * length u \<le> length pw \<and> stretch u 0 pw"
  then obtain u where u: "u \<noteq> []" "2 * length u \<le> length pw" "stretch u 0 pw" by blast
  have nth: "pw ! i = u ! (i mod length u)" if "i < length pw" for i
    using u(3) that stretch_nth [OF u(1)] by auto
  have "pw ! i = pw ! (i mod length u)" if "i < length pw" for i
  proof -
    have "i mod length u < length pw" using that by (meson le_less_trans mod_less_eq_dividend)
    with nth [OF this] nth [OF that] show ?thesis by simp
  qed
  moreover have "length u \<in> set [1..<length pw div 2 + 1]" using u by (cases u) auto
  ultimately show "password_is_periodic pw"
    unfolding password_is_periodic_def list_ex_iff list_all_iff by (intro bexI [of _ "length u"]) auto
qed

lemma password_follows_cycle_iff:
  assumes "cycle \<noteq> []"
  shows "password_follows_cycle pw cycle \<longleftrightarrow> (\<exists>off. stretch (map ascii_lower cycle) off (map ascii_lower pw))"
proof -
  have nth: "stretch (map ascii_lower cycle) off (map ascii_lower pw) \<longleftrightarrow>
      (\<forall>i < length pw. ascii_lower (pw ! i) = ascii_lower (cycle ! ((off + i) mod length cycle)))" for off
    using assms by (simp add: stretch_nth)
  have "(off + i) mod length cycle = (off mod length cycle + i) mod length cycle" for off i
    by (simp add: mod_add_left_eq)
  then have "(\<exists>off. \<forall>i < length pw. ascii_lower (pw ! i) = ascii_lower (cycle ! ((off + i) mod length cycle))) \<longleftrightarrow>
      (\<exists>off < length cycle. \<forall>i < length pw. ascii_lower (pw ! i) = ascii_lower (cycle ! ((off + i) mod length cycle)))"
    using assms by (metis length_greater_0_conv mod_less_divisor)
  then show ?thesis
    unfolding nth password_follows_cycle_def list_ex_iff list_all_iff set_upt Ball_def Bex_def atLeastLessThan_iff
    by simp
qed

text \<open>Every byte differs from the one before by the same step.\<close>

definition arithmetic_run :: "int \<Rightarrow> byte list \<Rightarrow> bool" where
  "arithmetic_run step pw \<longleftrightarrow> (\<forall>i. i + 1 < length pw \<longrightarrow> int (unat (pw ! (i + 1))) = int (unat (pw ! i)) + step)"

lemma sequence_run:
  assumes "2 \<le> length pw"
  shows "password_is_full_sequence pw \<longleftrightarrow>
    (\<exists>step \<in> {1, - 1}. arithmetic_run step pw) \<or> (\<exists>cycle \<in> set cycles. password_follows_cycle pw cycle)"
proof -
  define d where "d = int (unat (pw ! 1)) - int (unat (pw ! 0))"
  have "list_all (\<lambda>i. int (unat (pw ! i)) - int (unat (pw ! (i - 1))) = step) [2..<length pw] \<longleftrightarrow>
      arithmetic_run step pw" if "step = d" for step
  proof
    assume all: "list_all (\<lambda>i. int (unat (pw ! i)) - int (unat (pw ! (i - 1))) = step) [2..<length pw]"
    have "int (unat (pw ! (i + 1))) = int (unat (pw ! i)) + step" if "i + 1 < length pw" for i
    proof (cases i)
      case 0
      then show ?thesis using \<open>step = d\<close> by (simp add: d_def)
    next
      case (Suc j)
      then show ?thesis using all that by (auto simp: list_all_iff dest!: bspec [of _ _ "i + 1"])
    qed
    then show "arithmetic_run step pw" by (simp add: arithmetic_run_def)
  next
    assume run: "arithmetic_run step pw"
    have "int (unat (pw ! i)) - int (unat (pw ! (i - 1))) = step" if "2 \<le> i" "i < length pw" for i
      using run that unfolding arithmetic_run_def by (auto dest!: spec [of _ "i - 1"])
    then show "list_all (\<lambda>i. int (unat (pw ! i)) - int (unat (pw ! (i - 1))) = step) [2..<length pw]"
      by (simp add: list_all_iff)
  qed
  note run = this [OF refl]
  have "step = d" if "arithmetic_run step pw" for step
    using that assms unfolding arithmetic_run_def d_def by (auto dest!: spec [of _ 0])
  then have "(d = 1 \<or> d = - 1) \<and> arithmetic_run d pw \<longleftrightarrow> (\<exists>step \<in> {1, - 1}. arithmetic_run step pw)" by blast
  then show ?thesis
    using assms unfolding password_is_full_sequence_def Let_def list_ex_iff d_def [symmetric] run by simp
qed

lemma cycles_nonempty: "cycle \<in> set cycles \<Longrightarrow> cycle \<noteq> []"
  by (auto simp: cycles_def ascii_def)

text \<open>
  C22. The policy for master passwords says exactly this: a password is acceptable when it has at
  least 16 bytes, is not a run of consecutive byte values up or down, is not a stretch of one of the
  six digit, alphabet and keyboard cycles in any case, is not the repetition of a block of at most
  half its length (a last partial block included), and is not one of the ten listed passwords in any
  case.
\<close>

theorem pv_master_password_is_acceptable_iff:
  "pv_master_password_is_acceptable pw \<longleftrightarrow>
     16 \<le> length pw \<and> \<not> arithmetic_run 1 pw \<and> \<not> arithmetic_run (- 1) pw \<and>
     \<not> (\<exists>cycle \<in> set cycles. \<exists>off. stretch (map ascii_lower cycle) off (map ascii_lower pw)) \<and>
     \<not> (\<exists>u. u \<noteq> [] \<and> 2 * length u \<le> length pw \<and> stretch u 0 pw) \<and>
     map ascii_lower pw \<notin> map ascii_lower ` set common_passwords"
proof (cases "16 \<le> length pw")
  case True
  have "(\<exists>cycle \<in> set cycles. password_follows_cycle pw cycle) \<longleftrightarrow>
      (\<exists>cycle \<in> set cycles. \<exists>off. stretch (map ascii_lower cycle) off (map ascii_lower pw))"
    using password_follows_cycle_iff [OF cycles_nonempty] by blast
  moreover have "list_ex (password_equals_ascii_casefold pw) common_passwords \<longleftrightarrow>
      map ascii_lower pw \<in> map ascii_lower ` set common_passwords"
    unfolding list_ex_iff password_equals_casefold by blast
  ultimately show ?thesis
    using True sequence_run [of pw]
    by (auto simp: pv_master_password_is_acceptable_def password_is_periodic_iff)
qed (simp add: pv_master_password_is_acceptable_def)

section \<open>Signals and the terminal\<close>

text \<open>What an operation on the terminal leaves alone.\<close>

definition same_terminal :: "terminal \<Rightarrow> terminal \<Rightarrow> bool" where
  "same_terminal w w' \<longleftrightarrow> t_handlers w' = t_handlers w \<and> t_attr w' = t_attr w \<and> t_raised w' = t_raised w"

lemma same_terminal_refl [simp]: "same_terminal w w"
  and same_terminal_trans: "same_terminal w w1 \<Longrightarrow> same_terminal w1 w2 \<Longrightarrow> same_terminal w w2"
  by (simp_all add: same_terminal_def)

lemma same_poll: "poll_nointr w = Some (answer, w') \<Longrightarrow> same_terminal w w'"
  by (auto simp: poll_nointr_def same_terminal_def dest: nointr_laws split: option.splits)

lemma same_read: "read_nointr w = Some (answer, w') \<Longrightarrow> same_terminal w w'"
  by (auto simp: read_nointr_def same_terminal_def dest: nointr_laws split: option.splits)

lemma same_dprintf: "dprintf bytes w = (ok, w') \<Longrightarrow> same_terminal w w'"
  by (auto simp: dprintf_def same_terminal_def split: list.splits bool.splits)


definition line_ok :: "byte list \<Rightarrow> bool" where
  "line_ok line \<longleftrightarrow> length line \<le> PV_SECRET_INPUT_MAX \<and> 0x0a \<notin> set line \<and> 0x0d \<notin> set line"

lemma read_secret_loop_laws:
  "read_secret_loop line overflow w = Some (res, w') \<Longrightarrow> line_ok line \<Longrightarrow>
     same_terminal w w' \<and> (\<forall>line' ov. res = Inr (line', ov) \<longrightarrow> line_ok line')"
proof (induction line overflow w arbitrary: res w' rule: read_secret_loop.induct)
  case (1 line overflow w)
  note run = "1.prems"(1) [unfolded read_secret_loop.simps [of line overflow w]]
  show ?case
  proof (cases "t_interrupted w \<noteq> 0")
    case True
    with run show ?thesis by auto
  next
    case False
    with run obtain ready w1 where p: "poll_nointr w = Some (ready, w1)" by (auto split: option.splits)
    note s1 = same_poll [OF p]
    show ?thesis
    proof (cases ready)
      case Poll_timeout
      with run False p have rec: "read_secret_loop line overflow w1 = Some (res, w')" by simp
      have "same_terminal w1 w' \<and> (\<forall>line' ov. res = Inr (line', ov) \<longrightarrow> line_ok line')"
        using "1.IH"(1) [OF False p refl _ _ rec "1.prems"(2)] Poll_timeout by simp
      with s1 show ?thesis using same_terminal_trans by blast
    next
      case Poll_ready
      with run False p obtain received w2 where r: "read_nointr w1 = Some (received, w2)"
        by (auto split: option.splits)
      note s2 = same_terminal_trans [OF s1 same_read [OF r]]
      show ?thesis
      proof (cases "\<exists>b. received = Read_byte b \<and> b \<noteq> 0x0a \<and> b \<noteq> 0x0d")
        case True
        then obtain b where b: "received = Read_byte b" "b \<noteq> 0x0a" "b \<noteq> 0x0d" by blast
        let ?line = "if length line < PV_SECRET_INPUT_MAX then line @ [b] else line"
        let ?ov = "if length line < PV_SECRET_INPUT_MAX then overflow else True"
        have rec: "read_secret_loop ?line ?ov w2 = Some (res, w')"
          using run False p Poll_ready r b by (simp split: if_splits)
        have "line_ok ?line" using "1.prems"(2) b by (auto simp: line_ok_def)
        with "1.IH"(2,3) [OF False p refl _ _ r refl b(1) _ _ ] rec b(2,3) Poll_ready
        have "same_terminal w2 w' \<and> (\<forall>line' ov. res = Inr (line', ov) \<longrightarrow> line_ok line')"
          by (auto split: if_splits)
        with s2 show ?thesis using same_terminal_trans by blast
      next
        case False2: False
        with run False p Poll_ready r "1.prems"(2) have "w' = w2" "res = Inl PV_ERR_IO \<or> res = Inr (line, overflow)"
          by (auto split: read_result.splits if_splits)
        with s2 "1.prems"(2) show ?thesis by auto
      qed
    qed (use run False p s1 in auto)
  qed
qed

lemma read_one_secret_laws:
  assumes "read_one_secret mem prompt w = Some (res, w')"
  shows "same_terminal w w'" and "res = Inr secret \<Longrightarrow> secret \<noteq> [] \<and> line_ok secret"
proof -
  obtain r b where alloc: "allocate_secret mem buffer_zero = (r, b)" by (cases "allocate_secret mem buffer_zero")
  obtain ok w1 where p: "dprintf prompt w = (ok, w1)" by (cases "dprintf prompt w")
  note s1 = same_dprintf [OF p]
  have "same_terminal w w' \<and> (\<forall>secret. res = Inr secret \<longrightarrow> secret \<noteq> [] \<and> line_ok secret)"
  proof (cases "(\<exists>e. r = Inl e) \<or> \<not> ok")
    case True
    with assms alloc p s1 show ?thesis by (auto simp: read_one_secret_def split: sum.splits)
  next
    case False
    then have ok: "r = Inr ()" "ok" by (cases r; simp)+
    with assms alloc p obtain lr w2 where loop: "read_secret_loop [] False w1 = Some (lr, w2)"
      by (auto simp: read_one_secret_def split: option.splits)
    have laws: "same_terminal w1 w2 \<and> (\<forall>line' ov. lr = Inr (line', ov) \<longrightarrow> line_ok line')"
      by (rule read_secret_loop_laws [OF loop]) (simp add: line_ok_def)
    have s3: "same_terminal w2 (snd (dprintf [0x0a] w2))"
      using same_dprintf [of "[0x0a]" w2] by (cases "dprintf [0x0a] w2") auto
    from assms alloc p ok loop laws s1 s3 show ?thesis
      by (auto simp: read_one_secret_def Let_def split: sum.splits if_splits intro: same_terminal_trans)
  qed
  then show "same_terminal w w'" "res = Inr secret \<Longrightarrow> secret \<noteq> [] \<and> line_ok secret" by blast+
qed

lemma confirm_secret_laws:
  assumes "confirm_secret mem confirm first w = Some (res, w')"
  shows "same_terminal w w'" and "res = Inr secret \<Longrightarrow> first = Inr secret"
proof -
  show "same_terminal w w'"
    using assms read_one_secret_laws(1)
    by (fastforce simp: confirm_secret_def split: sum.splits if_splits option.splits)
  show "res = Inr secret \<Longrightarrow> first = Inr secret"
    using assms by (auto simp: confirm_secret_def split: sum.splits if_splits option.splits)
qed

text \<open>The handlers restoring a guard leaves.\<close>

fun undo :: "(nat \<times> handler) list \<Rightarrow> (nat \<Rightarrow> handler) \<Rightarrow> nat \<Rightarrow> handler" where
  "undo [] h = h"
| "undo ((s, previous) # guard) h = undo guard (h(s := previous))"

lemma guard_restore_eq:
  "secret_signal_guard_restore guard w = w\<lparr>t_handlers := undo guard (t_handlers w)\<rparr>"
  by (induction guard arbitrary: w) (auto simp: set_handler_def)

lemma install_signals_undo:
  "install_signals sigs guard w = (g, w') \<Longrightarrow>
     t_attr w' = t_attr w \<and> t_raised w' = t_raised w \<and>
     (case g of None \<Rightarrow> t_handlers w' | Some guard' \<Rightarrow> undo guard' (t_handlers w')) = undo guard (t_handlers w)"
  by (induction sigs guard w rule: install_signals.induct)
    (auto simp: guard_restore_eq set_handler_def split: if_splits)

lemma tcsetattr_laws:
  "tcsetattr_nointr attributes w = (ok, w') \<Longrightarrow>
     t_handlers w' = t_handlers w \<and> t_raised w' = t_raised w \<and> t_interrupted w' = t_interrupted w \<and>
     t_attr w' = (if ok then attributes else t_attr w)"
proof -
  have "tcsetattr_script es attributes w = (ok, w') \<Longrightarrow>
     t_handlers w' = t_handlers w \<and> t_raised w' = t_raised w \<and> t_interrupted w' = t_interrupted w \<and>
     t_attr w' = (if ok then attributes else t_attr w)" for es
    by (induction es attributes w rule: tcsetattr_script.induct) auto
  then show "tcsetattr_nointr attributes w = (ok, w') \<Longrightarrow> ?thesis" unfolding tcsetattr_nointr_def by blast
qed

lemma finish_secret_laws:
  assumes "finish_secret original guard result w = (res, w')"
  shows "t_handlers w' = undo guard (t_handlers w)"
    and "res = Inr secret \<Longrightarrow> result = Inr secret \<and> t_attr w' = original \<and> t_raised w' = t_raised w \<and> t_interrupted w = 0"
    and "t_attr w' = original \<or> (\<exists>e. res = Inl e)"
    and "t_raised w' = (if t_interrupted w = 0 then t_raised w else t_raised w @ [t_interrupted w])"
proof -
  obtain ok w1 where t: "tcsetattr_nointr original w = (ok, w1)" by (cases "tcsetattr_nointr original w")
  note laws = tcsetattr_laws [OF t]
  have run: "(if t_interrupted w \<noteq> 0
      then (Inl PV_ERR_IO, w1\<lparr>t_handlers := undo guard (t_handlers w), t_interrupted := 0,
        t_raised := t_raised w @ [t_interrupted w]\<rparr>)
      else (if \<not> ok then (case result of Inr s \<Rightarrow> Inl PV_ERR_IO | Inl e \<Rightarrow> Inl e) else result,
        w1\<lparr>t_handlers := undo guard (t_handlers w), t_interrupted := 0\<rparr>)) = (res, w')"
    using assms laws by (simp add: finish_secret_def t Let_def guard_restore_eq split: if_splits)
  show "t_handlers w' = undo guard (t_handlers w)" using run by (auto split: if_splits)
  show "res = Inr secret \<Longrightarrow> result = Inr secret \<and> t_attr w' = original \<and> t_raised w' = t_raised w \<and> t_interrupted w = 0"
    using run laws by (auto split: if_splits sum.splits)
  show "t_attr w' = original \<or> (\<exists>e. res = Inl e)"
    using run laws by (auto split: if_splits sum.splits)
  show "t_raised w' = (if t_interrupted w = 0 then t_raised w else t_raised w @ [t_interrupted w])"
    using run laws by (auto split: if_splits)
qed


section \<open>A line typed is a line read\<close>

text \<open>
  Scripts in which nothing goes wrong: no signal, no error, no end of input; time-outs and
  interrupted calls may occur anywhere.
\<close>

definition calm_polls :: "(nat \<times> poll_result) list \<Rightarrow> bool" where
  "calm_polls es \<longleftrightarrow> list_all (\<lambda>(s, a). s = 0 \<and> a \<noteq> Poll_error) es"

definition calm_reads :: "(nat \<times> read_result) list \<Rightarrow> bool" where
  "calm_reads es \<longleftrightarrow> list_all (\<lambda>(s, a). s = 0 \<and> a \<noteq> Read_eof \<and> a \<noteq> Read_error) es"

definition readies :: "(nat \<times> poll_result) list \<Rightarrow> nat" where
  "readies es = length (filter (\<lambda>(s, a). a = Poll_ready) es)"

fun typed :: "(nat \<times> read_result) list \<Rightarrow> byte list" where
  "typed [] = []"
| "typed ((s, Read_byte b) # es) = b # typed es"
| "typed (e # es) = typed es"

lemma nointr_calm:
  assumes "list_all (\<lambda>(s, a). s = 0) es" "t_interrupted w = 0"
  shows "nointr eintr es w =
    (case dropWhile (\<lambda>(s, a). a = eintr) es of [] \<Rightarrow> None | (s, a) # rest \<Rightarrow> Some (a, rest, w))"
  using assms by (induction eintr es w rule: nointr.induct) (auto simp: Let_def deliver_def)

lemma calm_split_polls:
  "calm_polls es \<Longrightarrow> 0 < readies es \<Longrightarrow>
    \<exists>a rest. dropWhile (\<lambda>(s, a). a = Poll_eintr) es = (0, a) # rest \<and> calm_polls rest \<and> length rest < length es \<and>
      (a = Poll_ready \<and> readies es = Suc (readies rest) \<or> a = Poll_timeout \<and> readies es = readies rest)"
proof (induction es)
  case (Cons e es)
  obtain s a where "e = (s, a)" by (cases e)
  with Cons show ?case by (cases a) (auto simp: calm_polls_def readies_def less_SucI)
qed (simp add: readies_def)

lemma calm_split_reads:
  "calm_reads es \<Longrightarrow> typed es = b # bs \<Longrightarrow>
    \<exists>rest. dropWhile (\<lambda>(s, a). a = Read_eintr) es = (0, Read_byte b) # rest \<and> calm_reads rest \<and> typed rest = bs"
  by (induction es rule: typed.induct) (auto simp: calm_reads_def)

lemma calm_poll:
  assumes "calm_polls (t_polls w)" "t_interrupted w = 0" "0 < readies (t_polls w)"
  obtains rest a where "poll_nointr w = Some (a, w\<lparr>t_polls := rest\<rparr>)" "calm_polls rest" "length rest < length (t_polls w)"
    "a = Poll_ready \<and> readies (t_polls w) = Suc (readies rest) \<or> a = Poll_timeout \<and> readies (t_polls w) = readies rest"
proof -
  have "list_all (\<lambda>(s, a). s = 0) (t_polls w)" using assms(1) by (auto simp: calm_polls_def list_all_iff)
  note n = nointr_calm [OF this assms(2), of Poll_eintr]
  from calm_split_polls [OF assms(1,3)] obtain a rest where
    d: "dropWhile (\<lambda>(s, a). a = Poll_eintr) (t_polls w) = (0, a) # rest" and r: "calm_polls rest"
    "length rest < length (t_polls w)"
    "a = Poll_ready \<and> readies (t_polls w) = Suc (readies rest) \<or> a = Poll_timeout \<and> readies (t_polls w) = readies rest"
    by blast
  from n d have "poll_nointr w = Some (a, w\<lparr>t_polls := rest\<rparr>)" by (simp add: poll_nointr_def)
  then show thesis using r by (rule that)
qed

lemma calm_read:
  assumes "calm_reads (t_reads w)" "t_interrupted w = 0" "typed (t_reads w) = b # bs"
  obtains rest where "read_nointr w = Some (Read_byte b, w\<lparr>t_reads := rest\<rparr>)" "calm_reads rest" "typed rest = bs"
proof -
  have "list_all (\<lambda>(s, a). s = 0) (t_reads w)" using assms(1) by (auto simp: calm_reads_def list_all_iff)
  note n = nointr_calm [OF this assms(2), of Read_eintr]
  from calm_split_reads [OF assms(1,3)] obtain rest where
    d: "dropWhile (\<lambda>(s, a). a = Read_eintr) (t_reads w) = (0, Read_byte b) # rest" and r: "calm_reads rest" "typed rest = bs"
    by blast
  from n d have "read_nointr w = Some (Read_byte b, w\<lparr>t_reads := rest\<rparr>)" by (simp add: read_nointr_def)
  then show thesis using r by (rule that)
qed

definition calm :: "byte list \<Rightarrow> terminal \<Rightarrow> bool" where
  "calm line w \<longleftrightarrow> t_interrupted w = 0 \<and> calm_polls (t_polls w) \<and> calm_reads (t_reads w) \<and>
     length line < readies (t_polls w) \<and>
     (\<exists>line_end rest. line_end \<in> {0x0a, 0x0d} \<and> typed (t_reads w) = line @ line_end # rest) \<and>
     0x0a \<notin> set line \<and> 0x0d \<notin> set line"

lemma read_secret_loop_calm:
  "calm line w \<Longrightarrow> length acc \<le> 1024 \<Longrightarrow>
    \<exists>polls reads. read_secret_loop acc overflow w =
      Some (Inr (take 1024 (acc @ line), overflow \<or> 1024 < length (acc @ line)), w\<lparr>t_polls := polls, t_reads := reads\<rparr>)"
proof (induction "length (t_polls w)" arbitrary: w acc overflow line rule: less_induct)
  case less
  from less.prems(1) have c: "t_interrupted w = 0" "calm_polls (t_polls w)" "calm_reads (t_reads w)"
    "length line < readies (t_polls w)" "0x0a \<notin> set line" "0x0d \<notin> set line" by (simp_all add: calm_def)
  obtain nl rest where nl: "nl \<in> {0x0a, 0x0d}" "typed (t_reads w) = line @ nl # rest"
    using less.prems(1) by (auto simp: calm_def)
  from c have "0 < readies (t_polls w)" by simp
  from calm_poll [OF c(2,1) this] obtain polls a where p: "poll_nointr w = Some (a, w\<lparr>t_polls := polls\<rparr>)"
    "calm_polls polls" "length polls < length (t_polls w)"
    and a: "a = Poll_ready \<and> readies (t_polls w) = Suc (readies polls) \<or> a = Poll_timeout \<and> readies (t_polls w) = readies polls"
    by blast
  let ?w1 = "w\<lparr>t_polls := polls\<rparr>"
  note step = read_secret_loop.simps [of acc overflow w]
  from a show ?case
  proof
    assume t: "a = Poll_timeout \<and> readies (t_polls w) = readies polls"
    have "calm line ?w1" using less.prems(1) p(2) t by (simp add: calm_def)
    from less.hyps [OF _ this less.prems(2), of overflow] p(3) show ?thesis
      using c(1) p(1) t step by auto
  next
    assume r: "a = Poll_ready \<and> readies (t_polls w) = Suc (readies polls)"
    show ?thesis
    proof (cases line)
      case Nil
      from calm_read [of ?w1 nl rest] c nl Nil obtain reads where
        "read_nointr ?w1 = Some (Read_byte nl, ?w1\<lparr>t_reads := reads\<rparr>)" by auto
      with c(1) p(1) r nl(1) less.prems(2) Nil step show ?thesis by auto
    next
      case (Cons b bs)
      from calm_read [of ?w1 b "bs @ nl # rest"] c nl Cons obtain reads where
        rd: "read_nointr ?w1 = Some (Read_byte b, ?w1\<lparr>t_reads := reads\<rparr>)" "calm_reads reads" "typed reads = bs @ nl # rest"
        by auto
      let ?w2 = "?w1\<lparr>t_reads := reads\<rparr>"
      have calm: "calm bs ?w2" using c p(2) r rd nl(1) Cons by (auto simp: calm_def)
      have b: "b \<noteq> 0x0a" "b \<noteq> 0x0d" using c Cons by auto
      show ?thesis
      proof (cases "length acc < 1024")
        case True
        with less.hyps [OF _ calm, of "acc @ [b]" overflow] p(3) c(1) p(1) r rd(1) b step Cons show ?thesis by auto
      next
        case False
        with less.hyps [OF _ calm, of acc True] p(3) c(1) p(1) r rd(1) b step Cons less.prems(2) show ?thesis by auto
      qed
    qed
  qed
qed

lemma tcsetattr_calm:
  assumes "Set_error \<notin> set (t_sets w)"
  obtains rest where "tcsetattr_nointr attributes w = (True, w\<lparr>t_attr := attributes, t_sets := rest\<rparr>)"
    "Set_error \<notin> set rest"
proof -
  have "Set_error \<notin> set es \<Longrightarrow> \<exists>rest. tcsetattr_script es attributes w = (True, w\<lparr>t_attr := attributes, t_sets := rest\<rparr>) \<and>
      Set_error \<notin> set rest" for es
    by (induction es attributes w rule: tcsetattr_script.induct) auto
  with assms that show thesis unfolding tcsetattr_nointr_def by blast
qed

lemma install_signals_calm:
  "set sigs \<subseteq> set (t_sig_valid w) \<Longrightarrow> \<exists>guard' h. install_signals sigs guard w = (Some guard', w\<lparr>t_handlers := h\<rparr>)"
proof (induction sigs guard w rule: install_signals.induct)
  case (1 guard w)
  then show ?case by (auto intro: exI [of _ "t_handlers w"])
next
  case (2 s rest guard w)
  then show ?case by (auto simp: set_handler_def)
qed

lemma calm_secret_returns:
  assumes "calm line (w\<lparr>t_interrupted := 0\<rparr>)" and "set pv_secret_signals \<subseteq> set (t_sig_valid w)"
    and "Set_error \<notin> set (t_sets w)" and "t_prints w = []"
  shows "\<exists>w'. pv_secure_read_secret True True Alloc_ok mem2 prompt False w =
    Some (if line = [] then Inl PV_ERR_USAGE else if 1024 < length line then Inl PV_ERR_LIMIT else Inr line, w')"
proof -
  from install_signals_calm [of pv_secret_signals "w\<lparr>t_interrupted := 0\<rparr>" "[]"] assms(2) obtain guard h where
    g: "secret_signal_guard_install w = (Some guard, w\<lparr>t_interrupted := 0, t_handlers := h\<rparr>)"
    by (auto simp: secret_signal_guard_install_def)
  let ?w1 = "w\<lparr>t_interrupted := 0, t_handlers := h\<rparr>"
  let ?hidden = "(t_attr w)\<lparr>c_lflag := c_lflag (t_attr w) AND NOT ECHO\<rparr>"
  from tcsetattr_calm [of ?w1 ?hidden] assms(3) obtain sets where
    t: "tcsetattr_nointr ?hidden ?w1 = (True, ?w1\<lparr>t_attr := ?hidden, t_sets := sets\<rparr>)" "Set_error \<notin> set sets" by auto
  let ?w2 = "?w1\<lparr>t_attr := ?hidden, t_sets := sets\<rparr>"
  let ?w3 = "?w2\<lparr>t_output := t_output w @ prompt\<rparr>"
  have p: "dprintf prompt ?w2 = (True, ?w3)" using assms(4) by (simp add: dprintf_def)
  have "calm line ?w3" using assms(1) by (simp add: calm_def)
  from read_secret_loop_calm [OF this, of "[]" False] obtain polls reads where
    loop: "read_secret_loop [] False ?w3 = Some (Inr (take 1024 line, 1024 < length line), ?w3\<lparr>t_polls := polls, t_reads := reads\<rparr>)"
    by auto
  let ?first = "if line = [] then Inl PV_ERR_USAGE else if 1024 < length line then Inl PV_ERR_LIMIT else Inr line"
  let ?w4 = "?w3\<lparr>t_polls := polls, t_reads := reads, t_output := t_output w @ prompt @ [0x0a]\<rparr>"
  have one: "read_one_secret Alloc_ok prompt ?w2 = Some (?first, ?w4)"
    using p loop assms(4)
    by (simp add: read_one_secret_def allocate_secret_def pv_secure_buffer_alloc_def PV_MAX_PLAINTEXT_def Let_def dprintf_def)
  from tcsetattr_calm [of ?w4 "t_attr w"] t(2) obtain sets' where
    "tcsetattr_nointr (t_attr w) ?w4 = (True, ?w4\<lparr>t_attr := t_attr w, t_sets := sets'\<rparr>)" by auto
  then have "fst (finish_secret (t_attr w) guard ?first ?w4) = ?first"
    by (simp add: finish_secret_def Let_def guard_restore_eq)
  then obtain w' where fin: "finish_secret (t_attr w) guard ?first ?w4 = (?first, w')"
    by (cases "finish_secret (t_attr w) guard ?first ?w4") simp
  have conf: "confirm_secret mem2 False ?first ?w4 = Some (?first, ?w4)" by (simp add: confirm_secret_def)
  have "pv_secure_read_secret True True Alloc_ok mem2 prompt False w = Some (?first, w')"
    unfolding pv_secure_read_secret_def g Let_def prod.case option.case t(1) bool.case one conf fin by simp
  then show ?thesis by blast
qed

text \<open>
  C17. A line that is typed is read. If signals can be installed, the terminal accepts its settings in
  the end, no signal arrives and no error occurs, then however often calls time out or are
  interrupted, the call returns once the line end has been typed: with the line when it has 1 to 1024
  bytes, with a usage error when it is empty, and with \<open>PV_ERR_LIMIT\<close> when it is longer.
\<close>

theorem pv_secure_read_secret_returns:
  assumes "calm line (w\<lparr>t_interrupted := 0\<rparr>)" and "set pv_secret_signals \<subseteq> set (t_sig_valid w)"
    and "Set_error \<notin> set (t_sets w)" and "t_prints w = []"
  shows "\<exists>w'. pv_secure_read_secret True True Alloc_ok mem2 prompt False w =
    Some (if line = [] then Inl PV_ERR_USAGE else if 1024 < length line then Inl PV_ERR_LIMIT else Inr line, w')"
  by (rule calm_secret_returns [OF assms])

definition demo_terminal :: terminal where
  "demo_terminal =
     \<lparr>t_attr = \<lparr>c_lflag = 0x8a3b, c_other = 0\<rparr>, t_handlers = \<lambda>s. Other_handler s,
      t_sig_valid = [1, 2, 3, 15, 20], t_interrupted = 0,
      t_polls = [(0, Poll_timeout), (0, Poll_ready), (0, Poll_eintr), (0, Poll_ready), (0, Poll_ready)],
      t_reads = [(0, Read_byte 0x61), (0, Read_eintr), (0, Read_byte 0x62), (0, Read_byte 0x0a)],
      t_sets = [Set_eintr], t_prints = [], t_output = [], t_raised = []\<rparr>"

lemma demo_terminal_calm: "calm [0x61, 0x62] (demo_terminal\<lparr>t_interrupted := 0\<rparr>)"
  by (auto simp: calm_def demo_terminal_def calm_polls_def calm_reads_def readies_def)

theorem pv_secure_read_secret_returns_witness:
  "\<exists>w'. pv_secure_read_secret True True Alloc_ok Alloc_ok (ascii ''Master: '') False demo_terminal =
     Some (Inr [0x61, 0x62], w')"
  using pv_secure_read_secret_returns [OF demo_terminal_calm, of Alloc_ok "ascii ''Master: ''"]
  by (simp add: demo_terminal_def pv_secret_signals_def)


end
