(* ===== verification/Pv_Error.thy ===== *)
theory Pv_Error
  imports Pv_Prelude
begin

text \<open>
  The error component (\<^verbatim>\<open>src/error.c\<close>): the message and the process exit code of a
  status. Both switches are exhaustive over the enumeration, so the fall-through
  \<^verbatim>\<open>return\<close> after each switch is unreachable for a value of the enumeration.
\<close>

fun pv_status_string :: "pv_status \<Rightarrow> string" where
  "pv_status_string PV_OK = ''success''"
| "pv_status_string PV_ERR_USAGE = ''invalid usage''"
| "pv_status_string PV_ERR_AUTH = ''authentication or integrity check failed''"
| "pv_status_string PV_ERR_IO = ''I/O error''"
| "pv_status_string PV_ERR_SECURE_MEMORY = ''secure memory unavailable''"
| "pv_status_string PV_ERR_LOCKED = ''vault is locked or busy''"
| "pv_status_string PV_ERR_EXTERNAL = ''external integration failed''"
| "pv_status_string PV_ERR_FORMAT = ''invalid vault format''"
| "pv_status_string PV_ERR_LIMIT = ''configured or format limit exceeded''"
| "pv_status_string PV_ERR_NOT_FOUND = ''record not found''"
| "pv_status_string PV_ERR_EXISTS = ''object already exists''"
| "pv_status_string PV_ERR_STATE = ''invalid state''"
| "pv_status_string PV_ERR_DURABILITY =
     ''update committed, but durability could not be confirmed''"
| "pv_status_string PV_ERR_NOMEM = ''out of memory''"
| "pv_status_string PV_ERR_UNSUPPORTED = ''unsupported or corrupted vault format version''"

fun pv_status_exit_code :: "pv_status \<Rightarrow> int" where
  "pv_status_exit_code PV_OK = 0"
| "pv_status_exit_code PV_ERR_USAGE = 2"
| "pv_status_exit_code PV_ERR_AUTH = 3"
| "pv_status_exit_code PV_ERR_FORMAT = 3"
| "pv_status_exit_code PV_ERR_UNSUPPORTED = 3"
| "pv_status_exit_code PV_ERR_IO = 4"
| "pv_status_exit_code PV_ERR_DURABILITY = 4"
| "pv_status_exit_code PV_ERR_SECURE_MEMORY = 5"
| "pv_status_exit_code PV_ERR_NOMEM = 5"
| "pv_status_exit_code PV_ERR_LIMIT = 5"
| "pv_status_exit_code PV_ERR_LOCKED = 6"
| "pv_status_exit_code PV_ERR_STATE = 6"
| "pv_status_exit_code PV_ERR_EXTERNAL = 7"
| "pv_status_exit_code PV_ERR_NOT_FOUND = 1"
| "pv_status_exit_code PV_ERR_EXISTS = 1"

lemma pv_status_exit_code_zero: "pv_status_exit_code s = 0 \<longleftrightarrow> s = PV_OK"
  by (cases s) auto

lemma pv_status_string_inj: "pv_status_string s = pv_status_string t \<longleftrightarrow> s = t"
  by (cases s; cases t) auto

end
