(* ===== verification/Pv_Store.thy ===== *)
theory Pv_Store
  imports Pv_Backup Pv_Secure Pv_Error
begin

text \<open>
  The operations on a vault as a whole (\<^verbatim>\<open>src/store.c\<close>): creating, opening and saving it, and
  the copies of its file that are backed up, recovered and restored. They join the components: the
  codec, the encryption, the vault model and the files.

  A function that changes the vault or the header returns them with its status. \<open>creation\<close> holds
  what the random generator delivers when a vault is created.
\<close>

record creation =
  new_vault_id :: "byte list"
  new_device_id :: "byte list"
  new_vmk :: "byte list"
  new_header_env :: create_env

section \<open>Saving\<close>

text \<open>Encode, encrypt and write the header: the bytes of the new file, and the header with its new nonce.\<close>

definition seal_vault :: "library \<Rightarrow> pv_vault \<Rightarrow> pv_file_header \<Rightarrow> ((byte list \<times> byte list) pv_result \<times> pv_file_header) io" where
  "seal_vault L v h = do {
     mem \<leftarrow> lib_alloc;
     case pv_cbor_encode mem v of
       Inl e \<Rightarrow> done_with (Inl e, h)
     | Inr encoded \<Rightarrow>
         (case v_vmk v of
            None \<Rightarrow> done_with (Inl PV_ERR_USAGE, h)
          | Some vmk \<Rightarrow> do {
              key \<leftarrow> lib_alloc;
              buffers \<leftarrow> lib_ok;
              done_with (case pv_crypto_encrypt_body (lib_sodium L) key buffers (lib_fill L) (lib_nonce L) vmk encoded h of
                  (Inl e, h1) \<Rightarrow> (Inl e, h1)
                | (Inr ciphertext, h1) \<Rightarrow> (Inr (pv_header_encode h1, ciphertext), h1)) }) }"

text \<open>The file that is to be replaced must be the one the vault was read from.\<close>

definition load_current :: "library \<Rightarrow> pv_store_location \<Rightarrow> pv_vault \<Rightarrow> pv_disk_file pv_result io" where
  "load_current L location v =
     io_bind (read_disk_file_at (lib_sodium L) (directory_fd location) (loc_name location)) (\<lambda>current.
       if perm_bits (df_stat current) \<noteq> 0x180 then done_with (Inl PV_ERR_IO)
       else if df_hash current \<noteq> v_source_hash v \<or> h_vault_id (df_header current) \<noteq> v_vault_id v
       then done_with (Inl PV_ERR_LOCKED)
       else done_with (Inr current))"

definition load_if :: "library \<Rightarrow> pv_store_location \<Rightarrow> pv_vault \<Rightarrow> bool \<Rightarrow> pv_disk_file option pv_result io" where
  "load_if L location v exists =
     (if exists then io_bind (load_current L location v) (\<lambda>current. done_with (Inr (Some current))) else done_with (Inr None))"

text \<open>
  After the new file has been put in place: read it back, look whether the location is still the
  same, and remove old backups. \<open>warned\<close>: the file may not be durable; \<open>backup_dir\<close>: the backup
  directory if a backup was made.
\<close>

definition after_commit ::
  "library \<Rightarrow> pv_store_location \<Rightarrow> pv_vault \<Rightarrow> byte list \<Rightarrow> byte list \<Rightarrow> bool \<Rightarrow> fd option \<Rightarrow> u64 \<Rightarrow> u32 \<Rightarrow>
     (pv_status \<times> pv_vault) io" where
  "after_commit L location v header_bytes ciphertext warned backup_dir previous_generation retention = do {
     back \<leftarrow> read_disk_file_at (lib_sodium L) (directory_fd location) (loc_name location);
     moved \<leftarrow> revalidate_store_location (v_path v) location;
     case back of
       Inl e \<Rightarrow> done_with (PV_ERR_DURABILITY, v)
     | Inr written \<Rightarrow>
         if df_ciphertext written \<noteq> ciphertext \<or> df_header_bytes written \<noteq> header_bytes
         then done_with (PV_ERR_DURABILITY, v)
         else do {
           mp \<leftarrow> lib_ok;
           (let warning = warned \<or> moved \<noteq> PV_OK;
                v1 = v\<lparr>v_source_hash := df_hash written, v_dirty := False,
                       v_arena := snd (pv_arena_set_readonly mp (v_arena v))\<rparr>
            in do {
              _ \<leftarrow> (case (backup_dir, v_vmk v) of
                  (Some dir, Some vmk) \<Rightarrow>
                    if warning then done_with PV_OK
                    else prune_automatic_backups L dir (v_vault_id v) vmk previous_generation retention
                | _ \<Rightarrow> done_with PV_OK);
              done_with (if warning then PV_ERR_DURABILITY else PV_OK, v1) }) } }"

text \<open>
  The new file is written: \<open>v\<close> is the vault before its generation was raised and \<open>v1\<close> after.
\<close>

definition save_sealed ::
  "library \<Rightarrow> pv_store_location \<Rightarrow> pv_vault \<Rightarrow> pv_vault \<Rightarrow> pv_disk_file option \<Rightarrow> byte list \<Rightarrow> byte list \<Rightarrow> u32 \<Rightarrow> bool \<Rightarrow>
     (pv_status \<times> pv_vault) io" where
  "save_sealed L location v v1 current header_bytes ciphertext retention create_only = do {
     backup \<leftarrow> (case current of
         None \<Rightarrow> done_with (PV_OK, None)
       | Some cur \<Rightarrow> automatic_backup L location v1 cur (v_generation v));
     s1 \<leftarrow> if_ok (fst backup) (do {
         m \<leftarrow> revalidate_store_location (v_path v1) location;
         done_with (if m \<noteq> PV_OK then PV_ERR_LOCKED else PV_OK) });
     w \<leftarrow> if_ok s1 (write_atomic_at location header_bytes ciphertext create_only);
     result \<leftarrow> (if s1 = PV_OK \<and> (w = PV_OK \<or> w = PV_ERR_DURABILITY)
       then after_commit L location v1 header_bytes ciphertext (w = PV_ERR_DURABILITY) (snd backup) (v_generation v) retention
       else done_with (w, v));
     _ \<leftarrow> (case snd backup of None \<Rightarrow> done_with (Inr ()) | Some dir \<Rightarrow> sys_close dir);
     done_with result }"

definition next_generation :: "pv_vault \<Rightarrow> i64 \<Rightarrow> pv_vault" where
  "next_generation v now = v\<lparr>v_generation := v_generation v + 1, v_updated_ms := now\<rparr>"

definition save_loaded ::
  "library \<Rightarrow> pv_store_location \<Rightarrow> pv_vault \<Rightarrow> pv_file_header \<Rightarrow> pv_disk_file option \<Rightarrow> u32 \<Rightarrow> bool \<Rightarrow>
     (pv_status \<times> pv_vault \<times> pv_file_header) io" where
  "save_loaded L location v h current retention create_only = do {
     now \<leftarrow> now_ms;
     sealed \<leftarrow> seal_vault L (next_generation v now) h;
     case sealed of
       (Inl e, h1) \<Rightarrow> done_with (e, v, h1)
     | (Inr (header_bytes, ciphertext), h1) \<Rightarrow> do {
         result \<leftarrow> save_sealed L location v (next_generation v now) current header_bytes ciphertext retention create_only;
         done_with (fst result, snd result, h1) } }"

definition save_locked ::
  "library \<Rightarrow> pv_store_location \<Rightarrow> pv_vault \<Rightarrow> pv_file_header \<Rightarrow> u32 \<Rightarrow> bool \<Rightarrow>
     (pv_status \<times> pv_vault \<times> pv_file_header) io" where
  "save_locked L location v h retention create_only =
     (if v_generation v = 0xffffffffffffffff then done_with (PV_ERR_LIMIT, v, h)
      else do {
        found \<leftarrow> path_entry_exists_at (directory_fd location) (loc_name location);
        case found of
          Inl e \<Rightarrow> done_with (e, v, h)
        | Inr exists \<Rightarrow>
            if create_only \<and> exists then done_with (PV_ERR_EXISTS, v, h)
            else if \<not> create_only \<and> \<not> exists then done_with (PV_ERR_LOCKED, v, h)
            else do {
              loaded \<leftarrow> load_if L location v exists;
              case loaded of
                Inl e \<Rightarrow> done_with (e, v, h)
              | Inr current \<Rightarrow> save_loaded L location v h current retention create_only } })"

definition pv_store_save ::
  "library \<Rightarrow> u32 \<Rightarrow> pv_vault \<Rightarrow> pv_file_header \<Rightarrow> (pv_status \<times> pv_vault \<times> pv_file_header) io" where
  "pv_store_save L backup_retention v h =
     (if \<not> v_dirty v then done_with (PV_OK, v, h)
      else if backup_retention = 0 then done_with (PV_ERR_USAGE, v, h)
      else do {
        locked \<leftarrow> lock_vault (v_path v);
        case locked of
          Inl e \<Rightarrow> done_with (e, v, h)
        | Inr (location, lock) \<Rightarrow> do {
            r \<leftarrow> save_locked L location v h backup_retention False;
            _ \<leftarrow> unlock_vault lock location;
            done_with r } })"

section \<open>Creating\<close>

abbreviation PV_DEFAULT_BACKUP_RETENTION :: u32 where "PV_DEFAULT_BACKUP_RETENTION \<equiv> 20"

definition zero_header :: pv_file_header where
  "zero_header =
     \<lparr>h_magic = replicate 8 0, h_major = 0, h_minor = 0, h_header_len = 0, h_flags = 0,
      h_vault_id = replicate PV_VAULT_ID_BYTES 0, h_kdf_id = 0, h_wrap_aead_id = 0, h_body_aead_id = 0,
      h_slot_count = 0, password_slot = slot_password_zero, recovery_slot = slot_recovery_zero,
      h_body_nonce = replicate PV_WRAP_NONCE_BYTES 0, h_body_ciphertext_len = 0\<rparr>"

text \<open>
  The vault is returned when the status is \<^verbatim>\<open>PV_OK\<close> or \<^verbatim>\<open>PV_ERR_DURABILITY\<close>; after any
  other status it has been destroyed. The password buffer, if it is to be consumed, is returned
  as it was left.
\<close>

definition create_common ::
  "library \<Rightarrow> creation \<Rightarrow> byte list \<Rightarrow> byte list \<Rightarrow> byte list \<Rightarrow> pv_buffer option \<Rightarrow>
     (pv_status \<times> pv_vault option \<times> pv_buffer option) io" where
  "create_common L N path password recovery_key consumed_password =
     (let freed = map_option pv_buffer_secure_free consumed_password
      in do {
        s0 \<leftarrow> ensure_parent_directory path;
        if s0 \<noteq> PV_OK then done_with (s0, None, freed)
        else do {
          locked \<leftarrow> lock_vault path;
          case locked of
            Inl e \<Rightarrow> done_with (e, None, freed)
          | Inr (location, lock) \<Rightarrow> do {
              found \<leftarrow> path_entry_exists_at (directory_fd location) (loc_name location);
              if found \<noteq> Inr False then do {
                _ \<leftarrow> unlock_vault lock location;
                done_with (case found of Inl e \<Rightarrow> e | Inr _ \<Rightarrow> PV_ERR_EXISTS, None, freed) }
              else do {
                init \<leftarrow> init_model path;
                case init of
                  Inl e \<Rightarrow> do { _ \<leftarrow> unlock_vault lock location; done_with (e, None, freed) }
                | Inr v0 \<Rightarrow> do {
                    now \<leftarrow> now_ms;
                    (let v = v0\<lparr>v_vault_id := new_vault_id N, v_device_id := new_device_id N, v_vmk := Some (new_vmk N),
                           v_created_ms := now, v_updated_ms := now, v_generation := 0, v_dirty := True\<rparr>
                     in case pv_crypto_create_header (lib_sodium L) (new_header_env N) password recovery_key (new_vmk N)
                            (zero_header\<lparr>h_vault_id := new_vault_id N\<rparr>) of
                          (Inl e, h) \<Rightarrow> do { _ \<leftarrow> unlock_vault lock location; done_with (e, None, freed) }
                        | (Inr _, h) \<Rightarrow> do {
                            r \<leftarrow> save_locked L location v h PV_DEFAULT_BACKUP_RETENTION True;
                            _ \<leftarrow> unlock_vault lock location;
                            done_with (fst r,
                              if fst r = PV_OK \<or> fst r = PV_ERR_DURABILITY then Some (fst (snd r)) else None, freed) }) } } } } })"

definition pv_store_create ::
  "library \<Rightarrow> creation \<Rightarrow> byte list \<Rightarrow> byte list \<Rightarrow> byte list \<Rightarrow> (pv_status \<times> pv_vault option) io" where
  "pv_store_create L N path password recovery_key = do {
     r \<leftarrow> create_common L N path password recovery_key None;
     done_with (fst r, fst (snd r)) }"

text \<open>A buffer that holds a secret: its bytes, or nothing if it cannot be used.\<close>

definition buffer_secret :: "pv_buffer \<Rightarrow> byte list option" where
  "buffer_secret b =
     (case b_data b of
        None \<Rightarrow> None
      | Some bytes \<Rightarrow> if b_len b = 0 \<or> \<not> b_secure b then None else Some (take (b_len b) bytes))"

definition pv_store_create_consume ::
  "library \<Rightarrow> creation \<Rightarrow> byte list \<Rightarrow> pv_buffer \<Rightarrow> byte list \<Rightarrow> (pv_status \<times> pv_vault option \<times> pv_buffer option) io" where
  "pv_store_create_consume L N path password recovery_key =
     (case buffer_secret password of
        None \<Rightarrow> done_with (PV_ERR_USAGE, None, Some (pv_buffer_secure_free password))
      | Some bytes \<Rightarrow> create_common L N path bytes recovery_key (Some password))"

section \<open>Opening\<close>

definition unlock_vmk :: "library \<Rightarrow> pv_file_header \<Rightarrow> byte list \<Rightarrow> bool \<Rightarrow> byte list pv_result io" where
  "unlock_vmk L h credential recovery =
     (if recovery \<and> length credential \<noteq> PV_RECOVERY_KEY_BYTES then done_with (Inl PV_ERR_AUTH)
      else do {
        mem \<leftarrow> lib_alloc;
        if recovery then done_with (pv_crypto_unlock_recovery (lib_sodium L) mem h credential)
        else do {
          hash_ok \<leftarrow> lib_ok;
          done_with (pv_crypto_unlock_password (lib_sodium L) mem hash_ok h credential) } })"

definition open_body :: "library \<Rightarrow> byte list \<Rightarrow> pv_disk_file \<Rightarrow> byte list \<Rightarrow> (pv_vault \<times> pv_file_header) pv_result io" where
  "open_body L path disk vmk =
     io_bind (decrypt_body L (df_header disk) vmk (df_ciphertext disk)) (\<lambda>plaintext.
     io_bind (init_model path) (\<lambda>v0.
     io_bind (decode_vault L plaintext (v0\<lparr>v_vault_id := h_vault_id (df_header disk), v_vmk := Some vmk,
         v_source_hash := df_hash disk\<rparr>)) (\<lambda>v.
       done_with (if v_vault_id v \<noteq> h_vault_id (df_header disk) then Inl PV_ERR_AUTH
         else Inr (v, df_header disk)))))"

definition open_disk :: "library \<Rightarrow> byte list \<Rightarrow> byte list \<Rightarrow> bool \<Rightarrow> pv_disk_file \<Rightarrow> (pv_vault \<times> pv_file_header) pv_result io" where
  "open_disk L path credential recovery disk = do {
     key \<leftarrow> lib_alloc;
     if key \<noteq> Alloc_ok then done_with (Inl PV_ERR_SECURE_MEMORY)
     else io_bind (unlock_vmk L (df_header disk) credential recovery) (open_body L path disk) }"

definition open_common ::
  "library \<Rightarrow> byte list \<Rightarrow> byte list \<Rightarrow> bool \<Rightarrow> pv_buffer option \<Rightarrow>
     ((pv_vault \<times> pv_file_header) pv_result \<times> pv_buffer option) io" where
  "open_common L path credential recovery consumed_credential = do {
     r \<leftarrow> io_bind (read_disk_file (lib_sodium L) path) (open_disk L path credential recovery);
     done_with (r, map_option pv_buffer_secure_free consumed_credential) }"

definition pv_store_open_password :: "library \<Rightarrow> byte list \<Rightarrow> byte list \<Rightarrow> (pv_vault \<times> pv_file_header) pv_result io" where
  "pv_store_open_password L path password = do { r \<leftarrow> open_common L path password False None; done_with (fst r) }"

definition pv_store_open_password_consume ::
  "library \<Rightarrow> byte list \<Rightarrow> pv_buffer \<Rightarrow> ((pv_vault \<times> pv_file_header) pv_result \<times> pv_buffer option) io" where
  "pv_store_open_password_consume L path password =
     (case buffer_secret password of
        None \<Rightarrow> done_with (Inl PV_ERR_USAGE, Some (pv_buffer_secure_free password))
      | Some bytes \<Rightarrow> open_common L path bytes False (Some password))"

definition pv_store_open_recovery :: "library \<Rightarrow> byte list \<Rightarrow> byte list \<Rightarrow> (pv_vault \<times> pv_file_header) pv_result io" where
  "pv_store_open_recovery L path recovery_key = do {
     r \<leftarrow> open_common L path (take PV_RECOVERY_KEY_BYTES recovery_key) True None; done_with (fst r) }"

definition pv_store_open_recovery_consume ::
  "library \<Rightarrow> byte list \<Rightarrow> pv_buffer \<Rightarrow> ((pv_vault \<times> pv_file_header) pv_result \<times> pv_buffer option) io" where
  "pv_store_open_recovery_consume L path recovery_key =
     (case buffer_secret recovery_key of
        None \<Rightarrow> done_with (Inl PV_ERR_USAGE, Some (pv_buffer_secure_free recovery_key))
      | Some bytes \<Rightarrow>
          if b_len recovery_key \<noteq> PV_RECOVERY_KEY_BYTES
          then done_with (Inl PV_ERR_USAGE, Some (pv_buffer_secure_free recovery_key))
          else open_common L path bytes True (Some recovery_key))"

section \<open>Copies of the file\<close>

text \<open>A copy and the file it was made from have the same bytes, and the copy has the mode it should have.\<close>

definition same_snapshot :: "pv_disk_file \<Rightarrow> pv_disk_file \<Rightarrow> bool" where
  "same_snapshot a b \<longleftrightarrow> df_ciphertext a = df_ciphertext b \<and> df_header_bytes a = df_header_bytes b"

definition write_exact_snapshot_copy :: "library \<Rightarrow> pv_disk_file \<Rightarrow> byte list \<Rightarrow> u32 \<Rightarrow> pv_status io" where
  "write_exact_snapshot_copy L source output_path final_mode =
     (if final_mode \<noteq> 0x100 \<and> final_mode \<noteq> 0x180 then done_with PV_ERR_USAGE
      else do {
        status \<leftarrow> write_snapshot_exclusive output_path (df_header_bytes source) (df_ciphertext source) final_mode;
        if status \<noteq> PV_OK \<and> status \<noteq> PV_ERR_DURABILITY then done_with status
        else do {
          back \<leftarrow> read_disk_file (lib_sodium L) output_path;
          done_with (case back of
              Inl e \<Rightarrow> PV_ERR_DURABILITY
            | Inr recovered \<Rightarrow>
                if \<not> same_snapshot recovered source \<or> df_hash recovered \<noteq> df_hash source \<or>
                   perm_bits (df_stat recovered) \<noteq> final_mode
                then PV_ERR_DURABILITY else status) } })"

definition pv_store_backup :: "library \<Rightarrow> byte list \<Rightarrow> byte list \<Rightarrow> byte list option \<Rightarrow> pv_status io" where
  "pv_store_backup L vault_path output_path expected_hash = do {
     r \<leftarrow> read_disk_file (lib_sodium L) vault_path;
     case r of
       Inl e \<Rightarrow> done_with e
     | Inr disk \<Rightarrow>
         if expected_hash \<noteq> None \<and> expected_hash \<noteq> Some (df_hash disk) then done_with PV_ERR_AUTH
         else write_exact_snapshot_copy L disk output_path 0x180 }"

definition pv_store_inspect :: "library \<Rightarrow> byte list \<Rightarrow> (pv_file_header \<times> nat) pv_result io" where
  "pv_store_inspect L path = io_bind (read_disk_file (lib_sodium L) path) (\<lambda>disk.
     done_with (Inr (df_header disk, length (df_ciphertext disk))))"

definition pv_store_recover_authenticated :: "library \<Rightarrow> byte list \<Rightarrow> byte list \<Rightarrow> byte list \<Rightarrow> pv_status io" where
  "pv_store_recover_authenticated L snapshot_path output_path expected_hash = do {
     r \<leftarrow> read_disk_file (lib_sodium L) snapshot_path;
     case r of
       Inl e \<Rightarrow> done_with e
     | Inr source \<Rightarrow>
         if df_hash source \<noteq> expected_hash then done_with PV_ERR_AUTH
         else write_exact_snapshot_copy L source output_path 0x100 }"

section \<open>Restoring\<close>

text \<open>\<^verbatim>\<open>"%020lld"\<close>\<close>

definition signed_decimal :: "i64 \<Rightarrow> byte list" where
  "signed_decimal n = (if sint n < 0 then 0x2d # decimal 19 (nat (- sint n)) else decimal 20 (nat (sint n)))"

definition pre_restore_name :: "i64 \<Rightarrow> u32 \<Rightarrow> byte list" where
  "pre_restore_name now random_suffix =
     ascii ''pre-restore-'' @ signed_decimal now @ ascii ''-'' @ hex8 random_suffix @ ascii ''.pvlt''"

text \<open>
  Keep a copy of the file that is to be replaced. The result has the descriptor of the backup
  directory if it was opened.
\<close>

definition keep_active :: "library \<Rightarrow> pv_store_location \<Rightarrow> pv_disk_file \<Rightarrow> (pv_status \<times> fd option) io" where
  "keep_active L location backup = do {
     r \<leftarrow> read_disk_file_at (lib_sodium L) (directory_fd location) (loc_name location);
     case r of
       Inl e \<Rightarrow> done_with (if e = PV_ERR_FORMAT \<or> e = PV_ERR_UNSUPPORTED then PV_ERR_EXISTS else e, None)
     | Inr active \<Rightarrow>
         if h_vault_id (df_header active) \<noteq> h_vault_id (df_header backup) then done_with (PV_ERR_AUTH, None)
         else do {
           made \<leftarrow> make_private_directory_at (directory_fd location) (ascii ''backups'');
           case made of
             Inl e \<Rightarrow> done_with (e, None)
           | Inr dir \<Rightarrow> do {
               random_suffix \<leftarrow> random_u32;
               now \<leftarrow> now_ms;
               status \<leftarrow> (if length (pre_restore_name now random_suffix) \<ge> PATH_MAX then done_with PV_ERR_LIMIT
                 else copy_file_exclusive_at (directory_fd location) (loc_name location) dir
                   (pre_restore_name now random_suffix));
               done_with (status, Some dir) } } }"

definition after_restore :: "library \<Rightarrow> byte list \<Rightarrow> pv_store_location \<Rightarrow> pv_disk_file \<Rightarrow> bool \<Rightarrow> pv_status io" where
  "after_restore L vault_path location backup warned = do {
     back \<leftarrow> read_disk_file_at (lib_sodium L) (directory_fd location) (loc_name location);
     moved \<leftarrow> revalidate_store_location vault_path location;
     done_with (if warned \<or> moved \<noteq> PV_OK \<or>
         (case back of Inl e \<Rightarrow> True | Inr written \<Rightarrow> \<not> same_snapshot written backup)
       then PV_ERR_DURABILITY else PV_OK) }"

definition restore_locked :: "library \<Rightarrow> byte list \<Rightarrow> pv_store_location \<Rightarrow> pv_disk_file \<Rightarrow> pv_status io" where
  "restore_locked L vault_path location backup = do {
     found \<leftarrow> path_entry_exists_at (directory_fd location) (loc_name location);
     kept \<leftarrow> (case found of
         Inl e \<Rightarrow> done_with (e, None)
       | Inr active_exists \<Rightarrow> if active_exists then keep_active L location backup else done_with (PV_OK, None));
     _ \<leftarrow> (case snd kept of None \<Rightarrow> done_with (Inr ()) | Some dir \<Rightarrow> sys_close dir);
     s1 \<leftarrow> if_ok (fst kept) (do {
         m \<leftarrow> revalidate_store_location vault_path location;
         done_with (if m \<noteq> PV_OK then PV_ERR_LOCKED else PV_OK) });
     if s1 \<noteq> PV_OK then done_with s1
     else do {
       w \<leftarrow> write_atomic_at location (df_header_bytes backup) (df_ciphertext backup) (found \<noteq> Inr True);
       if w = PV_OK \<or> w = PV_ERR_DURABILITY
       then after_restore L vault_path location backup (w = PV_ERR_DURABILITY)
       else done_with w } }"

definition pv_store_restore :: "library \<Rightarrow> byte list \<Rightarrow> byte list \<Rightarrow> byte list \<Rightarrow> pv_status io" where
  "pv_store_restore L vault_path backup_path expected_hash = do {
     r \<leftarrow> read_disk_file (lib_sodium L) backup_path;
     case r of
       Inl e \<Rightarrow> done_with e
     | Inr backup \<Rightarrow>
         if df_hash backup \<noteq> expected_hash then done_with PV_ERR_AUTH
         else do {
           locked \<leftarrow> lock_vault vault_path;
           case locked of
             Inl e \<Rightarrow> done_with e
           | Inr (location, lock) \<Rightarrow> do {
               status \<leftarrow> restore_locked L vault_path location backup;
               _ \<leftarrow> unlock_vault lock location;
               done_with status } } }"

section \<open>Checking a file\<close>

fun issue_message :: "pv_private_snapshot_issue \<Rightarrow> byte list" where
  "issue_message PV_PRIVATE_SNAPSHOT_TYPE = ascii ''vault path is not a regular non-symlink file''"
| "issue_message PV_PRIVATE_SNAPSHOT_OWNER = ascii ''vault file is not owned by the current user''"
| "issue_message PV_PRIVATE_SNAPSHOT_LINKS = ascii ''vault file has additional hard links''"
| "issue_message PV_PRIVATE_SNAPSHOT_MODE = ascii ''vault permissions must be exactly 0400 or 0600''"
| "issue_message _ = ascii ''vault path metadata is unsafe''"

definition lock_unsafe :: "byte list \<Rightarrow> bool io" where
  "lock_unsafe path =
     (if length (lock_name path) \<ge> PATH_MAX then done_with True
      else do {
        r \<leftarrow> sys_lstat (lock_name path);
        euid \<leftarrow> geteuid;
        done_with (case r of
            Inl e \<Rightarrow> e \<noteq> ENOENT
          | Inr st \<Rightarrow> st_kind st \<noteq> Regular_file \<or> st_uid st \<noteq> euid \<or> st_nlink st \<noteq> 1 \<or> perm_bits st \<noteq> 0x180) })"

text \<open>The message is cut to the size of the caller's array, which must not be empty.\<close>

definition pv_store_doctor :: "library \<Rightarrow> byte list \<Rightarrow> nat \<Rightarrow> (pv_status \<times> byte list) io" where
  "pv_store_doctor L path message_len =
     (if message_len = 0 then done_with (PV_ERR_USAGE, [])
      else do {
        r \<leftarrow> (do {
          st \<leftarrow> sys_lstat path;
          euid \<leftarrow> geteuid;
          case st of
            Inl e \<Rightarrow> done_with (PV_ERR_IO, ascii ''vault path is inaccessible'')
          | Inr st \<Rightarrow>
              if private_snapshot_stat_issue euid st \<noteq> PV_PRIVATE_SNAPSHOT_OK
              then done_with (PV_ERR_IO, issue_message (private_snapshot_stat_issue euid st))
              else do {
                parent \<leftarrow> validate_parent_security path;
                if parent \<noteq> PV_OK
                then done_with (PV_ERR_IO, ascii ''vault parent directory is unsafe or writable by another user'')
                else do {
                  unsafe_lock \<leftarrow> lock_unsafe path;
                  if unsafe_lock
                  then done_with (PV_ERR_IO, ascii ''vault lockfile ownership or permissions are unsafe'')
                  else do {
                    d \<leftarrow> read_disk_file (lib_sodium L) path;
                    done_with (case d of
                        Inl e \<Rightarrow> (e, ascii ''vault structure invalid: '' @ ascii (pv_status_string e))
                      | Inr disk \<Rightarrow> (PV_OK,
                          ascii ''structure OK; format '' @ print_decimal (unat (h_major (df_header disk))) @ ascii ''.'' @
                          print_decimal (unat (h_minor (df_header disk))) @ ascii ''; encrypted payload '' @
                          print_decimal (length (df_ciphertext disk)) @ ascii '' bytes'')) } } } });
        done_with (fst r, take (message_len - 1) (snd r)) })"

section \<open>Saving replaces the file or leaves it\<close>

lemma outcomes_nonempty: "outcomes F d n \<noteq> {}"
proof -
  have "file_states F (entry F d n) \<noteq> {}" by (auto simp: file_states_def split: option.split)
  then show ?thesis by (auto simp: outcomes_def)
qed

lemma replaced_or_kept_before:
  assumes "changes X F G" "(d, n) \<notin> X" "d < fs_next F" "fs_ok F" "replaced_or_kept G d n x r H"
  shows "replaced_or_kept F d n x r H"
  using assms(5) changes_outcomes [OF assms(1-4)] unfolding replaced_or_kept_def by fastforce

lemma replaced_or_kept_after:
  assumes "replaced_or_kept F d n x r G" "changes X G H" "(d, n) \<notin> X" "d < fs_next G" "fs_ok G"
    and "r' = r \<or> r = PV_OK \<and> r' = PV_ERR_DURABILITY"
  shows "replaced_or_kept F d n x r' H"
proof -
  have o: "outcomes H d n \<subseteq> outcomes G d n" and c: "content H d n = content G d n"
    using changes_outcomes [OF assms(2-5)] by auto
  have "outcomes H d n = {Some x}" if "outcomes G d n = {Some x}" using o that outcomes_nonempty by fastforce
  then show ?thesis using assms(1,6) o c unfolding replaced_or_kept_def by auto
qed

lemma kept:
  assumes "changes X F G" "(d, n) \<notin> X" "d < fs_next F" "fs_ok F" "r \<notin> {PV_OK, PV_ERR_DURABILITY}"
  shows "replaced_or_kept F d n x r G"
  using changes_outcomes [OF assms(1-4)] assms(5) unfolding replaced_or_kept_def by auto

lemma path_entry_exists_spec:
  assumes "run_state (path_entry_exists_at dir n) s = (r, s')"
  shows "os_fs s' = os_fs s" "r = Inr True \<Longrightarrow> entry (os_fs s) (fd_ino dir) n \<noteq> None" "r = Inl e \<Longrightarrow> e = PV_ERR_IO"
proof -
  obtain st where st: "run_state (sys_fstatat dir n) s = (st, s')"
    and r: "r = (case st of Inr st \<Rightarrow> Inr True | Inl e \<Rightarrow> if e = ENOENT then Inr False else Inl PV_ERR_IO)"
    using assms by (auto simp: path_entry_exists_at_def run_bind_iff simp del: run_state_bind)
  show "os_fs s' = os_fs s" using quiet_same [OF _ st] by (simp add: frame)
  show "r = Inl e \<Longrightarrow> e = PV_ERR_IO" using r by (auto split: sum.splits if_splits)
  have "entry (os_fs s) (fd_ino dir) n \<noteq> None" if "st = Inr x" for x
    using st that unfolding sys_fstatat_def by (cases rule: sys_cases) (auto split: option.splits)
  then show "r = Inr True \<Longrightarrow> entry (os_fs s) (fd_ino dir) n \<noteq> None" using r by (auto split: sum.splits if_splits)
qed

lemma load_current_spec:
  assumes "run_state (load_current L location v) s = (r, s')"
  shows "os_fs s' = os_fs s" "r \<noteq> Inl PV_OK" "r \<noteq> Inl PV_ERR_DURABILITY"
    "r = Inr current \<Longrightarrow> df_hash current = v_source_hash v \<and>
       df_hash current = generichash (lib_sodium L) (df_header_bytes current @ df_ciphertext current) \<and>
       content (os_fs s) (fd_ino (directory_fd location)) (loc_name location) = Some (df_header_bytes current @ df_ciphertext current)"
proof -
  let ?read = "read_disk_file_at (lib_sodium L) (directory_fd location) (loc_name location)"
  obtain q where q: "run_state ?read s = (q, s')" and r: "r = res_bind q (\<lambda>current.
      if perm_bits (df_stat current) \<noteq> 0x180 then Inl PV_ERR_IO
      else if df_hash current \<noteq> v_source_hash v \<or> h_vault_id (df_header current) \<noteq> v_vault_id v then Inl PV_ERR_LOCKED
      else Inr current)"
  proof -
    obtain q s1 where "run_state ?read s = (q, s1)" by fastforce
    with assms show thesis by (intro that [of q]) (cases q; auto simp: load_current_def io_bind_def split: if_splits)+
  qed
  show "os_fs s' = os_fs s" using quiet_same [OF _ q] by (simp add: frame)
  have "q \<noteq> Inl PV_OK \<and> q \<noteq> Inl PV_ERR_DURABILITY" using keepsD [OF errors_disk_file_at _ q] by auto
  then show "r \<noteq> Inl PV_OK" "r \<noteq> Inl PV_ERR_DURABILITY" using r by (cases q; auto split: if_splits)+
  show "df_hash current = v_source_hash v \<and> df_hash current = generichash (lib_sodium L) (df_header_bytes current @ df_ciphertext current) \<and>
      content (os_fs s) (fd_ino (directory_fd location)) (loc_name location) = Some (df_header_bytes current @ df_ciphertext current)"
    if "r = Inr current"
  proof (cases q)
    case (Inr x)
    then show ?thesis using r that q by (auto simp: content_some split: if_splits elim: read_disk_file_at_spec)
  qed (use r that in simp)
qed

text \<open>The statuses that sealing reports\<close>

definition writer_statuses :: "pv_status set" where
  "writer_statuses = {PV_OK, PV_ERR_FORMAT, PV_ERR_LIMIT}"

definition bounded_writer :: "(cbor_writer \<Rightarrow> cbor_writer) \<Rightarrow> bool" where
  "bounded_writer f \<longleftrightarrow> (\<forall>w. w_status w \<in> writer_statuses \<longrightarrow> w_status (f w) \<in> writer_statuses)"

lemma writer_statuses_members [simp]:
  "PV_OK \<in> writer_statuses" "PV_ERR_FORMAT \<in> writer_statuses" "PV_ERR_LIMIT \<in> writer_statuses"
  by (simp_all add: writer_statuses_def)

lemma bounded_seq: "list_all bounded_writer fs \<Longrightarrow> bounded_writer (seq fs)"
proof (induction fs)
  case Nil
  then show ?case by (simp add: bounded_writer_def seq_def)
next
  case (Cons f fs)
  then have "bounded_writer f" "bounded_writer (seq fs)" by simp_all
  then show ?case unfolding bounded_writer_def seq_def by simp
qed

lemma bounded_bytes: "bounded_writer (writer_bytes sl)"
  by (auto simp: bounded_writer_def writer_bytes_def split: option.split)

lemma bounded_type_value: "bounded_writer (writer_type_value major value)"
  using bounded_bytes unfolding bounded_writer_def writer_type_value_def writer_u8_def by auto

lemma bounded_blob: "bounded_writer (writer_blob major sl)"
  using bounded_bytes [of sl] bounded_type_value unfolding bounded_writer_def writer_blob_def by blast

lemma bounded_heads: "bounded_writer (writer_uint v)" "bounded_writer (writer_map k)" "bounded_writer (writer_array k)"
  by (simp_all add: writer_uint_def writer_map_def writer_array_def bounded_type_value)

lemma bounded_vault: "bounded_writer (encode_vault v)"
proof -
  have field: "bounded_writer (encode_field f)" for f
    unfolding encode_field_def by (rule bounded_seq) (simp add: bounded_blob bounded_heads)
  have "bounded_writer (encode_record r)" for r
    unfolding encode_record_def
    by (rule bounded_seq) (simp add: bounded_blob bounded_heads bounded_seq field list_all_iff)
  then show ?thesis
    unfolding encode_vault_def by (intro bounded_seq) (simp add: bounded_blob bounded_heads bounded_seq list_all_iff)
qed

lemma validate_record_range: "pv_model_validate_record r \<in> writer_statuses"
proof -
  have "validate_texts m sls \<in> writer_statuses" for m sls by (induction sls) auto
  moreover have "validate_fields fs \<in> writer_statuses" for fs by (induction fs) auto
  ultimately have "validate_record_fields r \<in> writer_statuses" unfolding validate_record_fields_def by simp
  then show ?thesis unfolding pv_model_validate_record_def by simp
qed

lemma validate_all_range: "validate_all rs \<in> writer_statuses"
  using validate_record_range by (induction rs) auto

lemma pv_cbor_encode_errors:
  assumes "pv_cbor_encode mem v = Inl e"
  shows "e \<in> {PV_ERR_USAGE, PV_ERR_FORMAT, PV_ERR_LIMIT, PV_ERR_SECURE_MEMORY}"
proof -
  let ?w = "encode_vault v \<lparr>w_data = [], w_cap = PV_MAX_PLAINTEXT, w_status = PV_OK\<rparr>"
  have "w_status ?w \<in> writer_statuses" using bounded_vault [of v] by (simp add: bounded_writer_def)
  moreover have "validate_all (vault_records v) \<in> writer_statuses" by (rule validate_all_range)
  ultimately show ?thesis
    using assms unfolding pv_cbor_encode_def Let_def writer_statuses_def by (simp split: if_splits) blast+
qed

lemma encrypt_body_errors:
  assumes "pv_crypto_encrypt_body S mem buffers fill nonce vmk plaintext h = (Inl e, h')"
  shows "e \<in> {PV_ERR_USAGE, PV_ERR_LIMIT, PV_ERR_NOMEM, PV_ERR_SECURE_MEMORY, PV_ERR_STATE}"
proof -
  let ?len = "body_padded_len (word_of_nat (length plaintext))"
  have "x = PV_ERR_LIMIT" if "?len = Inl x" for x
    using that by (auto simp: body_padded_len_def Let_def split: option.splits if_splits)
  moreover have "x = PV_ERR_STATE" if "body_key S vmk = Inl x" for x
    using that by (auto simp: body_key_def split: option.splits)
  ultimately show ?thesis
    using assms
    by (cases ?len; cases "body_key S vmk"; cases mem)
      (auto simp: pv_crypto_encrypt_body_def secure_key_alloc_def Let_def split: if_splits option.splits prod.splits)
qed

text \<open>\<open>sealed_as\<close>: the bytes are the file that holds the vault under the header.\<close>

definition sealed_as :: "library \<Rightarrow> pv_vault \<Rightarrow> pv_file_header \<Rightarrow> byte list \<Rightarrow> pv_file_header \<Rightarrow> bool" where
  "sealed_as L v h bytes h' \<longleftrightarrow>
     (\<exists>vmk encoded ciphertext. v_vmk v = Some vmk \<and> pv_cbor_encode Alloc_ok v = Inr encoded \<and>
        pv_crypto_encrypt_body (lib_sodium L) Alloc_ok True (lib_fill L) (lib_nonce L) vmk encoded h = (Inr ciphertext, h') \<and>
        bytes = pv_header_encode h' @ ciphertext)"

lemma encode_Inr: "pv_cbor_encode mem v = Inr x \<Longrightarrow> pv_cbor_encode Alloc_ok v = Inr x"
  by (auto simp: pv_cbor_encode_def split: if_splits)

lemma encrypt_body_Inr:
  assumes "pv_crypto_encrypt_body S mem buffers fill nonce vmk x h = (Inr c, h')"
  shows "pv_crypto_encrypt_body S Alloc_ok True fill nonce vmk x h = (Inr c, h')"
  using assms
  by (cases mem; cases buffers; cases "body_padded_len (word_of_nat (length x))"; cases "body_key S vmk")
    (auto simp: pv_crypto_encrypt_body_def secure_key_alloc_def split: if_splits)

lemma seal_vault_quiet [frame]: "quiet P (seal_vault L v h)"
  unfolding seal_vault_def by (intro frame)

lemma seal_vault_cases:
  assumes "run_state (seal_vault L v h) s = ((r, h'), s')"
  obtains (failed) e where "r = Inl e" "e \<notin> {PV_OK, PV_ERR_DURABILITY}"
  | (sealed) ciphertext where "r = Inr (pv_header_encode h', ciphertext)" "sealed_as L v h (pv_header_encode h' @ ciphertext) h'"
proof -
  obtain mem s1 where m: "run_state lib_alloc s = (mem, s1)" by fastforce
  show thesis
  proof (cases "pv_cbor_encode mem v")
    case (Inl e)
    then show thesis using assms m pv_cbor_encode_errors [OF Inl] by (intro failed [of e]) (auto simp: seal_vault_def)
  next
    case encoded: (Inr encoded)
    show thesis
    proof (cases "v_vmk v")
      case None
      then show thesis using assms m encoded by (intro failed [of PV_ERR_USAGE]) (auto simp: seal_vault_def)
    next
      case (Some vmk)
      obtain key s2 where k: "run_state lib_alloc s1 = (key, s2)" by fastforce
      obtain buffers s3 where b: "run_state lib_ok s2 = (buffers, s3)" by fastforce
      obtain q h1 where q: "pv_crypto_encrypt_body (lib_sodium L) key buffers (lib_fill L) (lib_nonce L) vmk encoded h = (q, h1)"
        by fastforce
      show thesis
      proof (cases q)
        case (Inl e)
        then show thesis
          using assms m encoded Some k b q encrypt_body_errors [OF q [unfolded Inl]]
          by (intro failed [of e]) (auto simp: seal_vault_def)
      next
        case (Inr ciphertext)
        then have "r = Inr (pv_header_encode h', ciphertext)" "h1 = h'"
          using assms m encoded Some k b q by (auto simp: seal_vault_def)
        with encode_Inr [OF encoded] encrypt_body_Inr [OF q [unfolded Inr]] Some show thesis
          by (intro sealed) (auto simp: sealed_as_def)
      qed
    qed
  qed
qed

text \<open>\<open>committed\<close>: the vault after its new file has been read back.\<close>

definition committed :: "library \<Rightarrow> pv_vault \<Rightarrow> byte list \<Rightarrow> pv_vault \<Rightarrow> bool" where
  "committed L v1 bytes v' \<longleftrightarrow>
     (\<exists>mp. v' = v1\<lparr>v_source_hash := generichash (lib_sodium L) bytes, v_dirty := False,
        v_arena := snd (pv_arena_set_readonly mp (v_arena v1))\<rparr>)"

definition pruned_if :: "library \<Rightarrow> fd option \<Rightarrow> pv_vault \<Rightarrow> u64 \<Rightarrow> fs \<Rightarrow> fs \<Rightarrow> bool" where
  "pruned_if L backup_dir v mx F G \<longleftrightarrow> G = F \<or>
     (\<exists>dir vmk retention cs. backup_dir = Some dir \<and> (retention = 0 \<longrightarrow> cs = []) \<and>
        pruned L (fd_ino dir) (v_vault_id v) vmk mx retention F cs G)"

lemma after_commit_spec:
  assumes "run_state (after_commit L location v1 header_bytes ciphertext warned backup_dir mx retention) s = ((r, v'), s')"
    and "fs_ok (os_fs s)"
  shows "pruned_if L backup_dir v1 mx (os_fs s) (os_fs s') \<and>
    (r = PV_OK \<and> \<not> warned \<and> committed L v1 (header_bytes @ ciphertext) v' \<or>
     r = PV_ERR_DURABILITY \<and> (v' = v1 \<or> committed L v1 (header_bytes @ ciphertext) v'))"
proof -
  obtain readback s1 where b: "run_state (read_disk_file_at (lib_sodium L) (directory_fd location) (loc_name location)) s = (readback, s1)"
    by fastforce
  obtain moved s2 where m: "run_state (revalidate_store_location (v_path v1) location) s1 = (moved, s2)" by fastforce
  have s2: "os_fs s2 = os_fs s" using quiet_same [OF _ b] quiet_same [OF _ m] by (simp add: frame)
  show ?thesis
  proof (cases "s' = s2 \<and> r = PV_ERR_DURABILITY \<and> v' = v1")
    case True
    then show ?thesis using s2 by (simp add: pruned_if_def)
  next
    case False
    then obtain written where w: "readback = Inr written" "df_ciphertext written = ciphertext" "df_header_bytes written = header_bytes"
      using assms(1) b m by (cases readback) (auto simp: after_commit_def split: if_splits)
    have hash: "df_hash written = generichash (lib_sodium L) (header_bytes @ ciphertext)"
      using b w by (auto elim: read_disk_file_at_spec)
    obtain mp s3 where mp: "run_state lib_ok s2 = (mp, s3)" by fastforce
    have s3: "os_fs s3 = os_fs s" using quiet_same [OF _ mp] s2 by (simp add: frame)
    let ?prune = "case (backup_dir, v_vmk v1) of
        (Some dir, Some vmk) \<Rightarrow> if warned \<or> moved \<noteq> PV_OK then done_with PV_OK
          else prune_automatic_backups L dir (v_vault_id v1) vmk mx retention
      | _ \<Rightarrow> done_with PV_OK"
    obtain p s4 where p: "run_state ?prune s3 = (p, s4)" by fastforce
    have "s' = s4" "r = (if warned \<or> moved \<noteq> PV_OK then PV_ERR_DURABILITY else PV_OK)" and v': "v' = v1\<lparr>v_source_hash := df_hash written,
        v_dirty := False, v_arena := snd (pv_arena_set_readonly mp (v_arena v1))\<rparr>"
      using assms(1) b m w mp p by (auto simp: after_commit_def Let_def)
    moreover have "committed L v1 (header_bytes @ ciphertext) v'" using v' hash by (auto simp: committed_def)
    moreover have "pruned_if L backup_dir v1 mx (os_fs s) (os_fs s4)"
    proof (cases backup_dir; cases "v_vmk v1"; cases "warned \<or> moved \<noteq> PV_OK")
      fix dir vmk
      assume c: "backup_dir = Some dir" "v_vmk v1 = Some vmk" "\<not> (warned \<or> moved \<noteq> PV_OK)"
      then have run: "run_state (prune_automatic_backups L dir (v_vault_id v1) vmk mx retention) s3 = (p, s4)" using p by simp
      from prune_automatic_backups_spec [OF this] assms(2) s3 obtain cs where
        "retention = 0 \<longrightarrow> cs = []" "pruned L (fd_ino dir) (v_vault_id v1) vmk mx (unat retention) (os_fs s) cs (os_fs s4)" by auto
      then show ?thesis unfolding pruned_if_def using c(1) unat_eq_zero by blast
    qed (use p s3 in \<open>auto simp: pruned_if_def\<close>)
    ultimately show ?thesis by simp
  qed
qed

lemma pruned_backed_up:
  assumes p: "pruned L b vault_id vmk g k F cs G" and k: "k = 0 \<longrightarrow> cs = []" and ok: "fs_ok F" and d: "d < fs_next F"
    and b: "entry F d backups_name = Some b" and up: "backed_up L F d vault_id g hash"
  shows "backed_up L G d vault_id g hash"
proof -
  obtain name bytes where name: "format_automatic_backup_name vault_id g = Inr name" and bytes: "content F b name = Some bytes"
    "generichash (lib_sodium L) bytes = hash"
    using up b by (auto simp: backed_up_def)
  obtain i where i: "entry F b name = Some i" "bytes = i_data (fs_inode F i)" using bytes by (auto simp: content_def)
  have bd: "b < fs_next F" "b \<noteq> d" using fs_okD [OF ok b] by auto
  note ch = pruned_changes [OF p]
  have "entry G b name = entry F b name"
  proof (rule ccontr)
    assume "entry G b name \<noteq> entry F b name"
    from pruned_entry [OF p bd(1) this] obtain c where c: "bc_name c = name" "removable L F b vault_id vmk g c"
      "k \<le> card (newer_kept F G b vault_id (bc_generation c) g)" by auto
    then have "parse_automatic_backup_name name = Some (vault_id, bc_generation c)" by (auto simp: removable_def)
    moreover have "parse_automatic_backup_name name = Some (vault_id, g)"
      using calculation name by (simp add: parse_automatic_backup_name_iff format_automatic_backup_name_iff)
    ultimately have "newer_kept F G b vault_id (bc_generation c) g = {}" by (auto simp: newer_kept_def)
    then have "cs = []" using c(3) k by simp
    then have "changes {} F G" using p by (simp add: pruned_def)
    then show False using \<open>entry G b name \<noteq> entry F b name\<close> bd(1) by (auto simp: changes_def)
  qed
  moreover have "entry G d backups_name = Some b" using ch bd(2) d b by (auto simp: changes_def)
  moreover have "i_data (fs_inode G i) = i_data (fs_inode F i)" using ch fs_okD [OF ok i(1)] by (auto simp: changes_def grows_def)
  ultimately show ?thesis using name bytes i by (auto simp: backed_up_def content_def)
qed

lemma backed_up_changes:
  assumes "backed_up L F d vault_id g hash" "entry F d backups_name = Some b" "changes X F G" "fs_ok F" "d < fs_next F"
    and "(d, backups_name) \<notin> X" "\<And>n. (b, n) \<notin> X"
  shows "backed_up L G d vault_id g hash"
proof -
  have b: "b < fs_next F" using fs_okD [OF assms(4,2)] by simp
  have "entry G d backups_name = Some b" using assms(2,3,5,6) by (auto simp: changes_def)
  moreover have "content G b name = content F b name" for name
    by (rule changes_outcomes(2) [OF assms(3) assms(7) b assms(4)])
  ultimately show ?thesis using assms(1,2) by (auto simp: backed_up_def)
qed

lemma backups_name_not_temporary: "(d, backups_name) \<notin> temporaries d n"
proof
  assume "(d, backups_name) \<in> temporaries d n"
  then obtain x where "backups_name = temporary_name n x" by (auto simp: temporaries_def)
  moreover have "0x2e \<in> set (temporary_name n x)" by (simp add: temporary_name_def ascii_def)
  ultimately have "0x2e \<in> set backups_name" by simp
  then show False by (simp add: ascii_def)
qed

text \<open>The file that is saved over, as far as the rest of a save is concerned.\<close>

definition current_file :: "library \<Rightarrow> fs \<Rightarrow> nat \<Rightarrow> byte list \<Rightarrow> pv_disk_file option \<Rightarrow> bool" where
  "current_file L F d n current \<longleftrightarrow>
     (\<forall>c. current = Some c \<longrightarrow> (\<exists>i. entry F d n = Some i \<and> i_kind (fs_inode F i) = Regular_file) \<and>
        df_hash c = generichash (lib_sodium L) (df_header_bytes c @ df_ciphertext c))"

text \<open>The state after the backup: the vault's own entry is as it was.\<close>

definition secured :: "library \<Rightarrow> fs \<Rightarrow> nat \<Rightarrow> byte list \<Rightarrow> pv_vault \<Rightarrow> pv_disk_file option \<Rightarrow> fd option \<Rightarrow> fs \<Rightarrow> bool" where
  "secured L F d n v current f G \<longleftrightarrow>
     (case current of
        None \<Rightarrow> f = None \<and> G = F
      | Some c \<Rightarrow> backed_up L G d (v_vault_id v) (v_generation v) (df_hash c) \<and>
          (\<exists>dir. f = Some dir \<and> entry G d backups_name = Some (fd_ino dir) \<and> fd_ino dir \<noteq> d \<and> n \<noteq> backups_name))"

lemma save_backup:
  assumes "run_state (case current of None \<Rightarrow> done_with (PV_OK, None)
      | Some cur \<Rightarrow> automatic_backup L location v1 cur (v_generation v)) s = ((r, f), s')"
    and ok: "fs_ok (os_fs s)" and d: "fd_ino (directory_fd location) < fs_next (os_fs s)"
    and cur: "current_file L (os_fs s) (fd_ino (directory_fd location)) n current" and id: "v_vault_id v1 = v_vault_id v"
  defines "d \<equiv> fd_ino (directory_fd location)"
  shows "(\<exists>X. (d, n) \<notin> X \<and> changes X (os_fs s) (os_fs s')) \<and> r \<noteq> PV_ERR_DURABILITY \<and>
    (r = PV_OK \<longrightarrow> secured L (os_fs s) d n v current f (os_fs s'))"
proof (cases current)
  case None
  then show ?thesis using assms(1) by (auto simp: secured_def intro!: exI [of _ "{}"])
next
  case (Some c)
  let ?X = "elsewhere (os_fs s) d"
  have run: "run_state (automatic_backup L location v1 c (v_generation v)) s = ((r, f), s')" using assms(1) Some by simp
  obtain i where i: "entry (os_fs s) d n = Some i" "i_kind (fs_inode (os_fs s) i) = Regular_file"
    and hash: "df_hash c = generichash (lib_sodium L) (df_header_bytes c @ df_ciphertext c)"
    using cur Some by (auto simp: current_file_def d_def)
  note ab = automatic_backup_spec [OF run ok d hash, folded d_def]
  have X: "(d, n) \<notin> ?X" using i(1) by (auto simp: elsewhere_def fresh_entry_def)
  have "secured L (os_fs s) d n v current f (os_fs s')" if r: "r = PV_OK"
  proof -
    obtain dir where dir: "f = Some dir" "entry (os_fs s') d backups_name = Some (fd_ino dir)"
      "i_kind (fs_inode (os_fs s') (fd_ino dir)) = Directory" using ab r by auto
    have "n \<noteq> backups_name"
    proof
      assume "n = backups_name"
      then have "fd_ino dir = i" using X ab i(1) dir(2) d unfolding changes_def d_def by auto
      then show False using ab i(2) dir(3) fs_okD [OF ok i(1)] unfolding changes_def grows_def by auto
    qed
    moreover have "fd_ino dir \<noteq> d" using fs_okD [OF changes_ok [OF conjunct1 [OF ab] ok] dir(2)] by simp
    ultimately show ?thesis using ab r dir Some id by (auto simp: secured_def)
  qed
  then show ?thesis using ab X by blast
qed

text \<open>What a save does to the vault at \<open>(d, n)\<close>; \<open>bytes\<close> is the new file.\<close>

definition saved ::
  "library \<Rightarrow> fs \<Rightarrow> nat \<Rightarrow> byte list \<Rightarrow> pv_vault \<Rightarrow> pv_vault \<Rightarrow> pv_disk_file option \<Rightarrow> byte list \<Rightarrow> bool \<Rightarrow> pv_status \<Rightarrow> pv_vault \<Rightarrow> fs \<Rightarrow> bool" where
  "saved L F d n v v1 current bytes create_only r v' G \<longleftrightarrow>
     replaced_or_kept F d n bytes r G \<and> changes UNIV F G \<and>
     (if r = PV_OK \<or> r = PV_ERR_DURABILITY
      then (v' = v1 \<and> r \<noteq> PV_OK \<or> committed L v1 bytes v') \<and> (create_only \<longrightarrow> entry F d n = None)
      else v' = v) \<and>
     (r = PV_OK \<longrightarrow> (\<forall>c. current = Some c \<longrightarrow> backed_up L G d (v_vault_id v) (v_generation v) (df_hash c)))"

lemma pruned_if_frame:
  assumes "pruned_if L f v mx F G" "\<And>dir. f = Some dir \<Longrightarrow> fd_ino dir \<noteq> d"
  obtains X where "\<And>n. (d, n) \<notin> X" "changes X F G"
  using assms(1) unfolding pruned_if_def
proof (elim disjE exE conjE)
  assume "G = F"
  then show thesis by (intro that [of "{}"]) auto
next
  fix dir' vmk retention cs
  assume "f = Some dir'" "pruned L (fd_ino dir') (v_vault_id v) vmk mx retention F cs G"
  then show thesis using assms(2) pruned_changes
    by (intro that [of "{fd_ino dir'} \<times> {n. \<exists>g. parse_automatic_backup_name n = Some (v_vault_id v, g) \<and> g \<le> mx}"]) auto
qed

lemma commit_stage:
  assumes w: "run_state (write_atomic_at location hb ct create_only) s = (w, s1)"
    and res: "run_state (if w = PV_OK \<or> w = PV_ERR_DURABILITY
      then after_commit L location v1 hb ct (w = PV_ERR_DURABILITY) f (v_generation v) retention else done_with (w, v)) s1 = ((r, v'), s')"
    and ok: "fs_ok (os_fs s)" and d0: "fd_ino (directory_fd location) < fs_next (os_fs s)"
    and kind: "i_kind (fs_inode (os_fs s) (fd_ino (directory_fd location))) = Directory"
    and id: "v_vault_id v1 = v_vault_id v"
  defines "d \<equiv> fd_ino (directory_fd location)" and "n \<equiv> loc_name location"
  assumes sec: "secured L F0 d n v current f (os_fs s)"
  shows "saved L (os_fs s) d n v v1 current (hb @ ct) create_only r v' (os_fs s')"
proof -
  let ?F = "os_fs s" and ?G = "os_fs s1" and ?x = "hb @ ct" and ?Y = "insert (d, n) (temporaries d n)"
  have d: "d < fs_next ?F" using d0 by (simp add: d_def)
  have pub: "published_or_not ?F d n ?x create_only PV_ERR_DURABILITY w ?G"
    unfolding d_def n_def by (rule write_atomic_at_spec [OF w ok d0 kind])
  note rep = published_replaced [OF pub ok d]
  have ch: "changes ?Y ?F ?G" by (rule published_changes [OF pub])
  show ?thesis
  proof (cases "w = PV_OK \<or> w = PV_ERR_DURABILITY")
    case False
    then show ?thesis using res rep(1) changes_mono [OF ch] by (auto simp: saved_def)
  next
    case True
    have ok1: "fs_ok ?G" and d1: "d < fs_next ?G" using changes_ok [OF ch ok] changes_next [OF ch] d by auto
    have ac: "run_state (after_commit L location v1 hb ct (w = PV_ERR_DURABILITY) f (v_generation v) retention) s1 = ((r, v'), s')"
      using res True by simp
    note acs = after_commit_spec [OF ac ok1]
    have "fd_ino dir \<noteq> d" if "f = Some dir" for dir using sec that by (auto simp: secured_def split: option.splits)
    with acs obtain X where X: "\<And>n. (d, n) \<notin> X" "changes X ?G (os_fs s')" by (metis pruned_if_frame)
    have "replaced_or_kept ?F d n ?x r (os_fs s')"
      by (rule replaced_or_kept_after [OF rep(1) X(2) X(1) d1 ok1]) (use acs True in auto)
    moreover have "backed_up L (os_fs s') d (v_vault_id v) (v_generation v) (df_hash c)" if c: "current = Some c" for c
    proof -
      obtain dir where dir: "f = Some dir" "entry ?F d backups_name = Some (fd_ino dir)" "fd_ino dir \<noteq> d" "n \<noteq> backups_name"
        and up: "backed_up L ?F d (v_vault_id v) (v_generation v) (df_hash c)"
        using sec c by (auto simp: secured_def)
      have Y: "(d, backups_name) \<notin> ?Y" "\<And>m. (fd_ino dir, m) \<notin> ?Y"
        using dir(3,4) backups_name_not_temporary by (auto simp: temporaries_def)
      have up1: "backed_up L ?G d (v_vault_id v) (v_generation v) (df_hash c)"
        by (rule backed_up_changes [OF up dir(2) ch ok d Y])
      have e1: "entry ?G d backups_name = Some (fd_ino dir)" using ch Y(1) d dir(2) unfolding changes_def by metis
      from conjunct1 [OF acs] show ?thesis
        unfolding pruned_if_def
      proof (elim disjE exE conjE)
        fix dir' vmk k cs
        assume "f = Some dir'" "k = 0 \<longrightarrow> cs = []" "pruned L (fd_ino dir') (v_vault_id v1) vmk (v_generation v) k ?G cs (os_fs s')"
        then show ?thesis using pruned_backed_up [OF _ _ ok1 d1 e1 up1] dir(1) id by auto
      qed (use up1 in simp)
    qed
    moreover have "changes UNIV ?F (os_fs s')" by (rule changes_trans [OF ch X(2)]) simp_all
    ultimately show ?thesis using acs True rep(2) by (auto simp: saved_def)
  qed
qed

lemma save_sealed_spec:
  assumes "run_state (save_sealed L location v v1 current hb ct retention create_only) s = ((r, v'), s')"
    and ok: "fs_ok (os_fs s)" and d0: "fd_ino (directory_fd location) < fs_next (os_fs s)"
    and kind: "i_kind (fs_inode (os_fs s) (fd_ino (directory_fd location))) = Directory"
    and cur: "current_file L (os_fs s) (fd_ino (directory_fd location)) (loc_name location) current"
    and id: "v_vault_id v1 = v_vault_id v"
  defines "d \<equiv> fd_ino (directory_fd location)" and "n \<equiv> loc_name location"
  shows "saved L (os_fs s) d n v v1 current (hb @ ct) create_only r v' (os_fs s')"
proof -
  obtain b f s1 where bk: "run_state (case current of None \<Rightarrow> done_with (PV_OK, None)
      | Some cur \<Rightarrow> automatic_backup L location v1 cur (v_generation v)) s = ((b, f), s1)"
    by (metis surj_pair)
  note sb = save_backup [OF bk ok d0 cur id, folded d_def n_def]
  then obtain X where X: "(d, n) \<notin> X" "changes X (os_fs s) (os_fs s1)" by blast
  have d: "d < fs_next (os_fs s)" using d0 by (simp add: d_def)
  have ok1: "fs_ok (os_fs s1)" and d1: "d < fs_next (os_fs s1)" using changes_ok [OF X(2) ok] changes_next [OF X(2)] d by auto
  have kind1: "i_kind (fs_inode (os_fs s1) d) = Directory" using X(2) kind d unfolding changes_def grows_def d_def by auto
  have same: "entry (os_fs s1) d n = entry (os_fs s) d n" using X d unfolding changes_def by metis
  obtain c1 s2 where rv: "run_state (if_ok b (do { m \<leftarrow> revalidate_store_location (v_path v1) location;
      done_with (if m \<noteq> PV_OK then PV_ERR_LOCKED else PV_OK) })) s1 = (c1, s2)" by fastforce
  have s2: "os_fs s2 = os_fs s1" using quiet_same [OF _ rv] by (simp add: frame)
  have c1: "c1 = PV_OK \<Longrightarrow> b = PV_OK" "c1 \<noteq> PV_ERR_DURABILITY"
    using rv sb by (auto elim!: if_ok_cases simp: run_bind_iff simp del: run_state_bind split: if_splits)
  obtain w s3 where w: "run_state (if_ok c1 (write_atomic_at location hb ct create_only)) s2 = (w, s3)" by fastforce
  let ?rest = "if c1 = PV_OK \<and> (w = PV_OK \<or> w = PV_ERR_DURABILITY)
      then after_commit L location v1 hb ct (w = PV_ERR_DURABILITY) f (v_generation v) retention else done_with (w, v)"
  obtain r1 v2 s4 where res: "run_state ?rest s3 = ((r1, v2), s4)" by (metis surj_pair)
  obtain x s5 where cl: "run_state (case f of None \<Rightarrow> done_with (Inr ()) | Some dir \<Rightarrow> sys_close dir) s4 = (x, s5)" by fastforce
  have "os_fs s5 = os_fs s4" using quiet_same [OF _ cl] by (simp add: frame)
  moreover have "r = r1" "v' = v2" "s' = s5" using assms(1) bk rv w res cl by (simp_all add: save_sealed_def cong: if_cong)
  moreover have "saved L (os_fs s) d n v v1 current (hb @ ct) create_only r1 v2 (os_fs s4)"
  proof (cases "c1 = PV_OK")
    case True
    then have "saved L (os_fs s2) d n v v1 current (hb @ ct) create_only r1 v2 (os_fs s4)"
      using commit_stage [of location hb ct create_only s2 w s3 L v1 f v retention r1 v2 s4 "os_fs s" current] w res sb c1(1) ok1 d1 kind1 s2 id
      unfolding d_def [symmetric] n_def [symmetric] by (simp add: if_ok_def)
    then show ?thesis
      using replaced_or_kept_before [OF X(2,1) d ok] changes_trans [OF X(2), of UNIV _ UNIV]
      unfolding saved_def s2 same by blast
  next
    case False
    then have "s3 = s2" "w = c1" "r1 = w" "v2 = v" "s4 = s3" using w res by (auto simp: if_ok_def)
    then show ?thesis using kept [OF X(2,1) d ok] changes_mono [OF X(2)] False c1(2) s2 by (simp add: saved_def)
  qed
  ultimately show ?thesis by simp
qed

lemma saved_idle:
  assumes "r \<notin> {PV_OK, PV_ERR_DURABILITY}"
  shows "saved L F d n v v1 current bytes create_only r v F"
  using assms by (auto simp: saved_def replaced_or_kept_def)

lemma read_current_file:
  assumes "run_state (load_current L location v) s = (Inr current, s')"
  shows "current_file L (os_fs s) (fd_ino (directory_fd location)) (loc_name location) (Some current)"
proof -
  obtain s1 where "run_state (read_disk_file_at (lib_sodium L) (directory_fd location) (loc_name location)) s = (Inr current, s1)"
    using assms by (auto simp: load_current_def split: if_splits elim!: io_bind_Inr)
  then show ?thesis
    by (elim read_disk_file_at_spec)
      (auto simp: current_file_def private_file_def private_snapshot_stat_issue_def Let_def stat_of_def split: if_splits)
qed

text \<open>\<open>save_locked\<close> as a whole: what is saved, and that the file replaced is the one the vault was read from.\<close>

definition save_effect ::
  "library \<Rightarrow> fs \<Rightarrow> nat \<Rightarrow> byte list \<Rightarrow> pv_vault \<Rightarrow> pv_file_header \<Rightarrow> bool \<Rightarrow> pv_status \<Rightarrow> pv_vault \<Rightarrow> pv_file_header \<Rightarrow> fs \<Rightarrow> bool" where
  "save_effect L F d n v h create_only r v' h' G \<longleftrightarrow>
     (\<exists>now current bytes. saved L F d n v (next_generation v now) current bytes create_only r v' G \<and>
        (r \<in> {PV_OK, PV_ERR_DURABILITY} \<longrightarrow> v_generation v \<noteq> 0xffffffffffffffff \<and>
           sealed_as L (next_generation v now) h bytes h' \<and>
           (\<not> create_only \<longrightarrow> (\<exists>c old. current = Some c \<and> df_hash c = v_source_hash v \<and> content F d n = Some old \<and>
              generichash (lib_sodium L) old = v_source_hash v))))"

lemma save_effect_idle: "r \<notin> {PV_OK, PV_ERR_DURABILITY} \<Longrightarrow> save_effect L F d n v h create_only r v h' F"
  unfolding save_effect_def using saved_idle by blast

definition loaded_ok :: "library \<Rightarrow> fs \<Rightarrow> nat \<Rightarrow> byte list \<Rightarrow> pv_vault \<Rightarrow> bool \<Rightarrow> pv_disk_file option \<Rightarrow> bool" where
  "loaded_ok L F d n v exists current \<longleftrightarrow> current_file L F d n current \<and>
     (exists \<longrightarrow> (\<exists>c old. current = Some c \<and> df_hash c = v_source_hash v \<and> content F d n = Some old \<and>
        generichash (lib_sodium L) old = v_source_hash v))"

lemma load_if_spec:
  assumes "run_state (load_if L location v exists) s = (r, s')"
  shows "os_fs s' = os_fs s \<and> r \<notin> {Inl PV_OK, Inl PV_ERR_DURABILITY} \<and>
    (\<forall>current. r = Inr current \<longrightarrow> loaded_ok L (os_fs s) (fd_ino (directory_fd location)) (loc_name location) v exists current)"
proof (cases exists)
  case False
  then show ?thesis using assms by (auto simp: load_if_def loaded_ok_def current_file_def)
next
  case True
  obtain q s1 where q: "run_state (load_current L location v) s = (q, s1)" by fastforce
  then have r: "s' = s1" "r = map_sum id Some q" using assms True by (cases q; auto simp: load_if_def io_bind_def)+
  show ?thesis
  proof (cases q)
    case (Inl e)
    then show ?thesis using r load_current_spec(1,2,3) [OF q] by auto
  next
    case (Inr c)
    then show ?thesis
      using r load_current_spec(1) [OF q] load_current_spec(4) [OF q Inr] read_current_file [OF q [unfolded Inr]] True
      by (auto simp: loaded_ok_def)
  qed
qed

lemma save_loaded_spec:
  assumes "run_state (save_loaded L location v h current retention create_only) s = ((r, v', h'), s')"
    and "fs_ok (os_fs s)" "fd_ino (directory_fd location) < fs_next (os_fs s)"
    and "i_kind (fs_inode (os_fs s) (fd_ino (directory_fd location))) = Directory"
    and l: "loaded_ok L (os_fs s) (fd_ino (directory_fd location)) (loc_name location) v (\<not> create_only) current"
    and g: "v_generation v \<noteq> 0xffffffffffffffff"
  shows "save_effect L (os_fs s) (fd_ino (directory_fd location)) (loc_name location) v h create_only r v' h' (os_fs s')"
proof -
  obtain now s1 where nw: "run_state now_ms s = (now, s1)" by fastforce
  have s1: "os_fs s1 = os_fs s" using quiet_same [OF _ nw] by (simp add: frame)
  obtain q h1 s2 where sl: "run_state (seal_vault L (next_generation v now) h) s1 = ((q, h1), s2)" by (metis surj_pair)
  have s2: "os_fs s2 = os_fs s" using quiet_same [OF _ sl] s1 by (simp add: frame)
  from sl show ?thesis
  proof (cases rule: seal_vault_cases)
    case (failed e)
    then have "r = e" "v' = v" "s' = s2" using assms(1) nw sl by (auto simp: save_loaded_def)
    then show ?thesis using save_effect_idle failed(2) s2 by metis
  next
    case (sealed ciphertext)
    let ?hb = "pv_header_encode h1"
    obtain r1 v2 s3 where ss: "run_state (save_sealed L location v (next_generation v now) current ?hb ciphertext retention create_only) s2 =
        ((r1, v2), s3)" by (metis surj_pair)
    then have res: "r = r1" "v' = v2" "s' = s3" "h' = h1" using assms(1) nw sl sealed by (auto simp: save_loaded_def)
    have "saved L (os_fs s) (fd_ino (directory_fd location)) (loc_name location) v (next_generation v now) current
        (?hb @ ciphertext) create_only r v' (os_fs s')"
      using save_sealed_spec [OF ss] assms(2-4) l s2 res by (simp add: loaded_ok_def next_generation_def)
    then show ?thesis using sealed(2) l g res unfolding save_effect_def loaded_ok_def by metis
  qed
qed

lemma save_locked_spec:
  assumes "run_state (save_locked L location v h retention create_only) s = ((r, v', h'), s')"
    and "fs_ok (os_fs s)" "fd_ino (directory_fd location) < fs_next (os_fs s)"
    and "i_kind (fs_inode (os_fs s) (fd_ino (directory_fd location))) = Directory"
  shows "save_effect L (os_fs s) (fd_ino (directory_fd location)) (loc_name location) v h create_only r v' h' (os_fs s')"
proof -
  obtain found s1 where fd: "run_state (path_entry_exists_at (directory_fd location) (loc_name location)) s = (found, s1)" by fastforce
  note fds = path_entry_exists_spec [OF fd]
  obtain loaded s2 where ld: "run_state (load_if L location v (\<not> create_only)) s1 = (loaded, s2)" by fastforce
  note lds = load_if_spec [OF ld, unfolded fds(1)]
  show ?thesis
  proof (cases "v_generation v \<noteq> 0xffffffffffffffff \<and> found = Inr (\<not> create_only) \<and> (\<exists>current. loaded = Inr current)")
    case True
    then obtain current where c: "loaded = Inr current" by blast
    have "run_state (save_loaded L location v h current retention create_only) s2 = ((r, v', h'), s')"
      using assms(1) fd ld True c by (auto simp: save_locked_def split: if_splits)
    from save_loaded_spec [OF this] show ?thesis using assms(2-4) lds c True by simp
  next
    case False
    then have "os_fs s' = os_fs s \<and> v' = v \<and> r \<notin> {PV_OK, PV_ERR_DURABILITY}"
      using assms(1) fd ld fds lds
      by (cases found; cases loaded; cases create_only) (auto simp: save_locked_def split: if_splits)
    then show ?thesis using save_effect_idle by metis
  qed
qed

section \<open>Locking\<close>

lemma sys_open_dir_spec:
  assumes "run_state (sys_open_dir path) s = (Inr f, s')"
  shows "map_of (fs_dirs (os_fs s)) path = Some (fd_ino f)"
  using assms unfolding sys_open_dir_def by (cases rule: sys_cases) (auto simp: new_fd_def split: option.splits)

text \<open>\<open>located F path d n\<close>: the path leads to the name \<open>n\<close> in the directory \<open>d\<close>.\<close>

definition located :: "fs \<Rightarrow> byte list \<Rightarrow> nat \<Rightarrow> byte list \<Rightarrow> bool" where
  "located F path d n \<longleftrightarrow> (\<exists>parent. split_parent_and_name path = Inr (parent, n) \<and> map_of (fs_dirs F) parent = Some d)"

lemma located_exists: "located F path d n \<Longrightarrow> fs_ok F \<Longrightarrow> d < fs_next F"
  by (auto simp: located_def fs_ok_def dest!: map_of_SomeD)

lemma located_unique: "located F path d n \<Longrightarrow> located F path d' n' \<Longrightarrow> d' = d \<and> n' = n"
  by (auto simp: located_def)

lemma open_private_parent_spec:
  assumes "run_state (open_private_parent path) s = (Inr (dir, n), s')"
  shows "located (os_fs s) path (fd_ino dir) n \<and> i_kind (fs_inode (os_fs s) (fd_ino dir)) = Directory"
proof -
  obtain parent name where sp: "split_parent_and_name path = Inr (parent, name)"
    using assms by (cases "split_parent_and_name path") (auto simp: open_private_parent_def)
  obtain opened s1 where op: "run_state (sys_open_dir parent) s = (opened, s1)" by fastforce
  have s1: "os_fs s1 = os_fs s" using quiet_same [OF _ op] by (simp add: frame)
  obtain f where f: "opened = Inr f" using assms sp op by (cases opened) (auto simp: open_private_parent_def)
  obtain st s2 where st: "run_state (sys_fstat f) s1 = (st, s2)" by fastforce
  obtain euid s3 where eu: "run_state geteuid s2 = (euid, s3)" by fastforce
  obtain c s4 where cl: "run_state (sys_close f) s3 = (c, s4)" by fastforce
  have "dir = f \<and> n = name \<and> (\<exists>x. st = Inr x \<and> st_kind x = Directory)"
    using assms sp op f st eu cl by (cases st) (simp_all add: open_private_parent_def split: if_splits)
  then show ?thesis
    using sp sys_open_dir_spec [OF op [unfolded f]] sys_fstat_spec(5) [OF st] s1 by (auto simp: located_def stat_of_def Let_def)
qed

lemma io_bind_cases:
  assumes "run_state (io_bind m k) s = (r, s')"
  obtains (failed) e where "run_state m s = (Inl e, s')" "r = Inl e"
  | (continues) x s1 where "run_state m s = (Inr x, s1)" "run_state (k x) s1 = (r, s')"
proof -
  obtain a s1 where "run_state m s = (a, s1)" by fastforce
  then show thesis using assms failed continues by (cases a) (auto simp: io_bind_def)
qed

lemma open_store_location_spec:
  assumes "run_state (open_store_location path) s = (Inr location, s')"
  shows "os_fs s' = os_fs s" "located (os_fs s) path (fd_ino (directory_fd location)) (loc_name location)"
    "i_kind (fs_inode (os_fs s) (fd_ino (directory_fd location))) = Directory"
proof -
  show "os_fs s' = os_fs s" using quiet_same [OF _ assms] by (simp add: frame)
  have "located (os_fs s) path (fd_ino (directory_fd location)) (loc_name location) \<and>
      i_kind (fs_inode (os_fs s) (fd_ino (directory_fd location))) = Directory"
    using assms unfolding open_store_location_def
  proof (cases rule: io_bind_cases)
    case (continues p s1)
    obtain dir n where p: "p = (dir, n)" by fastforce
    obtain st s2 where "run_state (sys_fstat dir) s1 = (st, s2)" by fastforce
    then have "directory_fd location = dir \<and> loc_name location = n"
      using continues(2) p by (cases st) (simp_all add: split_beta run_bind_iff del: run_state_bind, clarsimp)
    then show ?thesis using open_private_parent_spec continues(1) p by simp
  qed simp
  then show "located (os_fs s) path (fd_ino (directory_fd location)) (loc_name location)"
    "i_kind (fs_inode (os_fs s) (fd_ino (directory_fd location))) = Directory" by auto
qed

lemma errors_open_store_location: "errors {PV_ERR_USAGE, PV_ERR_IO} (open_store_location path)"
proof -
  have "e = PV_ERR_USAGE" if "split_parent_and_name path = Inl e" for e
    using that by (auto simp: split_parent_and_name_def Let_def split: if_splits)
  then have "errors {PV_ERR_USAGE, PV_ERR_IO} (open_private_parent path)"
    unfolding open_private_parent_def by (intro errors_intros) auto
  then show ?thesis unfolding open_store_location_def by (intro errors_intros) auto
qed

lemma lock_vault_errors: "errors {PV_ERR_USAGE, PV_ERR_IO, PV_ERR_LIMIT, PV_ERR_LOCKED} (lock_vault path)"
  unfolding lock_vault_def
  by (rule errors_io_bind [OF errors_mono [OF errors_open_store_location]], simp) (intro errors_intros; auto split: if_splits)

lemma lock_vault_spec:
  assumes "run_state (lock_vault path) s = (r, s')" "fs_ok (os_fs s)" "located (os_fs s) path d n"
  shows "changes {(d, lock_name n)} (os_fs s) (os_fs s') \<and>
    (\<forall>location lock. r = Inr (location, lock) \<longrightarrow> fd_ino (directory_fd location) = d \<and> loc_name location = n \<and>
       i_kind (fs_inode (os_fs s) d) = Directory)"
  using assms(1) unfolding lock_vault_def
proof (cases rule: io_bind_cases)
  case (failed e)
  then have "os_fs s' = os_fs s" using quiet_same [of "open_store_location path"] by (simp add: frame)
  then show ?thesis using failed by simp
next
  case (continues location s1)
  note op = open_store_location_spec [OF continues(1)]
  have loc: "fd_ino (directory_fd location) = d" "loc_name location = n" using located_unique [OF assms(3) op(2)] by auto
  have d: "d < fs_next (os_fs s)" by (rule located_exists [OF assms(3,2)])
  have "changes {(d, lock_name n)} (os_fs s) (os_fs s1)" using op(1) by simp
  from this continues(2)
  have "changes {(d, lock_name n)} (os_fs s) (os_fs s') \<and> (\<forall>l lock. r = Inr (l, lock) \<longrightarrow> l = location)"
  proof (rule keepsD [where I = "\<lambda>t. changes {(d, lock_name n)} (os_fs s) (os_fs t)" and
        R = "\<lambda>r. \<forall>l lock. r = Inr (l, lock) \<longrightarrow> l = location", rotated], intro frame keeps_return frame_open_create)
  qed (use loc d in auto)
  then show ?thesis using loc op(3) by auto
qed

lemma frame_unlock [frame]: "frame X F (unlock_vault lock location) (\<lambda>_. True)"
  unfolding unlock_vault_def by (intro frame)

lemma saved_before:
  assumes "changes X F G" "(d, n) \<notin> X" "d < fs_next F" "fs_ok F" "saved L G d n v v1 current bytes create_only r v' H"
  shows "saved L F d n v v1 current bytes create_only r v' H"
proof -
  have same: "entry G d n = entry F d n" using assms(1-3) unfolding changes_def by blast
  show ?thesis
    using assms(5) replaced_or_kept_before [OF assms(1-4)] changes_trans [OF assms(1), of UNIV H UNIV]
    unfolding saved_def same by simp
qed

lemma save_effect_before:
  assumes "changes X F G" "(d, n) \<notin> X" "d < fs_next F" "fs_ok F" "save_effect L G d n v h create_only r v' h' H"
  shows "save_effect L F d n v h create_only r v' h' H"
  using assms(5) unfolding save_effect_def changes_outcomes(2) [OF assms(1-4)]
  by (elim exE conjE, intro exI conjI saved_before [OF assms(1-4)])

lemma saved_after:
  assumes "saved L F d n v v1 current bytes create_only r v' G" "changes {} G H" "d < fs_next G" "fs_ok G"
  shows "saved L F d n v v1 current bytes create_only r v' H"
proof -
  have "backed_up L H d vault_id g hash" if "backed_up L G d vault_id g hash" for vault_id g hash
    using backed_up_changes [OF that _ assms(2,4,3)] that by (auto simp: backed_up_def)
  moreover have "replaced_or_kept F d n bytes r H" if "replaced_or_kept F d n bytes r G"
    using replaced_or_kept_after [OF that assms(2) _ assms(3,4)] by simp
  ultimately show ?thesis
    using assms(1) changes_trans [OF _ assms(2), of UNIV F UNIV] unfolding saved_def by simp
qed

lemma save_effect_after:
  assumes "save_effect L F d n v h create_only r v' h' G" "changes {} G H" "d < fs_next G" "fs_ok G"
  shows "save_effect L F d n v h create_only r v' h' H"
  using assms(1) unfolding save_effect_def
  by (elim exE conjE, intro exI conjI saved_after [OF _ assms(2-4)])

lemma save_effect_changes: "save_effect L F d n v h create_only r v' h' G \<Longrightarrow> changes UNIV F G"
  by (auto simp: save_effect_def saved_def)

lemma lock_name_neq [simp]: "lock_name n \<noteq> n" "n \<noteq> lock_name n"
  by (simp_all add: lock_name_def ascii_def)

lemma locked_save:
  assumes lk: "run_state (lock_vault path) s = (Inr (location, lock), s1)"
    and sv: "run_state (save_locked L location v h retention create_only) s1 = ((r, v', h'), s2)"
    and ul: "run_state (unlock_vault lock location) s2 = (u, s3)" and ok: "fs_ok (os_fs s)" and loc: "located (os_fs s) path d n"
  shows "save_effect L (os_fs s) d n v h create_only r v' h' (os_fs s3)"
proof -
  note lks = lock_vault_spec [OF lk ok loc]
  have d: "d < fs_next (os_fs s)" by (rule located_exists [OF loc ok])
  have ch: "changes {(d, lock_name n)} (os_fs s) (os_fs s1)" using lks by blast
  have s1: "fs_ok (os_fs s1)" "d < fs_next (os_fs s1)" "i_kind (fs_inode (os_fs s1) d) = Directory"
    using changes_ok [OF ch ok] changes_next [OF ch] d lks ch unfolding changes_def grows_def by auto
  have se: "save_effect L (os_fs s1) d n v h create_only r v' h' (os_fs s2)"
    using save_locked_spec [OF sv] s1 lks by simp
  have ch1: "changes UNIV (os_fs s1) (os_fs s2)" by (rule save_effect_changes [OF se])
  have ch2: "changes {} (os_fs s2) (os_fs s3)" using keepsD [OF frame_unlock _ ul, of "{}" "os_fs s2"] by simp
  have "save_effect L (os_fs s1) d n v h create_only r v' h' (os_fs s3)"
    by (rule save_effect_after [OF se ch2]) (use changes_next [OF ch1] s1 changes_ok [OF ch1] in auto)
  then show ?thesis using save_effect_before [OF ch _ d ok] by simp
qed

lemma pv_store_save_effect:
  assumes "run_state (pv_store_save L retention v h) s = ((r, v', h'), s')" "v_dirty v"
    and ok: "fs_ok (os_fs s)" and loc: "located (os_fs s) (v_path v) d n"
  shows "save_effect L (os_fs s) d n v h False r v' h' (os_fs s')"
proof (cases "retention = 0")
  case True
  then show ?thesis using assms(1,2) save_effect_idle by (auto simp: pv_store_save_def)
next
  case False
  obtain q s1 where lk: "run_state (lock_vault (v_path v)) s = (q, s1)" by fastforce
  note lks = lock_vault_spec [OF lk ok loc]
  have d: "d < fs_next (os_fs s)" by (rule located_exists [OF loc ok])
  show ?thesis
  proof (cases q)
    case (Inl e)
    then have "e \<notin> {PV_OK, PV_ERR_DURABILITY}" using keepsD [OF lock_vault_errors _ lk] by auto
    then have "save_effect L (os_fs s1) d n v h False e v h (os_fs s1)" by (rule save_effect_idle)
    then have "save_effect L (os_fs s) d n v h False e v h (os_fs s1)"
      using save_effect_before [OF conjunct1 [OF lks] _ d ok] by simp
    then show ?thesis using assms(1,2) False lk Inl by (auto simp: pv_store_save_def)
  next
    case (Inr p)
    obtain location lock where p: "p = (location, lock)" by fastforce
    obtain a s2 where sv: "run_state (save_locked L location v h retention False) s1 = (a, s2)" by fastforce
    obtain u s3 where ul: "run_state (unlock_vault lock location) s2 = (u, s3)" by (metis surj_pair)
    have "a = (r, v', h')" "s' = s3" using assms(1,2) False lk Inr p sv ul by (auto simp: pv_store_save_def)
    then show ?thesis using locked_save [OF _ _ ul ok loc] lk sv Inr p by auto
  qed
qed

text \<open>
  C2. Saving a changed vault, whatever calls fail and whenever the power fails: after a crash the
  vault's name leads to the complete new file or to what it led to before. If saving fails, the file
  and the vault in memory are as they were. If it succeeds or only durability is in doubt, the new
  file is the vault with the next generation, encoded and encrypted, and the file it replaced was the
  one the vault had been read from, judged by its hash: a file changed by another process is not
  overwritten. If it succeeds, the new file survives a power loss, the vault is clean and remembers
  the hash of the new file, and the replaced generation is in the backup directory, not pruned.
\<close>

theorem pv_store_save_safe:
  assumes "run_state (pv_store_save L retention v h) s = ((r, v', h'), s')" "v_dirty v"
    and "fs_ok (os_fs s)" "located (os_fs s) (v_path v) d n"
  shows "\<exists>now bytes. replaced_or_kept (os_fs s) d n bytes r (os_fs s') \<and>
    (r \<notin> {PV_OK, PV_ERR_DURABILITY} \<longrightarrow> v' = v) \<and>
    (r \<in> {PV_OK, PV_ERR_DURABILITY} \<longrightarrow> sealed_as L (next_generation v now) h bytes h' \<and>
       (\<exists>old. content (os_fs s) d n = Some old \<and> generichash (lib_sodium L) old = v_source_hash v) \<and>
       (v' = next_generation v now \<or> committed L (next_generation v now) bytes v')) \<and>
    (r = PV_OK \<longrightarrow> committed L (next_generation v now) bytes v' \<and>
       backed_up L (os_fs s') d (v_vault_id v) (v_generation v) (v_source_hash v))"
proof -
  from pv_store_save_effect [OF assms] obtain now current bytes where
    sv: "saved L (os_fs s) d n v (next_generation v now) current bytes False r v' (os_fs s')"
    and ok: "r \<in> {PV_OK, PV_ERR_DURABILITY} \<longrightarrow> sealed_as L (next_generation v now) h bytes h' \<and>
      (\<exists>c old. current = Some c \<and> df_hash c = v_source_hash v \<and> content (os_fs s) d n = Some old \<and>
         generichash (lib_sodium L) old = v_source_hash v)"
    unfolding save_effect_def by blast
  show ?thesis
    by (rule exI [of _ now], rule exI [of _ bytes]) (use sv ok in \<open>auto simp: saved_def split: if_splits\<close>)
qed

section \<open>An instance\<close>

definition demo_saved_vault :: pv_vault where
  "demo_saved_vault = sample_vault\<lparr>v_path := ascii ''/d/v'', v_dirty := True, v_generation := 4\<rparr>"

abbreviation demo_save :: "fault list \<Rightarrow> (pv_status \<times> pv_vault \<times> pv_file_header) \<times> os" where
  "demo_save faults \<equiv> run_state (pv_store_save demo_library 20 demo_saved_vault demo_header) (demo_os faults [9])"

lemma demo_located: "located (demo_fs bytes) (ascii ''/d/v'') 0 (ascii ''v'')"
  by (auto simp: located_def demo_fs_def split_parent_and_name_def ascii_def)

lemma demo_save_status: "fst (fst (demo_save [])) = PV_ERR_FORMAT"
  by code_simp

theorem pv_store_save_safe_witness:
  "fst (fst (demo_save [])) = PV_ERR_FORMAT \<and> fst (snd (fst (demo_save []))) = demo_saved_vault \<and>
   content (os_fs (snd (demo_save []))) 0 (ascii ''v'') = Some [9]"
proof -
  let ?run = "demo_save []"
  have run: "?run = ((fst (fst ?run), fst (snd (fst ?run)), snd (snd (fst ?run))), snd ?run)" by simp
  have "v_dirty demo_saved_vault" by (simp add: demo_saved_vault_def)
  moreover have "fs_ok (os_fs (demo_os [] [9]))" by (simp add: demo_fs_ok)
  moreover have "located (os_fs (demo_os [] [9])) (v_path demo_saved_vault) 0 (ascii ''v'')"
    by (simp add: demo_saved_vault_def demo_located)
  ultimately obtain bytes where "replaced_or_kept (os_fs (demo_os [] [9])) 0 (ascii ''v'') bytes (fst (fst ?run)) (os_fs (snd ?run))"
    "fst (fst ?run) \<notin> {PV_OK, PV_ERR_DURABILITY} \<longrightarrow> fst (snd (fst ?run)) = demo_saved_vault"
    using pv_store_save_safe [OF run] by blast
  moreover have "content (demo_fs [9]) 0 (ascii ''v'') = Some [9]" by code_simp
  ultimately show ?thesis by (simp add: demo_save_status replaced_or_kept_def)
qed

end
