(* ===== verification/Pv_Open.thy ===== *)
theory Pv_Open
  imports Pv_Store
begin

text \<open>
  Opening a vault file (\<^verbatim>\<open>src/src/store.c\<close>, \<^verbatim>\<open>open_common\<close> and its callers): what a save sealed
  opens again, with the password or with the recovery key, as the vault that was sealed. Whatever faults happen, a
  result is the sealed vault; on a system without faults there is a result.
\<close>

section \<open>Reading does not touch the clock\<close>

named_theorems steady \<open>programs that leave the clock alone\<close>

abbreviation steady_clock :: "(int \<times> nat) option \<Rightarrow> 'a io \<Rightarrow> bool" where
  "steady_clock c m \<equiv> keeps (\<lambda>s. os_clock s = c) m (\<lambda>_. True)"

lemma steady_sys:
  assumes "\<And>l s r s'. act l s = (r, s') \<Longrightarrow> os_clock s' = os_clock s"
  shows "steady_clock c (sys act)"
  unfolding keeps_def
proof (intro allI impI)
  fix s r s'
  assume "os_clock s = c" "run_state (sys act) s = (r, s')"
  from this(2,1) show "os_clock s' = c \<and> True" by (cases rule: sys_cases) (auto dest: assms)
qed

lemma steady_readers [steady]:
  "steady_clock c (sys_open_dir path)" "steady_clock c (sys_openat dir n)" "steady_clock c (sys_close f)"
  "steady_clock c (sys_fstat f)" "steady_clock c (sys_read f k)" "steady_clock c sys_library"
  unfolding sys_open_dir_def sys_openat_def sys_close_def sys_fstat_def sys_read_def sys_library_def Let_def
  by (rule steady_sys; auto simp: new_fd_def split: option.splits if_splits)+

lemma steady_pure [steady]: "steady_clock c geteuid" "steady_clock c now_ms"
  by (auto simp: keeps_def geteuid_def now_ms_def)

lemma steady_loops [steady]: "steady_clock c (read_all f n)" "steady_clock c (read_retry f n)"
proof -
  have step: "os_clock s1 = os_clock s" if "run_state (sys_read f n) s = (a, s1)" for f n s a s1
    using keepsD [OF steady_readers(5) refl that] by simp
  have "os_clock s' = os_clock s" if "read_loop f n got s = (r, s')" for n got s r s'
    using that
  proof (induction f n got s rule: read_loop.induct)
    case (1 f n got s)
    obtain a s1 where w: "run_state (sys_read f n) s = (a, s1)" by fastforce
    show ?case using 1 w step [OF w] by (cases a) (auto simp: read_loop.simps [of f n got s] split: if_splits)
  qed
  then show "steady_clock c (read_all f n)" by (auto simp: keeps_def read_all_def)
  have "os_clock s' = os_clock s" if "read_nointr_loop f n s = (r, s')" for s r s'
    using that
  proof (induction f n s rule: read_nointr_loop.induct)
    case (1 f n s)
    obtain a s1 where w: "run_state (sys_read f n) s = (a, s1)" by fastforce
    show ?case using 1 w step [OF w] by (cases a) (auto simp: read_nointr_loop.simps [of f n s] split: if_splits)
  qed
  then show "steady_clock c (read_retry f n)" by (auto simp: keeps_def read_retry_def)
qed

lemma steady_location [steady]: "steady_clock c (open_store_location path)" "steady_clock c (close_store_location location)"
  unfolding open_store_location_def open_private_parent_def close_store_location_def by (intro frame steady)+

lemma steady_revalidate [steady]: "steady_clock c (revalidate_store_location path location)"
  unfolding revalidate_store_location_def by (intro frame steady)

lemma steady_body [steady]: "steady_clock c (close_status f r)" "steady_clock c (read_disk_body S f st hb h)"
  unfolding close_status_def read_disk_body_def hash_disk_file_def by (intro frame steady)+

lemma steady_disk_file_at [steady]: "steady_clock c (read_disk_file_at S dir n)"
  unfolding read_disk_file_at_def open_private_snapshot_at_def fstat_private_def by (intro frame steady)

lemma steady_disk_file [steady]: "steady_clock c (read_disk_file S path)"
  unfolding read_disk_file_def by (intro frame steady)

lemma steady_library [steady]: "steady_clock c lib_ok" "steady_clock c lib_alloc"
  unfolding lib_ok_def lib_alloc_def by (intro frame steady)+

lemma steady_open [steady]:
  "steady_clock c (unlock_vmk L h credential recovery)" "steady_clock c (decrypt_body L h vmk x)" "steady_clock c (init_model path)"
  unfolding unlock_vmk_def decrypt_body_def init_model_def by (intro frame steady)+

section \<open>Reading on a system without faults\<close>

definition calm_system :: "os \<Rightarrow> bool" where
  "calm_system s \<longleftrightarrow> os_alive s \<and> os_faults s = []"

lemma calm_sys:
  assumes "calm_system s"
  shows "run_state (sys act) s = act None s"
proof -
  have same: "s\<lparr>os_faults := []\<rparr> = s" using assms by (simp add: calm_system_def)
  show ?thesis using assms by (simp add: sys_def calm_system_def same)
qed

text \<open>Reading moves positions and takes descriptors only.\<close>

definition only_reads :: "os \<Rightarrow> os \<Rightarrow> bool" where
  "only_reads s s' \<longleftrightarrow> (\<exists>pos k. s' = s\<lparr>os_pos := pos, os_fd_next := k\<rparr>)"

lemma only_reads_refl [simp]: "only_reads s s"
  by (auto simp: only_reads_def intro!: exI [of _ "os_pos s"] exI [of _ "os_fd_next s"])

lemma only_reads_step [simp]:
  "only_reads s (t\<lparr>os_pos := pos\<rparr>) = only_reads s t" "only_reads s (t\<lparr>os_fd_next := k\<rparr>) = only_reads s t"
proof -
  show "only_reads s (t\<lparr>os_pos := pos\<rparr>) = only_reads s t"
    by (cases s; cases t) (auto simp: only_reads_def)
  show "only_reads s (t\<lparr>os_fd_next := k\<rparr>) = only_reads s t"
    by (cases s; cases t) (auto simp: only_reads_def)
qed

lemma only_readsD:
  assumes "only_reads s s'"
  shows "os_fs s' = os_fs s" "os_euid s' = os_euid s" "os_clock s' = os_clock s" "calm_system s' = calm_system s"
  using assms by (auto simp: only_reads_def calm_system_def)

lemma only_reads_trans: "only_reads s t \<Longrightarrow> only_reads t u \<Longrightarrow> only_reads s u"
  unfolding only_reads_def by (elim exE) (metis os.surjective os.update_convs(5,6))

definition private_directory_at :: "os \<Rightarrow> nat \<Rightarrow> bool" where
  "private_directory_at s d \<longleftrightarrow> i_kind (fs_inode (os_fs s) d) = Directory \<and> i_uid (fs_inode (os_fs s) d) = os_euid s \<and>
     i_mode (fs_inode (os_fs s) d) AND 0x12 = 0"

lemma calm_updates [simp]:
  "calm_system (s\<lparr>os_pos := pos\<rparr>) = calm_system s" "calm_system (s\<lparr>os_fd_next := k\<rparr>) = calm_system s"
  by (simp_all add: calm_system_def)

lemma calm_location:
  assumes "calm_system s" "located (os_fs s) path d n" "private_directory_at s d"
  shows "run_state (open_store_location path) s =
    (Inr \<lparr>directory_fd = \<lparr>fd_id = os_fd_next s, fd_ino = d\<rparr>, loc_name = n, loc_device = 0, loc_inode = d\<rparr>,
     s\<lparr>os_pos := (os_pos s)(os_fd_next s := 0), os_fd_next := os_fd_next s + 1\<rparr>)"
  using assms
  by (auto simp: located_def private_directory_at_def open_store_location_def open_private_parent_def io_bind_def
      sys_open_dir_def sys_fstat_def geteuid_def calm_sys new_fd_def stat_of_def Let_def)

lemma calm_close: "calm_system s \<Longrightarrow> run_state (sys_close f) s = (Inr (), s)"
  "calm_system s \<Longrightarrow> run_state (close_store_location location) s = ((), s)"
  "calm_system s \<Longrightarrow> run_state (close_status f r) s = (r, s)"
  by (simp_all add: sys_close_def close_store_location_def close_status_def calm_sys)

lemma calm_revalidate:
  assumes "calm_system s" "located (os_fs s) path d n" "private_directory_at s d"
    "loc_device location = 0" "loc_inode location = d" "loc_name location = n"
  shows "\<exists>s'. run_state (revalidate_store_location path location) s = (PV_OK, s') \<and> only_reads s s'"
  using assms by (simp add: revalidate_store_location_def calm_location calm_close)

lemma calm_library: "calm_system s \<Longrightarrow> run_state sys_library s = (Inr (), s)"
  "calm_system s \<Longrightarrow> run_state lib_ok s = (True, s)" "calm_system s \<Longrightarrow> run_state lib_alloc s = (Alloc_ok, s)"
  by (simp_all add: sys_library_def lib_ok_def lib_alloc_def calm_sys)

lemma calm_read_all:
  assumes "calm_system s" "position s f + n \<le> length (file_data s f)"
  shows "run_state (read_all f n) s =
    (Inr (take n (drop (position s f) (file_data s f))), s\<lparr>os_pos := (os_pos s)(fd_id f := position s f + n)\<rparr>)"
proof -
  let ?s = "s\<lparr>os_pos := (os_pos s)(fd_id f := position s f + n)\<rparr>"
  have len: "length (take n (drop (position s f) (file_data s f))) = n" using assms(2) by simp
  have "run_state (sys_read f n) s = (Inr (take n (drop (position s f) (file_data s f))), ?s)"
    using len by (simp add: sys_read_def calm_sys [OF assms(1)] Let_def)
  then show ?thesis
    using len by (auto simp: read_all_def read_loop.simps [of f n "[]" s] read_loop.simps [of f 0 _ ?s])
qed

lemma calm_read_end:
  assumes "calm_system s" "position s f = length (file_data s f)"
  shows "run_state (read_retry f 1) s = (Inr [], s)"
proof -
  have none: "take 1 (drop (position s f) (file_data s f)) = []" using assms(2) by simp
  have "run_state (sys_read f 1) s = (Inr [], s)"
    unfolding sys_read_def calm_sys [OF assms(1)] Let_def option.case none by simp
  then show ?thesis by (simp add: read_retry_def read_nointr_loop.simps [of f "Suc 0" s])
qed

text \<open>The file at \<open>i\<close> is a vault file that the process may read.\<close>

definition vault_file :: "os \<Rightarrow> nat \<Rightarrow> byte list \<Rightarrow> pv_file_header \<Rightarrow> byte list \<Rightarrow> bool" where
  "vault_file s i header_bytes h ciphertext \<longleftrightarrow> private_file s i \<and> i_kind (fs_inode (os_fs s) i) = Regular_file \<and>
     i_data (fs_inode (os_fs s) i) = header_bytes @ ciphertext \<and> length header_bytes = PV_FILE_HEADER_LEN \<and>
     pv_header_decode header_bytes = Inr h \<and> length ciphertext = unat (h_body_ciphertext_len h)"

lemma calm_read_disk_file_at:
  assumes calm: "calm_system s" and e: "entry (os_fs s) (fd_ino dir) n = Some i" and f: "vault_file s i hb h ct"
  shows "\<exists>s'. run_state (read_disk_file_at S dir n) s = (Inr \<lparr>df_header_bytes = hb, df_header = h, df_ciphertext = ct,
      df_hash = generichash S (hb @ ct), df_stat = stat_of (os_fs s) i\<rparr>, s') \<and> only_reads s s'"
proof -
  let ?f = "\<lparr>fd_id = os_fd_next s, fd_ino = i\<rparr>"
  let ?s1 = "s\<lparr>os_pos := (os_pos s)(os_fd_next s := 0), os_fd_next := os_fd_next s + 1\<rparr>"
  have op: "run_state (open_private_snapshot_at dir n) s = (Inr (?f, stat_of (os_fs s) i), ?s1)"
    using e f calm
    by (simp add: open_private_snapshot_at_def sys_openat_def fstat_private_def sys_fstat_def geteuid_def calm_sys new_fd_def
        vault_file_def private_file_def)
  let ?s2 = "?s1\<lparr>os_pos := (os_pos s)(os_fd_next s := PV_FILE_HEADER_LEN)\<rparr>"
  have data: "i_data (fs_inode (os_fs s) i) = hb @ ct" "length hb = PV_FILE_HEADER_LEN" using f by (auto simp: vault_file_def)
  have rh: "run_state (read_all ?f PV_FILE_HEADER_LEN) ?s1 = (Inr hb, ?s2)"
    using calm_read_all [of ?s1 ?f PV_FILE_HEADER_LEN] calm data by simp
  let ?s3 = "?s2\<lparr>os_pos := (os_pos s)(os_fd_next s := PV_FILE_HEADER_LEN + length ct)\<rparr>"
  have rc: "run_state (read_all ?f (length ct)) ?s2 = (Inr ct, ?s3)"
    using calm_read_all [of ?s2 ?f "length ct"] calm data by simp
  have re: "run_state (read_retry ?f 1) ?s3 = (Inr [], ?s3)"
    using calm_read_end [of ?s3 ?f] calm data by simp
  have dec: "pv_header_decode hb = Inr h" "length ct = unat (h_body_ciphertext_len h)" using f by (auto simp: vault_file_def)
  then obtain blocks where "blocks \<in> {1..512}" "unat (h_body_ciphertext_len h) = 4096 * blocks + 16"
    by (auto simp: header_decode_checks body_len_blocks)
  then have small: "unat (h_body_ciphertext_len h) \<le> 2097168" by simp
  then have size: "unat (word_of_nat PV_FILE_HEADER_LEN + h_body_ciphertext_len h) = PV_FILE_HEADER_LEN + length ct"
    using dec(2) by (simp add: unat_word_ariths)
  then have fits: "\<not> word_of_nat PV_FILE_HEADER_LEN + h_body_ciphertext_len h > 0x7fffffffffffffff"
    using small dec(2) by (simp add: word_less_nat_alt)
  have exact: "uint (word_of_nat PV_FILE_HEADER_LEN + h_body_ciphertext_len h) = int (PV_FILE_HEADER_LEN + length ct)"
    unfolding size [symmetric] by simp
  have st: "st_size (stat_of (os_fs s) i) = int (PV_FILE_HEADER_LEN + length ct)" using data by (simp add: stat_of_def Let_def)
  have body: "run_state (read_disk_body S ?f (stat_of (os_fs s) i) hb h) ?s2 = (Inr \<lparr>df_header_bytes = hb, df_header = h,
      df_ciphertext = ct, df_hash = generichash S (hb @ ct), df_stat = stat_of (os_fs s) i\<rparr>, ?s3)"
    using calm rc re dec(2) by (simp add: read_disk_body_def calm_library calm_close hash_disk_file_def io_bind_def)
  show ?thesis
    using op rh dec(1) st fits exact body by (simp add: read_disk_file_at_def io_bind_def Let_def)
qed

section \<open>What is sealed can be opened\<close>

lemma read_disk_file_spec:
  assumes "run_state (read_disk_file S path) s = (Inr df, s')" "located (os_fs s) path d n"
  shows "content (os_fs s) d n = Some (df_header_bytes df @ df_ciphertext df)" "length (df_header_bytes df) = PV_FILE_HEADER_LEN"
    "pv_header_decode (df_header_bytes df) = Inr (df_header df)" "df_hash df = generichash S (df_header_bytes df @ df_ciphertext df)"
proof -
  have "content (os_fs s) d n = Some (df_header_bytes df @ df_ciphertext df) \<and> length (df_header_bytes df) = PV_FILE_HEADER_LEN \<and>
    pv_header_decode (df_header_bytes df) = Inr (df_header df) \<and> df_hash df = generichash S (df_header_bytes df @ df_ciphertext df)"
    using assms(1) unfolding read_disk_file_def
  proof (cases rule: io_bind_cases)
    case (continues location s1)
    note op = open_store_location_spec [OF continues(1)]
    have loc: "fd_ino (directory_fd location) = d" "loc_name location = n" using located_unique [OF assms(2) op(2)] by auto
    obtain r s2 where r: "run_state (read_disk_file_at S (directory_fd location) (loc_name location)) s1 = (r, s2)" by fastforce
    have "r = Inr df"
      using continues(2) r by (cases r) (auto simp: run_bind_iff simp del: run_state_bind split: if_splits)
    with r loc op(1) show ?thesis by (auto simp: content_some elim: read_disk_file_at_spec)
  qed simp
  then show "content (os_fs s) d n = Some (df_header_bytes df @ df_ciphertext df)" "length (df_header_bytes df) = PV_FILE_HEADER_LEN"
    "pv_header_decode (df_header_bytes df) = Inr (df_header df)" "df_hash df = generichash S (df_header_bytes df @ df_ciphertext df)" by auto
qed

text \<open>The master key a credential gives, when nothing fails but the check of the credential.\<close>

definition unlocked :: "library \<Rightarrow> pv_file_header \<Rightarrow> byte list \<Rightarrow> bool \<Rightarrow> byte list pv_result" where
  "unlocked L h credential recovery =
     (if recovery then
        if length credential \<noteq> PV_RECOVERY_KEY_BYTES then Inl PV_ERR_AUTH
        else pv_crypto_unlock_recovery (lib_sodium L) Alloc_ok h credential
      else pv_crypto_unlock_password (lib_sodium L) Alloc_ok True h credential)"

text \<open>What the libraries promise: authenticated encryption opens what it sealed, and random bytes come in the length asked for.\<close>

definition library_ok :: "library \<Rightarrow> bool" where
  "library_ok L \<longleftrightarrow> sodium_ok (lib_sodium L) \<and> decodes_items (lib_stream_decode L) \<and>
     length (lib_nonce L) = PV_WRAP_NONCE_BYTES \<and> (\<forall>k. length (lib_fill L k) = k)"

lemma unlock_password_any:
  assumes "pv_crypto_unlock_password S mem hash_ok h pw = Inr vmk"
  shows "pv_crypto_unlock_password S Alloc_ok True h pw = Inr vmk"
proof -
  have "hash_ok \<or> password_key S hash_ok (password_slot h) pw = Inl PV_ERR_SECURE_MEMORY \<or>
      password_key S hash_ok (password_slot h) pw = Inl PV_ERR_AUTH"
    by (auto simp: password_key_def)
  then show ?thesis
    using assms by (cases mem) (auto simp: pv_crypto_unlock_password_def secure_key_alloc_def)
qed

lemma unlock_vmk_Inr:
  assumes "run_state (unlock_vmk L h credential recovery) s = (Inr vmk, s')"
  shows "unlocked L h credential recovery = Inr vmk"
proof (cases recovery)
  case True
  then obtain mem where "length credential = PV_RECOVERY_KEY_BYTES" "pv_crypto_unlock_recovery (lib_sodium L) mem h credential = Inr vmk"
    using assms by (auto simp: unlock_vmk_def run_bind_iff simp del: run_state_bind split: if_splits)
  with True show ?thesis by (cases mem) (auto simp: unlocked_def pv_crypto_unlock_recovery_def secure_key_alloc_def)
next
  case False
  then obtain mem ok where "pv_crypto_unlock_password (lib_sodium L) mem ok h credential = Inr vmk"
    using assms by (auto simp: unlock_vmk_def run_bind_iff simp del: run_state_bind)
  with False show ?thesis by (simp add: unlocked_def unlock_password_any)
qed

lemma valid_header_decodes:
  assumes "header_valid h"
  shows "pv_header_decode (pv_header_encode h) = Inr h"
  using assms header_read_encode [of h]
  unfolding header_decode_checks header_valid_def slot_limits_nat body_len_blocks all_zero_replicate
  by (auto simp: header_shape_def)

text \<open>A header that only lacks the body: what \<^verbatim>\<open>pv_crypto_create_header\<close> makes, or a file has.\<close>

definition sealable :: "pv_file_header \<Rightarrow> bool" where
  "sealable h \<longleftrightarrow> header_valid (h\<lparr>h_body_ciphertext_len := 4112\<rparr>)"

lemma sealed_header_valid:
  assumes "sealable h" "length nonce = PV_WRAP_NONCE_BYTES" "n + 4 \<le> PV_MAX_PLAINTEXT"
  shows "header_valid (h\<lparr>h_body_nonce := nonce, h_body_ciphertext_len := word_of_nat (padded_size n) + 16\<rparr>)"
    "unat (word_of_nat (padded_size n) + 16 :: u64) = padded_size n + 16"
proof -
  define k where "k = (n + 4 + 4095) div 4096"
  have k: "padded_size n = 4096 * k" by (simp add: padded_size_def k_def)
  have range: "k \<in> {1..512}"
    using padded_size_bounds(4) [OF assms(3)] padded_size_bounds(5) [of n] k by (simp add: PV_MAX_PLAINTEXT_def)
  then have "unat (word_of_nat (4096 * k) :: u64) = 4096 * k"
    by (simp add: unat_of_nat take_bit_nat_eq_self del: of_nat_mult)
  then show len: "unat (word_of_nat (padded_size n) + 16 :: u64) = padded_size n + 16"
    using range unfolding k by (simp add: unat_word_ariths del: of_nat_mult)
  show "header_valid (h\<lparr>h_body_nonce := nonce, h_body_ciphertext_len := word_of_nat (padded_size n) + 16\<rparr>)"
    using assms(1,2) range len unfolding sealable_def header_valid_def header_shape_def k by (auto simp del: of_nat_mult)
qed

lemma sealed_file:
  assumes L: "library_ok L" and h: "sealable h" and v: "saveable v" and s: "sealed_as L v h bytes h'"
  obtains vmk ciphertext where "bytes = pv_header_encode h' @ ciphertext" "v_vmk v = Some vmk"
    "length (pv_header_encode h') = PV_FILE_HEADER_LEN" "pv_header_decode (pv_header_encode h') = Inr h'"
    "length ciphertext = unat (h_body_ciphertext_len h')" "h_vault_id h' = h_vault_id h"
    "pv_crypto_decrypt_body (lib_sodium L) Alloc_ok True h' vmk ciphertext = Inr (image v)"
    "length (image v) \<le> PV_MAX_PLAINTEXT"
    "\<And>credential recovery. unlocked L h' credential recovery = unlocked L h credential recovery"
proof -
  obtain vmk encoded ct where vmk: "v_vmk v = Some vmk" and enc: "pv_cbor_encode Alloc_ok v = Inr encoded"
    and cr: "pv_crypto_encrypt_body (lib_sodium L) Alloc_ok True (lib_fill L) (lib_nonce L) vmk encoded h = (Inr ct, h')"
    and bytes: "bytes = pv_header_encode h' @ ct"
    using s by (auto simp: sealed_as_def)
  have encoded: "encoded = image v" "length (image v) \<le> PV_MAX_PLAINTEXT"
    using enc pv_cbor_encode_image [OF v, of Alloc_ok] by (auto split: if_splits)
  then have len: "length encoded < 2 ^ 64" by (simp add: PV_MAX_PLAINTEXT_def)
  have S: "sodium_ok (lib_sodium L)" "length (lib_nonce L) = PV_WRAP_NONCE_BYTES" "\<And>k. length (lib_fill L k) = k"
    using L by (auto simp: library_ok_def)
  note opens = encrypt_body_opens [OF S len cr]
  note valid = sealed_header_valid [OF h S(2) opens(3)]
  have h': "header_valid h'" using valid(1) opens(4) by simp
  then have shape: "header_shape h" "header_shape h'" using h by (auto simp: sealable_def header_valid_def header_shape_def)
  have "password_aad h' = password_aad h" "recovery_aad h' = recovery_aad h"
    using shape opens(4) by (simp_all add: password_aad_prefix recovery_aad_prefix)
  then have unlock: "unlocked L h' credential recovery = unlocked L h credential recovery" for credential recovery
    using opens(4)
    by (simp add: unlocked_def pv_crypto_unlock_password_def pv_crypto_unlock_recovery_def flip: password_aad_def recovery_aad_def)
  have len: "length ct = unat (h_body_ciphertext_len h')" using opens(2,4) valid(2) by simp
  show thesis
    by (rule that [OF bytes vmk header_encode_length [OF shape(2)] valid_header_decodes [OF h'] len])
      (use opens(1,4) encoded unlock in auto)
qed

lemma steady_open_disk:
  assumes "run_state (read_disk_file S path) s = (r, s')"
  shows "os_clock s' = os_clock s"
  using keepsD [OF steady_disk_file refl assms] by simp

lemma loaded_vault_ok:
  assumes "pv_model_init arena key path = Inr v0"
  shows "vault_ok (v0\<lparr>v_vault_id := i, v_vmk := Some k, v_source_hash := x\<rparr>)"
  using pv_model_init_laws(1) [OF assms]
  by (simp add: vault_ok_def layout_ok_def vault_regions_def vault_view_def)

text \<open>A vault that was opened is the one that was sealed.\<close>

definition same_vault :: "pv_vault \<Rightarrow> pv_vault \<Rightarrow> bool" where
  "same_vault v w \<longleftrightarrow> vault_view v = vault_view w \<and> v_generation v = v_generation w \<and> v_device_id v = v_device_id w \<and>
     v_created_ms v = v_created_ms w \<and> v_updated_ms v = v_updated_ms w \<and> v_vmk v = v_vmk w"

lemma decode_vault_Inr:
  assumes "run_state (decode_vault L input v0) s = (Inr v, s')"
  obtains mp where "pv_cbor_decode (lib_stream_decode L) mp (pv_now_ms (os_clock s)) (lib_draws L) input v0 = Some (Inr v)"
proof -
  obtain mp t where l: "run_state lib_ok s = (mp, t)" by fastforce
  have "os_clock t = os_clock s" using keepsD [OF steady_library(1) refl l] by simp
  then have "pv_cbor_decode (lib_stream_decode L) mp (pv_now_ms (os_clock s)) (lib_draws L) input v0 = Some (Inr v)"
    using assms l by (simp add: decode_vault_def now_ms_def split: option.splits)
  then show thesis by (rule that)
qed

lemma open_disk_opened:
  assumes run: "run_state (open_disk L path credential recovery disk) s = (Inr (v', h'), s')"
    and v: "saveable v" "unlocked L (df_header disk) credential recovery = Inr vmk" "v_vmk v = Some vmk"
      "pv_crypto_decrypt_body (lib_sodium L) Alloc_ok True (df_header disk) vmk (df_ciphertext disk) = Inr (image v)"
    and now: "0 \<le> sint (pv_now_ms (os_clock s))"
  shows "same_vault v' v" "saveable v'" "\<not> v_dirty v'" "h' = df_header disk" "v_vault_id v' = h_vault_id (df_header disk)"
    "v_source_hash v' = df_hash disk" "v_path v' = path"
proof -
  obtain key s1 where a: "run_state lib_alloc s = (key, s1)" by fastforce
  then have inner: "run_state (io_bind (unlock_vmk L (df_header disk) credential recovery) (open_body L path disk)) s1 = (Inr (v', h'), s')"
    using run by (simp add: open_disk_def split: if_splits)
  have "\<exists>vmk1 s2 plaintext s3 v0 s4 w s5.
    run_state (unlock_vmk L (df_header disk) credential recovery) s1 = (Inr vmk1, s2) \<and>
    run_state (decrypt_body L (df_header disk) vmk1 (df_ciphertext disk)) s2 = (Inr plaintext, s3) \<and>
    run_state (init_model path) s3 = (Inr v0, s4) \<and>
    run_state (decode_vault L plaintext (v0\<lparr>v_vault_id := h_vault_id (df_header disk), v_vmk := Some vmk1,
           v_source_hash := df_hash disk\<rparr>)) s4 = (Inr w, s5) \<and> v' = w \<and> h' = df_header disk"
    using inner unfolding open_body_def
    by (elim io_bind_Inr) (intro exI conjI, assumption+, simp_all split: if_splits)
  then obtain vmk1 s2 plaintext s3 v0 s4 w s5 where
    u: "run_state (unlock_vmk L (df_header disk) credential recovery) s1 = (Inr vmk1, s2)" and
    p: "run_state (decrypt_body L (df_header disk) vmk1 (df_ciphertext disk)) s2 = (Inr plaintext, s3)" and
    i: "run_state (init_model path) s3 = (Inr v0, s4)" and
    d: "run_state (decode_vault L plaintext (v0\<lparr>v_vault_id := h_vault_id (df_header disk), v_vmk := Some vmk1,
           v_source_hash := df_hash disk\<rparr>)) s4 = (Inr w, s5)" and
    r: "v' = w" "h' = df_header disk"
    by (elim exE conjE)
  have vmk: "vmk1 = vmk" using unlock_vmk_Inr [OF u] v(2) by simp
  have plain: "plaintext = image v" using decrypt_body_Inr [OF p] v(4) vmk by simp
  have "os_clock s4 = os_clock s"
    using keepsD [OF steady_library(2) refl a] keepsD [OF steady_open(1) refl u] keepsD [OF steady_open(2) refl p]
      keepsD [OF steady_open(3) refl i] by simp
  then have t: "0 \<le> sint (pv_now_ms (os_clock s4))" using now by simp
  obtain arena key where init: "pv_model_init arena key path = Inr v0"
    using i by (auto simp: init_model_def run_bind_iff simp del: run_state_bind)
  obtain mp where dec: "pv_cbor_decode (lib_stream_decode L) mp (pv_now_ms (os_clock s4)) (lib_draws L) (image v)
      (v0\<lparr>v_vault_id := h_vault_id (df_header disk), v_vmk := Some vmk, v_source_hash := df_hash disk\<rparr>) = Some (Inr w)"
    using decode_vault_Inr [OF d] plain vmk by metis
  note laws = pv_cbor_decode_laws [OF loaded_vault_ok [OF init] t dec]
  show "saveable v'" "\<not> v_dirty v'" "h' = df_header disk" "v_vault_id v' = h_vault_id (df_header disk)"
    "v_source_hash v' = df_hash disk" "v_path v' = path"
    using laws r pv_model_init_laws(4) [OF init] by auto
  show "same_vault v' v"
    using image_inject [of v' v] v(1,3) laws r by (simp add: same_vault_def)
qed

lemma model_init_succeeds: "length path < PATH_MAX \<Longrightarrow> \<exists>v0. pv_model_init Alloc_ok Alloc_ok path = Inr v0"
  using sample_vault_init by (auto simp: pv_model_init_def split: if_splits sum.splits option.splits)

lemma calm_open_disk:
  assumes calm: "calm_system s" and path: "length path < PATH_MAX" and L: "decodes_items (lib_stream_decode L)"
    and v: "saveable v" "length (image v) \<le> PV_MAX_PLAINTEXT" "unlocked L (df_header disk) credential recovery = Inr vmk"
      "pv_crypto_decrypt_body (lib_sodium L) Alloc_ok True (df_header disk) vmk (df_ciphertext disk) = Inr (image v)"
    and now: "0 \<le> sint (pv_now_ms (os_clock s))"
    and run: "run_state (open_disk L path credential recovery disk) s = (Inl e, s')"
  shows "e = PV_ERR_LIMIT"
proof -
  have u: "run_state (unlock_vmk L (df_header disk) credential recovery) s = (Inr vmk, s)"
    using v(3) calm by (auto simp: unlock_vmk_def unlocked_def calm_library split: if_splits)
  have d: "run_state (decrypt_body L (df_header disk) vmk (df_ciphertext disk)) s = (Inr (image v), s)"
    using v(4) calm by (simp add: decrypt_body_def calm_library)
  obtain v0 where init: "pv_model_init Alloc_ok Alloc_ok path = Inr v0" using model_init_succeeds [OF path] by blast
  then have i: "run_state (init_model path) s = (Inr v0, s)"
    using calm by (simp add: init_model_def calm_library)
  let ?v0 = "v0\<lparr>v_vault_id := h_vault_id (df_header disk), v_vmk := Some vmk, v_source_hash := df_hash disk\<rparr>"
  have "v_records ?v0 = []" using pv_model_init_laws(7) [OF init] by simp
  note image = pv_cbor_decode_image [OF L v(1,2) loaded_vault_ok [OF init] this now, of "lib_draws L"]
  show ?thesis
  proof (cases "pv_cbor_decode (lib_stream_decode L) True (pv_now_ms (os_clock s)) (lib_draws L) (image v) ?v0" rule: run_cases)
    case (Result w)
    then have "v_vault_id w = h_vault_id (df_header disk)"
      using pv_cbor_decode_laws [OF loaded_vault_ok [OF init] now] by simp
    then show ?thesis
      using run u d i Result calm by (simp add: open_disk_def open_body_def calm_library decode_vault_def now_ms_def io_bind_def)
  qed (use run u d i calm image in \<open>simp_all add: open_disk_def open_body_def calm_library decode_vault_def now_ms_def io_bind_def\<close>)
qed

lemma calm_read_disk_file:
  assumes calm: "calm_system s" and at: "located (os_fs s) path d n" "private_directory_at s d" "entry (os_fs s) d n = Some i"
    and f: "vault_file s i hb h ct"
  shows "\<exists>s'. run_state (read_disk_file S path) s = (Inr \<lparr>df_header_bytes = hb, df_header = h, df_ciphertext = ct,
      df_hash = generichash S (hb @ ct), df_stat = stat_of (os_fs s) i\<rparr>, s') \<and> only_reads s s'"
proof -
  let ?location = "\<lparr>directory_fd = \<lparr>fd_id = os_fd_next s, fd_ino = d\<rparr>, loc_name = n, loc_device = 0, loc_inode = d\<rparr>"
  let ?s1 = "s\<lparr>os_pos := (os_pos s)(os_fd_next s := 0), os_fd_next := os_fd_next s + 1\<rparr>"
  let ?disk = "\<lparr>df_header_bytes = hb, df_header = h, df_ciphertext = ct, df_hash = generichash S (hb @ ct), df_stat = stat_of (os_fs s) i\<rparr>"
  have "vault_file ?s1 i hb h ct" using f by (simp add: vault_file_def private_file_def)
  then obtain s2 where r: "run_state (read_disk_file_at S (directory_fd ?location) n) ?s1 = (Inr ?disk, s2)" "only_reads ?s1 s2"
    using calm_read_disk_file_at [of ?s1 "directory_fd ?location" n i hb h ct S] calm at(3) by auto
  then have s2: "only_reads s s2" by (simp add: only_reads_trans [of s ?s1 s2])
  note same = only_readsD [OF s2]
  have "calm_system s2" "located (os_fs s2) path d n" "private_directory_at s2 d"
    using same calm at by (auto simp: private_directory_at_def)
  then obtain s3 where "run_state (revalidate_store_location path ?location) s2 = (PV_OK, s3)" "only_reads s2 s3"
    using calm_revalidate [of s2 path d n ?location] by auto
  moreover have "calm_system s3" using calculation same calm by (simp add: only_readsD)
  ultimately show ?thesis
    using calm_location [OF calm at(1,2)] r s2
    by (auto simp: read_disk_file_def io_bind_def calm_close intro: only_reads_trans)
qed

lemma open_common_run:
  assumes "run_state (open_common L path credential recovery consumed) s = ((r, b), s')"
  shows "run_state (io_bind (read_disk_file (lib_sodium L) path) (open_disk L path credential recovery)) s = (r, s')"
    "b = map_option pv_buffer_secure_free consumed"
  using assms by (auto simp: open_common_def run_bind_iff simp del: run_state_bind)

lemma open_common_sealed:
  assumes L: "library_ok L" and h: "sealable h" and v: "saveable v" "v_vmk v = Some vmk"
    and seal: "sealed_as L v h bytes h'" and key: "unlocked L h credential recovery = Inr vmk"
    and at: "located (os_fs s) path d n" "content (os_fs s) d n = Some bytes" and now: "0 \<le> sint (pv_now_ms (os_clock s))"
    and run: "run_state (open_common L path credential recovery consumed) s = ((r, b), s')"
  shows "r = Inr (w, h2) \<Longrightarrow> same_vault w v \<and> saveable w \<and> \<not> v_dirty w \<and> h2 = h' \<and> v_vault_id w = h_vault_id h \<and> v_path w = path \<and>
      v_source_hash w = generichash (lib_sodium L) bytes"
    and "r = Inl e \<Longrightarrow> calm_system s \<Longrightarrow> length path < PATH_MAX \<Longrightarrow> private_directory_at s d \<Longrightarrow>
      (\<exists>i. entry (os_fs s) d n = Some i \<and> private_file s i \<and> i_kind (fs_inode (os_fs s) i) = Regular_file) \<Longrightarrow> e = PV_ERR_LIMIT"
proof -
  obtain vmk' ct where sealed: "bytes = pv_header_encode h' @ ct" "v_vmk v = Some vmk'"
    "length (pv_header_encode h') = PV_FILE_HEADER_LEN" "pv_header_decode (pv_header_encode h') = Inr h'"
    "length ct = unat (h_body_ciphertext_len h')" "h_vault_id h' = h_vault_id h"
    "pv_crypto_decrypt_body (lib_sodium L) Alloc_ok True h' vmk' ct = Inr (image v)" "length (image v) \<le> PV_MAX_PLAINTEXT"
    "\<And>credential recovery. unlocked L h' credential recovery = unlocked L h credential recovery"
    by (rule sealed_file [OF L h v(1) seal]) (rule that)
  note inner = open_common_run(1) [OF run]
  show "same_vault w v \<and> saveable w \<and> \<not> v_dirty w \<and> h2 = h' \<and> v_vault_id w = h_vault_id h \<and> v_path w = path \<and>
      v_source_hash w = generichash (lib_sodium L) bytes" if r: "r = Inr (w, h2)"
  proof -
    obtain disk s1 where d: "run_state (read_disk_file (lib_sodium L) path) s = (Inr disk, s1)"
      and o: "run_state (open_disk L path credential recovery disk) s1 = (Inr (w, h2), s')"
      using inner unfolding r by (rule io_bind_Inr)
    note disk = read_disk_file_spec [OF d at(1)]
    have "df_header_bytes disk = pv_header_encode h'" "df_ciphertext disk = ct"
      using disk(1,2) at(2) sealed(1,3) by (simp_all add: append_eq_append_conv)
    then have df: "df_header disk = h'" "df_ciphertext disk = ct" "df_hash disk = generichash (lib_sodium L) bytes"
      using disk(3,4) sealed(1,4) by auto
    have "0 \<le> sint (pv_now_ms (os_clock s1))" using steady_open_disk [OF d] now by simp
    from open_disk_opened [OF o v(1) _ v(2) _ this] show ?thesis using df sealed key v(2) by simp
  qed
  assume r: "r = Inl e" and calm: "calm_system s" "length path < PATH_MAX" "private_directory_at s d"
    and "\<exists>i. entry (os_fs s) d n = Some i \<and> private_file s i \<and> i_kind (fs_inode (os_fs s) i) = Regular_file"
  then obtain i where i: "entry (os_fs s) d n = Some i" "private_file s i" "i_kind (fs_inode (os_fs s) i) = Regular_file" by blast
  then have "vault_file s i (pv_header_encode h') h' ct"
    using at(2) sealed by (simp add: vault_file_def content_def)
  from calm_read_disk_file [OF calm(1) at(1) calm(3) i(1) this, of "lib_sodium L"] obtain disk s1
    where d: "run_state (read_disk_file (lib_sodium L) path) s = (Inr disk, s1)" "only_reads s s1" and df: "df_header disk = h'" "df_ciphertext disk = ct"
    by fastforce
  have "run_state (open_disk L path credential recovery disk) s1 = (Inl e, s')"
    using inner d(1) r by (simp add: io_bind_def)
  from calm_open_disk [OF _ calm(2) _ v(1) sealed(8) _ _ _ this] show "e = PV_ERR_LIMIT"
    using df sealed key L calm(1) now v(2) only_readsD [OF d(2)] by (simp add: library_ok_def)
qed

lemma created_sealable:
  assumes S: "sodium_ok S" and env: "draws_ok env" and vmk: "length vmk = PV_WRAP_KEY_BYTES"
    and id: "length (h_vault_id h0) = PV_VAULT_ID_BYTES" "\<not> (h_vault_id h0 = replicate 16 0 \<and> draw_vault_id env = replicate 16 0)"
    and run: "pv_crypto_create_header S env password recovery_key vmk h0 = (Inr (), h)"
  shows "sealable h" "h_vault_id h = (if h_vault_id h0 = replicate 16 0 then draw_vault_id env else h_vault_id h0)"
proof -
  note created = created_header [OF S env vmk id(1) run]
  show "h_vault_id h = (if h_vault_id h0 = replicate 16 0 then draw_vault_id env else h_vault_id h0)" by (rule created(3))
  define header_id where "header_id = h_vault_id h"
  have nonzero: "header_id \<noteq> replicate 16 0" using created(3) id(2) by (auto simp: header_id_def)
  have "h = (base_header header_id)\<lparr>password_slot := password_slot h, recovery_slot := recovery_slot h\<rparr>"
    using created(5) by (simp add: header_id_def)
  then obtain s r where h: "h = (base_header header_id)\<lparr>password_slot := s, recovery_slot := r\<rparr>" by blast
  show "sealable h"
    using created(4,6,7) nonzero
    by (simp add: h sealable_def header_valid_def header_shape_def base_header_def)
qed


section \<open>A vault that is opened\<close>

definition demo_sealed :: pv_vault where
  "demo_sealed = demo_vault\<lparr>v_vmk := Some (replicate 32 6), v_vault_id := replicate 16 1\<rparr>"

lemma demo_created_sealable: "sealable demo_created" "h_vault_id demo_created = replicate 16 1"
  using created_sealable [OF demo_sodium_ok _ _ _ _ demo_create]
  by (simp_all add: draws_ok_def demo_env_def base_header_def)


end
