(* ===== verification/Pv_Recovery_File.thy ===== *)
theory Pv_Recovery_File
  imports Pv_Recovery Pv_Open
begin

text \<open>
  The recovery key on paper or on a stick (\<^verbatim>\<open>src/src/recovery.c\<close>,
  \<^verbatim>\<open>pv_recovery_write_file\<close> and \<^verbatim>\<open>pv_recovery_read_file\<close>): a new file of mode 0600 with
  the encoded key on a line of its own. \<^verbatim>\<open>write_all\<close> is the same loop as in
  \<^verbatim>\<open>store.c\<close>, so it is the one of \<open>Pv_Disk\<close>. Text in files may contain NUL bytes; a
  caller that takes the line as a C string sees it up to the first one.
\<close>

section \<open>Paths\<close>

text \<open>\<^verbatim>\<open>dirname\<close>, and the calls that take the path of a file\<close>

definition without_slashes :: "byte list \<Rightarrow> byte list" where
  "without_slashes path = rev (dropWhile (\<lambda>c. c = 0x2f) (rev path))"

definition dirname :: "byte list \<Rightarrow> byte list" where
  "dirname path =
     (let stripped = without_slashes path;
          parent = without_slashes (take (length stripped - length (path_base stripped)) stripped)
      in if path = [] then ascii ''.''
         else if stripped = [] then [0x2f]
         else if 0x2f \<notin> set stripped then ascii ''.''
         else if parent = [] then [0x2f]
         else parent)"

text \<open>
  The directory and the name of a file that a path may create or remove. A path that is empty, ends
  in a slash or in one of the names every directory has cannot.
\<close>

definition path_entry :: "fs \<Rightarrow> byte list \<Rightarrow> (nat \<times> byte list) option" where
  "path_entry F path =
     (if path_base path \<in> {[], ascii ''.'', ascii ''..''} then None
      else map_option (\<lambda>d. (d, path_base path)) (map_of (fs_dirs F) (dirname path)))"

text \<open>\<^verbatim>\<open>open(path, O_WRONLY | O_CREAT | O_EXCL | O_NOFOLLOW, mode)\<close>\<close>

definition sys_path_create :: "byte list \<Rightarrow> u32 \<Rightarrow> (errno + fd) io" where
  "sys_path_create path mode = sys (\<lambda>_ s.
     case path_entry (os_fs s) path of
       None \<Rightarrow> (Inl (if path_base path \<in> {ascii ''.'', ascii ''..''} then EEXIST else ENOENT), s)
     | Some (d, name) \<Rightarrow>
         if entry (os_fs s) d name \<noteq> None then (Inl EEXIST, s)
         else new_fd (fs_next (os_fs s)) (create_file d name Regular_file mode s))"

text \<open>\<^verbatim>\<open>open(path, O_RDONLY | O_NOFOLLOW)\<close>; a path that names no entry may still lead to a directory\<close>

definition sys_path_open :: "byte list \<Rightarrow> (errno + fd) io" where
  "sys_path_open path = sys (\<lambda>_ s.
     case Option.bind (path_entry (os_fs s) path) (\<lambda>(d, name). entry (os_fs s) d name) of
       Some i \<Rightarrow> if i_kind (fs_inode (os_fs s) i) = Symbolic_link then (Inl ELOOP, s) else new_fd i s
     | None \<Rightarrow> (case map_of (fs_dirs (os_fs s)) path of None \<Rightarrow> (Inl ENOENT, s) | Some i \<Rightarrow> new_fd i s))"

definition sys_path_unlink :: "byte list \<Rightarrow> (errno + unit) io" where
  "sys_path_unlink path = sys (\<lambda>_ s.
     case path_entry (os_fs s) path of
       None \<Rightarrow> (Inl ENOENT, s)
     | Some (d, name) \<Rightarrow>
         (case entry (os_fs s) d name of
            None \<Rightarrow> (Inl ENOENT, s)
          | Some i \<Rightarrow>
              if i_kind (fs_inode (os_fs s) i) = Directory then (Inl EINVAL, s)
              else (Inr (), on_fs (\<lambda>F. fs_drop d name (fs_unref i F)) s)))"

section \<open>Writing the file\<close>

definition fsync_private_parent :: "byte list \<Rightarrow> pv_status io" where
  "fsync_private_parent path =
     (if length path \<ge> PATH_MAX then done_with PV_ERR_LIMIT
      else do {
        opened \<leftarrow> sys_open_dir (dirname path);
        case opened of
          Inl e \<Rightarrow> done_with PV_ERR_IO
        | Inr f \<Rightarrow> do {
            r \<leftarrow> sys_fstat f;
            euid \<leftarrow> geteuid;
            status \<leftarrow> (case r of
                Inl e \<Rightarrow> done_with PV_ERR_IO
              | Inr st \<Rightarrow>
                  if st_kind st \<noteq> Directory \<or> st_uid st \<noteq> euid \<or> st_mode st AND 0x12 \<noteq> 0 then done_with PV_ERR_IO
                  else sync_status f);
            close_status f status } })"

definition recovery_file_text :: "byte list \<Rightarrow> byte list \<Rightarrow> byte list" where
  "recovery_file_text id_hex encoded =
     ascii ''PVault recovery key v1'' @ [0x0a] @ ascii ''Vault: '' @ id_hex @ [0x0a, 0x0a] @ encoded @ [0x0a, 0x0a] @
     ascii ''Keep this file offline and separate from the vault.'' @ [0x0a]"

definition fill_recovery_file :: "byte list \<Rightarrow> fd \<Rightarrow> byte list \<Rightarrow> pv_status io" where
  "fill_recovery_file path f bytes = do {
     s1 \<leftarrow> write_all f bytes;
     s2 \<leftarrow> if_ok s1 (sync_status f);
     s3 \<leftarrow> close_status f s2;
     s4 \<leftarrow> if_ok s3 (fsync_private_parent path);
     if s4 \<noteq> PV_OK then do { _ \<leftarrow> sys_path_unlink path; _ \<leftarrow> fsync_private_parent path; done_with s4 }
     else done_with PV_OK }"

text \<open>The identifier has a fixed length, so encoding it in hexadecimal cannot fail.\<close>

definition pv_recovery_write_file :: "byte list \<Rightarrow> byte list \<Rightarrow> byte list \<Rightarrow> pv_status io" where
  "pv_recovery_write_file path encoded vault_id = do {
     parent \<leftarrow> fsync_private_parent path;
     if_ok parent (do {
       mem \<leftarrow> lib_ok;
       if \<not> mem then done_with PV_ERR_SECURE_MEMORY
       else do {
         opened \<leftarrow> sys_path_create path 0x180;
         case opened of
           Inl e \<Rightarrow> done_with (if e = EEXIST then PV_ERR_EXISTS else PV_ERR_IO)
         | Inr f \<Rightarrow>
             (let bytes = recovery_file_text (concat (map hex_pair vault_id)) encoded
              in if length bytes \<ge> 512
                 then do { _ \<leftarrow> sys_close f; _ \<leftarrow> sys_path_unlink path; done_with PV_ERR_LIMIT }
                 else fill_recovery_file path f bytes) } }) }"

section \<open>Reading the file\<close>

abbreviation PV_RECOVERY_FILE_MAX :: nat where "PV_RECOVERY_FILE_MAX \<equiv> 1024"

text \<open>
  The loop reads until the end of the file or until there is no room: every round that goes on has
  read at least one byte, so as many rounds as there is room, and one, are enough.
\<close>

fun read_upto :: "nat \<Rightarrow> fd \<Rightarrow> nat \<Rightarrow> byte list \<Rightarrow> byte list pv_result io" where
  "read_upto 0 f room used = done_with (Inl PV_ERR_STATE)"
| "read_upto (Suc rounds) f room used =
     (if length used < room then do {
        r \<leftarrow> read_retry f (room - length used);
        case r of
          Inl e \<Rightarrow> done_with (Inl PV_ERR_IO)
        | Inr received \<Rightarrow> if received = [] then done_with (Inr used) else read_upto rounds f room (used @ received) }
      else done_with (Inr used))"

text \<open>The first line that starts with the prefix, in either case; a carriage return at its end is dropped.\<close>

definition line_prefix :: "byte list \<Rightarrow> bool" where
  "line_prefix line \<longleftrightarrow> length line \<ge> 4 \<and> map toupper (take 4 line) = ascii ''PV1R''"

definition chop_return :: "byte list \<Rightarrow> byte list" where
  "chop_return line = (if line \<noteq> [] \<and> last line = 0x0d then butlast line else line)"

function find_line :: "byte list \<Rightarrow> nat \<Rightarrow> byte list pv_result" where
  "find_line bytes encoded_len =
     (if bytes = [] then Inl PV_ERR_FORMAT
      else
        (let raw = takeWhile (\<lambda>c. c \<noteq> 0x0a) bytes;
             line = chop_return raw
         in if line_prefix line then if length line \<ge> encoded_len then Inl PV_ERR_LIMIT else Inr line
            else find_line (drop (length raw + 1) bytes) encoded_len))"
  by pat_completeness auto
termination
  by (relation "measure (\<lambda>(bytes, encoded_len). length bytes)") auto

declare find_line.simps [simp del]

definition pv_recovery_read_file :: "byte list \<Rightarrow> nat \<Rightarrow> byte list pv_result io" where
  "pv_recovery_read_file path encoded_len =
     (if encoded_len = 0 then done_with (Inl PV_ERR_USAGE)
      else do {
        mem \<leftarrow> lib_ok;
        if \<not> mem then done_with (Inl PV_ERR_SECURE_MEMORY)
        else do {
          opened \<leftarrow> sys_path_open path;
          case opened of
            Inl e \<Rightarrow> done_with (Inl PV_ERR_IO)
          | Inr f \<Rightarrow> do {
              r \<leftarrow> sys_fstat f;
              euid \<leftarrow> geteuid;
              result \<leftarrow> (case r of
                  Inl e \<Rightarrow> done_with (Inl PV_ERR_IO)
                | Inr st \<Rightarrow>
                    if st_kind st \<noteq> Regular_file \<or> st_uid st \<noteq> euid \<or> st_nlink st \<noteq> 1 \<or> st_mode st AND 0x3f \<noteq> 0
                    then done_with (Inl PV_ERR_IO)
                    else io_bind (read_upto (PV_RECOVERY_FILE_MAX + 2) f (PV_RECOVERY_FILE_MAX + 1) []) (\<lambda>bytes.
                      done_with (if length bytes > PV_RECOVERY_FILE_MAX then Inl PV_ERR_LIMIT
                        else find_line bytes encoded_len)));
              status \<leftarrow> close_status f (case result of Inl e \<Rightarrow> e | Inr _ \<Rightarrow> PV_OK);
              done_with (case result of Inl e \<Rightarrow> Inl e | Inr line \<Rightarrow> if status = PV_OK then Inr line else Inl status) } } })"

section \<open>What writing leaves behind\<close>

lemma keeps_sys:
  assumes "\<And>s faults alive. I s \<Longrightarrow> I (s\<lparr>os_faults := faults, os_alive := alive\<rparr>)" "\<And>s faults. I s \<Longrightarrow> I (s\<lparr>os_faults := faults\<rparr>)"
    and "\<And>l s r s'. act l s = (r, s') \<Longrightarrow> I s \<Longrightarrow> I s'"
  shows "keeps I (sys act) (\<lambda>_. True)"
  unfolding keeps_def
proof (intro allI impI)
  fix s r s'
  assume "I s" "run_state (sys act) s = (r, s')"
  from this(2,1) show "I s' \<and> True" by (cases rule: sys_cases) (auto dest: assms(3) intro: assms(1,2))
qed

lemma keeps_write_all:
  assumes "\<And>b. keeps I (sys_write f b) (\<lambda>_. True)"
  shows "keeps I (write_all f bytes) (\<lambda>_. True)"
proof -
  have "I s'" if "write_loop f bytes s = (r, s')" "I s" for bytes s r s'
    using that assms
  proof (induction f bytes s rule: write_loop.induct)
    case (1 f bytes s)
    obtain a s1 where w: "run_state (sys_write f bytes) s = (a, s1)" by fastforce
    have "I s1" using keepsD [OF "1.prems"(3,2) w] by simp
    with 1 w show ?case by (cases a) (auto simp: write_loop.simps [of f bytes s] split: if_splits)
  qed
  then show ?thesis by (auto simp: keeps_def write_all_def)
qed

text \<open>The attributes of the new file: a private file of the user, with one name. Directories stay where they are.\<close>

definition own_file :: "(byte list \<times> nat) list \<Rightarrow> nat \<Rightarrow> nat \<Rightarrow> os \<Rightarrow> bool" where
  "own_file dirs user i s \<longleftrightarrow> fs_dirs (os_fs s) = dirs \<and> os_euid s = user \<and> i_uid (fs_inode (os_fs s) i) = user \<and>
     i_nlink (fs_inode (os_fs s) i) = 1 \<and> i_mode (fs_inode (os_fs s) i) AND 0x3f = 0 \<and>
     i_kind (fs_inode (os_fs s) i) = Regular_file"

lemma own_file_calls [frame]:
  "keeps (own_file dirs user i) (sys_open_dir path) (\<lambda>_. True)" "keeps (own_file dirs user i) (sys_fstat f) (\<lambda>_. True)"
  "keeps (own_file dirs user i) (sys_close f) (\<lambda>_. True)" "keeps (own_file dirs user i) (sys_fsync f) (\<lambda>_. True)"
  "keeps (own_file dirs user i) (sys_write f bytes) (\<lambda>_. True)" "keeps (own_file dirs user i) geteuid (\<lambda>_. True)"
  unfolding sys_open_dir_def sys_fstat_def sys_close_def sys_fsync_def sys_write_def Let_def
  by (rule keeps_sys;
      auto simp: own_file_def new_fd_def fs_sync_def append_data_def split: option.splits if_splits; fail)+
    (simp add: keeps_def geteuid_def)

lemma own_file_steps [frame]:
  "keeps (own_file dirs user i) (sync_status f) (\<lambda>_. True)" "keeps (own_file dirs user i) (close_status f status) (\<lambda>_. True)"
  "keeps (own_file dirs user i) (write_all f bytes) (\<lambda>_. True)"
  unfolding sync_status_def close_status_def by (intro frame keeps_write_all)+

lemma own_file_parent [frame]: "keeps (own_file dirs user i) (fsync_private_parent path) (\<lambda>_. True)"
  unfolding fsync_private_parent_def by (intro frame)

lemma frame_private_parent [frame]: "frame X F (fsync_private_parent path) (\<lambda>_. True)"
  unfolding fsync_private_parent_def by (intro frame)

lemma path_unlink_changes:
  assumes "run_state (sys_path_unlink path) s = (r, s')" "changes X F (os_fs s)"
    and "path_entry (os_fs s) path = None \<or> (\<exists>e \<in> X. path_entry (os_fs s) path = Some e)"
  shows "changes X F (os_fs s')"
  using assms(1) [unfolded sys_path_unlink_def]
  by (cases rule: sys_cases) (use assms(2,3) in \<open>auto split: option.splits if_splits intro!: changes_drop changes_unref\<close>)

text \<open>Creating the file: the name was free, and the file is a draft of an empty file of the user.\<close>

lemma path_create_drafts:
  assumes "run_state (sys_path_create path 0x180) s = (Inr f, s')" "fs_ok (os_fs s)"
  obtains d n where "path_entry (os_fs s) path = Some (d, n)" "entry (os_fs s) d n = None"
    "drafting_in {(d, n)} (os_fs s) d [] (fd_ino f) n (os_fs s')" "own_file (fs_dirs (os_fs s)) (os_euid s) (fd_ino f) s'"
  using assms(1) [unfolded sys_path_create_def]
proof (cases rule: sys_cases)
  case (acts limit)
  then obtain d n where p: "path_entry (os_fs s) path = Some (d, n)" "entry (os_fs s) d n = None"
    and new: "f = \<lparr>fd_id = os_fd_next s, fd_ino = fs_next (os_fs s)\<rparr>"
    "os_fs s' = fs_link d n (fs_next (os_fs s)) (fs_new (created Regular_file 0x180 s) (os_fs s))" "os_euid s' = os_euid s"
    by (auto simp: new_fd_def create_file_def created_def split: option.splits if_splits)
  have d: "d < fs_next (os_fs s)"
    using p(1) assms(2) by (auto simp: path_entry_def fs_ok_def split: if_splits dest!: map_of_SomeD)
  have "changes {(d, n)} (os_fs s) (os_fs s')"
    unfolding new(2) using d by (intro changes_link changes_new) auto
  moreover have mode: "0x180 AND 0x3f = (0 :: u32)" by simp
  moreover have "(0x180 AND NOT (os_umask s)) AND 0x3f = 0"
    by (metis (no_types) mode and.assoc and.commute and_zero_eq)
  ultimately show thesis
    using that p new by (simp add: drafting_in_def own_file_def created_def)
qed simp

text \<open>
  \<open>written F d n x user s\<close>: since \<open>F\<close>, where there was no such name, the name has come to be a private
  file with the data \<open>x\<close>, and the file and its name survive a power loss.
\<close>

definition written :: "fs \<Rightarrow> nat \<Rightarrow> byte list \<Rightarrow> byte list \<Rightarrow> nat \<Rightarrow> os \<Rightarrow> bool" where
  "written F d n x user s \<longleftrightarrow> entry F d n = None \<and> changes {(d, n)} F (os_fs s) \<and>
     (\<exists>i. entry (os_fs s) d n = Some i \<and> own_file (fs_dirs F) user i s \<and> i_data (fs_inode (os_fs s) i) = x \<and>
        i_synced (fs_inode (os_fs s) i)) \<and> fs_past (os_fs s) d n = []"

lemma private_parent_syncs:
  assumes "run_state (fsync_private_parent path) s = (PV_OK, s')" "map_of (fs_dirs (os_fs s)) (dirname path) = Some d"
  shows "os_fs s' = fs_sync d (os_fs s)" "i_kind (fs_inode (os_fs s) d) = Directory" "length path < PATH_MAX"
proof -
  have len: "length path < PATH_MAX" using assms(1) by (auto simp: fsync_private_parent_def split: if_splits)
  obtain a s1 where a: "run_state (sys_open_dir (dirname path)) s = (a, s1)" by fastforce
  then obtain f where f1: "a = Inr f" using assms(1) len by (cases a) (auto simp: fsync_private_parent_def)
  obtain b s2 where b: "run_state (sys_fstat f) s1 = (b, s2)" by fastforce
  have "\<exists>st status s4. b = Inr st \<and> st_kind st = Directory \<and> run_state (sync_status f) s2 = (status, s4) \<and>
      run_state (close_status f status) s4 = (PV_OK, s')"
    using assms(1) len a f1 b close_status_result(2) [of f PV_ERR_IO s2 PV_OK]
    by (cases b; cases "run_state (sync_status f) s2")
      (auto simp: fsync_private_parent_def geteuid_def split: if_splits)
  then obtain st status s4 where o: "run_state (sys_open_dir (dirname path)) s = (Inr f, s1)"
    and st: "run_state (sys_fstat f) s1 = (Inr st, s2)" "st_kind st = Directory"
    and sy: "run_state (sync_status f) s2 = (status, s4)" and c: "run_state (close_status f status) s4 = (PV_OK, s')"
    using a f1 b by auto
  have f: "fd_ino f = d" "os_fs s1 = os_fs s"
    using o [unfolded sys_open_dir_def] assms(2) by (cases rule: sys_cases; auto simp: new_fd_def)+
  have s2: "os_fs s2 = os_fs s1" "i_kind (fs_inode (os_fs s) d) = Directory"
    using st f quiet_same [OF quiet_readers(5) st(1)] sys_fstat_spec [OF st(1)] by (auto simp: stat_of_def Let_def)
  have "status = PV_OK" "os_fs s' = os_fs s4" using close_status_result [OF c] by auto
  moreover obtain r where "run_state (sys_fsync f) s2 = (r, s4)" "status = io_status r"
    using sy by (auto simp: sync_status_def run_bind_iff simp del: run_state_bind)
  ultimately have "os_fs s4 = fs_sync d (os_fs s2)"
    using f(1) by (cases r) (auto simp: sys_fsync_def elim: sys_cases)
  with \<open>os_fs s' = os_fs s4\<close> s2 f show "os_fs s' = fs_sync d (os_fs s)" "i_kind (fs_inode (os_fs s) d) = Directory" by auto
  show "length path < PATH_MAX" by (rule len)
qed

lemma path_entry_dirs: "fs_dirs G = fs_dirs F \<Longrightarrow> path_entry G path = path_entry F path"
  by (simp add: path_entry_def)

lemma fill_recovery_file_spec:
  assumes run: "run_state (fill_recovery_file path f bytes) s = (r, s')"
    and draft: "drafting_in {(d, n)} F d [] (fd_ino f) n (os_fs s)" and own: "own_file (fs_dirs F) user (fd_ino f) s"
    and path: "path_entry F path = Some (d, n)" "entry F d n = None"
  shows "changes {(d, n)} F (os_fs s')" "r = PV_OK \<Longrightarrow> written F d n bytes user s'"
proof -
  obtain r1 s1 r2 s2 r3 s3 r4 s4 where
    w: "run_state (write_all f bytes) s = (r1, s1)" and y: "run_state (if_ok r1 (sync_status f)) s1 = (r2, s2)" and
    c: "run_state (close_status f r2) s2 = (r3, s3)" and p: "run_state (if_ok r3 (fsync_private_parent path)) s3 = (r4, s4)" and
    e: "run_state (if r4 \<noteq> PV_OK then do { _ \<leftarrow> sys_path_unlink path; _ \<leftarrow> fsync_private_parent path; done_with r4 }
      else done_with PV_OK) s4 = (r, s')"
    using run unfolding fill_recovery_file_def by (auto simp: run_bind_iff simp del: run_state_bind)
  obtain y1 where d1: "drafting_in {(d, n)} F d y1 (fd_ino f) n (os_fs s1)" "r1 = PV_OK \<longrightarrow> y1 = bytes"
    using write_all_drafts [OF w draft] by auto
  have "drafting_in {(d, n)} F d y1 (fd_ino f) n (os_fs s2) \<and>
      (r2 = PV_OK \<longrightarrow> r1 = PV_OK \<and> i_synced (fs_inode (os_fs s2) (fd_ino f)))"
    using y by (cases rule: if_ok_cases) (use d1 sync_status_drafts in auto)
  then have d3: "drafting_in {(d, n)} F d y1 (fd_ino f) n (os_fs s3)" "r3 = PV_OK \<Longrightarrow> y1 = bytes \<and> i_synced (fs_inode (os_fs s3) (fd_ino f))"
    using close_status_result [OF c] d1(2) by auto
  have own3: "own_file (fs_dirs F) user (fd_ino f) s3" if "own_file (fs_dirs F) user (fd_ino f) s" for user
    using keepsD [OF own_file_steps(3) that w] keepsD [OF keeps_if_ok [OF own_file_steps(1)] _ y] keepsD [OF own_file_steps(2) _ c] by simp
  have own4: "own_file (fs_dirs F) user (fd_ino f) s4"
    using own3 [OF own] keepsD [OF keeps_if_ok [OF own_file_parent] _ p] by simp
  have c4: "changes {(d, n)} F (os_fs s4)"
    using d3(1) keepsD [OF keeps_if_ok [OF frame_private_parent] _ p] by (simp add: drafting_in_def)
  show c': "changes {(d, n)} F (os_fs s')"
  proof (cases "r4 = PV_OK")
    case False
    then obtain a s5 b s6 where "run_state (sys_path_unlink path) s4 = (a, s5)" "run_state (fsync_private_parent path) s5 = (b, s')"
      using e by (auto simp: run_bind_iff simp del: run_state_bind)
    moreover have "path_entry (os_fs s4) path = Some (d, n)"
      using own4 path(1) path_entry_dirs [of "os_fs s4" F path] by (simp add: own_file_def)
    ultimately show ?thesis
      using path_unlink_changes [OF _ c4] keepsD [OF frame_private_parent, of "{(d, n)}" F] by blast
  qed (use e c4 in simp)
  show "written F d n bytes user s'" if "r = PV_OK"
  proof -
    have ok: "r4 = PV_OK" "s' = s4" using e that by (auto simp: run_bind_iff simp del: run_state_bind split: if_splits)
    then have r3: "r3 = PV_OK" and pp: "run_state (fsync_private_parent path) s3 = (PV_OK, s4)"
      using p by (auto elim: if_ok_cases)
    have "map_of (fs_dirs (os_fs s3)) (dirname path) = Some d"
      using own3 [OF own] path(1) by (auto simp: own_file_def path_entry_def split: if_splits)
    note sync = private_parent_syncs [OF pp this]
    show ?thesis
      using c' own4 d3(1) d3(2) [OF r3] path(2) sync(2)
      by (auto simp: written_def ok(2) sync(1) drafting_in_def fs_sync_def entry_def)
  qed
qed

lemma fs_sync_dirs [simp]: "fs_dirs (fs_sync i F) = fs_dirs F" "entry (fs_sync i F) = entry F"
  by (auto simp: fs_sync_def)

text \<open>Up to the creation of the file no name and no data changes.\<close>

definition same_names :: "fs \<Rightarrow> nat \<Rightarrow> os \<Rightarrow> bool" where
  "same_names F user s \<longleftrightarrow> fs_dirs (os_fs s) = fs_dirs F \<and> os_euid s = user \<and> changes {} F (os_fs s)"

lemma same_names_calls [frame]:
  "keeps (same_names F user) (sys_open_dir path) (\<lambda>_. True)" "keeps (same_names F user) (sys_fstat f) (\<lambda>_. True)"
  "keeps (same_names F user) (sys_close f) (\<lambda>_. True)" "keeps (same_names F user) (sys_fsync f) (\<lambda>_. True)"
  "keeps (same_names F user) sys_library (\<lambda>_. True)" "keeps (same_names F user) geteuid (\<lambda>_. True)"
  unfolding sys_open_dir_def sys_fstat_def sys_close_def sys_fsync_def sys_library_def Let_def
  by (rule keeps_sys;
      auto simp: same_names_def new_fd_def changes_sync split: option.splits if_splits; fail)+
    (simp add: keeps_def geteuid_def)

lemma same_names_steps [frame]:
  "keeps (same_names F user) (fsync_private_parent path) (\<lambda>_. True)" "keeps (same_names F user) lib_ok (\<lambda>_. True)"
  unfolding fsync_private_parent_def sync_status_def close_status_def lib_ok_def by (intro frame)+

lemma path_entry_bound: "path_entry F path = Some (d, n) \<Longrightarrow> fs_ok F \<Longrightarrow> d < fs_next F"
  by (auto simp: path_entry_def fs_ok_def split: if_splits dest!: map_of_SomeD)

lemma pv_recovery_write_file_spec:
  assumes run: "run_state (pv_recovery_write_file path encoded vault_id) s = (r, s')" and ok: "fs_ok (os_fs s)"
  defines "X \<equiv> {e. path_entry (os_fs s) path = Some e \<and> entry (os_fs s) (fst e) (snd e) = None}"
  shows "changes X (os_fs s) (os_fs s')"
    "r = PV_OK \<Longrightarrow> \<exists>d n. path_entry (os_fs s) path = Some (d, n) \<and>
       written (os_fs s) d n (recovery_file_text (concat (map hex_pair vault_id)) encoded) (os_euid s) s'"
proof -
  let ?F = "os_fs s" and ?text = "recovery_file_text (concat (map hex_pair vault_id)) encoded"
  obtain p s1 where p: "run_state (fsync_private_parent path) s = (p, s1)" by fastforce
  obtain m s2 where m: "run_state lib_ok s1 = (m, s2)" by fastforce
  obtain a s3 where a: "run_state (sys_path_create path 0x180) s2 = (a, s3)" by fastforce
  have s1: "same_names ?F (os_euid s) s1" using keepsD [OF same_names_steps(1) [of ?F "os_euid s"] _ p] by (simp add: same_names_def)
  then have s2: "same_names ?F (os_euid s) s2" using keepsD [OF same_names_steps(2) _ m] by simp
  have c2: "changes {} ?F (os_fs s2)" and ok2: "fs_ok (os_fs s2)" using s2 ok by (auto simp: same_names_def changes_def)
  have pe: "path_entry (os_fs s2) path = path_entry ?F path" using s2 by (intro path_entry_dirs) (simp add: same_names_def)
  have failed: "changes X ?F (os_fs t)" if "same_names ?F (os_euid s) t" for t
    using that changes_mono [of "{}" ?F "os_fs t" X] by (simp add: same_names_def)
  have "changes X ?F (os_fs s') \<and> (r = PV_OK \<longrightarrow> (\<exists>d n. path_entry ?F path = Some (d, n) \<and> written ?F d n ?text (os_euid s) s'))"
  proof (cases a)
    case (Inl e)
    from a [unfolded sys_path_create_def] have "same_names ?F (os_euid s) s3"
      by (cases rule: sys_cases) (use Inl s2 in \<open>auto simp: same_names_def new_fd_def split: option.splits if_splits\<close>)
    then show ?thesis
      using run p m a Inl s1 s2 failed by (auto simp: pv_recovery_write_file_def if_ok_def split: if_splits)
  next
    case (Inr f)
    obtain d n where d: "path_entry ?F path = Some (d, n)" "entry (os_fs s2) d n = None"
      and draft: "drafting_in {(d, n)} (os_fs s2) d [] (fd_ino f) n (os_fs s3)"
      and own: "own_file (fs_dirs (os_fs s2)) (os_euid s) (fd_ino f) s3"
      using path_create_drafts [OF a [unfolded Inr] ok2] pe s2 by (metis same_names_def)
    have lt: "d < fs_next ?F" using path_entry_bound [OF d(1) ok] .
    then have none: "entry ?F d n = None" using c2 d(2) by (auto simp: changes_def)
    have X: "X = {(d, n)}" using d(1) none by (auto simp: X_def)
    have to_X: "changes {(d, n)} (os_fs s2) G \<Longrightarrow> changes X ?F G" for G
      unfolding X using c2 by (rule changes_trans) auto
    consider (parent) "p \<noteq> PV_OK" "r = p" "s' = s1" | (mem) "\<not> m" "r = PV_ERR_SECURE_MEMORY" "s' = s2"
      | (long) b s4 c where "run_state (sys_close f) s3 = (b, s4)" "run_state (sys_path_unlink path) s4 = (c, s')" "r = PV_ERR_LIMIT"
      | (fill) "run_state (fill_recovery_file path f ?text) s3 = (r, s')"
      using run p m a Inr
      by (cases "run_state (sys_close f) s3"; cases "p = PV_OK"; cases m)
        (auto simp: pv_recovery_write_file_def if_ok_def Let_def split: if_splits prod.splits)
    then show ?thesis
    proof cases
      case long
      have "changes {(d, n)} (os_fs s2) (os_fs s4)" "path_entry (os_fs s4) path = Some (d, n)"
        using quiet_same [OF _ long(1)] draft own d(1) s2 path_entry_dirs [of "os_fs s3" ?F path]
        by (simp_all add: frame drafting_in_def own_file_def same_names_def)
      then show ?thesis using path_unlink_changes [OF long(2)] to_X long(3) by auto
    next
      case fill
      note spec = fill_recovery_file_spec [OF fill draft own, unfolded pe, OF d]
      have "written ?F d n ?text (os_euid s) s'" if "written (os_fs s2) d n ?text (os_euid s) s'"
        using that none s2 to_X X unfolding written_def same_names_def by auto
      with spec to_X d(1) show ?thesis by auto
    qed (use s1 s2 failed in auto)
  qed
  then show "changes X ?F (os_fs s')"
    "r = PV_OK \<Longrightarrow> \<exists>d n. path_entry ?F path = Some (d, n) \<and> written ?F d n ?text (os_euid s) s'" by auto
qed

section \<open>Reading back\<close>

abbreviation PV_RECOVERY_TEXT_MAX :: nat where "PV_RECOVERY_TEXT_MAX \<equiv> 128"

lemma recovery_text_line:
  assumes "sodium_ok S" and "length key = PV_RECOVERY_KEY_BYTES"
    and "pv_recovery_encode S mem ws hash_ok vault_id key encoded_len = Inr encoded"
  shows "line_prefix encoded" "0x0a \<notin> set encoded" "0x0d \<notin> set encoded"
proof -
  from assms(3) obtain checksum raw where c: "recovery_checksum S ws hash_ok vault_id key = Inr checksum"
    and raw: "base32_encode (key @ checksum) 80 = Some raw" and enc: "encoded = ascii ''PV1R-'' @ group_text raw"
    by (auto simp: pv_recovery_encode_def res_bind_Inr split: if_splits option.splits)
  note m = recovery_material [OF assms(1,2) c]
  obtain ds where ds: "raw = map ((!) crockford_alphabet) ds" "list_all (\<lambda>d. d < 32) ds"
    using base32_roundtrip [of "key @ checksum" 80, unfolded m(1)] raw(1) by auto
  have alphabet: "length crockford_alphabet = 32" "0x0a \<notin> set crockford_alphabet" "0x0d \<notin> set crockford_alphabet"
    by (simp_all add: crockford_alphabet_def ascii_def)
  then have "set raw \<subseteq> set crockford_alphabet" using ds by (auto simp: list_all_iff)
  then have "set (group_text raw) \<subseteq> insert 0x2d (set crockford_alphabet)"
    by (force simp: group_text_def ascii_def split: if_splits)
  with alphabet show "0x0a \<notin> set encoded" "0x0d \<notin> set encoded" by (auto simp: enc ascii_def)
  show "line_prefix encoded" by (simp add: enc line_prefix_def ascii_def toupper_def)
qed

lemma find_line_step:
  assumes "0x0a \<notin> set line"
  shows "find_line (line @ 0x0a # rest) encoded_len =
    (if line_prefix (chop_return line) then
       if length (chop_return line) \<ge> encoded_len then Inl PV_ERR_LIMIT else Inr (chop_return line)
     else find_line rest encoded_len)"
proof -
  have "takeWhile (\<lambda>c. c \<noteq> 0x0a) (line @ 0x0a # rest) = line"
    using assms by (subst takeWhile_append2) auto
  then show ?thesis by (simp add: find_line.simps [of "line @ 0x0a # rest"] Let_def)
qed

lemma find_recovery_line:
  assumes "line_prefix encoded" "0x0a \<notin> set encoded" "0x0d \<notin> set encoded" "length encoded < encoded_len"
  shows "find_line (recovery_file_text (concat (map hex_pair vault_id)) encoded) encoded_len = Inr encoded"
proof -
  let ?id = "concat (map hex_pair vault_id)"
  have "length hex_alphabet = 16" "0x0a \<notin> set hex_alphabet" by (simp_all add: hex_alphabet_def ascii_def)
  then have "0x0a \<notin> set (hex_pair b)" for b
    using nibble_range [of b] by (auto simp: hex_pair_def) (metis nth_mem)+
  then have id: "0x0a \<notin> set ?id" by auto
  have e: "chop_return encoded = encoded" using assms(3) by (metis chop_return_def last_in_set)
  have lines: "recovery_file_text ?id encoded = ascii ''PVault recovery key v1'' @ 0x0a # (ascii ''Vault: '' @ ?id) @ 0x0a #
      [] @ 0x0a # encoded @ 0x0a # [0x0a] @ ascii ''Keep this file offline and separate from the vault.'' @ [0x0a]"
    by (simp add: recovery_file_text_def)
  have other: "\<not> line_prefix (chop_return (ascii ''PVault recovery key v1''))" "\<not> line_prefix (chop_return (ascii ''Vault: '' @ ?id))"
    "\<not> line_prefix (chop_return [])"
    by (auto simp: line_prefix_def chop_return_def ascii_def toupper_def butlast_append)
  have no: "0x0a \<notin> set (ascii ''PVault recovery key v1'')" "0x0a \<notin> set (ascii ''Vault: '' @ ?id)"
    using id by (simp_all add: ascii_def)
  have "find_line (encoded @ 0x0a # rest) encoded_len = Inr encoded" for rest
    using find_line_step [OF assms(2)] assms(1,4) e by simp
  moreover have "find_line (0x0a # rest) encoded_len = find_line rest encoded_len" for rest
    using find_line_step [of "[]"] other(3) by simp
  ultimately show ?thesis
    unfolding lines find_line_step [OF no(1)] find_line_step [OF no(2)] using other(1,2) by simp
qed

lemma read_upto_spec:
  assumes "run_state (read_upto rounds f room used) s = (Inr bytes, s')" "length used \<le> room"
    "used = take (length used) (file_data s f)" "position s f = length used"
  shows "bytes = take room (file_data s f)"
  using assms
proof (induction rounds arbitrary: used s)
  case (Suc rounds)
  show ?case
  proof (cases "length used < room")
    case True
    obtain a s1 where a: "run_state (read_retry f (room - length used)) s = (a, s1)" by fastforce
    then obtain got where got: "a = Inr got" using Suc.prems(1) True by (cases a) auto
    obtain m where m: "m \<le> room - length used" "0 < m" "got = take m (drop (length used) (file_data s f))"
      and s1: "os_fs s1 = os_fs s" "position s1 f = length used + length got"
      using read_nointr_spec [OF a [unfolded got]] Suc.prems(4) True by auto
    show ?thesis
    proof (cases "got = []")
      case True
      with m have "length (file_data s f) \<le> length used" by simp
      moreover have "bytes = used" using Suc.prems(1) True a got \<open>length used < room\<close> by simp
      ultimately show ?thesis using Suc.prems(2,3) by (metis order.trans take_all)
    next
      case False
      have len: "length got \<le> room - length used" using m(1,3) by simp
      have "used @ got = take (length (used @ got)) (file_data s f)"
        using Suc.prems(3) m(3) take_add [of "length used" "length got" "file_data s f"] by (simp add: min_def split: if_splits)
      moreover from this have "length used + length got \<le> length (file_data s f)"
        by (metis length_append length_take min.cobounded1)
      ultimately show ?thesis
        using Suc.IH [of "used @ got" s1] Suc.prems(1) s1 a got \<open>length used < room\<close> False len by simp
    qed
  next
    case False
    then have "length used = room" "bytes = used" using Suc.prems by auto
    with Suc.prems(3) show ?thesis by simp
  qed
qed simp

lemma path_open_spec:
  assumes "run_state (sys_path_open path) s = (Inr f, s')" "path_entry (os_fs s) path = Some (d, n)" "entry (os_fs s) d n = Some i"
  shows "os_fs s' = os_fs s" "os_euid s' = os_euid s" "position s' f = 0" "fd_ino f = i"
  using assms(1) [unfolded sys_path_open_def] assms(2,3)
  by (cases rule: sys_cases; auto simp: new_fd_def split: if_splits)+

lemma pv_recovery_read_file_spec:
  assumes "run_state (pv_recovery_read_file path encoded_len) s = (Inr line, s')"
    and at: "path_entry (os_fs s) path = Some (d, n)" "entry (os_fs s) d n = Some i"
  shows "length (i_data (fs_inode (os_fs s) i)) \<le> PV_RECOVERY_FILE_MAX" "find_line (i_data (fs_inode (os_fs s) i)) encoded_len = Inr line"
proof -
  obtain m s1 where m: "run_state lib_ok s = (m, s1)" by fastforce
  obtain a s2 where a: "run_state (sys_path_open path) s1 = (a, s2)" by fastforce
  then obtain f where f: "a = Inr f" using assms(1) m by (cases a) (auto simp: pv_recovery_read_file_def split: if_splits)
  obtain b s3 where b: "run_state (sys_fstat f) s2 = (b, s3)" by fastforce
  let ?read = "io_bind (read_upto (PV_RECOVERY_FILE_MAX + 2) f (PV_RECOVERY_FILE_MAX + 1) []) (\<lambda>bytes.
     done_with (if length bytes > PV_RECOVERY_FILE_MAX then Inl PV_ERR_LIMIT else find_line bytes encoded_len))"
  obtain c s4 where c: "run_state ?read s3 = (c, s4)" by fastforce
  have "\<exists>st. b = Inr st \<and> st_kind st = Regular_file \<and> st_uid st = os_euid s3 \<and> st_nlink st = 1 \<and> st_mode st AND 0x3f = 0 \<and> c = Inr line"
    using assms(1) m a f b c
    by (cases b; cases c)
      (auto simp: pv_recovery_read_file_def geteuid_def run_bind_iff simp del: run_state_bind split: if_splits sum.splits)
  then obtain st where st: "b = Inr st" "st_kind st = Regular_file" "st_uid st = os_euid s3" "st_nlink st = 1"
    "st_mode st AND 0x3f = 0" "c = Inr line" by blast
  have s1: "os_fs s1 = os_fs s" "os_euid s1 = os_euid s"
    using quiet_same [OF _ m] keepsD [OF same_names_steps(2) [of "os_fs s" "os_euid s"] _ m] by (simp_all add: frame same_names_def)
  note op = path_open_spec [OF a [unfolded f], unfolded s1, OF at]
  note fs = sys_fstat_spec [OF b [unfolded st(1)]]
  obtain bytes s5 where r: "run_state (read_upto (PV_RECOVERY_FILE_MAX + 2) f (PV_RECOVERY_FILE_MAX + 1) []) s3 = (Inr bytes, s5)"
    and found: "length bytes \<le> PV_RECOVERY_FILE_MAX" "find_line bytes encoded_len = Inr line"
    using c unfolding st(6) by (rule io_bind_Inr) (simp split: if_splits)
  have "bytes = take (PV_RECOVERY_FILE_MAX + 1) (file_data s3 f)"
    by (rule read_upto_spec [OF r]) (simp_all add: fs(2) op(3))
  with found have "length (file_data s3 f) \<le> PV_RECOVERY_FILE_MAX" "bytes = file_data s3 f" by auto
  with found(2) fs(1) op(1,4) s1(1)
  show "length (i_data (fs_inode (os_fs s) i)) \<le> PV_RECOVERY_FILE_MAX" "find_line (i_data (fs_inode (os_fs s) i)) encoded_len = Inr line"
    by simp_all
qed

lemma calm_read_some:
  assumes "calm_system s" "n > 0"
  shows "run_state (read_retry f n) s = (Inr (take n (drop (position s f) (file_data s f))),
     s\<lparr>os_pos := (os_pos s)(fd_id f := position s f + length (take n (drop (position s f) (file_data s f))))\<rparr>)"
proof -
  have "run_state (sys_read f n) s = (Inr (take n (drop (position s f) (file_data s f))),
     s\<lparr>os_pos := (os_pos s)(fd_id f := position s f + length (take n (drop (position s f) (file_data s f))))\<rparr>)"
    by (simp add: sys_read_def calm_sys [OF assms(1)] Let_def)
  then show ?thesis by (simp add: read_retry_def read_nointr_loop.simps [of f n s])
qed

lemma calm_read_upto:
  assumes "calm_system s" "length (file_data s f) < room" "position s f = 0" "file_data s f \<noteq> []"
  shows "\<exists>s'. run_state (read_upto (Suc (Suc k)) f room []) s = (Inr (file_data s f), s') \<and> calm_system s'"
proof -
  let ?s1 = "s\<lparr>os_pos := (os_pos s)(fd_id f := length (file_data s f))\<rparr>"
  have r1: "run_state (read_retry f room) s = (Inr (file_data s f), ?s1)"
    using calm_read_some [OF assms(1), of room f] assms(2,3) by simp
  have "run_state (read_retry f (room - length (file_data s f))) ?s1 = (Inr [], ?s1)"
    using calm_read_some [of ?s1 "room - length (file_data s f)" f] assms(1,2) by (simp add: calm_system_def)
  with r1 assms show ?thesis by (simp add: calm_system_def)
qed

lemma calm_recovery_read:
  assumes calm: "calm_system s" and at: "path_entry (os_fs s) path = Some (d, n)" "entry (os_fs s) d n = Some i"
    and own: "own_file dirs (os_euid s) i s" and len: "length (i_data (fs_inode (os_fs s) i)) \<le> PV_RECOVERY_FILE_MAX"
    and found: "find_line (i_data (fs_inode (os_fs s) i)) encoded_len = Inr line" "encoded_len > 0"
  shows "fst (run_state (pv_recovery_read_file path encoded_len) s) = Inr line"
proof -
  let ?f = "\<lparr>fd_id = os_fd_next s, fd_ino = i\<rparr>" and ?x = "i_data (fs_inode (os_fs s) i)"
  let ?s1 = "s\<lparr>os_pos := (os_pos s)(os_fd_next s := 0), os_fd_next := os_fd_next s + 1\<rparr>"
  have o: "run_state (sys_path_open path) s = (Inr ?f, ?s1)"
    using at own by (simp add: sys_path_open_def calm_sys [OF calm] own_file_def new_fd_def)
  have st: "run_state (sys_fstat ?f) ?s1 = (Inr (stat_of (os_fs s) i), ?s1)"
    using calm by (simp add: sys_fstat_def calm_sys)
  have "?x \<noteq> []" using found(1) by (auto simp: find_line.simps [of "[]"])
  then have "\<exists>s2. run_state (read_upto (Suc (Suc PV_RECOVERY_FILE_MAX)) ?f (PV_RECOVERY_FILE_MAX + 1) []) ?s1 = (Inr ?x, s2) \<and> calm_system s2"
    using calm_read_upto [of ?s1 ?f "PV_RECOVERY_FILE_MAX + 1" PV_RECOVERY_FILE_MAX] calm len by (simp add: calm_system_def)
  then obtain s2 where r: "run_state (read_upto (PV_RECOVERY_FILE_MAX + 2) ?f (PV_RECOVERY_FILE_MAX + 1) []) ?s1 = (Inr ?x, s2)" "calm_system s2"
    by (auto simp del: read_upto.simps simp: numeral_eq_Suc)
  show ?thesis
    using o st r own len found calm
    by (simp add: pv_recovery_read_file_def calm_library io_bind_def geteuid_def own_file_def stat_of_def Let_def calm_close)
qed

text \<open>Where no call fails, a name that is free in a private directory is written.\<close>

lemma calm_private_parent:
  assumes "calm_system s" "map_of (fs_dirs (os_fs s)) (dirname path) = Some d" "private_directory_at s d" "length path < PATH_MAX"
  shows "\<exists>s'. run_state (fsync_private_parent path) s = (PV_OK, s') \<and> calm_system s' \<and> os_fs s' = fs_sync d (os_fs s) \<and>
    os_euid s' = os_euid s"
proof -
  let ?f = "\<lparr>fd_id = os_fd_next s, fd_ino = d\<rparr>"
  let ?s1 = "s\<lparr>os_pos := (os_pos s)(os_fd_next s := 0), os_fd_next := os_fd_next s + 1\<rparr>"
  have "run_state (sys_open_dir (dirname path)) s = (Inr ?f, ?s1)" "run_state (sys_fstat ?f) ?s1 = (Inr (stat_of (os_fs s) d), ?s1)"
    "run_state (sys_fsync ?f) ?s1 = (Inr (), on_fs (fs_sync d) ?s1)"
    using assms by (simp_all add: sys_open_dir_def sys_fstat_def sys_fsync_def calm_sys new_fd_def)
  moreover have "calm_system (on_fs (fs_sync d) ?s1)" using assms(1) by (simp add: calm_system_def)
  ultimately show ?thesis
    using assms(3,4) unfolding private_directory_at_def
    by (simp add: fsync_private_parent_def geteuid_def stat_of_def Let_def sync_status_def calm_close)
qed

lemma calm_write_all:
  assumes "calm_system s" "bytes \<noteq> []"
  shows "run_state (write_all f bytes) s = (PV_OK, on_fs (fs_change (fd_ino f) (append_data bytes)) s)"
proof -
  have "run_state (sys_write f bytes) s = (Inr (length bytes), on_fs (fs_change (fd_ino f) (append_data bytes)) s)"
    by (simp add: sys_write_def calm_sys [OF assms(1)])
  then show ?thesis
    using assms(2) by (simp add: write_all_def write_loop.simps [of f bytes s] write_loop.simps [of f "[]"])
qed

lemma calm_sync: "calm_system s \<Longrightarrow> run_state (sync_status f) s = (PV_OK, on_fs (fs_sync (fd_ino f)) s)"
  by (simp add: sync_status_def sys_fsync_def calm_sys)

lemma calm_recovery_write:
  assumes calm: "calm_system s" and at: "path_entry (os_fs s) path = Some (d, n)" "entry (os_fs s) d n = None"
    and dir: "private_directory_at s d" "length path < PATH_MAX" "fs_ok (os_fs s)"
    and len: "length (recovery_file_text (concat (map hex_pair vault_id)) encoded) < 512"
  shows "fst (run_state (pv_recovery_write_file path encoded vault_id) s) = PV_OK"
proof -
  let ?bytes = "recovery_file_text (concat (map hex_pair vault_id)) encoded"
  have d: "map_of (fs_dirs (os_fs s)) (dirname path) = Some d" "d < fs_next (os_fs s)"
    using at(1) path_entry_bound [OF at(1) dir(3)] by (auto simp: path_entry_def split: if_splits)
  obtain s1 where s1: "run_state (fsync_private_parent path) s = (PV_OK, s1)" "calm_system s1" "os_fs s1 = fs_sync d (os_fs s)"
    "os_euid s1 = os_euid s" using calm_private_parent [OF calm d(1) dir(1,2)] by blast
  let ?f = "\<lparr>fd_id = os_fd_next s1, fd_ino = fs_next (os_fs s1)\<rparr>"
  let ?s0 = "create_file d n Regular_file 0x180 s1"
  let ?s2 = "?s0\<lparr>os_pos := (os_pos ?s0)(os_fd_next s1 := 0), os_fd_next := os_fd_next s1 + 1\<rparr>"
  have c: "run_state (sys_path_create path 0x180) s1 = (Inr ?f, ?s2)"
    using at path_entry_dirs [of "os_fs s1" "os_fs s" path]
    by (simp add: sys_path_create_def calm_sys [OF s1(2)] s1(3) new_fd_def create_file_def)
  let ?s3 = "on_fs (fs_change (fs_next (os_fs s1)) (append_data ?bytes)) ?s2"
  have calm2: "calm_system ?s2" "calm_system ?s3" using s1(2) by (simp_all add: calm_system_def create_file_def)
  have w: "run_state (write_all ?f ?bytes) ?s2 = (PV_OK, ?s3)"
    using calm_write_all [OF calm2(1), of ?bytes ?f] by (simp add: recovery_file_text_def)
  let ?s4 = "on_fs (fs_sync (fs_next (os_fs s1))) ?s3"
  have y: "run_state (sync_status ?f) ?s3 = (PV_OK, ?s4)"
    using calm_sync [OF calm2(2), of ?f] by simp
  have calm4: "calm_system ?s4" using calm2(2) by (simp add: calm_system_def)
  have ne: "fs_next (os_fs s1) \<noteq> d" using d(2) s1(3) by (simp add: fs_sync_def split: if_splits)
  have "private_directory_at ?s4 d" "map_of (fs_dirs (os_fs ?s4)) (dirname path) = Some d"
    using dir(1) d(1) s1(3,4) ne
    by (auto simp: private_directory_at_def create_file_def fs_sync_def created_def append_data_def)
  then obtain s5 where "run_state (fsync_private_parent path) ?s4 = (PV_OK, s5)"
    using calm_private_parent [OF calm4 _ _ dir(2)] by blast
  then show ?thesis
    using s1 c w y len calm4
    by (simp add: pv_recovery_write_file_def fill_recovery_file_def if_ok_def calm_library calm_close Let_def)
qed
text \<open>
  C15. A recovery key on a file. Whatever calls fail, writing the file changes nothing but the name it
  was to create, and not that if the name existed. If it returns \<^verbatim>\<open>PV_OK\<close> the name was free,
  and it is now a private file that survives a power loss; it does so for a free name in a private directory
  where no call fails. Whoever reads it later with
  \<^verbatim>\<open>pv_recovery_read_file\<close> gets a line that decodes, for this vault, to exactly the key, and
  reading does succeed where no call fails.
\<close>

theorem pv_recovery_file_roundtrip:
  assumes "sodium_ok S" and "length key = PV_RECOVERY_KEY_BYTES" and "length vault_id = PV_VAULT_ID_BYTES"
    and "pv_recovery_encode S mem ws hash_ok vault_id key PV_RECOVERY_TEXT_MAX = Inr encoded"
    and "run_state (pv_recovery_write_file path encoded vault_id) s = (r, s')" and "fs_ok (os_fs s)"
  shows "changes {e. path_entry (os_fs s) path = Some e \<and> entry (os_fs s) (fst e) (snd e) = None} (os_fs s) (os_fs s') \<and>
    (\<forall>d n. calm_system s \<and> path_entry (os_fs s) path = Some (d, n) \<and> entry (os_fs s) d n = None \<and>
       private_directory_at s d \<and> length path < PATH_MAX \<longrightarrow> r = PV_OK) \<and>
    (r = PV_OK \<longrightarrow> (\<exists>d n. path_entry (os_fs s) path = Some (d, n) \<and> entry (os_fs s) d n = None \<and>
       outcomes (os_fs s') d n = {Some (recovery_file_text (concat (map hex_pair vault_id)) encoded)}) \<and>
     (\<forall>t. os_fs t = os_fs s' \<and> os_euid t = os_euid s \<longrightarrow>
        (case fst (run_state (pv_recovery_read_file path PV_RECOVERY_TEXT_MAX) t) of
           Inr line \<Rightarrow> pv_recovery_decode S True True True line vault_id = Inr key
         | Inl e \<Rightarrow> \<not> calm_system t)))"
proof -
  let ?text = "recovery_file_text (concat (map hex_pair vault_id)) encoded"
  note dec = recovery_text_decodes [OF assms(1,2,4)]
  note found = find_recovery_line [OF recovery_text_line [OF assms(1,2,4)], of PV_RECOVERY_TEXT_MAX vault_id]
  have len: "length ?text < 512"
    using dec assms(3) length_hex [of vault_id] by (simp add: recovery_file_text_def ascii_def)
  note spec = pv_recovery_write_file_spec [OF assms(5,6)]
  have "(\<exists>d n. path_entry (os_fs s) path = Some (d, n) \<and> entry (os_fs s) d n = None \<and> outcomes (os_fs s') d n = {Some ?text}) \<and>
     (\<forall>t. os_fs t = os_fs s' \<and> os_euid t = os_euid s \<longrightarrow>
        (case fst (run_state (pv_recovery_read_file path PV_RECOVERY_TEXT_MAX) t) of
           Inr line \<Rightarrow> pv_recovery_decode S True True True line vault_id = Inr key | Inl e \<Rightarrow> \<not> calm_system t))" if ok: "r = PV_OK"
  proof -
    obtain d n i where d: "path_entry (os_fs s) path = Some (d, n)" "entry (os_fs s) d n = None" "fs_past (os_fs s') d n = []"
      and i: "entry (os_fs s') d n = Some i" "own_file (fs_dirs (os_fs s)) (os_euid s) i s'" "i_data (fs_inode (os_fs s') i) = ?text"
        "i_synced (fs_inode (os_fs s') i)"
      using spec(2) [OF ok] by (auto simp: written_def)
    have pe: "path_entry (os_fs s') path = Some (d, n)"
      using d(1) i(2) path_entry_dirs [of "os_fs s'" "os_fs s" path] by (simp add: own_file_def)
    have "case fst (run_state (pv_recovery_read_file path PV_RECOVERY_TEXT_MAX) t) of
        Inr line \<Rightarrow> pv_recovery_decode S True True True line vault_id = Inr key | Inl e \<Rightarrow> \<not> calm_system t"
      if t: "os_fs t = os_fs s'" "os_euid t = os_euid s" for t
    proof -
      obtain x t' where x: "run_state (pv_recovery_read_file path PV_RECOVERY_TEXT_MAX) t = (x, t')" by fastforce
      show ?thesis
      proof (cases x)
        case (Inl e)
        have "own_file (fs_dirs (os_fs s)) (os_euid t) i t" using i(2) t by (simp add: own_file_def)
        then have "calm_system t \<Longrightarrow> x = Inr encoded"
          using calm_recovery_read [of t path d n i "fs_dirs (os_fs s)" PV_RECOVERY_TEXT_MAX encoded] pe i(1,3) t len found dec x by simp
        with Inl x show ?thesis by auto
      next
        case (Inr line)
        with pv_recovery_read_file_spec(2) [of path _ t line t' d n i] x pe i(1,3) t found dec show ?thesis by simp
      qed
    qed
    with d i show ?thesis by (auto simp: outcomes_def file_states_def)
  qed
  moreover have "r = PV_OK" if "calm_system s" "path_entry (os_fs s) path = Some (d, n)" "entry (os_fs s) d n = None"
    "private_directory_at s d" "length path < PATH_MAX" for d n
    using calm_recovery_write [OF that assms(6) len] assms(5) by simp
  ultimately show ?thesis using spec(1) by blast
qed

theorem pv_recovery_file_roundtrip_witness:
  "\<exists>encoded. pv_recovery_encode demo_sodium True True True (replicate 16 1) (replicate 32 2) 128 = Inr encoded \<and>
     fst (run_state (pv_recovery_write_file (ascii ''/d/r'') encoded (replicate 16 1)) (demo_os [] [9])) = PV_OK"
proof -
  obtain encoded where enc: "pv_recovery_encode demo_sodium True True True (replicate 16 1) (replicate 32 2) 128 = Inr encoded"
    by (rule demo_recovery_text)
  let ?s = "demo_os [] [9]"
  obtain r s' where run: "run_state (pv_recovery_write_file (ascii ''/d/r'') encoded (replicate 16 1)) ?s = (r, s')" by fastforce
  have "fs_ok (os_fs ?s)" by (simp add: demo_fs_ok)
  moreover have "path_entry (os_fs ?s) (ascii ''/d/r'') = Some (0, ascii ''r'')" "entry (os_fs ?s) 0 (ascii ''r'') = None"
    by code_simp+
  moreover have "calm_system ?s" "private_directory_at ?s 0" "length (ascii ''/d/r'') < PATH_MAX"
    by (simp_all add: calm_system_def private_directory_at_def demo_os_def demo_fs_def demo_inode_def ascii_def)
  ultimately have "r = PV_OK"
    using pv_recovery_file_roundtrip [OF demo_sodium_ok _ _ enc run] by simp
  with enc run show ?thesis by auto
qed

end
