(* ===== verification/Pv_Config.thy ===== *)
theory Pv_Config
  imports Pv_Model Pv_Posix
begin

text \<open>
  The configuration file (\<^verbatim>\<open>src/config.c\<close>): its location, the checks on the file and its
  directory, and the parser of \<^verbatim>\<open>key=value\<close> lines. The environment and the answers of the
  kernel are arguments; the text of the file has no NUL bytes once it has been read, so a line of it
  is a C string.
\<close>

record pv_config =
  vault_path :: "byte list"
  clipboard_ttl :: u32
  session_ttl :: u32
  backup_retention :: u32
  picker_rofi :: bool

abbreviation PV_CONFIG_MAX_BYTES :: nat where "PV_CONFIG_MAX_BYTES \<equiv> 64 * 1024"
abbreviation PV_CONFIG_MAX_LINE :: nat where "PV_CONFIG_MAX_LINE \<equiv> PATH_MAX + 128"

section \<open>Locations\<close>

abbreviation slash :: byte where "slash \<equiv> 0x2f"

definition absolute :: "byte list \<Rightarrow> bool" where
  "absolute path \<longleftrightarrow> path \<noteq> [] \<and> hd path = slash"

definition xdg_path ::
  "(byte list \<Rightarrow> byte list option) \<Rightarrow> nat \<Rightarrow> byte list \<Rightarrow> byte list \<Rightarrow> byte list pv_result" where
  "xdg_path getenv out_len env_name name =
     (let finish = (\<lambda>written. if length written \<ge> out_len then Inl PV_ERR_LIMIT else Inr written);
          from_home =
            (case getenv (ascii ''HOME'') of
               None \<Rightarrow> Inl PV_ERR_STATE
             | Some home \<Rightarrow>
                 if \<not> absolute home then Inl PV_ERR_STATE
                 else if env_name = ascii ''XDG_DATA_HOME'' then finish (home @ ascii ''/.local/share/'' @ name)
                 else finish (home @ ascii ''/.config/'' @ name))
      in case getenv env_name of
           None \<Rightarrow> from_home
         | Some base \<Rightarrow> if absolute base then finish (base @ ascii ''/'' @ name) else from_home)"

definition pv_config_defaults :: "(byte list \<Rightarrow> byte list option) \<Rightarrow> pv_config pv_result" where
  "pv_config_defaults getenv =
     res_bind (xdg_path getenv PATH_MAX (ascii ''XDG_DATA_HOME'') (ascii ''pvault/vault.pvlt'')) (\<lambda>path.
     Inr \<lparr>vault_path = path, clipboard_ttl = 10, session_ttl = 300, backup_retention = 20, picker_rofi = False\<rparr>)"

section \<open>Lines\<close>

definition ascii_space :: "byte \<Rightarrow> bool" where
  "ascii_space c \<longleftrightarrow> c = 0x20 \<or> c = 0x09 \<or> c = 0x0a \<or> c = 0x0d \<or> c = 0x0c \<or> c = 0x0b"

definition trim :: "byte list \<Rightarrow> byte list" where
  "trim text = rev (dropWhile ascii_space (rev (dropWhile ascii_space text)))"

text \<open>
  \<^verbatim>\<open>strtoul\<close> in base 10 for a 64-bit \<^verbatim>\<open>unsigned long\<close>: white space, an optional sign and
  digits. The result is the value, the rest of the text and whether the value was out of range; a
  negative number is negated in the unsigned type. Without digits nothing is consumed.
\<close>

definition is_digit :: "byte \<Rightarrow> bool" where
  "is_digit c \<longleftrightarrow> 0x30 \<le> c \<and> c \<le> 0x39"

definition digits_value :: "byte list \<Rightarrow> nat" where
  "digits_value ds = foldl (\<lambda>n d. n * 10 + unat (d - 0x30)) 0 ds"

definition strtoul :: "byte list \<Rightarrow> u64 \<times> byte list \<times> bool" where
  "strtoul text =
     (let body = dropWhile ascii_space text;
          negative = body \<noteq> [] \<and> hd body = 0x2d;
          signed = body \<noteq> [] \<and> (hd body = 0x2d \<or> hd body = 0x2b);
          unsigned_text = (if signed then tl body else body);
          ds = takeWhile is_digit unsigned_text;
          n = digits_value ds
      in if ds = [] then (0, text, False)
         else if n \<ge> 2 ^ 64 then (- 1, dropWhile is_digit unsigned_text, True)
         else (if negative then - word_of_nat n else word_of_nat n, dropWhile is_digit unsigned_text, False))"

definition parse_unsigned :: "byte list \<Rightarrow> u32 \<Rightarrow> u32 \<Rightarrow> u32 pv_result" where
  "parse_unsigned text lo hi =
     (case strtoul text of
        (parsed, rest, out_of_range) \<Rightarrow>
          if out_of_range \<or> rest = text \<or> rest \<noteq> [] \<or> parsed < ucast lo \<or> parsed > ucast hi
          then Inl PV_ERR_FORMAT
          else Inr (ucast parsed))"

definition mark_key :: "u32 \<Rightarrow> u32 \<Rightarrow> u32 pv_result" where
  "mark_key seen key = (if seen AND key \<noteq> 0 then Inl PV_ERR_FORMAT else Inr (seen OR key))"

abbreviation PV_CONFIG_KEY_VAULT_PATH :: u32 where "PV_CONFIG_KEY_VAULT_PATH \<equiv> 1"
abbreviation PV_CONFIG_KEY_CLIPBOARD_TTL :: u32 where "PV_CONFIG_KEY_CLIPBOARD_TTL \<equiv> 2"
abbreviation PV_CONFIG_KEY_SESSION_TTL :: u32 where "PV_CONFIG_KEY_SESSION_TTL \<equiv> 4"
abbreviation PV_CONFIG_KEY_BACKUP_RETENTION :: u32 where "PV_CONFIG_KEY_BACKUP_RETENTION \<equiv> 8"
abbreviation PV_CONFIG_KEY_PICKER :: u32 where "PV_CONFIG_KEY_PICKER \<equiv> 16"

text \<open>A line changes the configuration and the set of keys seen; on an error the caller drops both.\<close>

definition parse_config_line :: "pv_config \<Rightarrow> byte list \<Rightarrow> u32 \<Rightarrow> (pv_config \<times> u32) pv_result" where
  "parse_config_line config line seen =
     (let text = trim line
      in if text = [] \<or> hd text = 0x23 then Inr (config, seen)
         else if 0x3d \<notin> set text then Inl PV_ERR_FORMAT
         else
           (let key = trim (takeWhile (\<lambda>c. c \<noteq> 0x3d) text);
                value_text = trim (tl (dropWhile (\<lambda>c. c \<noteq> 0x3d) text))
            in if key = ascii ''vault_path'' then
                 res_bind (mark_key seen PV_CONFIG_KEY_VAULT_PATH) (\<lambda>seen1.
                   if \<not> absolute value_text \<or> length value_text \<ge> PATH_MAX then Inl PV_ERR_FORMAT
                   else Inr (config\<lparr>vault_path := value_text\<rparr>, seen1))
               else if key = ascii ''clipboard_ttl_seconds'' then
                 res_bind (mark_key seen PV_CONFIG_KEY_CLIPBOARD_TTL) (\<lambda>seen1.
                 res_bind (parse_unsigned value_text 1 300) (\<lambda>n. Inr (config\<lparr>clipboard_ttl := n\<rparr>, seen1)))
               else if key = ascii ''session_idle_seconds'' then
                 res_bind (mark_key seen PV_CONFIG_KEY_SESSION_TTL) (\<lambda>seen1.
                 res_bind (parse_unsigned value_text 30 86400) (\<lambda>n. Inr (config\<lparr>session_ttl := n\<rparr>, seen1)))
               else if key = ascii ''backup_retention'' then
                 res_bind (mark_key seen PV_CONFIG_KEY_BACKUP_RETENTION) (\<lambda>seen1.
                 res_bind (parse_unsigned value_text 1 1000) (\<lambda>n. Inr (config\<lparr>backup_retention := n\<rparr>, seen1)))
               else if key = ascii ''picker'' then
                 res_bind (mark_key seen PV_CONFIG_KEY_PICKER) (\<lambda>seen1.
                   if value_text = ascii ''internal'' then Inr (config\<lparr>picker_rofi := False\<rparr>, seen1)
                   else if value_text = ascii ''rofi'' then Inr (config\<lparr>picker_rofi := True\<rparr>, seen1)
                   else Inl PV_ERR_FORMAT)
               else Inl PV_ERR_FORMAT))"

function parse_lines :: "pv_config \<Rightarrow> u32 \<Rightarrow> byte list \<Rightarrow> pv_config pv_result" where
  "parse_lines config seen content =
     (if content = [] then Inr config
      else
        (let line = takeWhile (\<lambda>c. c \<noteq> 0x0a) content
         in if length line > PV_CONFIG_MAX_LINE then Inl PV_ERR_LIMIT
            else case parse_config_line config line seen of
              Inl e \<Rightarrow> Inl e
            | Inr (config1, seen1) \<Rightarrow> parse_lines config1 seen1 (drop (length line + 1) content)))"
  by pat_completeness auto
termination
  by (relation "measure (\<lambda>(config, seen, content). length content)") auto

declare parse_lines.simps [simp del]

definition parse_config :: "pv_config \<Rightarrow> byte list \<Rightarrow> pv_config pv_result" where
  "parse_config config content = parse_lines config 0 content"

section \<open>The file\<close>

text \<open>
  The kernel's side of loading: opening a directory and a file in it gives an error or what
  \<^verbatim>\<open>fstat\<close> then says (\<open>None\<close> if that call fails); the answers of \<^verbatim>\<open>read\<close> in
  order, the end of the file after the last one; the second \<^verbatim>\<open>fstat\<close>; whether
  \<^verbatim>\<open>malloc\<close> and the two \<^verbatim>\<open>close\<close> calls succeed.
\<close>

record config_kernel =
  k_euid :: nat
  k_open_dir :: "byte list \<Rightarrow> errno + stat option"
  k_open_file :: "byte list \<Rightarrow> byte list \<Rightarrow> errno + stat option"
  k_reads :: "read_answer list"
  k_final :: "stat option"
  k_malloc :: bool
  k_close_dir :: bool
  k_close_file :: bool

definition validate_config_parent :: "config_kernel \<Rightarrow> stat option \<Rightarrow> unit pv_result" where
  "validate_config_parent k info =
     (case info of
        None \<Rightarrow> Inl PV_ERR_IO
      | Some st \<Rightarrow>
          if st_kind st \<noteq> Directory \<or> st_uid st \<noteq> k_euid k \<or> st_mode st AND 0x12 \<noteq> 0 then Inl PV_ERR_IO
          else Inr ())"

definition validate_config_file :: "config_kernel \<Rightarrow> stat option \<Rightarrow> stat pv_result" where
  "validate_config_file k info =
     (case info of
        None \<Rightarrow> Inl PV_ERR_IO
      | Some st \<Rightarrow>
          if st_kind st \<noteq> Regular_file \<or> st_uid st \<noteq> k_euid k \<or> st_nlink st \<noteq> 1 \<or>
             (perm_bits st \<noteq> 0x100 \<and> perm_bits st \<noteq> 0x180) then Inl PV_ERR_IO
          else if st_size st < 0 \<or> st_size st > int PV_CONFIG_MAX_BYTES then Inl PV_ERR_LIMIT
          else Inr st)"

text \<open>The result is what \<^verbatim>\<open>fstat\<close> said of the open file, or \<open>None\<close> if there is no file.\<close>

definition open_config_file :: "config_kernel \<Rightarrow> byte list \<Rightarrow> stat option pv_result" where
  "open_config_file k path =
     (let name = rev (takeWhile (\<lambda>c. c \<noteq> slash) (rev path));
          directory_len = length path - length name - 1;
          directory = (if directory_len = 0 then [slash] else take directory_len path)
      in if slash \<notin> set path \<or> name = [] then Inl PV_ERR_STATE
         else if length directory \<ge> PATH_MAX then Inl PV_ERR_LIMIT
         else case k_open_dir k directory of
           Inl e \<Rightarrow> if e = ENOENT then Inr None else Inl PV_ERR_IO
         | Inr directory_info \<Rightarrow>
             res_bind (validate_config_parent k directory_info) (\<lambda>_.
               case k_open_file k directory name of
                 Inl e \<Rightarrow> if e = ENOENT then Inr None else Inl PV_ERR_IO
               | Inr info \<Rightarrow>
                   res_bind (validate_config_file k info) (\<lambda>st.
                     if \<not> k_close_dir k then Inl PV_ERR_IO else Inr (Some st))))"

fun config_read_loop :: "read_answer list \<Rightarrow> byte list \<Rightarrow> (byte list \<times> read_answer list) pv_result" where
  "config_read_loop [] content = Inr (content, [])"
| "config_read_loop (answer # rest) content =
     (if length content \<ge> PV_CONFIG_MAX_BYTES then Inr (content, answer # rest)
      else case answer of
        Got bytes \<Rightarrow>
          if bytes = [] then Inr (content, rest)
          else config_read_loop rest (content @ take (PV_CONFIG_MAX_BYTES - length content) bytes)
      | Read_failed e \<Rightarrow> if e = EINTR then config_read_loop rest content else Inl PV_ERR_IO)"

fun config_read_extra :: "read_answer list \<Rightarrow> unit pv_result" where
  "config_read_extra [] = Inr ()"
| "config_read_extra (Got bytes # rest) = (if bytes = [] then Inr () else Inl PV_ERR_LIMIT)"
| "config_read_extra (Read_failed e # rest) = (if e = EINTR then config_read_extra rest else Inl PV_ERR_IO)"

definition read_config_file :: "config_kernel \<Rightarrow> stat \<Rightarrow> byte list pv_result" where
  "read_config_file k initial =
     (if \<not> k_malloc k then Inl PV_ERR_NOMEM
      else
        res_bind (config_read_loop (k_reads k) []) (\<lambda>(content, rest).
        res_bind (if length content = PV_CONFIG_MAX_BYTES then config_read_extra rest else Inr ()) (\<lambda>_.
          case k_final k of
            None \<Rightarrow> Inl PV_ERR_IO
          | Some final \<Rightarrow>
              if st_dev final \<noteq> st_dev initial \<or> st_ino final \<noteq> st_ino initial \<or> st_uid final \<noteq> st_uid initial \<or>
                 st_nlink final \<noteq> st_nlink initial \<or> perm_bits final \<noteq> perm_bits initial \<or>
                 st_size final < 0 \<or> st_size final \<noteq> st_size initial \<or> st_size final \<noteq> int (length content) \<or>
                 st_mtim final \<noteq> st_mtim initial \<or> st_ctim final \<noteq> st_ctim initial
              then Inl PV_ERR_IO
              else if 0 \<in> set content then Inl PV_ERR_FORMAT
              else Inr content)))"

definition pv_config_load :: "config_kernel \<Rightarrow> (byte list \<Rightarrow> byte list option) \<Rightarrow> pv_config pv_result" where
  "pv_config_load k getenv =
     res_bind (pv_config_defaults getenv) (\<lambda>candidate.
     res_bind (xdg_path getenv PATH_MAX (ascii ''XDG_CONFIG_HOME'') (ascii ''pvault/config'')) (\<lambda>path.
     res_bind (open_config_file k path) (\<lambda>present.
       case present of
         None \<Rightarrow> Inr candidate
       | Some st \<Rightarrow>
           res_bind (read_config_file k st) (\<lambda>content.
           if \<not> k_close_file k then Inl PV_ERR_IO else parse_config candidate content))))"

section \<open>What the parser accepts\<close>

text \<open>
  The abstract view: a file is a list of lines; a line that is not blank and no comment is an entry,
  a key and a value; an entry gives one of five settings a value.
\<close>

function lines_of :: "byte list \<Rightarrow> byte list list" where
  "lines_of content =
     (if content = [] then []
      else takeWhile (\<lambda>c. c \<noteq> 0x0a) content # lines_of (drop (length (takeWhile (\<lambda>c. c \<noteq> 0x0a) content) + 1) content))"
  by pat_completeness auto
termination
  by (relation "measure length") auto

declare lines_of.simps [simp del]

definition entry_of :: "byte list \<Rightarrow> (byte list \<times> byte list) option" where
  "entry_of line =
     (let t = trim line
      in if t = [] \<or> hd t = 0x23 then None
         else Some (trim (takeWhile (\<lambda>c. c \<noteq> 0x3d) t), trim (tl (dropWhile (\<lambda>c. c \<noteq> 0x3d) t))))"

definition line_shape :: "byte list \<Rightarrow> bool" where
  "line_shape line \<longleftrightarrow> length line \<le> PV_CONFIG_MAX_LINE \<and> (entry_of line = None \<or> 0x3d \<in> set (trim line))"

definition entries :: "byte list \<Rightarrow> (byte list \<times> byte list) list" where
  "entries content = List.map_filter entry_of (lines_of content)"

datatype config_setting = Vault_path | Clipboard_ttl | Session_ttl | Backup_retention | Picker

fun setting_key :: "config_setting \<Rightarrow> byte list" where
  "setting_key Vault_path = ascii ''vault_path''"
| "setting_key Clipboard_ttl = ascii ''clipboard_ttl_seconds''"
| "setting_key Session_ttl = ascii ''session_idle_seconds''"
| "setting_key Backup_retention = ascii ''backup_retention''"
| "setting_key Picker = ascii ''picker''"

datatype setting_value = Path "byte list" | Number u32 | Rofi bool

fun read_number :: "u32 pv_result \<Rightarrow> setting_value option" where
  "read_number (Inl e) = None"
| "read_number (Inr n) = Some (Number n)"

fun read_setting :: "config_setting \<Rightarrow> byte list \<Rightarrow> setting_value option" where
  "read_setting Vault_path v = (if absolute v \<and> length v < PATH_MAX then Some (Path v) else None)"
| "read_setting Clipboard_ttl v = read_number (parse_unsigned v 1 300)"
| "read_setting Session_ttl v = read_number (parse_unsigned v 30 86400)"
| "read_setting Backup_retention v = read_number (parse_unsigned v 1 1000)"
| "read_setting Picker v =
     (if v = ascii ''internal'' then Some (Rofi False) else if v = ascii ''rofi'' then Some (Rofi True) else None)"

fun setting :: "config_setting \<Rightarrow> pv_config \<Rightarrow> setting_value" where
  "setting Vault_path c = Path (vault_path c)"
| "setting Clipboard_ttl c = Number (clipboard_ttl c)"
| "setting Session_ttl c = Number (session_ttl c)"
| "setting Backup_retention c = Number (backup_retention c)"
| "setting Picker c = Rofi (picker_rofi c)"

fun key_bit :: "config_setting \<Rightarrow> u32" where
  "key_bit Vault_path = PV_CONFIG_KEY_VAULT_PATH"
| "key_bit Clipboard_ttl = PV_CONFIG_KEY_CLIPBOARD_TTL"
| "key_bit Session_ttl = PV_CONFIG_KEY_SESSION_TTL"
| "key_bit Backup_retention = PV_CONFIG_KEY_BACKUP_RETENTION"
| "key_bit Picker = PV_CONFIG_KEY_PICKER"

lemma setting_ext:
  assumes "\<And>s. setting s c = setting s c'"
  shows "c = (c' :: pv_config)"
  using assms [of Vault_path] assms [of Clipboard_ttl] assms [of Session_ttl] assms [of Backup_retention] assms [of Picker]
  by simp

lemma setting_key_inject: "setting_key s = setting_key s' \<longleftrightarrow> s = s'"
  by (cases s; cases s') (simp_all add: ascii_def)

lemma key_bit_or: "(seen OR key_bit s) AND key_bit s' \<noteq> 0 \<longleftrightarrow> s' = s \<or> seen AND key_bit s' \<noteq> 0"
proof -
  have "key_bit s AND key_bit s' = (if s = s' then key_bit s else 0)" by (cases s; cases s') simp_all
  moreover have "key_bit s \<noteq> 0" by (cases s) simp_all
  moreover have "(seen OR key_bit s) AND key_bit s' = seen AND key_bit s' OR (key_bit s AND key_bit s')"
    by (rule bit.conj_disj_distrib2)
  ultimately show ?thesis by (auto simp: or_eq_0_iff)
qed

text \<open>One line: nothing, or one new setting read from its entry; every other line is a format error.\<close>

fun put_setting :: "config_setting \<Rightarrow> setting_value \<Rightarrow> pv_config \<Rightarrow> pv_config" where
  "put_setting Vault_path (Path p) c = c\<lparr>vault_path := p\<rparr>"
| "put_setting Clipboard_ttl (Number n) c = c\<lparr>clipboard_ttl := n\<rparr>"
| "put_setting Session_ttl (Number n) c = c\<lparr>session_ttl := n\<rparr>"
| "put_setting Backup_retention (Number n) c = c\<lparr>backup_retention := n\<rparr>"
| "put_setting Picker (Rofi b) c = c\<lparr>picker_rofi := b\<rparr>"
| "put_setting s x c = c"

lemma setting_put:
  assumes "read_setting s v = Some x"
  shows "setting s' (put_setting s x c) = (if s' = s then x else setting s' c)"
proof (cases s)
  case Vault_path
  with assms show ?thesis by (cases s') (auto split: if_splits)
next
  case Clipboard_ttl
  with assms show ?thesis by (cases s'; cases "parse_unsigned v 1 300") auto
next
  case Session_ttl
  with assms show ?thesis by (cases s'; cases "parse_unsigned v 30 86400") auto
next
  case Backup_retention
  with assms show ?thesis by (cases s'; cases "parse_unsigned v 1 1000") auto
next
  case Picker
  with assms show ?thesis by (cases s') (auto split: if_splits)
qed

definition accept_entry :: "pv_config \<Rightarrow> u32 \<Rightarrow> config_setting \<Rightarrow> byte list \<Rightarrow> (pv_config \<times> u32) pv_result" where
  "accept_entry c seen s v =
     (if seen AND key_bit s \<noteq> 0 then Inl PV_ERR_FORMAT
      else case read_setting s v of
        None \<Rightarrow> Inl PV_ERR_FORMAT
      | Some x \<Rightarrow> Inr (put_setting s x c, seen OR key_bit s))"

lemma parse_unsigned_error: "parse_unsigned v lo hi = Inl e \<Longrightarrow> e = PV_ERR_FORMAT"
  by (auto simp: parse_unsigned_def split: prod.splits if_splits)

lemma accept_number:
  assumes "read_setting s v = read_number (parse_unsigned v lo hi)" "\<And>n. put_setting s (Number n) c = f n"
  shows "res_bind (mark_key seen (key_bit s)) (\<lambda>seen1. res_bind (parse_unsigned v lo hi) (\<lambda>n. Inr (f n, seen1))) =
    accept_entry c seen s v"
  using assms parse_unsigned_error [of v lo hi]
  by (cases "parse_unsigned v lo hi") (simp_all add: accept_entry_def mark_key_def)

lemma parse_config_line_entry:
  assumes "entry_of line = Some (setting_key s, v)" "0x3d \<in> set (trim line)"
  shows "parse_config_line c line seen = accept_entry c seen s v"
proof -
  have t: "trim line \<noteq> []" "hd (trim line) \<noteq> 0x23"
    "trim (takeWhile (\<lambda>c. c \<noteq> 0x3d) (trim line)) = setting_key s"
    "trim (tl (dropWhile (\<lambda>c. c \<noteq> 0x3d) (trim line))) = v"
    using assms(1) by (auto simp: entry_of_def Let_def split: if_splits)
  show ?thesis
    unfolding parse_config_line_def Let_def t(3,4)
    using t(1,2) assms(2) accept_number [of s v _ _ c _ seen]
    by (cases s) (auto simp: ascii_def accept_entry_def mark_key_def)
qed

lemma parse_config_line_unknown:
  assumes "entry_of line = Some (k, v)" "0x3d \<notin> set (trim line) \<or> k \<notin> range setting_key"
  shows "parse_config_line c line seen = Inl PV_ERR_FORMAT"
proof -
  have t: "trim line \<noteq> []" "hd (trim line) \<noteq> 0x23"
    "trim (takeWhile (\<lambda>c. c \<noteq> 0x3d) (trim line)) = k"
    using assms(1) by (auto simp: entry_of_def Let_def split: if_splits)
  have "k \<noteq> setting_key s" if "0x3d \<in> set (trim line)" for s using assms(2) that by blast
  from this [of Vault_path] this [of Clipboard_ttl] this [of Session_ttl] this [of Backup_retention] this [of Picker]
  show ?thesis unfolding parse_config_line_def Let_def t(3) using t(1,2) by simp
qed

lemma parse_config_line_blank:
  "entry_of line = None \<Longrightarrow> parse_config_line c line seen = Inr (c, seen)"
  by (auto simp: entry_of_def parse_config_line_def Let_def split: if_splits)
definition settles :: "pv_config \<Rightarrow> (byte list \<times> byte list) list \<Rightarrow> pv_config \<Rightarrow> bool" where
  "settles c es c' \<longleftrightarrow> distinct (map fst es) \<and>
     (\<forall>(k, v) \<in> set es. \<exists>s x. k = setting_key s \<and> read_setting s v = Some x) \<and>
     (\<forall>s. case map_of es (setting_key s) of
        None \<Rightarrow> setting s c' = setting s c
      | Some v \<Rightarrow> read_setting s v = Some (setting s c'))"

lemma settles_Nil: "settles c [] c' \<longleftrightarrow> c' = c"
  using setting_ext [of c' c] by (auto simp: settles_def)

lemma settles_Cons:
  "settles c ((setting_key s, v) # es) c' \<longleftrightarrow>
     (\<exists>x. read_setting s v = Some x \<and> setting_key s \<notin> fst ` set es \<and> settles (put_setting s x c) es c')"
proof (cases "setting_key s \<in> fst ` set es")
  case False
  then have none: "map_of es (setting_key s) = None" by (simp add: map_of_eq_None_iff)
  show ?thesis
  proof (cases "read_setting s v")
    case (Some x)
    have "(case map_of ((setting_key s, v) # es) (setting_key s') of
          None \<Rightarrow> setting s' c' = setting s' c | Some v \<Rightarrow> read_setting s' v = Some (setting s' c')) \<longleftrightarrow>
        (case map_of es (setting_key s') of
          None \<Rightarrow> setting s' c' = setting s' (put_setting s x c) | Some v \<Rightarrow> read_setting s' v = Some (setting s' c'))"
      for s' using none Some by (cases "s' = s") (auto simp: setting_put [OF Some] setting_key_inject split: option.splits)
    with Some False show ?thesis
      unfolding settles_def by (auto simp: image_def)
  qed (auto simp: settles_def setting_key_inject)
qed (auto simp: settles_def)

lemma parse_lines_iff:
  "parse_lines c seen content = Inr c' \<longleftrightarrow>
     (\<forall>line \<in> set (lines_of content). line_shape line) \<and> settles c (entries content) c' \<and>
     (\<forall>s. seen AND key_bit s \<noteq> 0 \<longrightarrow> setting_key s \<notin> fst ` set (entries content))"
proof (induction c seen content rule: parse_lines.induct)
  case (1 c seen content)
  let ?line = "takeWhile (\<lambda>c. c \<noteq> 0x0a) content"
  let ?rest = "drop (length ?line + 1) content"
  show ?case
  proof (cases "content = [] \<or> length ?line > PV_CONFIG_MAX_LINE")
    case True
    then show ?thesis
      by (auto simp: parse_lines.simps [of c seen content] lines_of.simps [of content] entries_def settles_Nil
          line_shape_def map_filter_simps)
  next
    case False
    note IH = 1 [OF _ refl]
    have step: "parse_lines c seen content = (case parse_config_line c ?line seen of
        Inl e \<Rightarrow> Inl e | Inr (c1, seen1) \<Rightarrow> parse_lines c1 seen1 ?rest)"
      using False by (simp add: parse_lines.simps [of c seen content] Let_def)
    have ls: "lines_of content = ?line # lines_of ?rest" using False by (simp add: lines_of.simps [of content])
    have len: "length ?line \<le> PV_CONFIG_MAX_LINE" using False by simp
    show ?thesis
    proof (cases "entry_of ?line")
      case None
      moreover have "line_shape ?line" using None len by (simp add: line_shape_def)
      ultimately show ?thesis
        using IH False parse_config_line_blank [OF None, of c seen]
        by (simp add: step ls entries_def map_filter_simps)
    next
      case (Some kv)
      obtain k v where kv: "kv = (k, v)" by (cases kv)
      have es: "entries content = (k, v) # entries ?rest"
        using Some kv by (simp add: ls entries_def map_filter_simps)
      have shape: "line_shape ?line \<longleftrightarrow> 0x3d \<in> set (trim ?line)" using Some len by (simp add: line_shape_def)
      show ?thesis
      proof (cases "0x3d \<in> set (trim ?line) \<and> k \<in> range setting_key")
        case False
        then show ?thesis
          using parse_config_line_unknown [of ?line k v c seen] Some kv shape
          by (auto simp: step ls es settles_def)
      next
        case True
        then obtain s where s: "k = setting_key s" by blast
        note entry = parse_config_line_entry [of ?line s v c seen]
        show ?thesis
        proof (cases "seen AND key_bit s = 0 \<and> read_setting s v \<noteq> None")
          case False
          then show ?thesis using entry Some kv s True
            by (auto simp: step es settles_Cons accept_entry_def)
        next
          case ok: True
          then obtain x where x: "read_setting s v = Some x" by blast
          have "parse_config_line c ?line seen = Inr (put_setting s x c, seen OR key_bit s)"
            using entry Some kv s True ok x by (simp add: accept_entry_def)
          with IH False show ?thesis
            using True ok x shape
            by (auto simp: step ls es s settles_Cons key_bit_or setting_key_inject)
        qed
      qed
    qed
  qed
qed


section \<open>What loading yields\<close>

lemma unat_u32_less [pv_word]: "unat (w :: u32) < 2 ^ 32"
  using unsigned_less [of w, where 'a = nat] by simp

lemma unat_ucast_u64 [pv_word]: "unat (ucast (w :: u32) :: u64) = unat w"
  using unat_u32_less [of w] by (simp add: unsigned_ucast_eq take_bit_nat_eq_self)

lemma parse_unsigned_range:
  assumes "parse_unsigned v lo hi = Inr n"
  shows "lo \<le> n \<and> n \<le> hi"
proof -
  obtain p :: u64 where p: "ucast lo \<le> p" "p \<le> ucast hi" "n = ucast p"
    using assms by (auto simp: parse_unsigned_def not_less split: prod.splits if_splits)
  have "unat p \<le> unat hi" using p(2) by (simp add: word_le_nat_alt unat_ucast_u64)
  then have "unat n = unat p" using p(3) unat_u32_less [of hi] by (simp add: unsigned_ucast_eq take_bit_nat_eq_self)
  then show ?thesis using p(1) \<open>unat p \<le> unat hi\<close> by (simp add: word_le_nat_alt unat_ucast_u64)
qed

text \<open>Plain decimal numbers are read as what they are.\<close>

lemma parse_unsigned_digits:
  assumes "v \<noteq> []" "list_all is_digit v"
  shows "parse_unsigned v lo hi =
    (if unat lo \<le> digits_value v \<and> digits_value v \<le> unat hi then Inr (word_of_nat (digits_value v)) else Inl PV_ERR_FORMAT)"
proof -
  have hd: "\<not> ascii_space (hd v)" "hd v \<noteq> 0x2d" "hd v \<noteq> 0x2b"
    using assms by (cases v; auto simp: is_digit_def ascii_space_def)+
  have tw: "takeWhile is_digit v = v" "dropWhile is_digit v = []"
    using assms(2) by (simp_all add: list_all_iff)
  have dw: "dropWhile ascii_space v = v" using hd(1) assms(1) by (cases v) auto
  let ?n = "digits_value v"
  have s: "strtoul v = (if ?n \<ge> 2 ^ 64 then (- 1, [], True) else (word_of_nat ?n, [], False))"
    unfolding strtoul_def Let_def dw using hd(2,3) assms(1) by (simp add: tw)
  show ?thesis
  proof (cases "?n \<ge> 2 ^ 64")
    case True
    then have "\<not> ?n \<le> unat hi" using unat_u32_less [of hi] by simp
    with True s show ?thesis by (simp add: parse_unsigned_def)
  next
    case False
    then have "unat (word_of_nat ?n :: u64) = ?n" by (simp add: unat_of_nat)
    moreover have "(ucast (word_of_nat ?n :: u64) :: u32) = word_of_nat ?n"
      by (metis calculation of_nat_unat)
    ultimately show ?thesis using False s assms(1)
      by (auto simp: parse_unsigned_def word_less_nat_alt unat_ucast_u64)
  qed
qed

text \<open>\<^verbatim>\<open>strtoul\<close> takes signs, so a large negative number is read as a small positive one.\<close>

lemma parse_unsigned_negative: "parse_unsigned (ascii ''-18446744073709551606'') 1 300 = Inr 10"
  by code_simp

definition config_ok :: "pv_config \<Rightarrow> bool" where
  "config_ok c \<longleftrightarrow> absolute (vault_path c) \<and> length (vault_path c) < PATH_MAX \<and>
     1 \<le> clipboard_ttl c \<and> clipboard_ttl c \<le> 300 \<and> 30 \<le> session_ttl c \<and> session_ttl c \<le> 86400 \<and>
     1 \<le> backup_retention c \<and> backup_retention c \<le> 1000"

fun value_ok :: "config_setting \<Rightarrow> setting_value \<Rightarrow> bool" where
  "value_ok Vault_path x = (\<exists>p. x = Path p \<and> absolute p \<and> length p < PATH_MAX)"
| "value_ok Clipboard_ttl x = (\<exists>n. x = Number n \<and> 1 \<le> n \<and> n \<le> 300)"
| "value_ok Session_ttl x = (\<exists>n. x = Number n \<and> 30 \<le> n \<and> n \<le> 86400)"
| "value_ok Backup_retention x = (\<exists>n. x = Number n \<and> 1 \<le> n \<and> n \<le> 1000)"
| "value_ok Picker x = True"

lemma config_ok_settings: "config_ok c \<longleftrightarrow> (\<forall>s. value_ok s (setting s c))"
proof
  assume "config_ok c"
  then show "\<forall>s. value_ok s (setting s c)"
    by (intro allI, rename_tac s, case_tac s) (simp_all add: config_ok_def)
next
  assume *: "\<forall>s. value_ok s (setting s c)"
  show "config_ok c"
    using * [rule_format, of Vault_path] * [rule_format, of Clipboard_ttl] * [rule_format, of Session_ttl]
      * [rule_format, of Backup_retention]
    by (simp add: config_ok_def)
qed

lemma read_number_Some: "read_number r = Some x \<longleftrightarrow> (\<exists>n. r = Inr n \<and> x = Number n)"
  by (cases r) auto

lemma read_setting_ok: "read_setting s v = Some x \<Longrightarrow> value_ok s x"
  by (cases s) (auto simp: read_number_Some dest: parse_unsigned_range split: if_splits)

lemma parse_config_ok:
  assumes "config_ok c" "parse_config c content = Inr c'"
  shows "config_ok c'"
  unfolding config_ok_settings
proof
  fix s
  have "case map_of (entries content) (setting_key s) of
      None \<Rightarrow> setting s c' = setting s c | Some v \<Rightarrow> read_setting s v = Some (setting s c')"
    using assms(2) unfolding parse_config_def parse_lines_iff settles_def by blast
  then show "value_ok s (setting s c')"
    using assms(1) read_setting_ok by (auto simp: config_ok_settings split: option.splits)
qed

lemma absolute_append: "absolute p \<Longrightarrow> absolute (p @ q)"
  by (simp add: absolute_def)

lemma xdg_path_ok: "xdg_path getenv n env_name name = Inr p \<Longrightarrow> absolute p \<and> length p < n"
  by (auto simp: xdg_path_def Let_def absolute_append split: option.splits if_splits)

lemma pv_config_defaults_ok: "pv_config_defaults getenv = Inr c \<Longrightarrow> config_ok c"
  by (auto simp: pv_config_defaults_def res_bind_Inr config_ok_def dest: xdg_path_ok)

definition trusted_directory :: "nat \<Rightarrow> stat \<Rightarrow> bool" where
  "trusted_directory euid st \<longleftrightarrow> st_kind st = Directory \<and> st_uid st = euid \<and> \<not> bit (st_mode st) 4 \<and> \<not> bit (st_mode st) 1"

definition trusted_file :: "nat \<Rightarrow> stat \<Rightarrow> bool" where
  "trusted_file euid st \<longleftrightarrow> st_kind st = Regular_file \<and> st_uid st = euid \<and> st_nlink st = 1 \<and>
     (perm_bits st = 0x100 \<or> perm_bits st = 0x180) \<and> st_size st \<le> int PV_CONFIG_MAX_BYTES"

lemma group_other_write: "(w :: u32) AND 0x12 = 0 \<longleftrightarrow> \<not> bit w 4 \<and> \<not> bit w 1"
proof -
  have "w AND 0x12 = w AND 2 ^ 4 OR (w AND 2 ^ 1)" by (simp flip: bit.conj_disj_distrib)
  then show ?thesis by (simp only: or_eq_0_iff and_exp_eq_0_iff_not_bit)
qed

lemma validate_config_parent_iff:
  "validate_config_parent k info = Inr u \<longleftrightarrow> (\<exists>st. info = Some st \<and> trusted_directory (k_euid k) st)"
  by (auto simp: validate_config_parent_def trusted_directory_def group_other_write split: option.splits)

lemma validate_config_file_ok:
  "validate_config_file k info = Inr st \<Longrightarrow> info = Some st \<and> trusted_file (k_euid k) st"
  by (auto simp: validate_config_file_def trusted_file_def split: option.splits if_splits)

lemma open_config_file_trusted:
  assumes "open_config_file k path = Inr (Some st)"
  obtains directory name dst where "k_open_dir k directory = Inr (Some dst)" "trusted_directory (k_euid k) dst"
    "k_open_file k directory name = Inr (Some st)" "trusted_file (k_euid k) st"
  using assms
  by (auto simp: open_config_file_def Let_def res_bind_Inr validate_config_parent_iff
      dest!: validate_config_file_ok split: if_splits sum.splits)


section \<open>An instance\<close>

definition demo_getenv :: "byte list \<Rightarrow> byte list option" where
  "demo_getenv name = (if name = ascii ''HOME'' then Some (ascii ''/home/u'') else None)"

definition demo_config_text :: "byte list" where
  "demo_config_text = ascii ''# mine'' @ [0x0a] @ ascii '' clipboard_ttl_seconds = 30'' @ [0x0a] @ ascii ''picker=rofi''"

definition demo_stat :: "file_kind \<Rightarrow> u32 \<Rightarrow> int \<Rightarrow> stat" where
  "demo_stat kind mode bytes =
     \<lparr>st_kind = kind, st_mode = mode, st_uid = 7, st_nlink = 1, st_size = bytes, st_dev = 1, st_ino = 2,
      st_mtim = (0, 0), st_ctim = (0, 0)\<rparr>"

definition demo_config_kernel :: config_kernel where
  "demo_config_kernel =
     \<lparr>k_euid = 7,
      k_open_dir = (\<lambda>d. if d = ascii ''/home/u/.config/pvault'' then Inr (Some (demo_stat Directory 0x1c0 0)) else Inl ENOENT),
      k_open_file = (\<lambda>d n. if n = ascii ''config'' then Inr (Some (demo_stat Regular_file 0x180 46)) else Inl ENOENT),
      k_reads = [Got (take 9 demo_config_text), Read_failed EINTR, Got (drop 9 demo_config_text)],
      k_final = Some (demo_stat Regular_file 0x180 46), k_malloc = True, k_close_dir = True, k_close_file = True\<rparr>"

lemma demo_config_loads:
  "pv_config_load demo_config_kernel demo_getenv =
     Inr \<lparr>vault_path = ascii ''/home/u/.local/share/pvault/vault.pvlt'', clipboard_ttl = 30, session_ttl = 300,
       backup_retention = 20, picker_rofi = True\<rparr>"
  by code_simp


end
