(* ===== verification/Pv_Tty.thy ===== *)
theory Pv_Tty
  imports Pv_Secure Pv_Config
begin

text \<open>
  Lines, confirmations and numbers typed at the controlling terminal (\<^verbatim>\<open>src/tty.c\<close>). The
  terminal is the one of \<^verbatim>\<open>src/secure.c\<close>: its script of answers to \<^verbatim>\<open>read\<close>, in
  which an interrupted call may deliver a signal. A script that ends is a call that has not returned.
\<close>

section \<open>A line\<close>

text \<open>The inner loop retries a call that was interrupted, whatever signal has arrived.\<close>

fun read_again :: "(nat \<times> read_result) list \<Rightarrow> terminal \<Rightarrow> (read_result \<times> terminal) option" where
  "read_again [] w = None"
| "read_again ((signal_number, answer) # rest) w =
     (let w1 = (deliver signal_number w)\<lparr>t_reads := rest\<rparr>
      in if answer = Read_eintr then read_again rest w1 else Some (answer, w1))"

lemma deliver_reads [simp]: "t_reads (deliver signal_number w) = t_reads w"
  by (simp add: deliver_def secret_signal_handler_def)

lemma read_again_shorter: "read_again es w = Some (answer, w') \<Longrightarrow> length (t_reads w') < length es"
  by (induction es w rule: read_again.induct) (auto simp: Let_def less_SucI split: if_splits)

function read_line_loop ::
  "nat \<Rightarrow> byte list \<Rightarrow> bool \<Rightarrow> terminal \<Rightarrow> ((byte list \<times> bool) pv_result \<times> terminal) option" where
  "read_line_loop maximum line overflow w =
     (case read_again (t_reads w) w of
        None \<Rightarrow> None
      | Some (Read_byte b, w1) \<Rightarrow>
          if b = 0x0a \<or> b = 0x0d then Some (Inr (line, overflow), w1)
          else if length line < maximum then read_line_loop maximum (line @ [b]) overflow w1
          else read_line_loop maximum line True w1
      | Some (_, w1) \<Rightarrow> Some (Inl PV_ERR_IO, w1))"
  by pat_completeness auto
termination
  by (relation "measure (\<lambda>(maximum, line, overflow, w). length (t_reads w))") (auto dest: read_again_shorter)

declare read_line_loop.simps [simp del]

text \<open>
  \<open>opened\<close>: \<^verbatim>\<open>/dev/tty\<close> could be opened; \<open>mem\<close>: the outcome of the allocation. The
  bytes of the buffer after its length are one NUL byte.
\<close>

definition pv_tty_read_line ::
  "bool \<Rightarrow> alloc \<Rightarrow> byte list \<Rightarrow> nat \<Rightarrow> bool \<Rightarrow> terminal \<Rightarrow> (byte list pv_result \<times> terminal) option" where
  "pv_tty_read_line opened mem prompt maximum allow_empty w =
     (if maximum = 0 \<or> maximum > PV_MAX_PLAINTEXT then Some (Inl PV_ERR_USAGE, w)
      else if mem \<noteq> Alloc_ok then Some (Inl PV_ERR_SECURE_MEMORY, w)
      else if \<not> opened then Some (Inl PV_ERR_IO, w)
      else case dprintf prompt w of
        (False, w1) \<Rightarrow> Some (Inl PV_ERR_IO, w1)
      | (True, w1) \<Rightarrow>
          (case read_line_loop maximum [] False w1 of
             None \<Rightarrow> None
           | Some (Inl e, w2) \<Rightarrow> Some (Inl e, w2)
           | Some (Inr (line, overflow), w2) \<Rightarrow>
               if overflow then Some (Inl PV_ERR_LIMIT, w2)
               else if \<not> allow_empty \<and> line = [] then Some (Inl PV_ERR_USAGE, w2)
               else Some (Inr line, w2)))"

section \<open>Answers\<close>

definition pv_tty_confirm ::
  "bool \<Rightarrow> alloc \<Rightarrow> byte list \<Rightarrow> terminal \<Rightarrow> (bool pv_result \<times> terminal) option" where
  "pv_tty_confirm opened mem prompt w =
     (case pv_tty_read_line opened mem prompt 8 True w of
        None \<Rightarrow> None
      | Some (Inl e, w1) \<Rightarrow> Some (Inl e, w1)
      | Some (Inr answer, w1) \<Rightarrow>
          Some (Inr (length answer = 1 \<and> (answer ! 0 = 0x79 \<or> answer ! 0 = 0x59)), w1))"

text \<open>\<^verbatim>\<open>strtoul\<close> reads the buffer up to its first NUL byte, which may have been typed.\<close>

definition pv_tty_read_unsigned ::
  "bool \<Rightarrow> alloc \<Rightarrow> byte list \<Rightarrow> u32 \<Rightarrow> u32 \<Rightarrow> terminal \<Rightarrow> (u32 pv_result \<times> terminal) option" where
  "pv_tty_read_unsigned opened mem prompt maximum default_value w =
     (if default_value > maximum then Some (Inl PV_ERR_USAGE, w)
      else case pv_tty_read_line opened mem prompt 16 True w of
        None \<Rightarrow> None
      | Some (Inl e, w1) \<Rightarrow> Some (Inl e, w1)
      | Some (Inr answer, w1) \<Rightarrow>
          if answer = [] then Some (Inr default_value, w1)
          else
            let string = takeWhile (\<lambda>c. c \<noteq> 0) answer
            in case strtoul string of
                 (parsed, rest, out_of_range) \<Rightarrow>
                   Some (if out_of_range \<or> rest = string \<or> rest \<noteq> [] \<or> parsed > ucast maximum
                         then Inl PV_ERR_USAGE else Inr (ucast parsed), w1))"

section \<open>What was typed\<close>

text \<open>The bytes a script delivers before the first answer that is neither a byte nor an interruption.\<close>

fun typed :: "(nat \<times> read_result) list \<Rightarrow> byte list" where
  "typed [] = []"
| "typed ((_, Read_byte b) # rest) = b # typed rest"
| "typed ((_, Read_eintr) # rest) = typed rest"
| "typed (_ # rest) = []"

abbreviation line_end :: "byte \<Rightarrow> bool" where "line_end b \<equiv> b = 0x0a \<or> b = 0x0d"

definition first_line :: "byte list \<Rightarrow> byte list" where
  "first_line bytes = takeWhile (\<lambda>b. \<not> line_end b) bytes"

lemma read_again_typed:
  "read_again es w = Some (answer, w') \<Longrightarrow>
     (case answer of Read_byte b \<Rightarrow> typed es = b # typed (t_reads w') | Read_eintr \<Rightarrow> False | _ \<Rightarrow> typed es = []) \<and>
     t_handlers w' = t_handlers w \<and> t_attr w' = t_attr w \<and> t_output w' = t_output w"
proof (induction es w rule: read_again.induct)
  case (2 s answer' rest w)
  have d: "t_handlers (deliver s w) = t_handlers w" "t_attr (deliver s w) = t_attr w" "t_output (deliver s w) = t_output w"
    by (simp_all add: deliver_def secret_signal_handler_def)
  show ?case using 2 d by (cases answer') (auto simp: Let_def split: read_result.splits)
qed simp

lemma read_again_returns:
  "typed es = b # rest \<Longrightarrow> \<exists>w'. read_again es w = Some (Read_byte b, w') \<and> typed (t_reads w') = rest"
proof (induction es arbitrary: w)
  case (Cons e es)
  then show ?case by (cases e; cases "snd e") (auto simp: Let_def)
qed simp

lemma read_line_loop_spec:
  "read_line_loop maximum line overflow w = Some (r, w') \<Longrightarrow>
     (case r of
        Inr (result, over) \<Rightarrow>
          (\<exists>b rest. typed (t_reads w) = first_line (typed (t_reads w)) @ b # rest \<and> line_end b \<and>
             typed (t_reads w') = rest) \<and>
          result = line @ take (maximum - length line) (first_line (typed (t_reads w))) \<and>
          (over \<longleftrightarrow> overflow \<or> length (first_line (typed (t_reads w))) > maximum - length line)
      | Inl e \<Rightarrow> e = PV_ERR_IO \<and> first_line (typed (t_reads w)) = typed (t_reads w)) \<and>
     t_handlers w' = t_handlers w \<and> t_attr w' = t_attr w \<and> t_output w' = t_output w"
proof (induction maximum line overflow w rule: read_line_loop.induct)
  case (1 maximum line overflow w)
  from "1.prems" obtain answer w1 where got: "read_again (t_reads w) w = Some (answer, w1)"
    by (subst (asm) read_line_loop.simps) (auto split: option.splits)
  note laws = read_again_typed [OF got]
  show ?case
  proof (cases answer)
    case (Read_byte b)
    note got = got [unfolded Read_byte]
    have t: "typed (t_reads w) = b # typed (t_reads w1)" using laws Read_byte by simp
    consider "line_end b" | "\<not> line_end b" "length line < maximum" | "\<not> line_end b" "\<not> length line < maximum" by blast
    then show ?thesis
    proof cases
      case 1
      with "1.prems" got have "r = Inr (line, overflow)" "w' = w1"
        by (simp_all add: read_line_loop.simps [of maximum line])
      with 1 t laws show ?thesis by (auto simp: first_line_def)
    next
      case 2
      with "1.prems" got have "read_line_loop maximum (line @ [b]) overflow w1 = Some (r, w')"
        by (simp add: read_line_loop.simps [of maximum line])
      note ih = "1.IH"(1) [OF got refl refl 2 this]
      have "maximum - length line = Suc (maximum - Suc (length line))" using 2 by simp
      then show ?thesis using ih t 2 laws by (auto simp: first_line_def split: sum.splits)
    next
      case 3
      with "1.prems" got have "read_line_loop maximum line True w1 = Some (r, w')"
        by (simp add: read_line_loop.simps [of maximum line])
      note ih = "1.IH"(2) [OF got refl refl 3 this]
      show ?thesis using ih t 3 laws by (auto simp: first_line_def split: sum.splits)
    qed
  qed (use "1.prems" got laws in \<open>auto simp: read_line_loop.simps [of maximum line] first_line_def\<close>)
qed

lemma read_line_loop_returns:
  "typed (t_reads w) = first @ b # rest \<Longrightarrow> line_end b \<Longrightarrow> read_line_loop maximum line overflow w \<noteq> None"
proof (induction "first" arbitrary: line overflow w)
  case Nil
  then show ?case using read_again_returns [of "t_reads w" b rest w] by (auto simp: read_line_loop.simps [of maximum line])
next
  case (Cons c cs)
  obtain w1 where w1: "read_again (t_reads w) w = Some (Read_byte c, w1)" "typed (t_reads w1) = cs @ b # rest"
    using read_again_returns [of "t_reads w" c "cs @ b # rest" w] Cons.prems by auto
  show ?case
    using Cons.IH [OF w1(2) Cons.prems(2)] w1(1) by (subst read_line_loop.simps) simp
qed

lemma pv_tty_read_line_Inr:
  assumes "pv_tty_read_line opened mem prompt maximum allow_empty w = Some (Inr line, w')"
  shows "\<exists>b rest. typed (t_reads w) = line @ b # rest \<and> line_end b \<and> typed (t_reads w') = rest"
    and "length line \<le> maximum" and "list_all (\<lambda>b. \<not> line_end b) line" and "line \<noteq> [] \<or> allow_empty"
    and "t_handlers w' = t_handlers w" and "t_attr w' = t_attr w" and "t_output w' = t_output w @ prompt"
proof -
  from assms obtain w1 where w1: "dprintf prompt w = (True, w1)"
    and run: "read_line_loop maximum [] False w1 = Some (Inr (line, False), w')" and e: "line \<noteq> [] \<or> allow_empty"
    by (auto simp: pv_tty_read_line_def split: if_splits prod.splits bool.splits option.splits sum.splits)
  have d: "t_reads w1 = t_reads w" "t_handlers w1 = t_handlers w" "t_attr w1 = t_attr w" "t_output w1 = t_output w @ prompt"
    using w1 by (auto simp: dprintf_def split: list.splits bool.splits)
  note spec = read_line_loop_spec [OF run, simplified d, simplified]
  show "\<exists>b rest. typed (t_reads w) = line @ b # rest \<and> line_end b \<and> typed (t_reads w') = rest"
    and "length line \<le> maximum" and "t_handlers w' = t_handlers w" and "t_attr w' = t_attr w" and "t_output w' = t_output w @ prompt"
    using spec by auto
  have "\<forall>b \<in> set (first_line bytes). \<not> line_end b" for bytes
    by (auto simp: first_line_def dest: set_takeWhileD)
  then show "list_all (\<lambda>b. \<not> line_end b) line" using spec by (auto simp: list_all_iff dest: in_set_takeD)
  show "line \<noteq> [] \<or> allow_empty" by (rule e)
qed

lemma pv_tty_read_line_returns:
  assumes "0 < maximum" "maximum \<le> PV_MAX_PLAINTEXT" "t_prints w = []"
    and "typed (t_reads w) = line @ b # rest" "list_all (\<lambda>b. \<not> line_end b) line" "line_end b"
  shows "\<exists>w'. pv_tty_read_line True Alloc_ok prompt maximum allow_empty w =
     Some (if length line > maximum then Inl PV_ERR_LIMIT
           else if \<not> allow_empty \<and> line = [] then Inl PV_ERR_USAGE else Inr line, w')"
proof -
  let ?w1 = "w\<lparr>t_output := t_output w @ prompt\<rparr>"
  obtain r w' where run: "read_line_loop maximum [] False ?w1 = Some (r, w')"
    using read_line_loop_returns [of ?w1 line b rest maximum "[]" False] assms(4,6) by fastforce
  have f: "first_line (line @ b # rest) = line" and ne: "first_line (line @ b # rest) \<noteq> line @ b # rest"
    using assms(5,6) by (auto simp: first_line_def list_all_iff takeWhile_append1)
  have "r = Inr (take maximum line, length line > maximum)"
    using read_line_loop_spec [OF run] f ne assms(4) by (auto split: sum.splits)
  then show ?thesis using assms(1-3) run by (auto simp: pv_tty_read_line_def dprintf_def)
qed

text \<open>
  C21. A confirmation is given only by a line that is the letter y or Y and nothing else, read up to
  its line end, with the prompt shown and the settings and signal handlers of the terminal untouched.
  On a terminal that delivers a line of at most eight bytes the question is answered: yes for that
  letter, no for every other line.
\<close>

theorem pv_tty_confirm_iff:
  "(pv_tty_confirm opened mem prompt w = Some (Inr True, w') \<longrightarrow>
      (\<exists>c b. c \<in> {0x79, 0x59} \<and> line_end b \<and> typed (t_reads w) = c # b # typed (t_reads w')) \<and>
      t_output w' = t_output w @ prompt \<and> t_handlers w' = t_handlers w \<and> t_attr w' = t_attr w) \<and>
   (t_prints w = [] \<and> typed (t_reads w) = line @ b # rest \<and> list_all (\<lambda>b. \<not> line_end b) line \<and> line_end b \<and>
      length line \<le> 8 \<longrightarrow>
      (\<exists>w''. pv_tty_confirm True Alloc_ok prompt w = Some (Inr (line \<in> {[0x79], [0x59]}), w'')))"
proof (intro conjI impI)
  assume "pv_tty_confirm opened mem prompt w = Some (Inr True, w')"
  then obtain line where run: "pv_tty_read_line opened mem prompt 8 True w = Some (Inr line, w')"
    and y: "length line = 1" "line ! 0 = 0x79 \<or> line ! 0 = 0x59"
    by (auto simp: pv_tty_confirm_def split: option.splits prod.splits sum.splits)
  from y(1) obtain c where c: "line = [c]" by (auto simp: length_Suc_conv)
  note laws = pv_tty_read_line_Inr [OF run]
  show "\<exists>c b. c \<in> {0x79, 0x59} \<and> line_end b \<and> typed (t_reads w) = c # b # typed (t_reads w')"
    using laws(1) y(2) unfolding c by auto
  show "t_output w' = t_output w @ prompt" "t_handlers w' = t_handlers w" "t_attr w' = t_attr w"
    by (rule laws(7) laws(5) laws(6))+
next
  assume a: "t_prints w = [] \<and> typed (t_reads w) = line @ b # rest \<and> list_all (\<lambda>b. \<not> line_end b) line \<and> line_end b \<and>
      length line \<le> 8"
  obtain w'' where "pv_tty_read_line True Alloc_ok prompt 8 True w = Some (Inr line, w'')"
    using pv_tty_read_line_returns [of 8 w line b rest prompt True] a
    by (auto simp: PV_MAX_PLAINTEXT_def)
  moreover have "length line = 1 \<and> (line ! 0 = 0x79 \<or> line ! 0 = 0x59) \<longleftrightarrow> line \<in> {[0x79], [0x59]}"
    by (cases line; cases "tl line") auto
  ultimately show "\<exists>w''. pv_tty_confirm True Alloc_ok prompt w = Some (Inr (line \<in> {[0x79], [0x59]}), w'')"
    by (simp add: pv_tty_confirm_def)
qed

definition demo_answer :: terminal where
  "demo_answer = \<lparr>t_attr = \<lparr>c_lflag = ECHO, c_other = 0\<rparr>, t_handlers = (\<lambda>_. Other_handler 0), t_sig_valid = [],
     t_interrupted = 0, t_polls = [], t_reads = [(0, Read_byte 0x79), (0, Read_eintr), (0, Read_byte 0x0a)],
     t_sets = [], t_prints = [], t_output = [], t_raised = []\<rparr>"

theorem pv_tty_confirm_iff_witness:
  "\<exists>w''. pv_tty_confirm True Alloc_ok (ascii ''Delete? '') demo_answer = Some (Inr True, w'')"
  using pv_tty_confirm_iff [where opened = True and mem = Alloc_ok and prompt = "ascii ''Delete? ''" and w = demo_answer
      and line = "[0x79]" and b = "0x0a" and rest = "[]"]
  by (simp add: demo_answer_def)

end
