(* ===== verification/Pv_Ui.thy ===== *)
theory Pv_Ui
  imports Pv_Model Pv_Secure
begin

text \<open>
  The record picker (\<^verbatim>\<open>src/ui.c\<close>): the guard that keeps five signals from leaving the
  terminal in curses mode, the incremental search, what is drawn and the loop that reads keys.
  Curses and the signal calls of the kernel are scripts in the state; everything the program draws is
  recorded.
\<close>

section \<open>Signals and curses\<close>

text \<open>
  The disposition of a signal: ignored, the handler of the picker, or one of the caller's.
  \<open>u_calls\<close> are the outcomes of the signal calls in order, success after the last one;
  \<open>u_keys\<close> the answers of \<^verbatim>\<open>getch\<close>, each with the signal that arrives during the call (0:
  none) and -1 for \<^verbatim>\<open>ERR\<close>; \<open>u_rows\<close> the heights of the screen. \<open>u_drawn\<close> are
  the drawing calls and \<open>u_raised\<close> the signals that reached a disposition of the caller.
\<close>

datatype disposition = Sig_ign | Ui_signal_handler | Other_action nat

datatype curses =
    Erase
  | Mvprintw nat "byte list"
  | Attron
  | Attroff
  | Move nat nat
  | Addch byte
  | Addnstr "byte list"
  | Clrtoeol
  | Refresh
  | Endwin

record ui =
  u_calls :: "bool list"
  u_actions :: "nat \<Rightarrow> disposition"
  u_blocked :: "nat \<Rightarrow> bool"
  u_pending :: "nat list"
  u_interrupted :: nat
  u_keys :: "(nat \<times> int) list"
  u_rows :: "int list"
  u_drawn :: "curses list"
  u_raised :: "nat list"

record pv_ui_signal_guard =
  g_previous :: "(nat \<times> disposition) list"
  g_previous_mask :: "nat \<Rightarrow> bool"

definition pv_ui_signals :: "nat list" where
  "pv_ui_signals = [2, 15, 1, 3, 20]"

definition ui_signal_handler :: "nat \<Rightarrow> ui \<Rightarrow> ui" where
  "ui_signal_handler signal_number w =
     (if u_interrupted w = 0 then w\<lparr>u_interrupted := signal_number\<rparr> else w)"

text \<open>A signal that is not blocked takes effect; a blocked one becomes pending, once.\<close>

definition take_signal :: "nat \<Rightarrow> ui \<Rightarrow> ui" where
  "take_signal signal_number w =
     (case u_actions w signal_number of
        Sig_ign \<Rightarrow> w
      | Ui_signal_handler \<Rightarrow> ui_signal_handler signal_number w
      | Other_action _ \<Rightarrow> w\<lparr>u_raised := u_raised w @ [signal_number]\<rparr>)"

definition raise_signal :: "nat \<Rightarrow> ui \<Rightarrow> ui" where
  "raise_signal signal_number w =
     (if signal_number = 0 then w
      else if u_blocked w signal_number
      then w\<lparr>u_pending := List.insert signal_number (u_pending w)\<rparr>
      else take_signal signal_number w)"

definition set_mask :: "(nat \<Rightarrow> bool) \<Rightarrow> ui \<Rightarrow> ui" where
  "set_mask blocked w =
     fold take_signal (filter (\<lambda>s. \<not> blocked s) (u_pending w))
       (w\<lparr>u_blocked := blocked, u_pending := filter blocked (u_pending w)\<rparr>)"

definition sig_call :: "ui \<Rightarrow> bool \<times> ui" where
  "sig_call w = (case u_calls w of [] \<Rightarrow> (True, w) | outcome # rest \<Rightarrow> (outcome, w\<lparr>u_calls := rest\<rparr>))"

definition sigaction :: "nat \<Rightarrow> disposition \<Rightarrow> ui \<Rightarrow> bool \<times> ui" where
  "sigaction signal_number action w =
     (case sig_call w of
        (False, w1) \<Rightarrow> (False, w1)
      | (True, w1) \<Rightarrow> (True, w1\<lparr>u_actions := (u_actions w1)(signal_number := action)\<rparr>))"

definition sigprocmask :: "(nat \<Rightarrow> bool) \<Rightarrow> ui \<Rightarrow> bool \<times> ui" where
  "sigprocmask blocked w =
     (case sig_call w of (False, w1) \<Rightarrow> (False, w1) | (True, w1) \<Rightarrow> (True, set_mask blocked w1))"

section \<open>The signal guard\<close>

text \<open>Each signal is added to the guarded set and its disposition is read.\<close>

fun capture_signals ::
  "nat list \<Rightarrow> (nat \<times> disposition) list \<Rightarrow> ui \<Rightarrow> (nat \<times> disposition) list option \<times> ui" where
  "capture_signals [] captured w = (Some captured, w)"
| "capture_signals (signal_number # rest) captured w =
     (case sig_call w of
        (False, w1) \<Rightarrow> (None, w1)
      | (True, w1) \<Rightarrow>
          (case sig_call w1 of
             (False, w2) \<Rightarrow> (None, w2)
           | (True, w2) \<Rightarrow>
               capture_signals rest (captured @ [(signal_number, u_actions w2 signal_number)]) w2))"

definition ui_signal_guard_prepare :: "ui \<Rightarrow> pv_ui_signal_guard option \<times> ui" where
  "ui_signal_guard_prepare w =
     (case sig_call w of
        (False, w1) \<Rightarrow> (None, w1)
      | (True, w1) \<Rightarrow>
          (case capture_signals pv_ui_signals [] w1 of
             (None, w2) \<Rightarrow> (None, w2)
           | (Some captured, w2) \<Rightarrow>
               (let previous_mask = u_blocked w2
                in case sigprocmask (\<lambda>s. previous_mask s \<or> s \<in> set pv_ui_signals) w2 of
                     (False, w3) \<Rightarrow> (None, w3)
                   | (True, w3) \<Rightarrow>
                       (Some \<lparr>g_previous = captured, g_previous_mask = previous_mask\<rparr>, w3\<lparr>u_interrupted := 0\<rparr>))))"

fun install_actions :: "(nat \<times> disposition) list \<Rightarrow> ui \<Rightarrow> bool \<times> ui" where
  "install_actions [] w = (True, w)"
| "install_actions ((signal_number, previous) # rest) w =
     (case sigaction signal_number (if previous = Sig_ign then previous else Ui_signal_handler) w of
        (False, w1) \<Rightarrow> (False, w1)
      | (True, w1) \<Rightarrow> install_actions rest w1)"

fun active_mask :: "(nat \<times> disposition) list \<Rightarrow> (nat \<Rightarrow> bool) \<Rightarrow> ui \<Rightarrow> (nat \<Rightarrow> bool) option \<times> ui" where
  "active_mask [] active w = (Some active, w)"
| "active_mask ((signal_number, previous) # rest) active w =
     (if previous = Sig_ign then active_mask rest active w
      else case sig_call w of
        (False, w1) \<Rightarrow> (None, w1)
      | (True, w1) \<Rightarrow> active_mask rest (active(signal_number := False)) w1)"

definition ui_signal_guard_install :: "pv_ui_signal_guard \<Rightarrow> ui \<Rightarrow> bool \<times> ui" where
  "ui_signal_guard_install guard w =
     (case install_actions (g_previous guard) w of
        (False, w1) \<Rightarrow> (False, w1)
      | (True, w1) \<Rightarrow>
          (case active_mask (g_previous guard) (g_previous_mask guard) w1 of
             (None, w2) \<Rightarrow> (False, w2)
           | (Some active, w2) \<Rightarrow> sigprocmask active w2))"

definition ui_signal_guard_block :: "pv_ui_signal_guard \<Rightarrow> ui \<Rightarrow> ui" where
  "ui_signal_guard_block guard w = snd (sigprocmask (\<lambda>s. u_blocked w s \<or> s \<in> set pv_ui_signals) w)"

fun restore_actions :: "(nat \<times> disposition) list \<Rightarrow> bool \<Rightarrow> ui \<Rightarrow> bool \<times> ui" where
  "restore_actions [] restored w = (restored, w)"
| "restore_actions ((signal_number, previous) # rest) restored w =
     (case sigaction signal_number previous w of
        (outcome, w1) \<Rightarrow> restore_actions rest (restored \<and> outcome) w1)"

definition ui_signal_guard_restore :: "pv_ui_signal_guard \<Rightarrow> ui \<Rightarrow> bool \<times> ui" where
  "ui_signal_guard_restore guard w =
     (case restore_actions (rev (g_previous guard)) True w of
        (restored, w1) \<Rightarrow>
          (case sigprocmask (g_previous_mask guard) w1 of (outcome, w2) \<Rightarrow> (restored \<and> outcome, w2)))"

section \<open>The search\<close>

definition ui_record_matches :: "pv_slice pv_record \<Rightarrow> byte list \<Rightarrow> bool" where
  "ui_record_matches r query \<longleftrightarrow>
     (if query = [] then True
      else if pv_slice_contains_cstr (r_title r) query True \<or>
              pv_slice_contains_cstr (r_username r) query True then True
      else if list_ex (\<lambda>u. pv_slice_contains_cstr u query True) (r_urls r) then True
      else list_ex (\<lambda>t. pv_slice_contains_cstr t query True) (r_tags r))"

fun matches_from :: "nat \<Rightarrow> byte list \<Rightarrow> nat \<Rightarrow> pv_slice pv_record list \<Rightarrow> nat list \<Rightarrow> nat list" where
  "matches_from i query capacity [] matches = matches"
| "matches_from i query capacity (r # rs) matches =
     (if r_flags r AND PV_RECORD_DELETED = 0 \<and> ui_record_matches r query
      then if length matches \<ge> capacity then matches
           else matches_from (i + 1) query capacity rs (matches @ [i])
      else matches_from (i + 1) query capacity rs matches)"

definition build_matches :: "pv_vault \<Rightarrow> byte list \<Rightarrow> nat \<Rightarrow> nat list" where
  "build_matches v query capacity = matches_from 0 query capacity (vault_records v) []"

section \<open>Drawing\<close>

definition ui_add_safe_title :: "pv_slice pv_record \<Rightarrow> curses list" where
  "ui_add_safe_title r =
     Addch (if r_flags r AND PV_RECORD_FAVORITE \<noteq> 0 then 0x2a else 0x20) # Addch 0x20 #
     (case pv_text_sanitize (r_title r) PV_MAX_TITLE of
        None \<Rightarrow> if slice_len (r_title r) > 0 then [Addch 0x3f] else []
      | Some sanitized \<Rightarrow> if sanitized = [] then [] else [Addnstr sanitized])"

definition draw_row :: "pv_vault \<Rightarrow> nat list \<Rightarrow> nat \<Rightarrow> nat \<Rightarrow> nat \<Rightarrow> curses list" where
  "draw_row v matches start current i =
     (if start + i = current then [Attron] else []) @ [Move (i + 3) 0] @
     ui_add_safe_title (vault_records v ! (matches ! (start + i))) @ [Clrtoeol] @
     (if start + i = current then [Attroff] else [])"

definition visible_rows :: "ui \<Rightarrow> nat" where
  "visible_rows w = (let rows = (case u_rows w of [] \<Rightarrow> 24 | r # _ \<Rightarrow> r) in if rows > 3 then nat (rows - 3) else 0)"

definition first_row :: "nat \<Rightarrow> nat \<Rightarrow> nat" where
  "first_row current visible = (if current \<ge> visible \<and> visible > 0 then current - visible + 1 else 0)"

definition count_line :: "nat \<Rightarrow> byte list" where
  "count_line count =
     print_decimal count @ ascii '' match'' @ (if count = 1 then [] else ascii ''es'') @
     ascii '' '' @ [0xe2, 0x80, 0x94] @ ascii '' Enter select, Esc cancel''"

text \<open>
  One screen; a row beyond the capacity of the array of matches ends the drawing with an error. The
  dash in the second line is U+2014.
\<close>

definition draw_screen :: "pv_vault \<Rightarrow> nat \<Rightarrow> byte list \<Rightarrow> nat list \<Rightarrow> nat \<Rightarrow> ui \<Rightarrow> bool \<times> ui" where
  "draw_screen v capacity query matches current w =
     (let visible = visible_rows w;
          start = first_row current visible;
          shown = [0..<min visible (length matches - start)];
          good = takeWhile (\<lambda>i. start + i < capacity) shown;
          top = [Erase, Mvprintw 0 (ascii ''PVault search: '' @ query),
                 Mvprintw 1 (count_line (length matches))]
               @ concat (map (draw_row v matches start current) good);
          w1 = w\<lparr>u_rows := tl (u_rows w)\<rparr>
      in if good \<noteq> shown then (False, w1\<lparr>u_drawn := u_drawn w @ top\<rparr>)
         else (True, w1\<lparr>u_drawn := u_drawn w @ top @ [Move 0 (15 + length query), Refresh]\<rparr>))"

section \<open>Reading keys\<close>

abbreviation KEY_DOWN :: int where "KEY_DOWN \<equiv> 258"
abbreviation KEY_UP :: int where "KEY_UP \<equiv> 259"
abbreviation KEY_BACKSPACE :: int where "KEY_BACKSPACE \<equiv> 263"
abbreviation KEY_ENTER :: int where "KEY_ENTER \<equiv> 343"
abbreviation PV_UI_QUERY_SIZE :: nat where "PV_UI_QUERY_SIZE \<equiv> 256"

fun getch_loop :: "(nat \<times> int) list \<Rightarrow> ui \<Rightarrow> (int \<times> ui) option" where
  "getch_loop [] w = None"
| "getch_loop ((signal_number, key) # rest) w =
     (let w1 = raise_signal signal_number (w\<lparr>u_keys := rest\<rparr>)
      in if key = - 1 \<and> u_interrupted w1 = 0 then getch_loop rest w1 else Some (key, w1))"

definition handle_key :: "int \<Rightarrow> nat \<Rightarrow> byte list \<Rightarrow> nat \<Rightarrow> byte list \<times> nat" where
  "handle_key key match_count query current =
     (if key = KEY_UP \<and> current > 0 then (query, current - 1)
      else if key = KEY_DOWN \<and> current + 1 < match_count then (query, current + 1)
      else if (key = KEY_BACKSPACE \<or> key = 127 \<or> key = 8) \<and> query \<noteq> [] then (butlast query, 0)
      else if key \<ge> 0x20 \<and> key \<le> 0x7e \<and> length query + 1 < PV_UI_QUERY_SIZE
      then (query @ [word_of_int key], 0)
      else (query, current))"

lemma take_signal_keys [simp]: "u_keys (take_signal s w) = u_keys w"
  by (simp add: take_signal_def ui_signal_handler_def split: disposition.split)

lemma raise_signal_keys [simp]: "u_keys (raise_signal s w) = u_keys w"
  by (simp add: raise_signal_def)

lemma getch_loop_shorter: "getch_loop es w = Some (key, w') \<Longrightarrow> length (u_keys w') < length es"
  by (induction es w rule: getch_loop.induct) (auto simp: Let_def less_SucI split: if_splits)

lemma draw_screen_keys: "draw_screen v capacity query matches current w = (ok, w') \<Longrightarrow> u_keys w' = u_keys w"
  by (auto simp: draw_screen_def Let_def split: if_splits)

definition clamp_current :: "nat \<Rightarrow> nat \<Rightarrow> nat" where
  "clamp_current match_count current = (if current \<ge> match_count \<and> match_count > 0 then match_count - 1 else current)"

text \<open>One turn of the loop: it ends with a result, or goes on with a query and a position.\<close>

definition pick_step ::
  "pv_vault \<Rightarrow> byte list \<Rightarrow> nat \<Rightarrow> ui \<Rightarrow> (nat pv_result \<times> ui + byte list \<times> nat \<times> ui) option" where
  "pick_step v query current0 w =
     (if u_interrupted w \<noteq> 0 then Some (Inl (Inl PV_ERR_IO, w))
      else
        let capacity = length (v_records v);
            matches = build_matches v query capacity;
            match_count = length matches;
            current = clamp_current match_count current0
        in case draw_screen v capacity query matches current w of
             (False, w1) \<Rightarrow> Some (Inl (Inl PV_ERR_STATE, w1))
           | (True, w1) \<Rightarrow>
               (case getch_loop (u_keys w1) w1 of
                  None \<Rightarrow> None
                | Some (key, w2) \<Rightarrow>
                    if u_interrupted w2 \<noteq> 0 then Some (Inl (Inl PV_ERR_IO, w2))
                    else if key = 27 then Some (Inl (Inl PV_ERR_NOT_FOUND, w2))
                    else if (key = 10 \<or> key = KEY_ENTER) \<and> match_count > 0 then
                      if current \<ge> capacity then Some (Inl (Inl PV_ERR_STATE, w2))
                      else Some (Inl (Inr (matches ! current), w2))
                    else case handle_key key match_count query current of
                           (query1, current1) \<Rightarrow> Some (Inr (query1, current1, w2))))"

lemma pick_step_shorter:
  "pick_step v query current w = Some (Inr (query1, current1, w1)) \<Longrightarrow> length (u_keys w1) < length (u_keys w)"
  by (auto simp: pick_step_def Let_def dest!: getch_loop_shorter draw_screen_keys
      split: if_splits prod.splits bool.splits option.splits)

function pick_loop :: "pv_vault \<Rightarrow> byte list \<Rightarrow> nat \<Rightarrow> ui \<Rightarrow> (nat pv_result \<times> ui) option" where
  "pick_loop v query current w =
     (case pick_step v query current w of
        None \<Rightarrow> None
      | Some (Inl result) \<Rightarrow> Some result
      | Some (Inr (query1, current1, w1)) \<Rightarrow> pick_loop v query1 current1 w1)"
  by pat_completeness auto
termination
  by (relation "measure (\<lambda>(v, query, current, w). length (u_keys w))") (auto dest: pick_step_shorter)

declare pick_loop.simps [simp del]

section \<open>The picker\<close>

text \<open>The answers of the C library, the kernel and curses while the screen is set up.\<close>

record ui_setup =
  k_calloc :: bool
  k_ttys :: bool
  k_fdopen_input :: bool
  k_fdopen_output :: bool
  k_newterm :: bool
  k_modes :: bool

definition pick_screen :: "ui_setup \<Rightarrow> pv_vault \<Rightarrow> pv_ui_signal_guard \<Rightarrow> ui \<Rightarrow> (nat pv_result \<times> ui) option" where
  "pick_screen k v guard w =
     (if \<not> k_newterm k then Some (Inl PV_ERR_EXTERNAL, w)
      else case ui_signal_guard_install guard w of
        (False, w1) \<Rightarrow> Some (Inl PV_ERR_IO, w1)
      | (True, w1) \<Rightarrow>
          if u_interrupted w1 \<noteq> 0 then Some (Inl PV_ERR_IO, w1)
          else if \<not> k_modes k then Some (Inl PV_ERR_EXTERNAL, w1)
          else pick_loop v [] 0 w1)"

definition pick_cleanup :: "ui_setup \<Rightarrow> pv_ui_signal_guard \<Rightarrow> nat pv_result \<Rightarrow> ui \<Rightarrow> nat pv_result \<times> ui" where
  "pick_cleanup k guard result w =
     (let w1 = ui_signal_guard_block guard w;
          caught_signal = u_interrupted w1;
          w2 = (if k_newterm k then w1\<lparr>u_drawn := u_drawn w1 @ [Endwin]\<rparr> else w1)
      in case ui_signal_guard_restore guard w2 of
           (restored, w3) \<Rightarrow>
             (let w4 = w3\<lparr>u_interrupted := 0\<rparr>
              in if caught_signal \<noteq> 0 then (Inl PV_ERR_IO, raise_signal caught_signal w4)
                 else (if restored then result else Inl PV_ERR_IO, w4)))"

definition pv_ui_pick_internal :: "ui_setup \<Rightarrow> pv_vault \<Rightarrow> ui \<Rightarrow> (nat pv_result \<times> ui) option" where
  "pv_ui_pick_internal k v w =
     (if v_records v = [] then Some (Inl PV_ERR_NOT_FOUND, w)
      else if \<not> k_calloc k then Some (Inl PV_ERR_NOMEM, w)
      else if \<not> k_ttys k \<or> \<not> k_fdopen_input k \<or> \<not> k_fdopen_output k
      then Some (Inl PV_ERR_IO, w\<lparr>u_interrupted := 0\<rparr>)
      else case ui_signal_guard_prepare w of
        (None, w1) \<Rightarrow> Some (Inl PV_ERR_IO, w1\<lparr>u_interrupted := 0\<rparr>)
      | (Some guard, w1) \<Rightarrow> map_option (\<lambda>(result, w2). pick_cleanup k guard result w2) (pick_screen k v guard w1))"


section \<open>The query\<close>

text \<open>What the keys typed so far leave in the search field\<close>

definition edit_query :: "byte list \<Rightarrow> int \<Rightarrow> byte list" where
  "edit_query query key =
     (if (key = KEY_BACKSPACE \<or> key = 127 \<or> key = 8) \<and> query \<noteq> [] then butlast query
      else if key \<ge> 0x20 \<and> key \<le> 0x7e \<and> length query + 1 < PV_UI_QUERY_SIZE then query @ [word_of_int key]
      else query)"


definition shown_for :: "byte list \<Rightarrow> pv_slice pv_record \<Rightarrow> bool" where
  "shown_for query r \<longleftrightarrow> r_flags r AND PV_RECORD_DELETED = 0 \<and> (query = [] \<or> record_matches r query)"

lemma ui_record_matches_iff: "ui_record_matches r query \<longleftrightarrow> query = [] \<or> record_matches r query"
  by (simp add: ui_record_matches_def record_matches_def)

lemma matches_from_eq:
  "length ms + length rs \<le> capacity \<Longrightarrow>
     matches_from i query capacity rs ms = ms @ map (\<lambda>j. i + j) (filter (\<lambda>j. shown_for query (rs ! j)) [0..<length rs])"
proof (induction i query capacity rs ms rule: matches_from.induct)
  case (2 i query capacity r rs ms)
  have upt: "[0..<length (r # rs)] = 0 # map Suc [0..<length rs]" by (simp add: upt_conv_Cons map_Suc_upt del: upt_Suc)
  have "map (\<lambda>j. i + j) (filter (\<lambda>j. shown_for query ((r # rs) ! j)) [0..<length (r # rs)]) =
      (if shown_for query r then [i] else []) @
      map (\<lambda>j. (i + 1) + j) (filter (\<lambda>j. shown_for query (rs ! j)) [0..<length rs])"
    unfolding upt by (simp add: filter_map o_def)
  then show ?case using 2 by (auto simp: shown_for_def ui_record_matches_iff)
qed simp

lemma build_matches_eq:
  "build_matches v query (length (v_records v)) =
     filter (\<lambda>j. shown_for query (vault_records v ! j)) [0..<length (v_records v)]"
  using matches_from_eq [of "[]" "vault_records v" "length (v_records v)" 0 query]
  by (simp add: build_matches_def vault_records_def)

lemma length_build_matches: "length (build_matches v query (length (v_records v))) \<le> length (v_records v)"
  unfolding build_matches_eq using length_filter_le [of _ "[0..<length (v_records v)]"] by simp

section \<open>The guard restores what it found\<close>

text \<open>Between the two ends of the guard only the five signals change their disposition.\<close>

definition guarded :: "ui \<Rightarrow> ui \<Rightarrow> bool" where
  "guarded w w' \<longleftrightarrow> (\<forall>s. s \<notin> set pv_ui_signals \<longrightarrow> u_actions w' s = u_actions w s) \<and>
     (u_calls w = [] \<longrightarrow> u_calls w' = [])"

lemma guarded_refl [simp]: "guarded w w"
  by (simp add: guarded_def)

lemma guarded_trans: "guarded w w' \<Longrightarrow> guarded w' w'' \<Longrightarrow> guarded w w''"
  by (simp add: guarded_def)

lemma take_signal_same [simp]:
  "u_actions (take_signal s w) = u_actions w" "u_blocked (take_signal s w) = u_blocked w"
  "u_calls (take_signal s w) = u_calls w" "u_drawn (take_signal s w) = u_drawn w"
  by (simp_all add: take_signal_def ui_signal_handler_def split: disposition.split)

lemma raise_signal_same [simp]:
  "u_actions (raise_signal s w) = u_actions w" "u_blocked (raise_signal s w) = u_blocked w"
  "u_calls (raise_signal s w) = u_calls w" "u_drawn (raise_signal s w) = u_drawn w"
  by (simp_all add: raise_signal_def)

lemma fold_take_signal [simp]:
  "u_actions (fold take_signal ss w) = u_actions w" "u_blocked (fold take_signal ss w) = u_blocked w"
  "u_calls (fold take_signal ss w) = u_calls w" "u_drawn (fold take_signal ss w) = u_drawn w"
  "u_keys (fold take_signal ss w) = u_keys w"
  by (induction ss arbitrary: w) simp_all

lemma set_mask_same [simp]:
  "u_actions (set_mask m w) = u_actions w" "u_blocked (set_mask m w) = m" "u_calls (set_mask m w) = u_calls w"
  "u_drawn (set_mask m w) = u_drawn w" "u_keys (set_mask m w) = u_keys w"
  by (simp_all add: set_mask_def)

lemma sig_call_fields:
  assumes "sig_call w = (ok, w')"
  shows "u_actions w' = u_actions w" "u_blocked w' = u_blocked w" "u_drawn w' = u_drawn w" "u_keys w' = u_keys w"
    "u_calls w = [] \<longrightarrow> ok \<and> u_calls w' = []"
  using assms by (auto simp: sig_call_def split: list.splits)

lemma sigaction_laws:
  assumes "sigaction s a w = (ok, w')"
  shows "u_actions w' = (if ok then (u_actions w)(s := a) else u_actions w)" "u_blocked w' = u_blocked w"
    "u_drawn w' = u_drawn w" "u_keys w' = u_keys w" "u_calls w = [] \<longrightarrow> ok \<and> u_calls w' = []"
proof -
  obtain ok1 w1 where 1: "sig_call w = (ok1, w1)" by fastforce
  note f = sig_call_fields [OF 1]
  show "u_actions w' = (if ok then (u_actions w)(s := a) else u_actions w)" "u_blocked w' = u_blocked w"
    "u_drawn w' = u_drawn w" "u_keys w' = u_keys w" "u_calls w = [] \<longrightarrow> ok \<and> u_calls w' = []"
    using assms f by (cases ok1; auto simp: sigaction_def 1)+
qed

lemma sigprocmask_laws:
  assumes "sigprocmask m w = (ok, w')"
  shows "u_actions w' = u_actions w" "u_blocked w' = (if ok then m else u_blocked w)"
    "u_drawn w' = u_drawn w" "u_keys w' = u_keys w" "u_calls w = [] \<longrightarrow> ok \<and> u_calls w' = []"
proof -
  obtain ok1 w1 where 1: "sig_call w = (ok1, w1)" by fastforce
  note f = sig_call_fields [OF 1]
  show "u_actions w' = u_actions w" "u_blocked w' = (if ok then m else u_blocked w)"
    "u_drawn w' = u_drawn w" "u_keys w' = u_keys w" "u_calls w = [] \<longrightarrow> ok \<and> u_calls w' = []"
    using assms f by (cases ok1; auto simp: sigprocmask_def 1)+
qed

lemma capture_signals_laws:
  "capture_signals sigs captured w = (r, w') \<Longrightarrow>
     u_actions w' = u_actions w \<and> u_blocked w' = u_blocked w \<and> u_drawn w' = u_drawn w \<and> u_keys w' = u_keys w \<and>
     (u_calls w = [] \<longrightarrow> u_calls w' = [] \<and> r \<noteq> None) \<and>
     (case r of None \<Rightarrow> True | Some g \<Rightarrow> g = captured @ map (\<lambda>s. (s, u_actions w s)) sigs)"
proof (induction sigs arbitrary: captured w)
  case (Cons s sigs)
  obtain ok1 w1 where 1: "sig_call w = (ok1, w1)" by fastforce
  obtain ok2 w2 where 2: "sig_call w1 = (ok2, w2)" by fastforce
  note f = sig_call_fields [OF 1] sig_call_fields [OF 2]
  show ?case
  proof (cases "ok1 \<and> ok2")
    case True
    with Cons.prems 1 2 have "capture_signals sigs (captured @ [(s, u_actions w2 s)]) w2 = (r, w')" by simp
    from Cons.IH [OF this] True f show ?thesis by (simp split: option.splits)
  next
    case False
    with Cons.prems 1 2 f show ?thesis by (cases ok1; cases ok2) auto
  qed
qed auto

lemma ui_signal_guard_prepare_laws:
  assumes "ui_signal_guard_prepare w = (r, w')"
  shows "u_actions w' = u_actions w \<and> u_drawn w' = u_drawn w \<and> u_keys w' = u_keys w \<and> (u_calls w = [] \<longrightarrow> u_calls w' = []) \<and>
    (case r of None \<Rightarrow> u_blocked w' = u_blocked w
     | Some g \<Rightarrow> g_previous g = map (\<lambda>s. (s, u_actions w s)) pv_ui_signals \<and> g_previous_mask g = u_blocked w)"
proof -
  obtain ok w1 where 1: "sig_call w = (ok, w1)" by fastforce
  obtain c w2 where 2: "capture_signals pv_ui_signals [] w1 = (c, w2)" by fastforce
  obtain ok3 w3 where 3: "sigprocmask (\<lambda>s. u_blocked w2 s \<or> s \<in> set pv_ui_signals) w2 = (ok3, w3)" by fastforce
  note f1 = sig_call_fields [OF 1]
  note f2 = capture_signals_laws [OF 2]
  note f3 = sigprocmask_laws [OF 3]
  consider "\<not> ok" "r = None" "w' = w1" | "ok" "c = None" "r = None" "w' = w2"
    | captured where "ok" "c = Some captured" "\<not> ok3" "r = None" "w' = w3"
    | captured where "ok" "c = Some captured" "ok3"
        "r = Some \<lparr>g_previous = captured, g_previous_mask = u_blocked w2\<rparr>" "w' = w3\<lparr>u_interrupted := 0\<rparr>"
    using assms unfolding ui_signal_guard_prepare_def 1 by (cases ok; cases c; cases ok3) (auto simp: 2 3 Let_def)
  then show ?thesis by cases (use f1 f2 f3 in simp_all)
qed

text \<open>What a stage between the two ends may do\<close>

definition guarded_stage :: "ui \<Rightarrow> ui \<Rightarrow> bool" where
  "guarded_stage w w' \<longleftrightarrow> guarded w w' \<and> u_drawn w' = u_drawn w \<and> u_keys w' = u_keys w"

lemma guarded_stage_trans: "guarded_stage w w' \<Longrightarrow> guarded_stage w' w'' \<Longrightarrow> guarded_stage w w''"
  by (auto simp: guarded_stage_def intro: guarded_trans)

lemma install_actions_laws:
  "install_actions ps w = (ok, w') \<Longrightarrow> fst ` set ps \<subseteq> set pv_ui_signals \<Longrightarrow> guarded_stage w w'"
proof (induction ps arbitrary: w)
  case (Cons sp ps)
  obtain s p where sp: "sp = (s, p)" by fastforce
  obtain ok1 w1 where 1: "sigaction s (if p = Sig_ign then p else Ui_signal_handler) w = (ok1, w1)" by fastforce
  note f = sigaction_laws [OF 1]
  have w1: "guarded_stage w w1" using f Cons.prems(2) sp by (auto simp: guarded_stage_def guarded_def)
  show ?case using Cons.IH [of w1] Cons.prems 1 w1 sp by (cases ok1) (auto intro: guarded_stage_trans)
qed (simp add: guarded_stage_def)

lemma active_mask_laws: "active_mask ps m w = (r, w') \<Longrightarrow> guarded_stage w w'"
proof (induction ps arbitrary: m w)
  case (Cons sp ps)
  obtain s p where sp: "sp = (s, p)" by fastforce
  obtain ok1 w1 where 1: "sig_call w = (ok1, w1)" by fastforce
  have w1: "guarded_stage w w1" using sig_call_fields [OF 1] by (auto simp: guarded_stage_def guarded_def)
  show ?case
    using Cons.IH [of m w] Cons.IH [of "m(s := False)" w1] Cons.prems 1 w1 sp
    by (cases "p = Sig_ign"; cases ok1) (auto intro: guarded_stage_trans simp del: fun_upd_apply)
qed (simp add: guarded_stage_def)

lemma sigprocmask_stage: "sigprocmask m w = (ok, w') \<Longrightarrow> guarded_stage w w'"
  using sigprocmask_laws [of m w ok w'] by (auto simp: guarded_stage_def guarded_def)

lemma ui_signal_guard_install_laws:
  assumes "ui_signal_guard_install g w = (ok, w')" "fst ` set (g_previous g) \<subseteq> set pv_ui_signals"
  shows "guarded_stage w w'"
proof -
  obtain ok1 w1 where 1: "install_actions (g_previous g) w = (ok1, w1)" by fastforce
  obtain m w2 where 2: "active_mask (g_previous g) (g_previous_mask g) w1 = (m, w2)" by fastforce
  have s: "guarded_stage w w1" "guarded_stage w w2"
    using install_actions_laws [OF 1 assms(2)] active_mask_laws [OF 2] by (auto intro: guarded_stage_trans)
  show ?thesis
    using assms(1) 1 2 s sigprocmask_stage [of "the m" w2 ok w']
    by (cases ok1; cases m) (auto simp: ui_signal_guard_install_def intro: guarded_stage_trans)
qed

lemma restore_actions_laws:
  "restore_actions ps r w = (r', w') \<Longrightarrow>
     u_blocked w' = u_blocked w \<and> u_drawn w' = u_drawn w \<and> u_keys w' = u_keys w \<and>
     (u_calls w = [] \<longrightarrow> u_calls w' = [] \<and> r' = r) \<and>
     (r' \<longrightarrow> r \<and> u_actions w' = fold (\<lambda>(s, p) a. a(s := p)) ps (u_actions w))"
proof (induction ps arbitrary: r w)
  case (Cons sp ps)
  obtain s p where sp: "sp = (s, p)" by fastforce
  obtain ok1 w1 where 1: "sigaction s p w = (ok1, w1)" by fastforce
  note f = sigaction_laws [OF 1]
  have "restore_actions ps (r \<and> ok1) w1 = (r', w')" using Cons.prems 1 sp by simp
  from Cons.IH [OF this] f show ?case unfolding sp by (cases ok1) simp_all
qed simp

lemma fold_restore:
  "fold (\<lambda>(s, p) a. a(s := p)) (map (\<lambda>s. (s, f s)) ss) a = (\<lambda>s. if s \<in> set ss then f s else a s)"
  by (induction ss arbitrary: a) auto

lemma ui_signal_guard_restore_laws:
  assumes run: "ui_signal_guard_restore g w = (ok, w')"
    and g: "g_previous g = map (\<lambda>s. (s, f s)) pv_ui_signals" and other: "\<forall>s. s \<notin> set pv_ui_signals \<longrightarrow> u_actions w s = f s"
  shows "ok \<Longrightarrow> u_actions w' = f \<and> u_blocked w' = g_previous_mask g" "u_calls w = [] \<Longrightarrow> ok"
    "u_drawn w' = u_drawn w" "u_keys w' = u_keys w"
proof -
  obtain ok1 w1 where 1: "restore_actions (rev (g_previous g)) True w = (ok1, w1)" by fastforce
  obtain ok2 w2 where 2: "sigprocmask (g_previous_mask g) w1 = (ok2, w2)" by fastforce
  have res: "ok = (ok1 \<and> ok2)" "w' = w2" using run 1 2 by (simp_all add: ui_signal_guard_restore_def)
  have rev: "rev (g_previous g) = map (\<lambda>s. (s, f s)) (rev pv_ui_signals)" by (simp add: g rev_map)
  have "(\<lambda>s. if s \<in> set pv_ui_signals then f s else u_actions w s) = f" using other by auto
  then have "fold (\<lambda>(s, p) a. a(s := p)) (rev (g_previous g)) (u_actions w) = f" unfolding rev fold_restore by simp
  with restore_actions_laws [OF 1] sigprocmask_laws [OF 2] res
  show "ok \<Longrightarrow> u_actions w' = f \<and> u_blocked w' = g_previous_mask g" "u_calls w = [] \<Longrightarrow> ok"
    "u_drawn w' = u_drawn w" "u_keys w' = u_keys w" by auto
qed

section \<open>What is drawn\<close>

text \<open>A text a terminal can show: UTF-8 with no character that is unsafe to display.\<close>

definition safe_text :: "byte list \<Rightarrow> bool" where
  "safe_text bytes \<longleftrightarrow> (\<exists>cps. list_all displayable cps \<and> bytes = concat (map utf8_encode cps))"

definition printable :: "byte \<Rightarrow> bool" where
  "printable b \<longleftrightarrow> 0x20 \<le> b \<and> b \<le> 0x7e"

fun safe_call :: "curses \<Rightarrow> bool" where
  "safe_call (Mvprintw row bytes) = safe_text bytes"
| "safe_call (Addch b) = printable b"
| "safe_call (Addnstr bytes) = safe_text bytes"
| "safe_call _ = True"

lemma safe_text_Nil: "safe_text []"
  unfolding safe_text_def by (rule exI [of _ "[]"]) simp

lemma safe_text_append:
  assumes "safe_text xs" "safe_text ys"
  shows "safe_text (xs @ ys)"
proof -
  from assms obtain cs ds where "list_all displayable cs" "xs = concat (map utf8_encode cs)"
    "list_all displayable ds" "ys = concat (map utf8_encode ds)"
    by (auto simp: safe_text_def)
  then show ?thesis unfolding safe_text_def by (intro exI [of _ "cs @ ds"]) simp
qed

lemma printable_displayable:
  assumes "printable b"
  shows "displayable (unat b)" "utf8_encode (unat b) = [b]"
proof -
  have r: "0x20 \<le> unat b" "unat b \<le> 0x7e" using assms by (simp_all add: printable_def word_le_nat_alt)
  have "unat (word_of_nat (unat b) :: u32) = unat b" by (simp add: unat_ucast_byte)
  then show "displayable (unat b)"
    using r by (simp add: displayable_def unicode_scalar_def display_codepoint_unsafe_def word_le_nat_alt unsigned_word_eqI)
      (auto simp: word_unat_eq_iff)
  show "utf8_encode (unat b) = [b]" using r by (simp add: utf8_encode_def utf8_encode_nat_def)
qed

lemma safe_text_printable: "list_all printable bytes \<Longrightarrow> safe_text bytes"
  unfolding safe_text_def
proof (rule exI [of _ "map unat bytes"], rule conjI)
  assume a: "list_all printable bytes"
  then show "list_all displayable (map unat bytes)" by (auto simp: list_all_iff printable_displayable)
  show "bytes = concat (map utf8_encode (map unat bytes))" using a by (induction bytes) (simp_all add: printable_displayable)
qed

lemma printable_decimal: "list_all printable (print_decimal n)"
proof (induction n rule: print_decimal.induct)
  case (1 n)
  have d: "printable (decimal_digit d)" if "d < 10" for d
    using that by (auto simp: printable_def decimal_digit_def word_le_nat_alt unat_word_ariths unat_of_nat)
  show ?case
  proof (cases "n < 10")
    case True
    then show ?thesis using d by (subst print_decimal.simps) simp
  next
    case False
    then show ?thesis using d [of "n mod 10"] "1.IH" by (subst print_decimal.simps) simp
  qed
qed

lemma dash_safe: "safe_text [0xe2, 0x80, 0x94]"
  unfolding safe_text_def
  by (rule exI [of _ "[0x2014]"])
    (simp add: displayable_def unicode_scalar_def display_codepoint_unsafe_def utf8_encode_def utf8_encode_nat_def)

lemma title_safe: "list_all safe_call (ui_add_safe_title r)"
proof -
  have "safe_text (sanitize_from xs)" for xs using sanitize_from_displayable [of xs] by (simp add: safe_text_def)
  then show ?thesis
    by (auto simp: ui_add_safe_title_def pv_text_sanitize_def printable_def split: option.splits if_splits)
qed

lemma draw_row_safe: "list_all safe_call (draw_row v matches start current i)"
  using title_safe by (auto simp: draw_row_def)

lemma headings_safe:
  assumes "list_all printable query"
  shows "safe_text (ascii ''PVault search: '' @ query)"
    and "safe_text (count_line count)"
proof -
  have "list_all printable (ascii ''PVault search: '')" by (simp add: ascii_def printable_def)
  then show "safe_text (ascii ''PVault search: '' @ query)" using assms by (intro safe_text_printable) simp
  have a: "safe_text (ascii '' match'')" "safe_text (ascii ''es'')" "safe_text (ascii '' '')"
      "safe_text (ascii '' Enter select, Esc cancel'')"
    by (rule safe_text_printable, simp add: ascii_def printable_def)+
  have e: "safe_text (if count = 1 then [] else ascii ''es'')" using a(2) safe_text_Nil by simp
  show "safe_text (count_line count)"
    unfolding count_line_def by (intro safe_text_append a e dash_safe safe_text_printable printable_decimal)
qed

text \<open>Drawing changes nothing else, and it never finds a row beyond the array of matches.\<close>

lemma draw_screen_laws:
  assumes run: "draw_screen v capacity query matches current w = (ok, w')"
    and q: "list_all printable query" and m: "length matches \<le> capacity"
  shows "ok" "u_actions w' = u_actions w" "u_blocked w' = u_blocked w" "u_calls w' = u_calls w"
    "u_interrupted w' = u_interrupted w"
    "list_all safe_call (u_drawn w) \<Longrightarrow> list_all safe_call (u_drawn w')"
proof -
  have full: "takeWhile (\<lambda>i. start + i < capacity) [0..<min visible (length matches - start)] =
      [0..<min visible (length matches - start)]" for start visible
    using m by (auto simp: takeWhile_eq_all_conv)
  have rows: "list_all safe_call (concat (map (draw_row v matches start current) xs))" for start xs
    using draw_row_safe [of v matches start current] by (induction xs) simp_all
  show "ok" "u_actions w' = u_actions w" "u_blocked w' = u_blocked w" "u_calls w' = u_calls w"
    "u_interrupted w' = u_interrupted w"
    using run unfolding draw_screen_def Let_def full by auto
  show "list_all safe_call (u_drawn w) \<Longrightarrow> list_all safe_call (u_drawn w')"
    using run headings_safe [OF q] rows unfolding draw_screen_def Let_def full by auto
qed

section \<open>The record that is picked\<close>

lemma edit_query_none [simp]: "edit_query query (- 1) = query"
  by (simp add: edit_query_def)

lemma foldl_edit_none: "\<forall>k \<in> set ks. k = - 1 \<Longrightarrow> foldl edit_query query ks = query"
  by (induction ks) simp_all

lemma handle_key_query: "fst (handle_key key n query current) = edit_query query key"
  by (auto simp: handle_key_def edit_query_def)

lemma edit_query_printable: "list_all printable query \<Longrightarrow> list_all printable (edit_query query key)"
proof -
  have "printable (word_of_int key)" if "0x20 \<le> key" "key \<le> 0x7e"
    using that by (simp add: printable_def word_le_def uint_word_of_int)
  then show "list_all printable query \<Longrightarrow> list_all printable (edit_query query key)"
    by (auto simp: edit_query_def list_all_iff dest: in_set_butlastD)
qed

lemma getch_loop_laws:
  "getch_loop es w = Some (key, w') \<Longrightarrow>
     u_actions w' = u_actions w \<and> u_blocked w' = u_blocked w \<and> u_calls w' = u_calls w \<and> u_drawn w' = u_drawn w \<and>
     (\<exists>ks. map snd es = ks @ key # map snd (u_keys w') \<and> (\<forall>k \<in> set ks. k = - 1))"
proof (induction es arbitrary: w)
  case (Cons e es)
  obtain s k where e: "e = (s, k)" by fastforce
  let ?w1 = "raise_signal s (w\<lparr>u_keys := es\<rparr>)"
  show ?case
  proof (cases "k = - 1 \<and> u_interrupted ?w1 = 0")
    case True
    with Cons.prems e have "getch_loop es ?w1 = Some (key, w')" by (simp add: Let_def)
    from Cons.IH [OF this] obtain ks where "map snd es = ks @ key # map snd (u_keys w')" "\<forall>k \<in> set ks. k = - 1"
      and same: "u_actions w' = u_actions w" "u_blocked w' = u_blocked w" "u_calls w' = u_calls w" "u_drawn w' = u_drawn w"
      by auto
    with True e have "map snd (e # es) = (- 1 # ks) @ key # map snd (u_keys w') \<and> (\<forall>k \<in> set (- 1 # ks). k = - 1)" by simp
    with same show ?thesis by blast
  next
    case False
    with Cons.prems e show ?thesis by (auto simp: Let_def)
  qed
qed simp

text \<open>What one turn does: the keys it consumed, the query they leave, and the record it returns.\<close>

definition picked :: "pv_vault \<Rightarrow> byte list \<Rightarrow> ui \<Rightarrow> nat \<Rightarrow> ui \<Rightarrow> bool" where
  "picked v query w i w' \<longleftrightarrow> i < length (v_records v) \<and>
     (\<exists>ks key. map snd (u_keys w) = ks @ key # map snd (u_keys w') \<and> key \<in> {10, KEY_ENTER} \<and>
        shown_for (foldl edit_query query ks) (vault_records v ! i))"

definition same_guard :: "ui \<Rightarrow> ui \<Rightarrow> bool" where
  "same_guard w w' \<longleftrightarrow> u_actions w' = u_actions w \<and> u_blocked w' = u_blocked w \<and> u_calls w' = u_calls w \<and>
     (list_all safe_call (u_drawn w) \<longrightarrow> list_all safe_call (u_drawn w'))"

lemma pick_step_laws:
  assumes run: "pick_step v query current0 w = Some r" and q: "list_all printable query"
  shows "case r of
      Inl (result, w') \<Rightarrow> same_guard w w' \<and> (case result of Inr i \<Rightarrow> picked v query w i w' | Inl e \<Rightarrow> True)
    | Inr (query1, current1, w') \<Rightarrow> same_guard w w' \<and>
        (\<exists>ks. map snd (u_keys w) = ks @ map snd (u_keys w') \<and> query1 = foldl edit_query query ks) \<and> list_all printable query1"
proof (cases "u_interrupted w = 0")
  case False
  with run show ?thesis by (auto simp: pick_step_def same_guard_def)
next
  case True
  define matches where "matches = build_matches v query (length (v_records v))"
  define current where "current = clamp_current (length matches) current0"
  obtain ok w1 where d: "draw_screen v (length (v_records v)) query matches current w = (ok, w1)" by fastforce
  note laws = draw_screen_laws [OF d q length_build_matches [of v query, folded matches_def]]
  note step = run [unfolded pick_step_def Let_def, folded matches_def, folded current_def]
  have sg: "same_guard w w1" using laws by (simp add: same_guard_def)
  obtain key w2 where g: "getch_loop (u_keys w1) w1 = Some (key, w2)"
    using step True d laws(1) by (auto split: option.splits)
  note gl = getch_loop_laws [OF g]
  from gl obtain ks where ks: "map snd (u_keys w) = ks @ key # map snd (u_keys w2)" "foldl edit_query query ks = query"
    using draw_screen_keys [OF d] foldl_edit_none [of _ query] by auto
  have sg2: "same_guard w w2" using sg gl by (simp add: same_guard_def)
  consider e where "r = Inl (Inl e, w2)"
    | "r = Inl (Inr (matches ! current), w2)" "key \<in> {10, KEY_ENTER}" "matches \<noteq> []" 
    | "r = Inr (fst (handle_key key (length matches) query current), snd (handle_key key (length matches) query current), w2)"
    using step True d laws(1) g by (auto split: if_splits prod.splits)
  then show ?thesis
  proof cases
    case 2
    then have "current < length matches" by (auto simp: current_def clamp_current_def)
    then have "matches ! current \<in> set matches" by (rule nth_mem)
    then have "matches ! current < length (v_records v)" "shown_for query (vault_records v ! (matches ! current))"
      by (simp_all add: matches_def build_matches_eq)
    with 2 ks sg2 show ?thesis unfolding picked_def by auto
  next
    case 3
    have "map snd (u_keys w) = (ks @ [key]) @ map snd (u_keys w2) \<and> edit_query query key = foldl edit_query query (ks @ [key])"
      using ks by simp
    then show ?thesis using 3 sg2 edit_query_printable [OF q, of key] by (auto simp: handle_key_query)
  qed (use sg2 in simp)
qed

lemma pick_loop_laws:
  "pick_loop v query current w = Some (result, w') \<Longrightarrow> list_all printable query \<Longrightarrow>
     same_guard w w' \<and> (case result of Inr i \<Rightarrow> picked v query w i w' | Inl e \<Rightarrow> True)"
proof (induction v query current w rule: pick_loop.induct)
  case (1 v query current w)
  obtain r where r: "pick_step v query current w = Some r"
    using "1.prems"(1) by (subst (asm) pick_loop.simps) (auto split: option.splits)
  note laws = pick_step_laws [OF r "1.prems"(2)]
  show ?case
  proof (cases r)
    case (Inl fin)
    then show ?thesis using "1.prems"(1) r laws by (subst (asm) pick_loop.simps) auto
  next
    case (Inr more)
    obtain query1 current1 w1 where more: "more = (query1, current1, w1)" using prod_cases3 by blast
    have run: "pick_loop v query1 current1 w1 = Some (result, w')"
      using "1.prems"(1) r Inr more by (subst (asm) pick_loop.simps) auto
    from laws Inr more obtain ks where ks: "map snd (u_keys w) = ks @ map snd (u_keys w1)" "query1 = foldl edit_query query ks"
      and sg: "same_guard w w1" and q1: "list_all printable query1" by auto
    have ih: "same_guard w1 w' \<and> (case result of Inr i \<Rightarrow> picked v query1 w1 i w' | Inl e \<Rightarrow> True)"
      using "1.IH" r Inr more run q1 by blast
    have "picked v query w i w'" if "picked v query1 w1 i w'" for i
    proof -
      from that obtain ks' key where "map snd (u_keys w1) = ks' @ key # map snd (u_keys w')" "key \<in> {10, KEY_ENTER}"
          "shown_for (foldl edit_query query1 ks') (vault_records v ! i)" "i < length (v_records v)"
        by (auto simp: picked_def)
      then show ?thesis using ks unfolding picked_def by (intro conjI exI [of _ "ks @ ks'"] exI [of _ key]) simp_all
    qed
    with ih sg show ?thesis by (auto simp: same_guard_def split: sum.splits)
  qed
qed

lemma pick_screen_laws:
  assumes run: "pick_screen k v g w = Some (result, w')" and g: "fst ` set (g_previous g) \<subseteq> set pv_ui_signals"
  shows "guarded w w'" "list_all safe_call (u_drawn w) \<Longrightarrow> list_all safe_call (u_drawn w')"
    "result = Inr i \<Longrightarrow> picked v [] w i w'"
proof -
  obtain ok w1 where i: "ui_signal_guard_install g w = (ok, w1)" by fastforce
  note st = ui_signal_guard_install_laws [OF i g]
  consider e where "result = Inl e" "w' = w \<or> w' = w1" | "pick_loop v [] 0 w1 = Some (result, w')"
    using run i by (auto simp: pick_screen_def split: if_splits bool.splits)
  then have "guarded w w' \<and> (list_all safe_call (u_drawn w) \<longrightarrow> list_all safe_call (u_drawn w')) \<and>
     (result = Inr i \<longrightarrow> picked v [] w i w')"
  proof cases
    case 1
    then show ?thesis using st by (auto simp: guarded_stage_def)
  next
    case 2
    from pick_loop_laws [OF 2] st show ?thesis
      by (auto simp: guarded_stage_def guarded_def same_guard_def picked_def split: sum.splits)
  qed
  then show "guarded w w'" "list_all safe_call (u_drawn w) \<Longrightarrow> list_all safe_call (u_drawn w')"
    "result = Inr i \<Longrightarrow> picked v [] w i w'" by auto
qed

lemma pick_cleanup_laws:
  assumes run: "pick_cleanup k g result w = (r, w')"
    and g: "g_previous g = map (\<lambda>s. (s, f s)) pv_ui_signals" and other: "\<forall>s. s \<notin> set pv_ui_signals \<longrightarrow> u_actions w s = f s"
  shows "r = Inr i \<or> u_calls w = [] \<Longrightarrow> u_actions w' = f \<and> u_blocked w' = g_previous_mask g"
    "r = Inr i \<Longrightarrow> result = r" "list_all safe_call (u_drawn w) \<Longrightarrow> list_all safe_call (u_drawn w')" "u_keys w' = u_keys w"
proof -
  obtain ok w1 where b: "sigprocmask (\<lambda>s. u_blocked w s \<or> s \<in> set pv_ui_signals) w = (ok, w1)" by fastforce
  note bl = sigprocmask_laws [OF b]
  define w2 where "w2 = (if k_newterm k then w1\<lparr>u_drawn := u_drawn w1 @ [Endwin]\<rparr> else w1)"
  have w2: "u_actions w2 = u_actions w" "u_calls w = [] \<longrightarrow> u_calls w2 = []" "u_keys w2 = u_keys w"
    "list_all safe_call (u_drawn w) \<Longrightarrow> list_all safe_call (u_drawn w2)"
    using bl by (auto simp: w2_def)
  obtain restored w3 where rs: "ui_signal_guard_restore g w2 = (restored, w3)" by fastforce
  have o2: "\<forall>s. s \<notin> set pv_ui_signals \<longrightarrow> u_actions w2 s = f s" using other w2 by simp
  note rl = ui_signal_guard_restore_laws [OF rs g o2]
  have "(r, w') = (if u_interrupted w1 \<noteq> 0 then (Inl PV_ERR_IO, raise_signal (u_interrupted w1) (w3\<lparr>u_interrupted := 0\<rparr>))
      else (if restored then result else Inl PV_ERR_IO, w3\<lparr>u_interrupted := 0\<rparr>))"
    using run rs by (simp add: pick_cleanup_def ui_signal_guard_block_def b Let_def w2_def split: prod.splits)
  then have f: "u_actions w' = u_actions w3" "u_blocked w' = u_blocked w3" "u_drawn w' = u_drawn w3" "u_keys w' = u_keys w3"
    and r: "r = Inr i \<Longrightarrow> restored \<and> result = r"
    by (auto split: if_splits)
  show "r = Inr i \<or> u_calls w = [] \<Longrightarrow> u_actions w' = f \<and> u_blocked w' = g_previous_mask g"
    using f r rl w2 by metis
  show "r = Inr i \<Longrightarrow> result = r" using r by simp
  show "list_all safe_call (u_drawn w) \<Longrightarrow> list_all safe_call (u_drawn w')" "u_keys w' = u_keys w" using f rl w2 by auto
qed


definition demo_ui :: ui where
  "demo_ui = \<lparr>u_calls = [], u_actions = (\<lambda>_. Other_action 0), u_blocked = (\<lambda>_. False), u_pending = [], u_interrupted = 0,
     u_keys = [(0, 10)], u_rows = [], u_drawn = [], u_raised = []\<rparr>"

definition demo_setup :: ui_setup where
  "demo_setup = \<lparr>k_calloc = True, k_ttys = True, k_fdopen_input = True, k_fdopen_output = True, k_newterm = True, k_modes = True\<rparr>"

lemma demo_pick: "map_option fst (pv_ui_pick_internal demo_setup demo_vault demo_ui) = Some (Inr 0)"
  by code_simp


end
