(* ===== verification/Pv_Clipboard.thy ===== *)
theory Pv_Clipboard
  imports Pv_Crypto Pv_Config Pv_Error "HOL-Library.State_Monad"
begin

text \<open>
  The clipboard (\<^verbatim>\<open>src/clipboard.c\<close>, \<^verbatim>\<open>src/clip_main.c\<close>). The client starts a detached helper,
  hands it a secret through a pipe and is told over a control socket when the selection has been
  taken; the helper owns a timer and a child, the owner of the selection, which it ends when the
  time is up. Each process is a program over system calls; the answers of the kernel, and with them
  what the other processes do, are a script in the state, and the calls with their answers are
  recorded. Code for Wayland is compiled only into experimental builds and has no counterpart.
\<close>

section \<open>System calls\<close>

datatype sys_errno = SE_INTR | SE_AGAIN | SE_PIPE | SE_CHILD | SE_OTHER

record revents =
  re_in :: bool
  re_hup :: bool
  re_err :: bool

datatype answer = Ret int | Fds int int | Data "byte list" | Events "revents list" | Err sys_errno

datatype fcntl_op = F_GETFD | F_SETFD | F_GETFL | F_SETFL bool | F_DUPFD_CLOEXEC

datatype call =
    Close int
  | Fcntl int fcntl_op
  | Dup2 int int
  | Pipe2
  | Socketpair
  | Open_null
  | Close_range nat
  | Getrlimit
  | Write int "byte list"
  | Read int nat
  | Recv int
  | Poll "int list" int
  | Sigset
  | Sigprocmask
  | Sigpending
  | Sigtimedwait
  | Sigaction nat
  | Harden nat
  | Prctl_pdeathsig nat
  | Getppid
  | Setsid
  | Fork
  | Waitpid int bool
  | Kill int nat
  | Pidfd_open int
  | Pidfd_signal int nat
  | Nanosleep
  | Timerfd_create
  | Timerfd_settime nat
  | Readlink "byte list" nat
  | Access "byte list"

text \<open>
  An answer may come with a stop signal, whose handler sets \<^verbatim>\<open>pv_clip_stop_requested\<close>. After the last
  scripted answer every call fails.
\<close>

record clip =
  c_answers :: "(bool \<times> answer) list"
  c_stop :: bool
  c_trace :: "(call \<times> answer) list"
  c_environ :: "byte list list"
  c_pid :: int

type_synonym 'a act = "(clip, 'a) state"

definition step_call :: "call \<Rightarrow> clip \<Rightarrow> answer \<times> clip" where
  "step_call c w =
     (case c_answers w of
        [] \<Rightarrow> (Err SE_OTHER, w\<lparr>c_trace := c_trace w @ [(c, Err SE_OTHER)]\<rparr>)
      | (stop, a) # rest \<Rightarrow>
          (a, w\<lparr>c_answers := rest, c_stop := c_stop w \<or> stop, c_trace := c_trace w @ [(c, a)]\<rparr>))"

definition syscall :: "call \<Rightarrow> answer act" where
  "syscall c = State (step_call c)"

fun call_failed :: "answer \<Rightarrow> bool" where
  "call_failed (Err e) = True"
| "call_failed _ = False"

definition call_ok :: "call \<Rightarrow> bool act" where
  "call_ok c = do { a \<leftarrow> syscall c; State_Monad.return (\<not> call_failed a) }"

fun all_ok :: "call list \<Rightarrow> bool act" where
  "all_ok [] = State_Monad.return True"
| "all_ok (c # cs) = do { r \<leftarrow> call_ok c; if r then all_ok cs else State_Monad.return False }"

lemma step_call_shorter:
  "step_call c w = (a, w') \<Longrightarrow> a \<noteq> Err SE_OTHER \<Longrightarrow> length (c_answers w') < length (c_answers w)"
  by (auto simp: step_call_def split: list.splits)

lemma step_call_le: "step_call c w = (a, w') \<Longrightarrow> length (c_answers w') \<le> length (c_answers w)"
  by (auto simp: step_call_def split: list.splits)

text \<open>A call repeated while it is interrupted, in some loops only until a stop signal has arrived.\<close>

function retry_loop :: "bool \<Rightarrow> call \<Rightarrow> clip \<Rightarrow> answer \<times> clip" where
  "retry_loop stoppable c w =
     (case step_call c w of
        (a, w1) \<Rightarrow> if a = Err SE_INTR \<and> \<not> (stoppable \<and> c_stop w1) then retry_loop stoppable c w1 else (a, w1))"
  by pat_completeness auto
termination
  by (relation "measure (\<lambda>(stoppable, c, w). length (c_answers w))") (auto intro: step_call_shorter [OF sym])

declare retry_loop.simps [simp del]

lemma retry_loop_le: "retry_loop stoppable c w = (a, w') \<Longrightarrow> length (c_answers w') \<le> length (c_answers w)"
proof (induction stoppable c w rule: retry_loop.induct)
  case (1 stoppable c w)
  obtain b w1 where b: "step_call c w = (b, w1)" by fastforce
  note le = step_call_le [OF b]
  show ?case
    using "1.prems" "1.IH" [OF b [symmetric]] le unfolding retry_loop.simps [of stoppable c w] b by (auto split: if_splits)
qed

definition retry :: "bool \<Rightarrow> call \<Rightarrow> answer act" where
  "retry stoppable c = State (retry_loop stoppable c)"

section \<open>Descriptors, processes and signals\<close>

definition close_if_open :: "int \<Rightarrow> unit act" where
  "close_if_open fd = (if fd \<ge> 0 then do { _ \<leftarrow> syscall (Close fd); State_Monad.return () } else State_Monad.return ())"

fun close_all :: "int list \<Rightarrow> unit act" where
  "close_all [] = State_Monad.return ()"
| "close_all (fd # fds) = do { _ \<leftarrow> close_if_open fd; close_all fds }"

definition set_cloexec :: "int \<Rightarrow> bool act" where
  "set_cloexec fd = all_ok [Fcntl fd F_GETFD, Fcntl fd F_SETFD]"

definition set_nonblocking :: "int \<Rightarrow> bool act" where
  "set_nonblocking fd = all_ok [Fcntl fd F_GETFL, Fcntl fd (F_SETFL True)]"

definition clear_nonblocking :: "int \<Rightarrow> bool act" where
  "clear_nonblocking fd = all_ok [Fcntl fd F_GETFL, Fcntl fd (F_SETFL False)]"

text \<open>A process id beyond \<^verbatim>\<open>INT_MAX\<close> is an error.\<close>

definition waitpid_nointr :: "int \<Rightarrow> bool \<Rightarrow> answer act" where
  "waitpid_nointr pid nohang = do {
     a \<leftarrow> retry False (Waitpid pid nohang);
     State_Monad.return (case a of Ret n \<Rightarrow> if n > 2147483647 then Err SE_OTHER else a | _ \<Rightarrow> a) }"

function write_all_loop :: "int \<Rightarrow> byte list \<Rightarrow> clip \<Rightarrow> bool \<times> clip" where
  "write_all_loop fd bytes w =
     (if bytes = [] then (True, w)
      else case step_call (Write fd bytes) w of
        (Err e, w1) \<Rightarrow> if e = SE_INTR then write_all_loop fd bytes w1 else (False, w1)
      | (Ret n, w1) \<Rightarrow> if n \<le> 0 then (False, w1) else write_all_loop fd (drop (nat n) bytes) w1
      | (_, w1) \<Rightarrow> (False, w1))"
  by pat_completeness auto
termination
  by (relation "measure (\<lambda>(fd, bytes, w). length (c_answers w))") (auto intro: step_call_shorter [OF sym])

declare write_all_loop.simps [simp del]

definition clip_write_all :: "int \<Rightarrow> byte list \<Rightarrow> bool act" where
  "clip_write_all fd bytes = State (write_all_loop fd bytes)"

function read_all_loop :: "int \<Rightarrow> nat \<Rightarrow> byte list \<Rightarrow> clip \<Rightarrow> byte list option \<times> clip" where
  "read_all_loop fd n got w =
     (if n = 0 then (Some got, w)
      else case step_call (Read fd n) w of
        (Err e, w1) \<Rightarrow> if e = SE_INTR then read_all_loop fd n got w1 else (None, w1)
      | (Data bytes, w1) \<Rightarrow>
          if bytes = [] then (None, w1)
          else read_all_loop fd (n - length (take n bytes)) (got @ take n bytes) w1
      | (_, w1) \<Rightarrow> (None, w1))"
  by pat_completeness auto
termination
  by (relation "measure (\<lambda>(fd, n, got, w). length (c_answers w))") (auto intro: step_call_shorter [OF sym])

declare read_all_loop.simps [simp del]

definition clip_read_all :: "int \<Rightarrow> nat \<Rightarrow> byte list option act" where
  "clip_read_all fd n = State (read_all_loop fd n [])"

text \<open>The three hardening calls (\<^verbatim>\<open>setrlimit\<close>, \<^verbatim>\<open>prctl\<close>, \<^verbatim>\<open>umask\<close>) ignore their outcomes.\<close>

definition harden_clip_process :: "unit act" where
  "harden_clip_process = do {
     _ \<leftarrow> syscall (Harden 0); _ \<leftarrow> syscall (Harden 1); _ \<leftarrow> syscall (Harden 2); State_Monad.return () }"

definition normalize_child_signal_state :: "bool act" where
  "normalize_child_signal_state =
     all_ok [Sigset, Sigprocmask, Sigset, Sigaction 15, Sigaction 2, Sigaction 1, Sigaction 17]"

definition set_sigchld_default :: "bool act" where
  "set_sigchld_default = all_ok [Sigset, Sigaction 17]"

definition install_stop_handlers :: "bool act" where
  "install_stop_handlers = all_ok [Sigset, Sigaction 15, Sigaction 2, Sigaction 1]"

text \<open>\<^verbatim>\<open>sigpending\<close> answers 1 if \<^verbatim>\<open>SIGPIPE\<close> is pending.\<close>

definition send_control :: "int \<Rightarrow> byte \<Rightarrow> bool act" where
  "send_control fd message = do {
     blocked \<leftarrow> all_ok [Sigset, Sigset, Sigprocmask];
     if \<not> blocked then State_Monad.return False
     else do {
       pending \<leftarrow> syscall Sigpending;
       if call_failed pending then do { _ \<leftarrow> syscall Sigprocmask; State_Monad.return False }
       else do {
         result \<leftarrow> retry False (Write fd [message]);
         _ \<leftarrow> (if result = Err SE_PIPE \<and> pending \<noteq> Ret 1 then retry False Sigtimedwait
              else State_Monad.return (Ret 0));
         restored \<leftarrow> call_ok Sigprocmask;
         State_Monad.return (result = Ret 1 \<and> restored) } } }"

definition receive_control :: "int \<Rightarrow> byte option act" where
  "receive_control fd = do {
     a \<leftarrow> retry True (Recv fd);
     State_Monad.return (case a of Data (m # _) \<Rightarrow> Some m | _ \<Rightarrow> None) }"

text \<open>The events waited for are always \<^verbatim>\<open>POLLIN\<close>.\<close>

definition poll_one :: "int \<Rightarrow> int \<Rightarrow> int act" where
  "poll_one fd timeout_ms = do {
     a \<leftarrow> retry True (Poll [fd] timeout_ms);
     State_Monad.return (case a of
         Events (e # _) \<Rightarrow> if re_err e then - 1 else if re_in e \<or> re_hup e then 1 else 0
       | Ret n \<Rightarrow> if n \<le> 0 then n else - 1
       | _ \<Rightarrow> - 1) }"

abbreviation PV_CLIP_MSG_START_TEXT :: byte where "PV_CLIP_MSG_START_TEXT \<equiv> 1"
abbreviation PV_CLIP_MSG_READY :: byte where "PV_CLIP_MSG_READY \<equiv> 2"
abbreviation PV_CLIP_MSG_DONE :: byte where "PV_CLIP_MSG_DONE \<equiv> 3"
abbreviation PV_CLIP_MSG_FAILED :: byte where "PV_CLIP_MSG_FAILED \<equiv> 4"
abbreviation PV_CLIP_MSG_ACCEPTED :: byte where "PV_CLIP_MSG_ACCEPTED \<equiv> 5"
abbreviation PV_CLIP_MSG_START_BINARY :: byte where "PV_CLIP_MSG_START_BINARY \<equiv> 6"

abbreviation PV_CLIP_MAX_TTL_SECONDS :: nat where "PV_CLIP_MAX_TTL_SECONDS \<equiv> 86400"
abbreviation PV_CLIP_SETUP_TIMEOUT_MS :: int where "PV_CLIP_SETUP_TIMEOUT_MS \<equiv> 5000"
abbreviation PV_CLIP_FALLBACK_POLL_MS :: int where "PV_CLIP_FALLBACK_POLL_MS \<equiv> 100"
abbreviation PV_CLIP_SETUP_MAGIC :: u32 where "PV_CLIP_SETUP_MAGIC \<equiv> 0x50435631"

section \<open>The environment\<close>

abbreviation PV_XCLIP_PATH :: "byte list" where "PV_XCLIP_PATH \<equiv> ascii ''/usr/bin/xclip''"

definition clip_getenv :: "byte list list \<Rightarrow> byte list \<Rightarrow> byte list option" where
  "clip_getenv environ key =
     map_option (drop (length key + 1)) (List.find (\<lambda>e. take (length key + 1) e = key @ [0x3d]) environ)"

datatype pv_clip_backend = PV_CLIP_BACKEND_NONE | PV_CLIP_BACKEND_X11

definition choose_backend :: "pv_clip_backend act" where
  "choose_backend = do {
     w \<leftarrow> State_Monad.get;
     let wayland_display = clip_getenv (c_environ w) (ascii ''WAYLAND_DISPLAY'');
         session_type = clip_getenv (c_environ w) (ascii ''XDG_SESSION_TYPE'');
         x11_display = clip_getenv (c_environ w) (ascii ''DISPLAY'')
     in if (wayland_display \<noteq> None \<and> wayland_display \<noteq> Some []) \<or> session_type = Some (ascii ''wayland'')
        then State_Monad.return PV_CLIP_BACKEND_NONE
        else if session_type \<noteq> Some (ascii ''x11'') then State_Monad.return PV_CLIP_BACKEND_NONE
        else if x11_display \<noteq> None \<and> x11_display \<noteq> Some [] then do {
          usable \<leftarrow> call_ok (Access PV_XCLIP_PATH);
          State_Monad.return (if usable then PV_CLIP_BACKEND_X11 else PV_CLIP_BACKEND_NONE) }
        else State_Monad.return PV_CLIP_BACKEND_NONE }"

definition owner_keys :: "byte list list" where
  "owner_keys =
     [ascii ''DISPLAY='', ascii ''XAUTHORITY='', ascii ''HOME='', ascii ''LANG='', ascii ''LC_ALL='', ascii ''LC_CTYPE='']"

definition env_key_is_allowed :: "byte list \<Rightarrow> bool" where
  "env_key_is_allowed e \<longleftrightarrow> list_ex (\<lambda>key. take (length key) e = key) owner_keys"

fun build_owner_environment :: "byte list list \<Rightarrow> nat \<Rightarrow> byte list list" where
  "build_owner_environment [] room = []"
| "build_owner_environment (e # es) room =
     (if room \<le> 1 then []
      else if env_key_is_allowed e then e # build_owner_environment es (room - 1)
      else build_owner_environment es room)"

section \<open>Starting the helper\<close>

text \<open>How the program of a process ends: it exits or becomes another program.\<close>

datatype process_end = Exits int | Execs "byte list" "byte list list" "byte list list"

fun close_each :: "nat list \<Rightarrow> unit act" where
  "close_each [] = State_Monad.return ()"
| "close_each (fd # fds) = do { _ \<leftarrow> syscall (Close (int fd)); close_each fds }"

text \<open>An unlimited number of descriptors is answered by a negative number.\<close>

definition close_fds_from :: "nat \<Rightarrow> unit act" where
  "close_fds_from start = do {
     closed \<leftarrow> call_ok (Close_range start);
     if closed then State_Monad.return ()
     else do {
       limit \<leftarrow> syscall Getrlimit;
       close_each [start..<(case limit of Ret n \<Rightarrow> if n < 0 then 65536 else nat n | _ \<Rightarrow> 65536)] } }"

definition redirect_fds :: "int list \<Rightarrow> bool act" where
  "redirect_fds targets = do {
     opened \<leftarrow> syscall Open_null;
     case opened of
       Ret null_fd \<Rightarrow> do {
         duplicated \<leftarrow> all_ok (map (Dup2 null_fd) targets);
         if \<not> duplicated then do { _ \<leftarrow> syscall (Close null_fd); State_Monad.return False }
         else do {
           _ \<leftarrow> (if null_fd > 2 then syscall (Close null_fd) else State_Monad.return (Ret 0));
           State_Monad.return True } }
     | _ \<Rightarrow> State_Monad.return False }"

definition redirect_standard_fds :: "bool act" where
  "redirect_standard_fds = redirect_fds [0, 1, 2]"

definition redirect_output_fds :: "bool act" where
  "redirect_output_fds = redirect_fds [1, 2]"

definition duplicate_fd :: "int \<Rightarrow> int act" where
  "duplicate_fd fd = do {
     a \<leftarrow> syscall (Fcntl fd F_DUPFD_CLOEXEC);
     State_Monad.return (case a of Ret n \<Rightarrow> n | _ \<Rightarrow> - 1) }"

definition duplicate_to_known_fds :: "int \<Rightarrow> int \<Rightarrow> int \<Rightarrow> bool act" where
  "duplicate_to_known_fds data_fd control_fd setup_fd = do {
     d \<leftarrow> duplicate_fd data_fd;
     c \<leftarrow> duplicate_fd control_fd;
     s \<leftarrow> duplicate_fd setup_fd;
     result \<leftarrow> (if d < 0 \<or> c < 0 \<or> s < 0 then State_Monad.return False
       else all_ok [Dup2 d 3, Dup2 c 4, Dup2 s 5]);
     _ \<leftarrow> close_all [d, c, s];
     State_Monad.return result }"

definition pv_statuses :: "pv_status list" where
  "pv_statuses =
     [PV_OK, PV_ERR_USAGE, PV_ERR_AUTH, PV_ERR_IO, PV_ERR_SECURE_MEMORY, PV_ERR_LOCKED, PV_ERR_EXTERNAL, PV_ERR_FORMAT,
      PV_ERR_LIMIT, PV_ERR_NOT_FOUND, PV_ERR_EXISTS, PV_ERR_STATE, PV_ERR_DURABILITY, PV_ERR_NOMEM, PV_ERR_UNSUPPORTED]"

fun status_index :: "pv_status list \<Rightarrow> pv_status \<Rightarrow> nat" where
  "status_index [] status = 0"
| "status_index (s # ss) status = (if s = status then 0 else Suc (status_index ss status))"

text \<open>The structure as it lies in memory on a little-endian machine.\<close>

definition pv_clip_setup_result :: "pv_status \<Rightarrow> int \<Rightarrow> byte list" where
  "pv_clip_setup_result status worker_pid =
     put_u32_le PV_CLIP_SETUP_MAGIC @ put_u32_le (word_of_nat (status_index pv_statuses status)) @
     put_u64_le (word_of_int worker_pid)"

definition report_setup :: "int \<Rightarrow> pv_status \<Rightarrow> bool act" where
  "report_setup setup_fd status = do {
     w \<leftarrow> State_Monad.get;
     clip_write_all setup_fd (pv_clip_setup_result status (c_pid w)) }"

definition report_preexec_failure :: "int \<Rightarrow> pv_status \<Rightarrow> int \<Rightarrow> process_end act" where
  "report_preexec_failure setup_fd status code = do {
     _ \<leftarrow> report_setup setup_fd status;
     State_Monad.return (Exits code) }"

definition helper_name :: "byte list" where
  "helper_name = ascii ''pvault-clip''"

definition last_slash :: "byte list \<Rightarrow> nat option" where
  "last_slash path =
     (let after = takeWhile (\<lambda>c. c \<noteq> 0x2f) (rev path)
      in if length after = length path then None else Some (length path - length after - 1))"

definition resolve_helper_path :: "nat \<Rightarrow> byte list pv_result act" where
  "resolve_helper_path capacity =
     (if capacity < length helper_name + 1 then State_Monad.return (Inl PV_ERR_USAGE)
      else do {
        link \<leftarrow> syscall (Readlink (ascii ''/proc/self/exe'') (capacity - 1));
        case link of
          Data path \<Rightarrow>
            if length path \<ge> capacity - 1 then State_Monad.return (Inl PV_ERR_EXTERNAL)
            else (case last_slash path of
              None \<Rightarrow> State_Monad.return (Inl PV_ERR_EXTERNAL)
            | Some slash_at \<Rightarrow>
                if slash_at + 1 > capacity - (length helper_name + 1) then State_Monad.return (Inl PV_ERR_LIMIT)
                else do {
                  beside \<leftarrow> call_ok (Access (take (slash_at + 1) path @ helper_name));
                  if beside then State_Monad.return (Inr (take (slash_at + 1) path @ helper_name))
                  else if length (ascii ''/usr/bin/pvault-clip'') + 1 > capacity then State_Monad.return (Inl PV_ERR_LIMIT)
                  else do {
                    installed \<leftarrow> call_ok (Access (ascii ''/usr/bin/pvault-clip''));
                    State_Monad.return (if installed then Inr (ascii ''/usr/bin/pvault-clip'') else Inl PV_ERR_EXTERNAL) } })
        | _ \<Rightarrow> State_Monad.return (Inl PV_ERR_EXTERNAL) })"

text \<open>
  The launcher: \<^verbatim>\<open>fork\<close> answers 0 in the new process, which becomes the helper. The call
  \<^verbatim>\<open>execv\<close> does not return if it succeeds; \<open>exec_ok\<close> says whether it does.
\<close>

definition launch_detached_helper :: "bool \<Rightarrow> byte list \<Rightarrow> int \<Rightarrow> int \<Rightarrow> int \<Rightarrow> nat \<Rightarrow> process_end act" where
  "launch_detached_helper exec_ok helper_path data_fd control_fd setup_fd ttl_seconds = do {
     worker \<leftarrow> syscall Fork;
     case worker of
       Ret n \<Rightarrow>
         if n > 0 then State_Monad.return (Exits 0)
         else do {
           session \<leftarrow> call_ok Setsid;
           if \<not> session then report_preexec_failure setup_fd PV_ERR_IO 126
           else do {
             _ \<leftarrow> harden_clip_process;
             duplicated \<leftarrow> duplicate_to_known_fds data_fd control_fd setup_fd;
             if \<not> duplicated then report_preexec_failure setup_fd PV_ERR_IO 126
             else do {
               redirected \<leftarrow> redirect_standard_fds;
               if \<not> redirected then report_preexec_failure 5 PV_ERR_IO 126
               else do {
                 _ \<leftarrow> close_fds_from 6;
                 w \<leftarrow> State_Monad.get;
                 let ttl_buffer = print_decimal ttl_seconds
                 in if length ttl_buffer \<ge> 16 then report_preexec_failure 5 PV_ERR_LIMIT 126
                    else if exec_ok then State_Monad.return (Execs helper_path
                      [helper_name, ascii ''--worker'', ascii ''3'', ascii ''4'', ascii ''5'', ttl_buffer] (c_environ w))
                    else report_preexec_failure 5 PV_ERR_EXTERNAL 127 } } } }
     | _ \<Rightarrow> report_preexec_failure setup_fd PV_ERR_IO 126 }"

section \<open>The client\<close>

record pv_clipboard_job =
  j_write_fd :: int
  j_control_fd :: int
  j_supervisor_fd :: int
  j_supervisor_pid :: int

definition no_job :: pv_clipboard_job where
  "no_job = \<lparr>j_write_fd = - 1, j_control_fd = - 1, j_supervisor_fd = - 1, j_supervisor_pid = - 1\<rparr>"

definition pidfd_open_local :: "int \<Rightarrow> int act" where
  "pidfd_open_local pid = do {
     a \<leftarrow> syscall (Pidfd_open pid);
     State_Monad.return (case a of Ret n \<Rightarrow> n | _ \<Rightarrow> - 1) }"

definition pv_clipboard_cancel :: "pv_clipboard_job \<Rightarrow> pv_clipboard_job act" where
  "pv_clipboard_cancel job = do {
     _ \<leftarrow> close_if_open (j_write_fd job);
     _ \<leftarrow> close_if_open (j_control_fd job);
     _ \<leftarrow> (if j_supervisor_pid job > 1 \<and> j_supervisor_fd job \<ge> 0 then syscall (Pidfd_signal (j_supervisor_fd job) 15)
          else State_Monad.return (Ret 0));
     _ \<leftarrow> close_if_open (j_supervisor_fd job);
     State_Monad.return no_job }"

definition decode_setup :: "byte list \<Rightarrow> int pv_result" where
  "decode_setup bytes =
     (let magic = get_u32_le (take 4 bytes);
          status = sint (get_u32_le (take 4 (drop 4 bytes)));
          worker_pid = sint (get_u64_le (take 8 (drop 8 bytes)))
      in if magic \<noteq> PV_CLIP_SETUP_MAGIC \<or> worker_pid \<le> 1 \<or> worker_pid > 2147483647 then Inl PV_ERR_FORMAT
         else if status < 0 \<or> status \<ge> int (length pv_statuses) then Inl PV_ERR_FORMAT
         else if status \<noteq> 0 then Inl (pv_statuses ! nat status)
         else Inr worker_pid)"

definition wait_for_setup :: "int \<Rightarrow> int pv_result act" where
  "wait_for_setup fd = do {
     ready \<leftarrow> poll_one fd PV_CLIP_SETUP_TIMEOUT_MS;
     if ready = 0 then State_Monad.return (Inl PV_ERR_EXTERNAL)
     else if ready < 0 then State_Monad.return (Inl PV_ERR_IO)
     else do {
       result \<leftarrow> clip_read_all fd 16;
       State_Monad.return (case result of None \<Rightarrow> Inl PV_ERR_IO | Some bytes \<Rightarrow> decode_setup bytes) } }"

definition wait_for_message :: "byte \<Rightarrow> int \<Rightarrow> pv_status act" where
  "wait_for_message expected fd = do {
     ready \<leftarrow> poll_one fd PV_CLIP_SETUP_TIMEOUT_MS;
     if ready = 0 then State_Monad.return PV_ERR_EXTERNAL
     else if ready < 0 then State_Monad.return PV_ERR_IO
     else do {
       message \<leftarrow> receive_control fd;
       State_Monad.return (case message of
           None \<Rightarrow> PV_ERR_IO | Some m \<Rightarrow> if m = expected then PV_OK else PV_ERR_EXTERNAL) } }"

definition wait_for_owner_ready :: "int \<Rightarrow> pv_status act" where
  "wait_for_owner_ready = wait_for_message PV_CLIP_MSG_READY"

definition wait_for_owner_accepted :: "int \<Rightarrow> pv_status act" where
  "wait_for_owner_accepted = wait_for_message PV_CLIP_MSG_ACCEPTED"

text \<open>
  The loop writes until everything is written; when the pipe is full it waits for room and gives up
  if the helper speaks or goes away. It says also whether the last error was \<^verbatim>\<open>EPIPE\<close>.
\<close>

function write_secret_loop :: "int \<Rightarrow> int \<Rightarrow> byte list \<Rightarrow> clip \<Rightarrow> (pv_status \<times> bool) \<times> clip" where
  "write_secret_loop data_fd ctrl_fd bytes w =
     (if bytes = [] then ((PV_OK, False), w)
      else case step_call (Write data_fd bytes) w of
        (Ret n, w1) \<Rightarrow>
          if n > 0 then write_secret_loop data_fd ctrl_fd (drop (nat n) bytes) w1
          else ((PV_ERR_EXTERNAL, False), w1)
      | (Err e, w1) \<Rightarrow>
          if e = SE_INTR then write_secret_loop data_fd ctrl_fd bytes w1
          else if e = SE_AGAIN then
            (case retry_loop False (Poll [data_fd, ctrl_fd] PV_CLIP_SETUP_TIMEOUT_MS) w1 of
               (Events [_, e1], w2) \<Rightarrow>
                 if re_in e1 \<or> re_hup e1 \<or> re_err e1 then ((PV_ERR_EXTERNAL, False), w2)
                 else write_secret_loop data_fd ctrl_fd bytes w2
             | (_, w2) \<Rightarrow> ((PV_ERR_EXTERNAL, False), w2))
          else ((PV_ERR_EXTERNAL, e = SE_PIPE), w1)
      | (_, w1) \<Rightarrow> ((PV_ERR_EXTERNAL, False), w1))"
  by pat_completeness auto
termination
  by (relation "measure (\<lambda>(data_fd, ctrl_fd, bytes, w). length (c_answers w))")
    (auto dest!: sym [of "(_, _)"] step_call_shorter retry_loop_le)

declare write_secret_loop.simps [simp del]

definition write_secret :: "int \<Rightarrow> int \<Rightarrow> byte list \<Rightarrow> pv_status act" where
  "write_secret data_fd ctrl_fd secret = do {
     blocked \<leftarrow> all_ok [Sigset, Sigset, Sigprocmask];
     if \<not> blocked then State_Monad.return PV_ERR_IO
     else do {
       pending \<leftarrow> syscall Sigpending;
       if call_failed pending then do { _ \<leftarrow> syscall Sigprocmask; State_Monad.return PV_ERR_IO }
       else do {
         result \<leftarrow> State (write_secret_loop data_fd ctrl_fd secret);
         _ \<leftarrow> (if fst result \<noteq> PV_OK \<and> snd result \<and> pending \<noteq> Ret 1 then retry False Sigtimedwait
              else State_Monad.return (Ret 0));
         restored \<leftarrow> call_ok Sigprocmask;
         State_Monad.return (if \<not> restored \<and> fst result = PV_OK then PV_ERR_IO else fst result) } } }"

text \<open>
  The cleanup of \<^verbatim>\<open>pv_clipboard_prepare\<close>: \<open>overridden\<close> says whether \<^verbatim>\<open>SIGCHLD\<close> still has the
  disposition the function gave it.
\<close>

definition prepare_cleanup :: "bool \<Rightarrow> int list \<Rightarrow> pv_status \<Rightarrow> (pv_status \<times> pv_clipboard_job) act" where
  "prepare_cleanup overridden fds status = do {
     _ \<leftarrow> (if overridden then call_ok (Sigaction 17) else State_Monad.return True);
     _ \<leftarrow> close_all fds;
     State_Monad.return (status, no_job) }"

text \<open>In the parent \<^verbatim>\<open>fork\<close> answers the positive id of the child, whose program is \<open>launcher\<close>.\<close>

definition launcher :: "bool \<Rightarrow> byte list \<Rightarrow> int \<times> int \<Rightarrow> int \<times> int \<Rightarrow> int \<times> int \<Rightarrow> nat \<Rightarrow> process_end act" where
  "launcher exec_ok helper_path data_pipe control_pair setup_pipe ttl_seconds = do {
     _ \<leftarrow> syscall (Close (snd data_pipe));
     _ \<leftarrow> syscall (Close (fst control_pair));
     _ \<leftarrow> syscall (Close (fst setup_pipe));
     launch_detached_helper exec_ok helper_path (fst data_pipe) (snd control_pair) (snd setup_pipe) ttl_seconds }"

definition await_helper :: "int \<Rightarrow> int \<Rightarrow> int \<Rightarrow> int \<Rightarrow> (pv_status \<times> pv_clipboard_job) act" where
  "await_helper pid d1 c0 s0 = do {
     waited \<leftarrow> waitpid_nointr pid False;
     restored \<leftarrow> call_ok (Sigaction 17);
     if \<not> restored \<or> call_failed waited then prepare_cleanup False [d1, c0, s0] PV_ERR_IO
     else do {
       setup \<leftarrow> wait_for_setup s0;
       case setup of
         Inl e \<Rightarrow> prepare_cleanup False [d1, c0, s0] e
       | Inr worker_pid \<Rightarrow> do {
           pidfd \<leftarrow> pidfd_open_local worker_pid;
           _ \<leftarrow> close_all [s0];
           State_Monad.return (PV_OK,
             \<lparr>j_write_fd = d1, j_control_fd = c0, j_supervisor_fd = pidfd, j_supervisor_pid = worker_pid\<rparr>) } } }"

definition start_helper :: "int \<times> int \<Rightarrow> int \<times> int \<Rightarrow> int \<times> int \<Rightarrow> (pv_status \<times> pv_clipboard_job) act" where
  "start_helper data_pipe control_pair setup_pipe =
     (let fds = [fst data_pipe, snd data_pipe, fst control_pair, snd control_pair, fst setup_pipe, snd setup_pipe]
      in do {
        nonblocking \<leftarrow> set_nonblocking (snd data_pipe);
        if \<not> nonblocking then prepare_cleanup False fds PV_ERR_IO
        else do {
          default_action \<leftarrow> set_sigchld_default;
          if \<not> default_action then prepare_cleanup False fds PV_ERR_IO
          else do {
            child \<leftarrow> syscall Fork;
            case child of
              Ret pid \<Rightarrow> do {
                _ \<leftarrow> close_all [fst data_pipe, snd control_pair, snd setup_pipe];
                await_helper pid (snd data_pipe) (fst control_pair) (fst setup_pipe) }
            | _ \<Rightarrow> prepare_cleanup True fds PV_ERR_IO } } })"

definition pv_clipboard_prepare :: "nat \<Rightarrow> (pv_status \<times> pv_clipboard_job) act" where
  "pv_clipboard_prepare ttl_seconds =
     (if (if ttl_seconds = 0 then 10 else ttl_seconds) > PV_CLIP_MAX_TTL_SECONDS
      then State_Monad.return (PV_ERR_LIMIT, no_job)
      else do {
        helper \<leftarrow> resolve_helper_path 4096;
        case helper of
          Inl e \<Rightarrow> State_Monad.return (e, no_job)
        | Inr helper_path \<Rightarrow> do {
            a \<leftarrow> syscall Pipe2;
            case a of
              Fds d0 d1 \<Rightarrow> do {
                b \<leftarrow> syscall Socketpair;
                case b of
                  Fds c0 c1 \<Rightarrow> do {
                    c \<leftarrow> syscall Pipe2;
                    case c of
                      Fds s0 s1 \<Rightarrow> start_helper (d0, d1) (c0, c1) (s0, s1)
                    | _ \<Rightarrow> prepare_cleanup False [d0, d1, c0, c1] PV_ERR_IO }
                | _ \<Rightarrow> prepare_cleanup False [d0, d1] PV_ERR_IO }
            | _ \<Rightarrow> prepare_cleanup False [] PV_ERR_IO } })"

definition start_message :: "byte list \<Rightarrow> byte" where
  "start_message secret =
     (if 0 \<notin> set secret \<and> pv_utf8_valid (Bytes secret) then PV_CLIP_MSG_START_TEXT else PV_CLIP_MSG_START_BINARY)"

definition cancelled :: "pv_clipboard_job \<Rightarrow> pv_status \<Rightarrow> (pv_status \<times> pv_clipboard_job) act" where
  "cancelled job status = do { job1 \<leftarrow> pv_clipboard_cancel job; State_Monad.return (status, job1) }"

definition pv_clipboard_send :: "pv_clipboard_job \<Rightarrow> byte list \<Rightarrow> (pv_status \<times> pv_clipboard_job) act" where
  "pv_clipboard_send job secret =
     (if secret = [] \<or> j_write_fd job < 0 \<or> j_control_fd job < 0 \<or> j_supervisor_pid job \<le> 1
      then State_Monad.return (PV_ERR_USAGE, job)
      else if length secret > PV_MAX_PLAINTEXT then State_Monad.return (PV_ERR_LIMIT, job)
      else do {
        started \<leftarrow> send_control (j_control_fd job) (start_message secret);
        if \<not> started then cancelled job PV_ERR_EXTERNAL
        else do {
          ready \<leftarrow> wait_for_owner_ready (j_control_fd job);
          if ready \<noteq> PV_OK then cancelled job ready
          else do {
            written \<leftarrow> write_secret (j_write_fd job) (j_control_fd job) secret;
            _ \<leftarrow> close_if_open (j_write_fd job);
            finished \<leftarrow> (if written = PV_OK then send_control (j_control_fd job) PV_CLIP_MSG_DONE
              else State_Monad.return False);
            if \<not> finished
            then cancelled (job\<lparr>j_write_fd := - 1\<rparr>) (if written \<noteq> PV_OK then written else PV_ERR_EXTERNAL)
            else do {
              accepted \<leftarrow> wait_for_owner_accepted (j_control_fd job);
              if accepted \<noteq> PV_OK then cancelled (job\<lparr>j_write_fd := - 1\<rparr>) accepted
              else do {
                _ \<leftarrow> close_if_open (j_control_fd job);
                _ \<leftarrow> close_if_open (j_supervisor_fd job);
                State_Monad.return (PV_OK, no_job) } } } } })"

section \<open>The owner of the selection\<close>

definition owner_fails :: "32 word \<Rightarrow> int \<Rightarrow> int \<Rightarrow> process_end act" where
  "owner_fails saved_errno error_fd code = do {
     _ \<leftarrow> clip_write_all error_fd (put_u32_le saved_errno);
     State_Monad.return (Exits code) }"

text \<open>
  The program of the child that becomes the owner; it reports its \<^verbatim>\<open>errno\<close> over a pipe
  that a successful \<^verbatim>\<open>execve\<close> closes. A run has at most one failure that is reported: \<open>errno\<close> is
  the number the kernel leaves there; another parent is reported as \<^verbatim>\<open>ECHILD\<close>, which is 10.
\<close>

definition owner_exec :: "32 word \<Rightarrow> bool \<Rightarrow> int \<Rightarrow> int \<Rightarrow> int \<Rightarrow> process_end act" where
  "owner_exec errno exec_ok data_fd error_fd expected_parent = do {
     normal \<leftarrow> normalize_child_signal_state;
     if \<not> normal then owner_fails errno error_fd 126
     else do {
       _ \<leftarrow> harden_clip_process;
       tied \<leftarrow> call_ok (Prctl_pdeathsig 15);
       if \<not> tied then owner_fails errno error_fd 126
       else do {
         parent \<leftarrow> syscall Getppid;
         if parent \<noteq> Ret expected_parent then owner_fails 10 error_fd 126
         else do {
           blocking \<leftarrow> clear_nonblocking data_fd;
           input \<leftarrow> (if blocking then call_ok (Dup2 data_fd 0) else State_Monad.return False);
           if \<not> input then owner_fails errno error_fd 126
           else do {
             redirected \<leftarrow> redirect_output_fds;
             if \<not> redirected then owner_fails errno error_fd 126
             else do {
               w \<leftarrow> State_Monad.get;
               moved \<leftarrow> (if error_fd \<noteq> 6 then call_ok (Dup2 error_fd 6) else State_Monad.return True);
               if \<not> moved then State_Monad.return (Exits 126)
               else do {
                 _ \<leftarrow> set_cloexec 6;
                 _ \<leftarrow> close_fds_from 7;
                 if exec_ok then State_Monad.return (Execs PV_XCLIP_PATH
                   [ascii ''xclip'', ascii ''-selection'', ascii ''clipboard'', ascii ''-in'', ascii ''-quiet'']
                   (build_owner_environment (c_environ w) 16))
                 else owner_fails errno 6 127 } } } } } } }"

definition owner_process :: "32 word \<Rightarrow> bool \<Rightarrow> int \<Rightarrow> int \<times> int \<Rightarrow> int \<Rightarrow> process_end act" where
  "owner_process errno exec_ok data_fd error_pipe expected_parent = do {
     _ \<leftarrow> syscall (Close (fst error_pipe));
     owner_exec errno exec_ok data_fd (snd error_pipe) expected_parent }"

text \<open>In the parent: the id of the owner once the pipe has been closed by its \<^verbatim>\<open>execve\<close>, or -1.\<close>

definition spawn_owner :: "int \<Rightarrow> int act" where
  "spawn_owner data_fd = do {
     p \<leftarrow> syscall Pipe2;
     case p of
       Fds e0 e1 \<Rightarrow> do {
         child \<leftarrow> syscall Fork;
         case child of
           Ret owner \<Rightarrow> do {
             _ \<leftarrow> close_if_open e1;
             received \<leftarrow> retry False (Read e0 4);
             _ \<leftarrow> close_if_open e0;
             if received = Data [] then State_Monad.return owner
             else do { _ \<leftarrow> waitpid_nointr owner False; State_Monad.return (- 1) } }
         | _ \<Rightarrow> do { _ \<leftarrow> close_if_open e0; _ \<leftarrow> close_if_open e1; State_Monad.return (- 1) } }
     | _ \<Rightarrow> State_Monad.return (- 1) }"

definition owner_has_exited :: "int \<Rightarrow> bool act" where
  "owner_has_exited owner = do {
     a \<leftarrow> waitpid_nointr owner True;
     State_Monad.return (a = Ret owner \<or> a = Err SE_CHILD) }"

definition signal_owner :: "int \<Rightarrow> int \<Rightarrow> nat \<Rightarrow> bool act" where
  "signal_owner owner owner_pidfd signal_number =
     (if owner_pidfd \<ge> 0 then do {
        signalled \<leftarrow> call_ok (Pidfd_signal owner_pidfd signal_number);
        if signalled then State_Monad.return True else call_ok (Kill owner signal_number) }
      else call_ok (Kill owner signal_number))"

text \<open>The grace period: 25 pauses of ten milliseconds.\<close>

fun grace_period :: "nat \<Rightarrow> int \<Rightarrow> bool act" where
  "grace_period 0 owner = State_Monad.return False"
| "grace_period (Suc n) owner = do {
     gone \<leftarrow> owner_has_exited owner;
     if gone then State_Monad.return True
     else do { _ \<leftarrow> syscall Nanosleep; grace_period n owner } }"

definition terminate_owner :: "int \<Rightarrow> int \<Rightarrow> unit act" where
  "terminate_owner owner owner_pidfd =
     (if owner \<le> 0 then State_Monad.return ()
      else do {
        gone \<leftarrow> owner_has_exited owner;
        if gone then State_Monad.return ()
        else do {
          _ \<leftarrow> signal_owner owner owner_pidfd 15;
          exited \<leftarrow> grace_period 25 owner;
          if exited then State_Monad.return ()
          else do {
            killed \<leftarrow> signal_owner owner owner_pidfd 9;
            if \<not> killed then State_Monad.return ()
            else do { _ \<leftarrow> waitpid_nointr owner False; State_Monad.return () } } } })"

section \<open>The helper\<close>

text \<open>
  The two waiting loops. A poll on the descriptor of the owner's process answers for two items;
  without such a descriptor it answers for one, and the owner is asked for at every turn.
\<close>

fun event :: "nat \<Rightarrow> answer \<Rightarrow> revents option" where
  "event i (Events es) = (if i < length es then Some (es ! i) else None)"
| "event i _ = None"

definition event_in :: "nat \<Rightarrow> answer \<Rightarrow> bool" where
  "event_in i a \<longleftrightarrow> (case event i a of None \<Rightarrow> False | Some e \<Rightarrow> re_in e)"

definition event_bad :: "nat \<Rightarrow> answer \<Rightarrow> bool" where
  "event_bad i a \<longleftrightarrow> (case event i a of None \<Rightarrow> False | Some e \<Rightarrow> re_hup e \<or> re_err e)"

definition polled_fds :: "int \<Rightarrow> int \<Rightarrow> int list" where
  "polled_fds fd owner_pidfd = (if owner_pidfd \<ge> 0 then [fd, owner_pidfd] else [fd])"

definition poll_timeout :: "int \<Rightarrow> int" where
  "poll_timeout owner_pidfd = (if owner_pidfd \<ge> 0 then - 1 else PV_CLIP_FALLBACK_POLL_MS)"

text \<open>
  One turn of \<^verbatim>\<open>wait_for_done\<close>: \<open>None\<close> is another turn, \<open>Some ok\<close> the end of the loop.
\<close>

definition done_turn :: "int \<Rightarrow> int \<Rightarrow> int \<Rightarrow> answer \<Rightarrow> bool option act" where
  "done_turn ctrl_fd owner owner_pidfd a = do {
     w \<leftarrow> State_Monad.get;
     if c_stop w \<or> call_failed a then State_Monad.return (Some False)
     else do {
       gone \<leftarrow> (if owner_pidfd < 0 then owner_has_exited owner else State_Monad.return False);
       if gone then State_Monad.return (Some False)
       else if owner_pidfd \<ge> 0 \<and> event_in 1 a then do {
         _ \<leftarrow> waitpid_nointr owner False; State_Monad.return (Some False) }
       else if event_in 0 a then do {
         message \<leftarrow> receive_control ctrl_fd;
         State_Monad.return (Some (message = Some PV_CLIP_MSG_DONE)) }
       else if event_bad 0 a then State_Monad.return (Some False)
       else State_Monad.return None } }"

definition timeout_turn :: "int \<Rightarrow> int \<Rightarrow> int \<Rightarrow> answer \<Rightarrow> int option act" where
  "timeout_turn owner owner_pidfd timer_fd a = do {
     w \<leftarrow> State_Monad.get;
     if c_stop w \<or> call_failed a then State_Monad.return (Some (- 1))
     else do {
       gone \<leftarrow> (if owner_pidfd < 0 then owner_has_exited owner else State_Monad.return False);
       if gone then State_Monad.return (Some 0)
       else if owner_pidfd \<ge> 0 \<and> event_in 1 a then do {
         _ \<leftarrow> waitpid_nointr owner False; State_Monad.return (Some 0) }
       else if event_in 0 a then do {
         received \<leftarrow> retry False (Read timer_fd 8);
         State_Monad.return (Some (case received of
             Data bytes \<Rightarrow> if length bytes = 8 then 1 else - 1 | _ \<Rightarrow> - 1)) }
       else State_Monad.return None } }"

definition shrinks :: "'a act \<Rightarrow> bool" where
  "shrinks m \<longleftrightarrow> (\<forall>w r w'. run_state m w = (r, w') \<longrightarrow> length (c_answers w') \<le> length (c_answers w))"

lemma shrinks_return: "shrinks (State_Monad.return x)"
  by (simp add: shrinks_def State_Monad.return_def)

lemma shrinks_get: "shrinks State_Monad.get"
  by (simp add: shrinks_def State_Monad.get_def)

lemma shrinks_bind: "shrinks m \<Longrightarrow> (\<And>x. shrinks (f x)) \<Longrightarrow> shrinks (State_Monad.bind m f)"
  unfolding shrinks_def by (fastforce simp: State_Monad.bind_def split: prod.splits intro: order_trans)

lemma shrinks_syscall: "shrinks (syscall c)"
  by (auto simp: shrinks_def syscall_def dest: step_call_le)

lemma shrinks_retry: "shrinks (retry stoppable c)"
  by (auto simp: shrinks_def retry_def dest: retry_loop_le)

lemmas shrinks_intros = shrinks_return shrinks_get shrinks_bind shrinks_syscall shrinks_retry

lemma shrinks_waitpid: "shrinks (waitpid_nointr pid nohang)"
  unfolding waitpid_nointr_def by (intro shrinks_intros)

lemma shrinks_turns: "shrinks (done_turn c p f a)" "shrinks (timeout_turn p f t a)"
  unfolding done_turn_def timeout_turn_def owner_has_exited_def receive_control_def
  by (auto intro!: shrinks_intros shrinks_waitpid)

lemma retry_loop_shorter:
  "retry_loop stoppable c w = (a, w') \<Longrightarrow> \<not> call_failed a \<Longrightarrow> length (c_answers w') < length (c_answers w)"
proof (induction stoppable c w rule: retry_loop.induct)
  case (1 stoppable c w)
  obtain b w1 where b: "step_call c w = (b, w1)" by fastforce
  note le = step_call_le [OF b] step_call_shorter [OF b]
  show ?case
    using "1.prems" "1.IH" [OF b [symmetric]] le unfolding retry_loop.simps [of stoppable c w] b
    by (cases a) (auto split: if_splits)
qed

lemma turn_goes_on:
  assumes "retry_loop True c w = (a, w1)"
  shows "run_state (done_turn k p f a) w1 = (None, w2) \<Longrightarrow> length (c_answers w2) < length (c_answers w)"
    and "run_state (timeout_turn p f t a) w1 = (None, w2) \<Longrightarrow> length (c_answers w2) < length (c_answers w)"
proof -
  have ok: "\<not> call_failed a" if "run_state (done_turn k p f a) w1 = (None, w2) \<or> run_state (timeout_turn p f t a) w1 = (None, w2)"
    using that by (auto simp: done_turn_def timeout_turn_def State_Monad.bind_def State_Monad.get_def State_Monad.return_def)
  show "run_state (done_turn k p f a) w1 = (None, w2) \<Longrightarrow> length (c_answers w2) < length (c_answers w)"
    "run_state (timeout_turn p f t a) w1 = (None, w2) \<Longrightarrow> length (c_answers w2) < length (c_answers w)"
    using ok retry_loop_shorter [OF assms] shrinks_turns [unfolded shrinks_def] by (fastforce dest: order.strict_trans1)+
qed

function done_loop :: "int \<Rightarrow> int \<Rightarrow> int \<Rightarrow> clip \<Rightarrow> bool \<times> clip" where
  "done_loop ctrl_fd owner owner_pidfd w =
     (case retry_loop True (Poll (polled_fds ctrl_fd owner_pidfd) (poll_timeout owner_pidfd)) w of
        (a, w1) \<Rightarrow>
          (case run_state (done_turn ctrl_fd owner owner_pidfd a) w1 of
             (Some r, w2) \<Rightarrow> (r, w2)
           | (None, w2) \<Rightarrow> done_loop ctrl_fd owner owner_pidfd w2))"
  by pat_completeness auto
termination
  by (relation "measure (\<lambda>(ctrl_fd, owner, owner_pidfd, w). length (c_answers w))") (auto intro: turn_goes_on [OF sym])

function timeout_loop :: "int \<Rightarrow> int \<Rightarrow> int \<Rightarrow> clip \<Rightarrow> int \<times> clip" where
  "timeout_loop owner owner_pidfd timer_fd w =
     (case retry_loop True (Poll (polled_fds timer_fd owner_pidfd) (poll_timeout owner_pidfd)) w of
        (a, w1) \<Rightarrow>
          (case run_state (timeout_turn owner owner_pidfd timer_fd a) w1 of
             (Some r, w2) \<Rightarrow> (r, w2)
           | (None, w2) \<Rightarrow> timeout_loop owner owner_pidfd timer_fd w2))"
  by pat_completeness auto
termination
  by (relation "measure (\<lambda>(owner, owner_pidfd, timer_fd, w). length (c_answers w))") (auto intro: turn_goes_on [OF sym])

declare done_loop.simps [simp del] timeout_loop.simps [simp del]

definition wait_for_done :: "int \<Rightarrow> int \<Rightarrow> int \<Rightarrow> bool act" where
  "wait_for_done ctrl_fd owner owner_pidfd = State (done_loop ctrl_fd owner owner_pidfd)"

definition wait_for_owner_or_timeout :: "int \<Rightarrow> int \<Rightarrow> int \<Rightarrow> int act" where
  "wait_for_owner_or_timeout owner owner_pidfd timer_fd = State (timeout_loop owner owner_pidfd timer_fd)"

definition worker_setup :: "int \<Rightarrow> int \<Rightarrow> int \<Rightarrow> pv_status act" where
  "worker_setup data_fd ctrl_fd setup_fd = do {
     normal \<leftarrow> normalize_child_signal_state;
     if \<not> normal then State_Monad.return PV_ERR_IO
     else do {
       _ \<leftarrow> harden_clip_process;
       a \<leftarrow> set_cloexec data_fd;
       b \<leftarrow> (if a then set_cloexec ctrl_fd else State_Monad.return False);
       c \<leftarrow> (if b then set_cloexec setup_fd else State_Monad.return False);
       d \<leftarrow> (if c then install_stop_handlers else State_Monad.return False);
       if \<not> d then State_Monad.return PV_ERR_IO
       else do {
         backend \<leftarrow> choose_backend;
         State_Monad.return (if backend = PV_CLIP_BACKEND_NONE then PV_ERR_EXTERNAL else PV_OK) } } }"

definition worker_cleanup :: "int \<Rightarrow> int \<Rightarrow> int list \<Rightarrow> pv_status \<Rightarrow> pv_status act" where
  "worker_cleanup owner owner_pidfd fds status = do {
     _ \<leftarrow> (if owner > 0 then terminate_owner owner owner_pidfd else State_Monad.return ());
     _ \<leftarrow> close_all fds;
     State_Monad.return status }"

definition worker_fails :: "int \<Rightarrow> int \<Rightarrow> int \<Rightarrow> int list \<Rightarrow> pv_status \<Rightarrow> pv_status act" where
  "worker_fails ctrl_fd owner owner_pidfd fds status = do {
     _ \<leftarrow> send_control ctrl_fd PV_CLIP_MSG_FAILED;
     worker_cleanup owner owner_pidfd fds status }"

text \<open>From the moment the selection has been accepted\<close>

definition worker_hold :: "int \<Rightarrow> int \<Rightarrow> int \<Rightarrow> int \<Rightarrow> pv_status act" where
  "worker_hold ctrl_fd owner owner_pidfd timer_fd = do {
     _ \<leftarrow> close_if_open ctrl_fd;
     wait_result \<leftarrow> wait_for_owner_or_timeout owner owner_pidfd timer_fd;
     if wait_result < 0 then worker_cleanup owner owner_pidfd [timer_fd, owner_pidfd] PV_ERR_IO
     else do {
       _ \<leftarrow> (if wait_result > 0 then terminate_owner owner owner_pidfd else State_Monad.return ());
       worker_cleanup (- 1) owner_pidfd [timer_fd, owner_pidfd] PV_OK } }"

definition worker_serve :: "int \<Rightarrow> int \<Rightarrow> int \<Rightarrow> int \<Rightarrow> nat \<Rightarrow> pv_status act" where
  "worker_serve ctrl_fd owner owner_pidfd timer_fd ttl_seconds =
     (let fds = [timer_fd, owner_pidfd, ctrl_fd]
      in do {
        sent \<leftarrow> send_control ctrl_fd PV_CLIP_MSG_READY;
        if \<not> sent then worker_cleanup owner owner_pidfd fds PV_ERR_IO
        else do {
          finished \<leftarrow> wait_for_done ctrl_fd owner owner_pidfd;
          if \<not> finished then worker_fails ctrl_fd owner owner_pidfd fds PV_ERR_EXTERNAL
          else do {
            armed \<leftarrow> call_ok (Timerfd_settime ttl_seconds);
            if \<not> armed then worker_fails ctrl_fd owner owner_pidfd fds PV_ERR_IO
            else do {
              w \<leftarrow> State_Monad.get;
              gone \<leftarrow> (if c_stop w then State_Monad.return True else owner_has_exited owner);
              if gone then worker_fails ctrl_fd owner owner_pidfd fds PV_ERR_EXTERNAL
              else do {
                accepted \<leftarrow> send_control ctrl_fd PV_CLIP_MSG_ACCEPTED;
                if \<not> accepted then worker_cleanup owner owner_pidfd fds PV_ERR_IO
                else worker_hold ctrl_fd owner owner_pidfd timer_fd } } } } })"

definition worker_own :: "int \<Rightarrow> int \<Rightarrow> int \<Rightarrow> nat \<Rightarrow> pv_status act" where
  "worker_own data_fd ctrl_fd owner ttl_seconds = do {
     _ \<leftarrow> close_if_open data_fd;
     owner_pidfd \<leftarrow> pidfd_open_local owner;
     timer \<leftarrow> syscall Timerfd_create;
     case timer of
       Ret timer_fd \<Rightarrow> worker_serve ctrl_fd owner owner_pidfd timer_fd ttl_seconds
     | _ \<Rightarrow> worker_fails ctrl_fd owner owner_pidfd [owner_pidfd, ctrl_fd] PV_ERR_IO }"

definition clear_stop :: "unit act" where
  "clear_stop = State (\<lambda>w. ((), w\<lparr>c_stop := False\<rparr>))"

definition worker_loop :: "int \<Rightarrow> int \<Rightarrow> int \<Rightarrow> nat \<Rightarrow> pv_status act" where
  "worker_loop data_fd ctrl_fd setup_fd ttl_seconds = do {
     _ \<leftarrow> clear_stop;
     setup \<leftarrow> worker_setup data_fd ctrl_fd setup_fd;
     reported \<leftarrow> report_setup setup_fd setup;
     _ \<leftarrow> close_if_open setup_fd;
     let status = (if reported then setup else PV_ERR_IO)
     in if status \<noteq> PV_OK then worker_cleanup (- 1) (- 1) [ctrl_fd, data_fd] status
        else do {
          message \<leftarrow> receive_control ctrl_fd;
          w \<leftarrow> State_Monad.get;
          if (message \<noteq> Some PV_CLIP_MSG_START_TEXT \<and> message \<noteq> Some PV_CLIP_MSG_START_BINARY) \<or> c_stop w
          then worker_cleanup (- 1) (- 1) [ctrl_fd, data_fd] PV_ERR_STATE
          else do {
            owner \<leftarrow> spawn_owner data_fd;
            if owner < 0 then worker_fails ctrl_fd (- 1) (- 1) [ctrl_fd, data_fd] PV_ERR_EXTERNAL
            else worker_own data_fd ctrl_fd owner ttl_seconds } } }"

definition parse_fd_argument :: "byte list \<Rightarrow> int option" where
  "parse_fd_argument text =
     (case strtoul text of
        (v, rest, out_of_range) \<Rightarrow>
          if out_of_range \<or> rest = text \<or> rest \<noteq> [] \<or> unat v > 2147483647 then None else Some (int (unat v)))"

definition parse_ttl_argument :: "byte list \<Rightarrow> nat option" where
  "parse_ttl_argument text =
     (case strtoul text of
        (v, rest, out_of_range) \<Rightarrow>
          if out_of_range \<or> rest = text \<or> rest \<noteq> [] \<or> v = 0 \<or> unat v > PV_CLIP_MAX_TTL_SECONDS then None
          else Some (unat v))"

definition worker_arguments :: "byte list list \<Rightarrow> (int \<times> int \<times> int \<times> nat) option" where
  "worker_arguments argv =
     (if length argv \<noteq> 6 \<or> argv ! 1 \<noteq> ascii ''--worker'' then None
      else Option.bind (parse_fd_argument (argv ! 2)) (\<lambda>data_fd.
        Option.bind (parse_fd_argument (argv ! 3)) (\<lambda>ctrl_fd.
        Option.bind (parse_fd_argument (argv ! 4)) (\<lambda>setup_fd.
        map_option (\<lambda>ttl. (data_fd, ctrl_fd, setup_fd, ttl)) (parse_ttl_argument (argv ! 5))))))"

definition pv_clipboard_worker_main :: "byte list list \<Rightarrow> int act" where
  "pv_clipboard_worker_main argv =
     (case worker_arguments argv of
        None \<Rightarrow> State_Monad.return (pv_status_exit_code PV_ERR_USAGE)
      | Some (data_fd, ctrl_fd, setup_fd, ttl_seconds) \<Rightarrow> do {
          status \<leftarrow> worker_loop data_fd ctrl_fd setup_fd ttl_seconds;
          State_Monad.return (pv_status_exit_code status) })"

section \<open>Traces\<close>

text \<open>
  What a run adds to the trace. \<open>delivered fd t\<close> are the bytes the kernel took from writes to
  \<open>fd\<close>, \<open>received fd t\<close> the control messages taken from \<open>fd\<close>.
\<close>

definition traces :: "'a act \<Rightarrow> ('a \<Rightarrow> (call \<times> answer) list \<Rightarrow> bool) \<Rightarrow> bool" where
  "traces m Q \<longleftrightarrow> (\<forall>w r w'. run_state m w = (r, w') \<longrightarrow> (\<exists>t. c_trace w' = c_trace w @ t \<and> Q r t))"

fun taken :: "int \<Rightarrow> call \<times> answer \<Rightarrow> byte list" where
  "taken fd (Write f bytes, Ret n) = (if f = fd then take (nat n) bytes else [])"
| "taken fd _ = []"

fun message_of :: "int \<Rightarrow> call \<times> answer \<Rightarrow> byte list" where
  "message_of fd (Recv f, Data bytes) = (if f = fd then take 1 bytes else [])"
| "message_of fd _ = []"

definition delivered :: "int \<Rightarrow> (call \<times> answer) list \<Rightarrow> byte list" where
  "delivered fd t = concat (map (taken fd) t)"

definition received :: "int \<Rightarrow> (call \<times> answer) list \<Rightarrow> byte list" where
  "received fd t = concat (map (message_of fd) t)"

lemma delivered_simps [simp]:
  "delivered fd [] = []" "delivered fd (e # t) = taken fd e @ delivered fd t"
  "delivered fd (t @ u) = delivered fd t @ delivered fd u"
  by (simp_all add: delivered_def)

lemma received_simps [simp]:
  "received fd [] = []" "received fd (e # t) = message_of fd e @ received fd t"
  "received fd (t @ u) = received fd t @ received fd u"
  by (simp_all add: received_def)

named_theorems traced

lemma tracesD: "traces m Q \<Longrightarrow> run_state m w = (r, w') \<Longrightarrow> \<exists>t. c_trace w' = c_trace w @ t \<and> Q r t"
  unfolding traces_def by blast

lemma traces_weaken: "traces m Q \<Longrightarrow> (\<And>r t. Q r t \<Longrightarrow> Q' r t) \<Longrightarrow> traces m Q'"
  unfolding traces_def by blast

lemma traces_return: "Q x [] \<Longrightarrow> traces (State_Monad.return x) Q"
  by (simp add: traces_def State_Monad.return_def)

lemma traces_get: "(\<And>w. Q w []) \<Longrightarrow> traces State_Monad.get Q"
  by (simp add: traces_def State_Monad.get_def)

lemma traces_bind:
  assumes m: "traces m P" and f: "\<And>x t. P x t \<Longrightarrow> traces (f x) (\<lambda>r u. Q r (t @ u))"
  shows "traces (State_Monad.bind m f) Q"
  unfolding traces_def
proof (intro allI impI)
  fix w r w'
  assume run: "run_state (State_Monad.bind m f) w = (r, w')"
  obtain x w1 where x: "run_state m w = (x, w1)" by fastforce
  from tracesD [OF m x] obtain t where t: "c_trace w1 = c_trace w @ t" "P x t" by blast
  have "run_state (f x) w1 = (r, w')" using run x by simp
  from tracesD [OF f [OF t(2)] this] t(1) show "\<exists>t. c_trace w' = c_trace w @ t \<and> Q r t" by auto
qed

lemma traces_if: "(b \<Longrightarrow> traces m Q) \<Longrightarrow> (\<not> b \<Longrightarrow> traces n Q) \<Longrightarrow> traces (if b then m else n) Q"
  by simp

lemma traces_syscall: "traces (syscall c) (\<lambda>a t. t = [(c, a)])"
  by (auto simp: traces_def syscall_def step_call_def split: list.splits)

text \<open>A call that is repeated leaves its interrupted attempts in the trace.\<close>

lemma retry_loop_trace:
  "retry_loop stoppable c w = (a, w') \<Longrightarrow>
     \<exists>n. c_trace w' = c_trace w @ replicate n (c, Err SE_INTR) @ [(c, a)]"
proof (induction stoppable c w rule: retry_loop.induct)
  case (1 stoppable c w)
  obtain b w1 where b: "step_call c w = (b, w1)" by fastforce
  have t: "c_trace w1 = c_trace w @ [(c, b)]" using b by (auto simp: step_call_def split: list.splits)
  show ?case
  proof (cases "b = Err SE_INTR \<and> \<not> (stoppable \<and> c_stop w1)")
    case True
    with "1.prems" have "retry_loop stoppable c w1 = (a, w')" by (subst (asm) retry_loop.simps) (auto simp: b)
    from "1.IH" [OF b [symmetric] True this] obtain n
      where "c_trace w' = c_trace w1 @ replicate n (c, Err SE_INTR) @ [(c, a)]" by blast
    with t True show ?thesis by (intro exI [of _ "Suc n"]) simp
  next
    case False
    with "1.prems" t show ?thesis
      by (subst (asm) retry_loop.simps) (auto simp: b intro!: exI [of _ 0] split: if_splits)
  qed
qed

definition repeated :: "call \<Rightarrow> answer \<Rightarrow> (call \<times> answer) list \<Rightarrow> bool" where
  "repeated c a t \<longleftrightarrow> (\<exists>n. t = replicate n (c, Err SE_INTR) @ [(c, a)])"

lemma traces_retry: "traces (retry stoppable c) (repeated c)"
  by (auto simp: traces_def retry_def repeated_def dest: retry_loop_trace)

lemma taken_failed [simp]: "taken fd (c, Err e) = []" "message_of fd (c, Err e) = []"
  by (cases c; simp)+

lemma repeated_observed:
  "repeated c a t \<Longrightarrow> delivered fd t = taken fd (c, a) \<and> received fd t = message_of fd (c, a) \<and> set t \<subseteq> {(c, Err SE_INTR), (c, a)} \<and> (c, a) \<in> set t"
  by (auto simp: repeated_def delivered_def received_def)

text \<open>
  A part of a program is silent about some calls if it makes none of them: \<open>silent P m\<close>, all
  calls of \<open>m\<close> satisfy \<open>P\<close>.
\<close>

definition silent :: "(call \<Rightarrow> bool) \<Rightarrow> 'a act \<Rightarrow> bool" where
  "silent P m \<longleftrightarrow> traces m (\<lambda>_ t. \<forall>e \<in> set t. P (fst e))"

lemma silent_return [traced]: "silent P (State_Monad.return x)"
  unfolding silent_def by (rule traces_return) simp

lemma silent_get [traced]: "silent P State_Monad.get"
  unfolding silent_def by (rule traces_get) simp

lemma silent_bind [traced]: "silent P m \<Longrightarrow> (\<And>x. silent P (f x)) \<Longrightarrow> silent P (State_Monad.bind m f)"
  unfolding silent_def by (rule traces_bind, assumption) (auto intro: traces_weaken)

lemma silent_syscall [traced]: "P c \<Longrightarrow> silent P (syscall c)"
  unfolding silent_def by (rule traces_weaken [OF traces_syscall]) simp

lemma silent_retry [traced]: "P c \<Longrightarrow> silent P (retry s c)"
  unfolding silent_def by (rule traces_weaken [OF traces_retry]) (auto simp: repeated_def)

lemma silent_call_ok [traced]: "P c \<Longrightarrow> silent P (call_ok c)"
  unfolding call_ok_def by (intro traced)

lemma silent_all_ok [traced]: "list_all P cs \<Longrightarrow> silent P (all_ok cs)"
  by (induction cs) (auto intro!: traced)

lemma silent_close [traced]: "(\<And>fd. P (Close fd)) \<Longrightarrow> silent P (close_if_open fd)" "(\<And>fd. P (Close fd)) \<Longrightarrow> silent P (close_all fds)"
proof -
  show a: "silent P (close_if_open fd)" if "\<And>fd. P (Close fd)" for fd
    using that unfolding close_if_open_def by (auto intro!: traced)
  show "silent P (close_all fds)" if "\<And>fd. P (Close fd)"
    using that by (induction fds) (auto intro!: traced a)
qed


section \<open>The secret goes to the helper only\<close>

text \<open>Calls that move no data between the processes and signal no process by its number\<close>

fun quiet_call :: "call \<Rightarrow> bool" where
  "quiet_call (Write fd bytes) = False"
| "quiet_call (Recv fd) = False"
| "quiet_call (Kill pid s) = False"
| "quiet_call _ = True"

definition no_kill :: "(call \<times> answer) list \<Rightarrow> bool" where
  "no_kill t \<longleftrightarrow> (\<forall>e \<in> set t. \<forall>pid s. fst e \<noteq> Kill pid s)"

lemma no_kill_simps [simp]:
  "no_kill []" "no_kill (e # t) \<longleftrightarrow> (\<forall>pid s. fst e \<noteq> Kill pid s) \<and> no_kill t" "no_kill (t @ u) \<longleftrightarrow> no_kill t \<and> no_kill u"
  by (auto simp: no_kill_def)

definition quiet_trace :: "(call \<times> answer) list \<Rightarrow> bool" where
  "quiet_trace t \<longleftrightarrow> (\<forall>e \<in> set t. quiet_call (fst e))"

lemma quiet_event: "quiet_call c \<Longrightarrow> taken fd (c, a) = []" "quiet_call c \<Longrightarrow> message_of fd (c, a) = []"
  by (cases c; cases a; simp)+

lemma quiet_trace_observed [simp]:
  "quiet_trace t \<Longrightarrow> delivered fd t = []" "quiet_trace t \<Longrightarrow> received fd t = []" "quiet_trace t \<Longrightarrow> no_kill t"
  by (auto simp: quiet_trace_def delivered_def received_def no_kill_def quiet_event)

lemma quietD: "silent quiet_call m \<Longrightarrow> traces m (\<lambda>_. quiet_trace)"
  by (simp add: silent_def quiet_trace_def [abs_def])

lemma traces_quiet:
  assumes "silent quiet_call m" and "\<And>x. traces (f x) Q" and "\<And>r t u. quiet_trace t \<Longrightarrow> Q r u \<Longrightarrow> Q r (t @ u)"
  shows "traces (State_Monad.bind m f) Q"
  by (rule traces_bind [OF quietD [OF assms(1)]]) (rule traces_weaken [OF assms(2)], rule assms(3))

definition one_message :: "int \<Rightarrow> byte \<Rightarrow> bool \<Rightarrow> (call \<times> answer) list \<Rightarrow> bool" where
  "one_message fd m sent t \<longleftrightarrow> (\<forall>f. received f t = []) \<and> (\<forall>f. f \<noteq> fd \<longrightarrow> delivered f t = []) \<and>
     delivered fd t \<in> {[], [m]} \<and> (sent \<longrightarrow> delivered fd t = [m]) \<and> no_kill t"

lemma one_message_quiet: "quiet_trace t \<Longrightarrow> one_message fd m r u \<Longrightarrow> one_message fd m r (t @ u)"
  by (simp add: one_message_def)

lemma traces_send_control: "traces (send_control fd m) (one_message fd m)"
  unfolding send_control_def
proof (rule traces_quiet, goal_cases)
  case (2 blocked)
  have wr: "traces (State_Monad.bind (retry False (Write fd [m])) (\<lambda>result.
      State_Monad.bind (if result = Err SE_PIPE \<and> pending \<noteq> Ret 1 then retry False Sigtimedwait else State_Monad.return (Ret 0)) (\<lambda>_.
      State_Monad.bind (call_ok Sigprocmask) (\<lambda>restored. State_Monad.return (result = Ret 1 \<and> restored))))) (one_message fd m)"
    for pending
  proof (rule traces_bind [OF traces_retry])
    fix result t assume rep: "repeated (Write fd [m]) result t"
    note o = repeated_observed [OF rep]
    have nk: "no_kill t" using rep by (auto simp: repeated_def no_kill_def)
    have del: "delivered fd t \<in> {[], [m]}" "result = Ret 1 \<Longrightarrow> delivered fd t = [m]" "\<And>f. f \<noteq> fd \<Longrightarrow> delivered f t = []"
      "\<And>f. received f t = []"
      using o by (auto simp: take_Cons' split: if_splits) (cases result; auto simp: take_Cons' split: if_splits)+
    show "traces (State_Monad.bind (if result = Err SE_PIPE \<and> pending \<noteq> Ret 1 then retry False Sigtimedwait else State_Monad.return (Ret 0)) (\<lambda>_.
      State_Monad.bind (call_ok Sigprocmask) (\<lambda>restored. State_Monad.return (result = Ret 1 \<and> restored)))) (\<lambda>r u. one_message fd m r (t @ u))"
      by (intro traces_quiet traces_return) (use del nk in \<open>auto intro!: traced simp: one_message_def\<close>)
  qed
  show ?case
    by (auto intro!: traces_return traces_quiet wr one_message_quiet traced simp: one_message_def)
qed (auto intro!: traced one_message_quiet)

definition one_answer :: "int \<Rightarrow> byte \<Rightarrow> pv_status \<Rightarrow> (call \<times> answer) list \<Rightarrow> bool" where
  "one_answer fd m status t \<longleftrightarrow> (\<forall>f. delivered f t = []) \<and> (\<forall>f. f \<noteq> fd \<longrightarrow> received f t = []) \<and>
     (status = PV_OK \<longrightarrow> received fd t = [m]) \<and> no_kill t \<and> status \<notin> {PV_ERR_USAGE, PV_ERR_LIMIT}"

lemma repeated_no_kill: "repeated c a t \<Longrightarrow> \<forall>pid s. c \<noteq> Kill pid s \<Longrightarrow> no_kill t"
  by (auto simp: repeated_def no_kill_def)

lemma traces_receive_control:
  "traces (receive_control fd) (\<lambda>r t. (\<forall>f. delivered f t = []) \<and> (\<forall>f. f \<noteq> fd \<longrightarrow> received f t = []) \<and>
     (\<forall>m. r = Some m \<longrightarrow> received fd t = [m]) \<and> no_kill t)"
  unfolding receive_control_def
proof (rule traces_bind [OF traces_retry], rule traces_return)
  fix a t assume rep: "repeated (Recv fd) a t"
  note o = repeated_observed [OF rep] repeated_no_kill [OF rep]
  show "(\<forall>f. delivered f (t @ []) = []) \<and> (\<forall>f. f \<noteq> fd \<longrightarrow> received f (t @ []) = []) \<and>
     (\<forall>m. (case a of Data (m # _) \<Rightarrow> Some m | _ \<Rightarrow> None) = Some m \<longrightarrow> received fd (t @ []) = [m]) \<and> no_kill (t @ [])"
    using o by (cases a) (auto split: list.splits)
qed

lemma silent_poll_one [traced]: "silent quiet_call (poll_one fd n)"
  unfolding poll_one_def by (intro traced) simp

lemma traces_wait_for_message: "traces (wait_for_message m fd) (one_answer fd m)"
  unfolding wait_for_message_def
proof (rule traces_quiet, goal_cases)
  case (2 ready)
  have "traces (State_Monad.bind (receive_control fd) (\<lambda>message. State_Monad.return
      (case message of None \<Rightarrow> PV_ERR_IO | Some x \<Rightarrow> if x = m then PV_OK else PV_ERR_EXTERNAL))) (one_answer fd m)"
    by (rule traces_bind [OF traces_receive_control], rule traces_return) (auto simp: one_answer_def split: option.splits)
  then show ?case by (auto intro!: traces_return simp: one_answer_def)
qed (auto intro!: traced simp: one_answer_def)

definition part_written :: "int \<Rightarrow> byte list \<Rightarrow> pv_status \<Rightarrow> (call \<times> answer) list \<Rightarrow> bool" where
  "part_written fd bytes status t \<longleftrightarrow> (\<forall>f. received f t = []) \<and> (\<forall>f. f \<noteq> fd \<longrightarrow> delivered f t = []) \<and>
     (\<exists>rest. bytes = delivered fd t @ rest) \<and> (status = PV_OK \<longrightarrow> delivered fd t = bytes) \<and> no_kill t \<and>
     status \<notin> {PV_ERR_USAGE, PV_ERR_LIMIT}"

lemma part_written_quiet:
  "quiet_trace t \<Longrightarrow> part_written fd bytes status u \<Longrightarrow> part_written fd bytes status (t @ u)"
  "quiet_trace t \<Longrightarrow> part_written fd bytes status u \<Longrightarrow> part_written fd bytes status (u @ t)"
  by (simp_all add: part_written_def)

lemma part_written_step:
  assumes "part_written fd (drop n bytes) status u"
  shows "part_written fd bytes status ((Write fd bytes, Ret (int n)) # u)"
proof -
  from assms obtain rest where "drop n bytes = delivered fd u @ rest" by (auto simp: part_written_def)
  then have "bytes = (take n bytes @ delivered fd u) @ rest" by (metis append_take_drop_id append.assoc)
  then have "\<exists>rest. bytes = delivered fd ((Write fd bytes, Ret (int n)) # u) @ rest" by auto
  with assms show ?thesis by (auto simp: part_written_def)
qed

lemma write_secret_loop_trace:
  "write_secret_loop fd c bytes w = ((status, e), w') \<Longrightarrow>
     \<exists>t. c_trace w' = c_trace w @ t \<and> part_written fd bytes status t"
proof (induction fd c bytes w rule: write_secret_loop.induct)
  case (1 fd c bytes w)
  show ?case
  proof (cases "bytes = []")
    case True
    with "1.prems" show ?thesis by (subst (asm) write_secret_loop.simps) (auto simp: part_written_def)
  next
    case False
    obtain a w1 where a: "step_call (Write fd bytes) w = (a, w1)" by fastforce
    have t1: "c_trace w1 = c_trace w @ [(Write fd bytes, a)]" using a by (auto simp: step_call_def split: list.splits)
    note run = "1.prems" [unfolded write_secret_loop.simps [of fd c bytes w]]
    have stop: ?thesis if "status = PV_ERR_EXTERNAL" "w' = w1" "\<And>n. a = Ret n \<Longrightarrow> n \<le> 0"
      using that t1 by (cases a) (auto simp: part_written_def)
    show ?thesis
    proof (cases a)
      case (Ret n)
      show ?thesis
      proof (cases "n > 0")
        case True
        then have "write_secret_loop fd c (drop (nat n) bytes) w1 = ((status, e), w')" using run False a Ret by simp
        from "1.IH"(1) [OF False a [symmetric] Ret True this] obtain t
          where t: "c_trace w' = c_trace w1 @ t" "part_written fd (drop (nat n) bytes) status t" by blast
        then show ?thesis using t1 Ret True part_written_step [of fd "nat n" bytes status t] by auto
      qed (use run False a Ret stop in auto)
    next
      case (Err x)
      have skip: ?thesis if "c_trace w' = c_trace w @ (Write fd bytes, a) # u @ t" "quiet_trace u" "part_written fd bytes status t" for t u
        using that Err by (intro exI [of _ "(Write fd bytes, a) # u @ t"]) (simp add: part_written_def)
      consider "x = SE_INTR" | "x = SE_AGAIN" | "x \<noteq> SE_INTR" "x \<noteq> SE_AGAIN" by blast
      then show ?thesis
      proof cases
        case 1
        then have "write_secret_loop fd c bytes w1 = ((status, e), w')" using run False a Err by simp
        from "1.IH"(2) [OF False a [symmetric] Err 1 this] obtain t
          where "c_trace w' = c_trace w1 @ t" "part_written fd bytes status t" by blast
        then show ?thesis using skip [of "[]" t] t1 by (simp add: quiet_trace_def)
      next
        case 2
        obtain b w2 where b: "retry_loop False (Poll [fd, c] PV_CLIP_SETUP_TIMEOUT_MS) w1 = (b, w2)" by fastforce
        from retry_loop_trace [OF b] obtain n
          where n: "c_trace w2 = c_trace w1 @ replicate n (Poll [fd, c] PV_CLIP_SETUP_TIMEOUT_MS, Err SE_INTR) @ [(Poll [fd, c] PV_CLIP_SETUP_TIMEOUT_MS, b)]"
          by blast
        let ?u = "replicate n (Poll [fd, c] PV_CLIP_SETUP_TIMEOUT_MS, Err SE_INTR) @ [(Poll [fd, c] PV_CLIP_SETUP_TIMEOUT_MS, b)]"
        have q: "quiet_trace ?u" by (simp add: quiet_trace_def)
        consider "w' = w2" "status = PV_ERR_EXTERNAL"
          | e0 e1 where "b = Events [e0, e1]" "\<not> (re_in e1 \<or> re_hup e1 \<or> re_err e1)" "write_secret_loop fd c bytes w2 = ((status, e), w')"
          using run False a Err 2 b
          by (auto split: answer.splits list.splits if_splits)
        then show ?thesis
        proof cases
          case 1
          then show ?thesis using skip [of ?u "[]"] t1 n q by (simp add: part_written_def)
        next
          case 2
          have x: "\<not> x = SE_INTR" "x = SE_AGAIN" using \<open>x = SE_AGAIN\<close> by simp_all
          from "1.IH"(3) [OF False a [symmetric] Err x b [symmetric] 2(1) refl refl refl 2(2) 2(3)] obtain t
            where "c_trace w' = c_trace w2 @ t" "part_written fd bytes status t" by blast
          then show ?thesis using skip [of ?u t] t1 n q by simp
        qed
      qed (use run False a Err stop in auto)
    qed (use run False a stop in auto)
  qed
qed


lemma traces_write_secret: "traces (write_secret fd c secret) (part_written fd secret)"
  unfolding write_secret_def
proof (rule traces_quiet, goal_cases)
  case (2 blocked)
  have loop: "traces (State (write_secret_loop fd c secret)) (\<lambda>r t. part_written fd secret (fst r) t)"
    unfolding traces_def using write_secret_loop_trace by fastforce
  have rest: "traces (State_Monad.bind (State (write_secret_loop fd c secret)) (\<lambda>result :: pv_status \<times> bool.
      State_Monad.bind (if fst result \<noteq> PV_OK \<and> snd result \<and> pending \<noteq> Ret 1 then retry False Sigtimedwait else State_Monad.return (Ret 0)) (\<lambda>_.
      State_Monad.bind (call_ok Sigprocmask) (\<lambda>restored.
        State_Monad.return (if \<not> restored \<and> fst result = PV_OK then PV_ERR_IO else fst result))))) (part_written fd secret)"
    for pending
  proof (rule traces_bind [OF loop])
    fix result :: "pv_status \<times> bool" and t assume p: "part_written fd secret (fst result) t"
    show "traces (State_Monad.bind (if fst result \<noteq> PV_OK \<and> snd result \<and> pending \<noteq> Ret 1 then retry False Sigtimedwait else State_Monad.return (Ret 0)) (\<lambda>_.
      State_Monad.bind (call_ok Sigprocmask) (\<lambda>restored.
        State_Monad.return (if \<not> restored \<and> fst result = PV_OK then PV_ERR_IO else fst result)))) (\<lambda>r u. part_written fd secret r (t @ u))"
      by (intro traces_quiet traces_return) (use p in \<open>auto intro!: traced simp: part_written_def\<close>)
  qed
  show ?case
    by (auto intro!: traces_return traces_quiet rest part_written_quiet(1) traced simp: part_written_def)
qed (auto intro!: traced part_written_quiet(1))

definition closes :: "int \<Rightarrow> (call \<times> answer) list \<Rightarrow> bool" where
  "closes fd t \<longleftrightarrow> fd < 0 \<or> Close fd \<in> fst ` set t"

lemma closes_append [simp]: "closes fd (t @ u) \<longleftrightarrow> closes fd t \<or> closes fd u"
  by (auto simp: closes_def)

lemma traces_close: "traces (close_if_open fd) (\<lambda>_ t. quiet_trace t \<and> closes fd t)"
  unfolding close_if_open_def
  by (auto intro!: traces_bind [OF traces_syscall] traces_return simp: quiet_trace_def closes_def)

lemma quiet_trace_append [simp]: "quiet_trace (t @ u) \<longleftrightarrow> quiet_trace t \<and> quiet_trace u"
  by (auto simp: quiet_trace_def)

lemma quiet_trace_Nil [simp]: "quiet_trace []"
  by (simp add: quiet_trace_def)

lemma traces_cancel:
  "traces (pv_clipboard_cancel job) (\<lambda>r t. r = no_job \<and> quiet_trace t \<and> closes (j_write_fd job) t \<and> closes (j_control_fd job) t)"
  unfolding pv_clipboard_cancel_def
  by (rule traces_bind [OF traces_close], rule traces_bind [OF traces_close], intro traces_quiet traces_return)
    (auto intro!: traced)

lemma traces_cancelled:
  "traces (cancelled job status)
     (\<lambda>r t. r = (status, no_job) \<and> quiet_trace t \<and> closes (j_write_fd job) t \<and> closes (j_control_fd job) t)"
  unfolding cancelled_def by (rule traces_bind [OF traces_cancel], rule traces_return) auto

definition sent_to_helper :: "pv_clipboard_job \<Rightarrow> byte list \<Rightarrow> pv_status \<times> pv_clipboard_job \<Rightarrow> (call \<times> answer) list \<Rightarrow> bool" where
  "sent_to_helper job secret r t \<longleftrightarrow>
     (case r of (status, job') \<Rightarrow>
        (\<forall>fd. fd \<noteq> j_write_fd job \<and> fd \<noteq> j_control_fd job \<longrightarrow> delivered fd t = []) \<and> no_kill t \<and>
        (\<exists>rest. secret = delivered (j_write_fd job) t @ rest) \<and>
        (delivered (j_write_fd job) t \<noteq> [] \<longrightarrow>
           (\<exists>before after. t = before @ after \<and> delivered (j_write_fd job) before = [] \<and>
              delivered (j_control_fd job) before = [start_message secret] \<and>
              received (j_control_fd job) before = [PV_CLIP_MSG_READY])) \<and>
        (status = PV_OK \<longrightarrow> delivered (j_write_fd job) t = secret \<and>
           delivered (j_control_fd job) t = [start_message secret, PV_CLIP_MSG_DONE] \<and>
           received (j_control_fd job) t = [PV_CLIP_MSG_READY, PV_CLIP_MSG_ACCEPTED]) \<and>
        (if status \<in> {PV_ERR_USAGE, PV_ERR_LIMIT} then t = [] \<and> job' = job
         else job' = no_job \<and> closes (j_write_fd job) t \<and> closes (j_control_fd job) t))"

text \<open>An end before the last message: what has happened, followed by the cancellation.\<close>

lemma sent_to_helper_cancelled:
  assumes "quiet_trace u" "closes (j_write_fd job) (t @ u)" "closes (j_control_fd job) (t @ u)"
    and "status \<notin> {PV_OK, PV_ERR_USAGE, PV_ERR_LIMIT}" and "no_kill t"
    and "\<forall>fd. fd \<noteq> j_write_fd job \<and> fd \<noteq> j_control_fd job \<longrightarrow> delivered fd t = []"
    and "\<exists>rest. secret = delivered (j_write_fd job) t @ rest"
    and "delivered (j_write_fd job) t = [] \<or>
      (\<exists>before after. t = before @ after \<and> delivered (j_write_fd job) before = [] \<and>
         delivered (j_control_fd job) before = [start_message secret] \<and> received (j_control_fd job) before = [PV_CLIP_MSG_READY])"
  shows "sent_to_helper job secret (status, no_job) (t @ u)"
  using assms unfolding sent_to_helper_def by fastforce

lemma traces_cancelled_after:
  assumes "status \<notin> {PV_OK, PV_ERR_USAGE, PV_ERR_LIMIT}" and "no_kill t"
    and "\<forall>fd. fd \<noteq> j_write_fd job \<and> fd \<noteq> j_control_fd job \<longrightarrow> delivered fd t = []"
    and "\<exists>rest. secret = delivered (j_write_fd job) t @ rest"
    and "delivered (j_write_fd job) t = [] \<or>
      (\<exists>before after. t = before @ after \<and> delivered (j_write_fd job) before = [] \<and>
         delivered (j_control_fd job) before = [start_message secret] \<and> received (j_control_fd job) before = [PV_CLIP_MSG_READY])"
    and "job1 = job \<or> job1 = job\<lparr>j_write_fd := - 1\<rparr> \<and> closes (j_write_fd job) t"
  shows "traces (cancelled job1 status) (\<lambda>r u. sent_to_helper job secret r (t @ u))"
  by (rule traces_weaken [OF traces_cancelled]) (use assms in \<open>auto intro!: sent_to_helper_cancelled\<close>)

lemma traces_send_last:
  assumes d: "j_write_fd job \<noteq> j_control_fd job"
    and b: "delivered (j_write_fd job) before = []" "delivered (j_control_fd job) before = [start_message secret]"
      "received (j_control_fd job) before = [PV_CLIP_MSG_READY]" "no_kill before"
      "\<forall>fd. fd \<noteq> j_control_fd job \<longrightarrow> delivered fd before = []"
    and p: "part_written (j_write_fd job) secret status u" "quiet_trace v" "closes (j_write_fd job) v"
  shows "traces (State_Monad.bind (if status = PV_OK then send_control (j_control_fd job) PV_CLIP_MSG_DONE else State_Monad.return False)
      (\<lambda>finished. if \<not> finished
        then cancelled (job\<lparr>j_write_fd := - 1\<rparr>) (if status \<noteq> PV_OK then status else PV_ERR_EXTERNAL)
        else State_Monad.bind (wait_for_owner_accepted (j_control_fd job)) (\<lambda>accepted.
          if accepted \<noteq> PV_OK then cancelled (job\<lparr>j_write_fd := - 1\<rparr>) accepted
          else State_Monad.bind (close_if_open (j_control_fd job)) (\<lambda>_.
            State_Monad.bind (close_if_open (j_supervisor_fd job)) (\<lambda>_. State_Monad.return (PV_OK, no_job))))))
    (\<lambda>r x. sent_to_helper job secret r (before @ u @ v @ x))"
    (is "traces (State_Monad.bind ?m ?f) _")
proof -
  have m: "traces ?m (\<lambda>finished t. one_message (j_control_fd job) PV_CLIP_MSG_DONE finished t \<and> (finished \<longrightarrow> status = PV_OK))"
    by (auto intro: traces_weaken [OF traces_send_control] traces_return simp: one_message_def)
  note facts = p [unfolded part_written_def] b d
  show ?thesis
  proof (rule traces_bind [OF m], elim conjE)
    fix finished t
    assume t: "one_message (j_control_fd job) PV_CLIP_MSG_DONE finished t" and ok: "finished \<longrightarrow> status = PV_OK"
    let ?all = "before @ u @ v @ t"
    have all: "no_kill ?all" "\<forall>fd. fd \<noteq> j_write_fd job \<and> fd \<noteq> j_control_fd job \<longrightarrow> delivered fd ?all = []"
      "\<exists>rest. secret = delivered (j_write_fd job) ?all @ rest" "closes (j_write_fd job) ?all"
      using facts t by (auto simp: one_message_def)
    have before: "\<exists>bf af. ?all @ x = bf @ af \<and> delivered (j_write_fd job) bf = [] \<and>
         delivered (j_control_fd job) bf = [start_message secret] \<and> received (j_control_fd job) bf = [PV_CLIP_MSG_READY]" for x
      using b by (intro exI [of _ before] exI [of _ "u @ v @ t @ x"]) simp
    have "traces (?f finished) (\<lambda>r x. sent_to_helper job secret r (?all @ x))"
    proof (rule traces_if)
      assume "\<not> finished"
      show "traces (cancelled (job\<lparr>j_write_fd := - 1\<rparr>) (if status \<noteq> PV_OK then status else PV_ERR_EXTERNAL))
         (\<lambda>r x. sent_to_helper job secret r (?all @ x))"
        by (rule traces_cancelled_after) (use facts all before [of "[]"] in auto)
    next
      assume "\<not> \<not> finished"
      then have f: "status = PV_OK" "delivered (j_control_fd job) t = [PV_CLIP_MSG_DONE]" "\<forall>f. received f t = []" using t ok by (auto simp: one_message_def)
      show "traces (State_Monad.bind (wait_for_owner_accepted (j_control_fd job)) (\<lambda>accepted.
          if accepted \<noteq> PV_OK then cancelled (job\<lparr>j_write_fd := - 1\<rparr>) accepted
          else State_Monad.bind (close_if_open (j_control_fd job)) (\<lambda>_.
            State_Monad.bind (close_if_open (j_supervisor_fd job)) (\<lambda>_. State_Monad.return (PV_OK, no_job)))))
         (\<lambda>r x. sent_to_helper job secret r (?all @ x))"
        unfolding wait_for_owner_accepted_def
      proof (rule traces_bind [OF traces_wait_for_message], rule traces_if)
        fix accepted x assume x: "one_answer (j_control_fd job) PV_CLIP_MSG_ACCEPTED accepted x" and n: "accepted \<noteq> PV_OK"
        have "traces (cancelled (job\<lparr>j_write_fd := - 1\<rparr>) accepted) (\<lambda>r y. sent_to_helper job secret r ((?all @ x) @ y))"
          by (rule traces_cancelled_after) (use facts all before [of x] x n in \<open>auto simp: one_answer_def\<close>)
        then show "traces (cancelled (job\<lparr>j_write_fd := - 1\<rparr>) accepted) (\<lambda>r y. sent_to_helper job secret r (?all @ (x @ y)))" by simp
      next
        fix accepted x assume x: "one_answer (j_control_fd job) PV_CLIP_MSG_ACCEPTED accepted x" and n: "\<not> accepted \<noteq> PV_OK"
        have c: "sent_to_helper job secret (PV_OK, no_job) (?all @ x @ y @ z)" if "quiet_trace y" "closes (j_control_fd job) y" "quiet_trace z" for y z
          using facts all before [of "x @ y @ z"] x n f that unfolding sent_to_helper_def by (auto simp: one_answer_def)
        show "traces (State_Monad.bind (close_if_open (j_control_fd job)) (\<lambda>_.
            State_Monad.bind (close_if_open (j_supervisor_fd job)) (\<lambda>_. State_Monad.return (PV_OK, no_job))))
           (\<lambda>r y. sent_to_helper job secret r (?all @ (x @ y)))"
          by (rule traces_bind [OF traces_close], rule traces_bind [OF traces_close], rule traces_return) (use c in auto)
      qed
    qed
    then show "traces (?f finished) (\<lambda>r x. sent_to_helper job secret r (before @ u @ v @ (t @ x)))" by simp
  qed
qed

lemma traces_send:
  assumes d: "j_write_fd job \<noteq> j_control_fd job"
  shows "traces (pv_clipboard_send job secret) (sent_to_helper job secret)"
  unfolding pv_clipboard_send_def
proof (intro traces_if)
  show "traces (State_Monad.return (PV_ERR_USAGE, job)) (sent_to_helper job secret)"
    "traces (State_Monad.return (PV_ERR_LIMIT, job)) (sent_to_helper job secret)"
    by (rule traces_return, simp add: sent_to_helper_def)+
  let ?c = "j_control_fd job" and ?d = "j_write_fd job"
  let ?last = "\<lambda>written. State_Monad.bind (if written = PV_OK then send_control ?c PV_CLIP_MSG_DONE else State_Monad.return False)
      (\<lambda>finished. if \<not> finished
        then cancelled (job\<lparr>j_write_fd := - 1\<rparr>) (if written \<noteq> PV_OK then written else PV_ERR_EXTERNAL)
        else State_Monad.bind (wait_for_owner_accepted ?c) (\<lambda>accepted.
          if accepted \<noteq> PV_OK then cancelled (job\<lparr>j_write_fd := - 1\<rparr>) accepted
          else State_Monad.bind (close_if_open ?c) (\<lambda>_.
            State_Monad.bind (close_if_open (j_supervisor_fd job)) (\<lambda>_. State_Monad.return (PV_OK, no_job)))))"
  let ?transfer = "State_Monad.bind (write_secret ?d ?c secret) (\<lambda>written. State_Monad.bind (close_if_open ?d) (\<lambda>_. ?last written))"
  let ?ready = "State_Monad.bind (wait_for_owner_ready ?c) (\<lambda>ready. if ready \<noteq> PV_OK then cancelled job ready else ?transfer)"
  show "traces (State_Monad.bind (send_control ?c (start_message secret)) (\<lambda>started.
      if \<not> started then cancelled job PV_ERR_EXTERNAL else ?ready)) (sent_to_helper job secret)"
  proof (rule traces_bind [OF traces_send_control], rule traces_if)
    fix started t
    assume t: "one_message ?c (start_message secret) started t" and "\<not> started"
    show "traces (cancelled job PV_ERR_EXTERNAL) (\<lambda>r u. sent_to_helper job secret r (t @ u))"
      by (rule traces_cancelled_after) (use t d in \<open>auto simp: one_message_def\<close>)
  next
    fix started t
    assume t: "one_message ?c (start_message secret) started t" and "\<not> \<not> started"
    then have s: "delivered ?c t = [start_message secret]" by (simp add: one_message_def)
    show "traces ?ready (\<lambda>r u. sent_to_helper job secret r (t @ u))"
      unfolding wait_for_owner_ready_def
    proof (rule traces_bind [OF traces_wait_for_message], rule traces_if)
      fix ready u assume u: "one_answer ?c PV_CLIP_MSG_READY ready u" and "ready \<noteq> PV_OK"
      then have "traces (cancelled job ready) (\<lambda>r v. sent_to_helper job secret r ((t @ u) @ v))"
        by (intro traces_cancelled_after) (use t d in \<open>auto simp: one_message_def one_answer_def\<close>)
      then show "traces (cancelled job ready) (\<lambda>r v. sent_to_helper job secret r (t @ (u @ v)))" by simp
    next
      fix ready u assume u: "one_answer ?c PV_CLIP_MSG_READY ready u" and "\<not> ready \<noteq> PV_OK"
      then have before: "delivered ?d (t @ u) = []" "delivered ?c (t @ u) = [start_message secret]"
          "received ?c (t @ u) = [PV_CLIP_MSG_READY]" "no_kill (t @ u)" "\<forall>fd. fd \<noteq> ?c \<longrightarrow> delivered fd (t @ u) = []"
        using t s d by (auto simp: one_message_def one_answer_def)
      have "traces ?transfer (\<lambda>r v. sent_to_helper job secret r ((t @ u) @ v))"
      proof (rule traces_bind [OF traces_write_secret], rule traces_bind [OF traces_close], elim conjE)
        fix written x and y :: "(call \<times> answer) list"
        assume "part_written ?d secret written x" "quiet_trace y" "closes ?d y"
        from traces_send_last [OF d before this]
        show "traces (?last written) (\<lambda>r z. sent_to_helper job secret r ((t @ u) @ (x @ (y @ z))))" by simp
      qed
      then show "traces ?transfer (\<lambda>r v. sent_to_helper job secret r (t @ (u @ v)))" by simp
    qed
  qed
qed

text \<open>
  C18. Handing a secret to the clipboard helper, whatever the kernel and the helper answer. Bytes of
  the secret go to the data pipe and nowhere else, in order, and none before the helper has been
  asked to start and has said it is ready. Success is reported only if the whole secret was
  written, its end was announced and the helper accepted it. In every other case beyond a refused
  argument both channels are closed, and no process is ever signalled by its number.
\<close>

theorem pv_clipboard_send_safe:
  assumes "run_state (pv_clipboard_send job secret) w = (result, w')"
    and "j_write_fd job \<noteq> j_control_fd job"
  shows "\<exists>t. c_trace w' = c_trace w @ t \<and> sent_to_helper job secret result t"
  by (rule tracesD [OF traces_send [OF assms(2)] assms(1)])

definition demo_job :: pv_clipboard_job where
  "demo_job = \<lparr>j_write_fd = 7, j_control_fd = 8, j_supervisor_fd = 9, j_supervisor_pid = 42\<rparr>"

definition readable :: revents where
  "readable = \<lparr>re_in = True, re_hup = False, re_err = False\<rparr>"

definition demo_clip :: clip where
  "demo_clip = \<lparr>c_answers = map (\<lambda>a. (False, a))
      [Ret 0, Ret 0, Ret 0, Ret 0, Err SE_INTR, Ret 1, Ret 0,
       Events [readable], Data [PV_CLIP_MSG_READY],
       Ret 0, Ret 0, Ret 0, Ret 0, Ret 2, Ret 1, Ret 0, Ret 0,
       Ret 0, Ret 0, Ret 0, Ret 0, Ret 1, Ret 0,
       Events [readable], Data [PV_CLIP_MSG_ACCEPTED]],
     c_stop = False, c_trace = [], c_environ = [], c_pid = 41\<rparr>"

lemma demo_send: "fst (run_state (pv_clipboard_send demo_job (ascii ''key'')) demo_clip) = (PV_OK, no_job)"
  by code_simp

theorem pv_clipboard_send_safe_witness:
  "\<exists>w'. run_state (pv_clipboard_send demo_job (ascii ''key'')) demo_clip = ((PV_OK, no_job), w') \<and>
     delivered 7 (c_trace w') = ascii ''key'' \<and> received 8 (c_trace w') = [PV_CLIP_MSG_READY, PV_CLIP_MSG_ACCEPTED]"
proof -
  obtain w' where run: "run_state (pv_clipboard_send demo_job (ascii ''key'')) demo_clip = ((PV_OK, no_job), w')"
    using demo_send by (metis fst_conv surj_pair)
  have "c_trace demo_clip = []" by (simp add: demo_clip_def)
  with pv_clipboard_send_safe [OF run] have "sent_to_helper demo_job (ascii ''key'') (PV_OK, no_job) (c_trace w')"
    by (simp add: demo_job_def)
  with run show ?thesis by (simp add: sent_to_helper_def demo_job_def)
qed

section \<open>The helper leaves no owner behind\<close>

text \<open>
  The end of a child has been seen: a waiting call has come back, the kernel knows the child no
  more, or it could not even be killed.
\<close>

definition gone :: "int \<Rightarrow> (call \<times> answer) list \<Rightarrow> bool" where
  "gone pid t \<longleftrightarrow> (\<exists>a. (Waitpid pid False, a) \<in> set t \<and> a \<noteq> Err SE_INTR) \<or>
     (Waitpid pid True, Ret pid) \<in> set t \<or> (Waitpid pid True, Err SE_CHILD) \<in> set t \<or>
     (\<exists>e. (Kill pid 9, Err e) \<in> set t)"

lemma gone_append [simp]: "gone pid (t @ u) \<longleftrightarrow> gone pid t \<or> gone pid u"
  by (auto simp: gone_def)

lemma gone_Cons: "gone pid t \<Longrightarrow> gone pid (e # t)"
  by (auto simp: gone_def)

definition no_fork :: "(call \<times> answer) list \<Rightarrow> bool" where
  "no_fork t \<longleftrightarrow> (\<forall>e \<in> set t. fst e \<noteq> Fork)"

lemma no_fork_simps [simp]:
  "no_fork []" "no_fork (e # t) \<longleftrightarrow> fst e \<noteq> Fork \<and> no_fork t" "no_fork (t @ u) \<longleftrightarrow> no_fork t \<and> no_fork u"
  by (auto simp: no_fork_def)

abbreviation forkless :: "'a act \<Rightarrow> bool" where
  "forkless m \<equiv> silent (\<lambda>c. c \<noteq> Fork) m"

lemma forklessD: "forkless m \<Longrightarrow> traces m (\<lambda>_. no_fork)"
  by (simp add: silent_def no_fork_def [abs_def])

lemma traces_conj: "traces m P \<Longrightarrow> traces m Q \<Longrightarrow> traces m (\<lambda>r t. P r t \<and> Q r t)"
  unfolding traces_def by (metis same_append_eq)

lemma silent_State:
  "(\<And>w r w'. f w = (r, w') \<Longrightarrow> \<exists>t. c_trace w' = c_trace w @ t \<and> (\<forall>e \<in> set t. P (fst e))) \<Longrightarrow> silent P (State f)"
  by (simp add: silent_def traces_def)

lemma step_call_trace: "step_call c w = (a, w') \<Longrightarrow> c_trace w' = c_trace w @ [(c, a)]"
  by (auto simp: step_call_def split: list.splits)

lemma write_all_loop_trace:
  "write_all_loop fd bytes w = (r, w') \<Longrightarrow> \<exists>t. c_trace w' = c_trace w @ t \<and> (\<forall>e \<in> set t. \<exists>b. fst e = Write fd b)"
proof (induction fd bytes w rule: write_all_loop.induct)
  case (1 fd bytes w)
  show ?case
  proof (cases "bytes = []")
    case True
    with "1.prems" show ?thesis by (subst (asm) write_all_loop.simps) auto
  next
    case False
    obtain a w1 where a: "step_call (Write fd bytes) w = (a, w1)" by fastforce
    note t1 = step_call_trace [OF a]
    note run = "1.prems" [unfolded write_all_loop.simps [of fd bytes w]]
    have more: ?thesis if "\<exists>t. c_trace w' = c_trace w1 @ t \<and> (\<forall>e \<in> set t. \<exists>b. fst e = Write fd b)"
    proof -
      from that obtain t where "c_trace w' = c_trace w1 @ t" "\<forall>e \<in> set t. \<exists>b. fst e = Write fd b" by blast
      then show ?thesis using t1 by (intro exI [of _ "(Write fd bytes, a) # t"]) auto
    qed
    show ?thesis
    proof (cases a)
      case (Ret n)
      show ?thesis
        using run False a "1.IH"(1) [OF False a [symmetric] Ret] more Ret t1 by (cases "n \<le> 0") auto
    next
      case (Err e)
      show ?thesis
        using run False a "1.IH"(2) [OF False a [symmetric] Err] more Err t1 by (cases "e = SE_INTR") auto
    qed (use run False a t1 in auto)
  qed
qed

lemma silent_write_all [traced]: "(\<And>b. P (Write fd b)) \<Longrightarrow> silent P (clip_write_all fd bytes)"
  unfolding clip_write_all_def
  by (rule silent_State) (drule write_all_loop_trace, metis)

lemma traces_retry_final: "traces (retry False c) (\<lambda>a t. (\<exists>u. t = u @ [(c, a)]) \<and> a \<noteq> Err SE_INTR)"
proof -
  have fin: "retry_loop False c w = (a, w') \<Longrightarrow> a \<noteq> Err SE_INTR" for a w w'
  proof (induction "False" c w rule: retry_loop.induct)
    case (1 c w)
    obtain b w1 where b: "step_call c w = (b, w1)" by fastforce
    show ?case using "1.prems" "1.hyps" [OF b [symmetric]] unfolding retry_loop.simps [of False c w] b
      by (auto split: if_splits)
  qed
  show ?thesis
    unfolding traces_def retry_def
  proof (intro allI impI)
    fix w a w' assume "run_state (State (retry_loop False c)) w = (a, w')"
    then have run: "retry_loop False c w = (a, w')" by simp
    from retry_loop_trace [OF run] obtain n
      where "c_trace w' = c_trace w @ replicate n (c, Err SE_INTR) @ [(c, a)]" by blast
    with fin [OF run] show "\<exists>t. c_trace w' = c_trace w @ t \<and> (\<exists>u. t = u @ [(c, a)]) \<and> a \<noteq> Err SE_INTR"
      by (intro exI [of _ "replicate n (c, Err SE_INTR) @ [(c, a)]"]) simp
  qed
qed

lemma silent_waitpid [traced]: "P (Waitpid pid b) \<Longrightarrow> silent P (waitpid_nointr pid b)"
  unfolding waitpid_nointr_def by (intro traced)

lemma traces_waitpid_gone: "traces (waitpid_nointr pid False) (\<lambda>_ t. gone pid t)"
  unfolding waitpid_nointr_def
  by (rule traces_bind [OF traces_retry_final], rule traces_return) (auto simp: gone_def)

lemma traces_has_exited: "traces (owner_has_exited pid) (\<lambda>r t. r \<longrightarrow> gone pid t)"
  unfolding owner_has_exited_def waitpid_nointr_def
  apply simp
  by (rule traces_bind [OF traces_retry_final], rule traces_return) (auto simp: gone_def split: answer.splits if_splits)

lemma silent_has_exited [traced]: "P (Waitpid pid True) \<Longrightarrow> silent P (owner_has_exited pid)"
  unfolding owner_has_exited_def by (intro traced)

lemma silent_signal_owner [traced]:
  "P (Pidfd_signal f s) \<Longrightarrow> P (Kill pid s) \<Longrightarrow> silent P (signal_owner pid f s)"
  unfolding signal_owner_def by (auto intro!: traced)

lemma traces_signal_owner: "traces (signal_owner pid f 9) (\<lambda>r t. \<not> r \<longrightarrow> gone pid t)"
proof -
  have "call_failed a \<Longrightarrow> \<exists>e. a = Err e" for a by (cases a) auto
  then have k: "traces (call_ok (Kill pid 9)) (\<lambda>r t. \<not> r \<longrightarrow> gone pid t)"
    unfolding call_ok_def by (intro traces_bind [OF traces_syscall] traces_return) (auto simp: gone_def)
  have p: "traces (call_ok c) (\<lambda>_ _. True)" for c
    unfolding call_ok_def by (intro traces_bind [OF traces_syscall] traces_return) simp
  show ?thesis unfolding signal_owner_def
    by (auto intro!: k traces_bind [OF p] traces_return traces_weaken [OF k])
qed

lemma silent_grace [traced]: "P (Waitpid pid True) \<Longrightarrow> P Nanosleep \<Longrightarrow> silent P (grace_period n pid)"
  by (induction n) (auto intro!: traced)

lemma traces_grace: "traces (grace_period n pid) (\<lambda>r t. r \<longrightarrow> gone pid t)"
proof (induction n)
  case (Suc n)
  show ?case
    by (auto intro!: traces_bind [OF traces_has_exited] traces_bind [OF traces_syscall] traces_return traces_weaken [OF Suc.IH] gone_Cons)
qed (auto intro: traces_return)

lemma traces_terminate: "pid > 0 \<Longrightarrow> traces (terminate_owner pid f) (\<lambda>_ t. gone pid t)"
proof -
  assume p: "pid > 0"
  have sig: "traces (signal_owner pid f 15) (\<lambda>_ _. True)"
    by (rule traces_weaken [of _ "\<lambda>_ t. \<forall>e \<in> set t. True"])
      (use silent_signal_owner [of "\<lambda>_. True" f 15 pid] in \<open>auto simp: silent_def\<close>)
  show ?thesis
    unfolding terminate_owner_def using p
    by (auto intro!: traces_bind [OF traces_has_exited] traces_return traces_bind [OF sig] traces_bind [OF traces_grace]
        traces_bind [OF traces_signal_owner] traces_bind [OF traces_waitpid_gone])
qed

lemma silent_terminate [traced]:
  "(\<And>b. P (Waitpid pid b)) \<Longrightarrow> (\<And>s. P (Pidfd_signal f s)) \<Longrightarrow> (\<And>s. P (Kill pid s)) \<Longrightarrow> P Nanosleep \<Longrightarrow>
     silent P (terminate_owner pid f)"
  unfolding terminate_owner_def by (auto intro!: traced)

lemma silent_receive [traced]: "P (Recv fd) \<Longrightarrow> silent P (receive_control fd)"
  unfolding receive_control_def by (intro traced)

lemma silent_send [traced]:
  "(\<And>b. P (Write fd b)) \<Longrightarrow> P Sigset \<Longrightarrow> P Sigprocmask \<Longrightarrow> P Sigpending \<Longrightarrow> P Sigtimedwait \<Longrightarrow> silent P (send_control fd m)"
  unfolding send_control_def by (auto intro!: traced)

lemma traces_skip:
  assumes "silent (\<lambda>_. True) m" and "\<And>x. traces (f x) Q" and "\<And>r t u. Q r u \<Longrightarrow> Q r (t @ u)"
  shows "traces (State_Monad.bind m f) Q"
  by (rule traces_bind [OF assms(1) [unfolded silent_def]]) (rule traces_weaken [OF assms(2)], rule assms(3))

lemma silent_turns [traced]:
  assumes "\<And>b. P (Waitpid pid b)" "P (Recv k)" "P (Read t 8)"
  shows "silent P (done_turn k pid f a)" "silent P (timeout_turn pid f t a)"
  using assms unfolding done_turn_def timeout_turn_def by (auto intro!: traced)

lemma traces_done_turn: "traces (done_turn k pid f a) (\<lambda>r t. r = Some True \<longrightarrow> PV_CLIP_MSG_DONE \<in> set (received k t))"
  unfolding done_turn_def
  by (auto intro!: traces_skip traced traces_return traces_bind [OF traces_receive_control])

lemma traces_timeout_turn: "traces (timeout_turn pid f k a) (\<lambda>r t. r = Some 0 \<longrightarrow> gone pid t)"
proof -
  have read: "traces (State_Monad.bind (retry False (Read k 8)) (\<lambda>received. State_Monad.return (Some (case received of
      Data bytes \<Rightarrow> if length bytes = 8 then 1 else - 1 | _ \<Rightarrow> (- 1 :: int))))) (\<lambda>r t. r = Some 0 \<longrightarrow> gone pid t)"
    by (rule traces_skip) (auto intro!: traced traces_return split: answer.splits)
  show ?thesis
    unfolding timeout_turn_def
    by (auto intro!: traces_bind [OF traces_get] traces_return traces_bind [OF traces_has_exited] traces_bind [OF traces_waitpid_gone]
        traces_weaken [OF read])
qed

text \<open>The loops inherit what every turn does.\<close>

lemma retry_loop_calls: "retry_loop s c w = (a, w') \<Longrightarrow> \<exists>t. c_trace w' = c_trace w @ t \<and> (\<forall>e \<in> set t. fst e = c)"
  by (drule retry_loop_trace) auto

lemma turn_trace:
  assumes poll: "retry_loop True c w = (a, w1)" and turn: "run_state m w1 = (r, w2)" and "silent P m" and "P c"
    and "traces m Q"
  shows "\<exists>t u. c_trace w2 = c_trace w @ t @ u \<and> (\<forall>e \<in> set (t @ u). P (fst e)) \<and> Q r u"
proof -
  from retry_loop_calls [OF poll] obtain t where t: "c_trace w1 = c_trace w @ t" "\<forall>e \<in> set t. fst e = c" by blast
  from tracesD [OF traces_conj [OF assms(3) [unfolded silent_def] assms(5)] turn]
  obtain u where u: "c_trace w2 = c_trace w1 @ u" "\<forall>e \<in> set u. P (fst e)" "Q r u" by blast
  show ?thesis using t u assms(4) by (intro exI [of _ t] exI [of _ u]) auto
qed

lemma done_loop_trace:
  assumes "\<And>fds n. P (Poll fds n)" "\<And>b. P (Waitpid pid b)" "P (Recv k)" and all: "\<And>t n. P (Read t n)"
  shows "done_loop k pid f w = (r, w') \<Longrightarrow>
    \<exists>t. c_trace w' = c_trace w @ t \<and> (\<forall>e \<in> set t. P (fst e)) \<and> (r \<longrightarrow> PV_CLIP_MSG_DONE \<in> set (received k t))"
  using assms
proof (induction k pid f w rule: done_loop.induct)
  case (1 k pid f w)
  obtain a w1 where a: "retry_loop True (Poll (polled_fds k f) (poll_timeout f)) w = (a, w1)" by fastforce
  obtain q w2 where q: "run_state (done_turn k pid f a) w1 = (q, w2)" by fastforce
  have "silent P (done_turn k pid f a)" by (rule silent_turns(1) [where t = 0]) (use "1.prems" in auto)
  from turn_trace [OF a q this _ traces_done_turn] obtain t u where t: "c_trace w2 = c_trace w @ t @ u"
      "\<forall>e \<in> set (t @ u). P (fst e)" "q = Some True \<longrightarrow> PV_CLIP_MSG_DONE \<in> set (received k u)"
    using "1.prems"(2) by blast
  show ?case
  proof (cases q)
    case (Some x)
    then have "r = x" "w' = w2" using "1.prems"(1) a q by (simp_all add: done_loop.simps [of k pid f w])
    with t Some show ?thesis by (intro exI [of _ "t @ u"]) auto
  next
    case None
    then have "done_loop k pid f w2 = (r, w')" using "1.prems"(1) a q by (simp add: done_loop.simps [of k pid f w])
    from "1.IH" [OF a [symmetric] q [symmetric] None this "1.prems"(2-5)] obtain v
      where "c_trace w' = c_trace w2 @ v" "\<forall>e \<in> set v. P (fst e)" "r \<longrightarrow> PV_CLIP_MSG_DONE \<in> set (received k v)" by blast
    with t show ?thesis by (intro exI [of _ "t @ u @ v"]) auto
  qed
qed

lemma timeout_loop_trace:
  assumes "\<And>fds n. P (Poll fds n)" "\<And>b. P (Waitpid pid b)" "\<And>t n. P (Read t n)" and "\<And>k. P (Recv k)"
  shows "timeout_loop pid f k w = (r, w') \<Longrightarrow>
    \<exists>t. c_trace w' = c_trace w @ t \<and> (\<forall>e \<in> set t. P (fst e)) \<and> (r = 0 \<longrightarrow> gone pid t)"
  using assms
proof (induction pid f k w rule: timeout_loop.induct)
  case (1 pid f k w)
  obtain a w1 where a: "retry_loop True (Poll (polled_fds k f) (poll_timeout f)) w = (a, w1)" by fastforce
  obtain q w2 where q: "run_state (timeout_turn pid f k a) w1 = (q, w2)" by fastforce
  have "silent P (timeout_turn pid f k a)" by (rule silent_turns(2) [where k = 0]) (use "1.prems" in auto)
  from turn_trace [OF a q this _ traces_timeout_turn] obtain t u where t: "c_trace w2 = c_trace w @ t @ u"
      "\<forall>e \<in> set (t @ u). P (fst e)" "q = Some 0 \<longrightarrow> gone pid u"
    using "1.prems"(2) by blast
  show ?case
  proof (cases q)
    case (Some x)
    then have "r = x" "w' = w2" using "1.prems"(1) a q by (simp_all add: timeout_loop.simps [of pid f k w])
    with t Some show ?thesis by (intro exI [of _ "t @ u"]) auto
  next
    case None
    then have "timeout_loop pid f k w2 = (r, w')" using "1.prems"(1) a q by (simp add: timeout_loop.simps [of pid f k w])
    from "1.IH" [OF a [symmetric] q [symmetric] None this "1.prems"(2-5)] obtain v
      where "c_trace w' = c_trace w2 @ v" "\<forall>e \<in> set v. P (fst e)" "r = 0 \<longrightarrow> gone pid v" by blast
    with t show ?thesis by (intro exI [of _ "t @ u @ v"]) auto
  qed
qed

lemma silent_waits [traced]:
  assumes "\<And>fds n. P (Poll fds n)" "\<And>b. P (Waitpid pid b)" "\<And>k. P (Recv k)" "\<And>t n. P (Read t n)"
  shows "silent P (wait_for_done k pid f)" "silent P (wait_for_owner_or_timeout pid f t)"
  unfolding wait_for_done_def wait_for_owner_or_timeout_def
  using done_loop_trace [where P = P and pid = pid] timeout_loop_trace [where P = P and pid = pid] assms
  by (auto intro!: silent_State) (metis assms)+

lemma traces_wait_for_done: "traces (wait_for_done k pid f) (\<lambda>r t. r \<longrightarrow> PV_CLIP_MSG_DONE \<in> set (received k t))"
  unfolding wait_for_done_def traces_def using done_loop_trace [where P = "\<lambda>_. True"] by fastforce

lemma traces_wait_timeout: "traces (wait_for_owner_or_timeout pid f t) (\<lambda>r u. r = 0 \<longrightarrow> gone pid u)"
  unfolding wait_for_owner_or_timeout_def traces_def using timeout_loop_trace [where P = "\<lambda>_. True"] by fastforce

lemma silent_cleanup [traced]:
  assumes "\<And>b. P (Waitpid pid b)" "\<And>s. P (Pidfd_signal f s)" "\<And>s. P (Kill pid s)" "P Nanosleep" "\<And>fd. P (Close fd)"
  shows "silent P (worker_cleanup pid f fds status)"
  using assms unfolding worker_cleanup_def by (auto intro!: traced)

lemma silent_fails [traced]:
  assumes "\<And>b. P (Waitpid pid b)" "\<And>s. P (Pidfd_signal f s)" "\<And>s. P (Kill pid s)" "P Nanosleep" "\<And>fd. P (Close fd)"
    "\<And>b. P (Write k b)" "P Sigset" "P Sigprocmask" "P Sigpending" "P Sigtimedwait"
  shows "silent P (worker_fails k pid f fds status)"
  using assms unfolding worker_fails_def by (auto intro!: traced)

lemma silent_pidfd_open [traced]: "P (Pidfd_open pid) \<Longrightarrow> silent P (pidfd_open_local pid)"
  unfolding pidfd_open_local_def by (intro traced)

lemma silent_setup_calls [traced]:
  "list_all P [Sigset, Sigprocmask, Sigaction 15, Sigaction 2, Sigaction 1, Sigaction 17] \<Longrightarrow> silent P normalize_child_signal_state"
  "list_all P [Sigset, Sigaction 15, Sigaction 2, Sigaction 1] \<Longrightarrow> silent P install_stop_handlers"
  "(\<And>n. P (Harden n)) \<Longrightarrow> silent P harden_clip_process"
  "(\<And>fd x. P (Fcntl fd x)) \<Longrightarrow> silent P (set_cloexec fd)"
  "(\<And>p. P (Access p)) \<Longrightarrow> silent P choose_backend"
  unfolding normalize_child_signal_state_def install_stop_handlers_def harden_clip_process_def set_cloexec_def choose_backend_def Let_def
  by (auto intro!: traced)

lemma silent_worker_setup [traced]:
  assumes "list_all P [Sigset, Sigprocmask, Sigaction 15, Sigaction 2, Sigaction 1, Sigaction 17]"
    "\<And>n. P (Harden n)" "\<And>fd x. P (Fcntl fd x)" "\<And>p. P (Access p)"
  shows "silent P (worker_setup d k s)"
  using assms unfolding worker_setup_def by (auto intro!: traced)

lemma silent_report [traced]: "(\<And>b. P (Write fd b)) \<Longrightarrow> silent P (report_setup fd status)"
  unfolding report_setup_def by (intro traced) auto

section \<open>The owner is always ended\<close>

lemma no_forkD [simp]: "no_fork t \<Longrightarrow> (Fork, a) \<notin> set t"
  by (auto simp: no_fork_def)

lemma gone_more: "gone pid u \<Longrightarrow> gone pid (t @ u)"
  by simp

lemma traces_cleanup: "traces (worker_cleanup pid f fds status) (\<lambda>r t. r = status \<and> (pid > 0 \<longrightarrow> gone pid t))"
proof -
  have fin: "traces (State_Monad.bind (close_all fds) (\<lambda>_. State_Monad.return status)) (\<lambda>r t. r = status)"
    by (rule traces_skip) (auto intro!: traced traces_return)
  show ?thesis
  proof (cases "pid > 0")
    case True
    show ?thesis
      unfolding worker_cleanup_def using True
      by (simp, intro traces_bind [OF traces_terminate]) (auto intro: traces_weaken [OF fin])
  next
    case False
    then show ?thesis unfolding worker_cleanup_def using fin by simp
  qed
qed

lemma traces_fails: "traces (worker_fails k pid f fds status) (\<lambda>r t. r = status \<and> (pid > 0 \<longrightarrow> gone pid t))"
  unfolding worker_fails_def by (rule traces_skip) (auto intro!: traced traces_cleanup)

lemma traces_hold_gone: "traces (worker_hold k pid f t) (\<lambda>_ u. pid > 0 \<longrightarrow> gone pid u)"
proof -
  have closing: "traces (worker_cleanup pid2 f fds status) (\<lambda>_ _. True)" for pid2 fds status
    by (rule traces_weaken [OF traces_cleanup]) simp
  have body: "traces (State_Monad.bind (wait_for_owner_or_timeout pid f t) (\<lambda>wait_result.
      if wait_result < 0 then worker_cleanup pid f [t, f] PV_ERR_IO
      else State_Monad.bind (if wait_result > 0 then terminate_owner pid f else State_Monad.return ()) (\<lambda>_.
        worker_cleanup (- 1) f [t, f] PV_OK))) (\<lambda>_ u. pid > 0 \<longrightarrow> gone pid u)"
  proof (rule traces_bind [OF traces_wait_timeout], rule traces_if)
    fix wait_result :: int and u assume "wait_result < 0"
    show "traces (worker_cleanup pid f [t, f] PV_ERR_IO) (\<lambda>_ v. pid > 0 \<longrightarrow> gone pid (u @ v))"
      by (rule traces_weaken [OF traces_cleanup]) simp
  next
    fix wait_result :: int and u assume u: "wait_result = 0 \<longrightarrow> gone pid u" and n: "\<not> wait_result < 0"
    have "traces (if wait_result > 0 then terminate_owner pid f else State_Monad.return ()) (\<lambda>_ v. pid > 0 \<longrightarrow> gone pid (u @ v))"
    proof (cases "pid > 0")
      case True
      then show ?thesis using u n by (auto intro: traces_return traces_weaken [OF traces_terminate])
    qed (auto intro: traces_return simp: terminate_owner_def)
    then show "traces (State_Monad.bind (if wait_result > 0 then terminate_owner pid f else State_Monad.return ()) (\<lambda>_.
        worker_cleanup (- 1) f [t, f] PV_OK)) (\<lambda>_ v. pid > 0 \<longrightarrow> gone pid (u @ v))"
      by (rule traces_bind) (auto intro: traces_weaken [OF closing])
  qed
  show ?thesis
    unfolding worker_hold_def by (rule traces_skip, simp_all add: body traced)
qed

lemma traces_serve_gone: "traces (worker_serve k pid f t ttl) (\<lambda>_ u. pid > 0 \<longrightarrow> gone pid u)"
proof -
  have stop: "traces (worker_cleanup pid f fds status) (\<lambda>_ u. pid > 0 \<longrightarrow> gone pid u)"
    "traces (worker_fails k pid f fds status) (\<lambda>_ u. pid > 0 \<longrightarrow> gone pid u)" for fds status
    by (auto intro: traces_weaken [OF traces_cleanup] traces_weaken [OF traces_fails])
  show ?thesis
    unfolding worker_serve_def Let_def
    by (intro traces_if stop traces_hold_gone traces_skip) (auto intro!: traced)
qed

lemma traces_own_gone: "traces (worker_own d k pid ttl) (\<lambda>_ u. pid > 0 \<longrightarrow> gone pid u)"
proof -
  have "traces (case timer of Ret t \<Rightarrow> worker_serve k pid f t ttl | _ \<Rightarrow> worker_fails k pid f [f, k] PV_ERR_IO)
      (\<lambda>_ u. pid > 0 \<longrightarrow> gone pid u)" for timer f
    by (cases timer) (auto intro: traces_serve_gone traces_weaken [OF traces_fails])
  then show ?thesis unfolding worker_own_def by (intro traces_skip) (auto intro!: traced)
qed

lemma forkless_own: "forkless (worker_own d k pid ttl)"
proof -
  have serve: "forkless (worker_serve k pid f t ttl)" for f t
    unfolding worker_serve_def worker_hold_def Let_def by (auto intro!: traced)
  have "forkless (case timer of Ret t \<Rightarrow> worker_serve k pid f t ttl | _ \<Rightarrow> worker_fails k pid f [f, k] PV_ERR_IO)" for timer f
    by (cases timer) (auto intro!: traced serve)
  then show ?thesis unfolding worker_own_def by (auto intro!: traced)
qed

definition forks_end :: "int \<Rightarrow> (call \<times> answer) list \<Rightarrow> bool" where
  "forks_end owner t \<longleftrightarrow> (\<forall>pid > 0. (Fork, Ret pid) \<in> set t \<longrightarrow> pid = owner \<or> gone pid t)"

lemma forks_end_quiet: "no_fork t \<Longrightarrow> forks_end owner u \<Longrightarrow> forks_end owner (t @ u)"
  "no_fork u \<Longrightarrow> forks_end owner t \<Longrightarrow> forks_end owner (t @ u)"
  by (auto simp: forks_end_def)

lemma traces_spawn: "traces (spawn_owner d) (\<lambda>owner. forks_end owner)"
proof -
  have close: "traces (close_if_open fd) (\<lambda>_. no_fork)" for fd
    by (rule forklessD) (auto intro!: traced)
  have parent: "traces (State_Monad.bind (close_if_open e1) (\<lambda>_. State_Monad.bind (retry False (Read e0 4)) (\<lambda>received.
      State_Monad.bind (close_if_open e0) (\<lambda>_. if received = Data [] then State_Monad.return owner
        else State_Monad.bind (waitpid_nointr owner False) (\<lambda>_. State_Monad.return (- 1))))))
      (\<lambda>r u. no_fork u \<and> (r = owner \<or> gone owner u))" for e0 e1 owner
  proof (rule traces_conj)
    show "traces (State_Monad.bind (close_if_open e1) (\<lambda>_. State_Monad.bind (retry False (Read e0 4)) (\<lambda>received.
      State_Monad.bind (close_if_open e0) (\<lambda>_. if received = Data [] then State_Monad.return owner
        else State_Monad.bind (waitpid_nointr owner False) (\<lambda>_. State_Monad.return (- 1)))))) (\<lambda>r u. no_fork u)"
      by (rule forklessD) (auto intro!: traced)
    have wait: "traces (State_Monad.bind (waitpid_nointr owner False) (\<lambda>_. State_Monad.return (- 1))) (\<lambda>r u. r = owner \<or> gone owner u)"
      by (rule traces_bind [OF traces_waitpid_gone], rule traces_return) simp
    show "traces (State_Monad.bind (close_if_open e1) (\<lambda>_. State_Monad.bind (retry False (Read e0 4)) (\<lambda>received.
      State_Monad.bind (close_if_open e0) (\<lambda>_. if received = Data [] then State_Monad.return owner
        else State_Monad.bind (waitpid_nointr owner False) (\<lambda>_. State_Monad.return (- 1)))))) (\<lambda>r u. r = owner \<or> gone owner u)"
      by (intro traces_skip traces_if wait traces_return) (auto intro!: traced)
  qed
  have child: "traces (case child of
         Ret owner \<Rightarrow> State_Monad.bind (close_if_open e1) (\<lambda>_. State_Monad.bind (retry False (Read e0 4)) (\<lambda>received.
           State_Monad.bind (close_if_open e0) (\<lambda>_. if received = Data [] then State_Monad.return owner
             else State_Monad.bind (waitpid_nointr owner False) (\<lambda>_. State_Monad.return (- 1)))))
       | _ \<Rightarrow> State_Monad.bind (close_if_open e0) (\<lambda>_. State_Monad.bind (close_if_open e1) (\<lambda>_. State_Monad.return (- 1))))
      (\<lambda>r u. forks_end r ((Fork, child) # u))" for child e0 e1
  proof (cases child)
    case (Ret owner)
    show ?thesis unfolding Ret answer.case by (rule traces_weaken [OF parent]) (auto simp: forks_end_def gone_Cons)
  qed (auto intro!: traces_bind [OF close] traces_return simp: forks_end_def)
  show ?thesis
    unfolding spawn_owner_def
  proof (rule traces_bind [OF traces_syscall], goal_cases)
    case (1 p t)
    show ?case
    proof (cases p)
      case (Fds e0 e1)
      show ?thesis unfolding Fds answer.case
        by (rule traces_bind [OF traces_syscall]) (rule traces_weaken [OF child], use 1 in \<open>auto simp: forks_end_def gone_Cons\<close>)
    qed (use 1 in \<open>auto intro!: traces_return simp: forks_end_def\<close>)
  qed
qed

section \<open>The selection is accepted only with its timer running\<close>

definition unaccepted :: "int \<Rightarrow> (call \<times> answer) list \<Rightarrow> bool" where
  "unaccepted k t \<longleftrightarrow> PV_CLIP_MSG_ACCEPTED \<notin> set (delivered k t)"

definition ready_to_accept :: "int \<Rightarrow> nat \<Rightarrow> (call \<times> answer) list \<Rightarrow> bool" where
  "ready_to_accept k ttl t \<longleftrightarrow> unaccepted k t \<and> PV_CLIP_MSG_DONE \<in> set (received k t) \<and>
     (\<exists>a. (Timerfd_settime ttl, a) \<in> set t \<and> \<not> call_failed a)"

definition accepts_armed :: "int \<Rightarrow> nat \<Rightarrow> pv_status \<Rightarrow> (call \<times> answer) list \<Rightarrow> bool" where
  "accepts_armed k ttl status t \<longleftrightarrow>
     (\<not> unaccepted k t \<longrightarrow> (\<exists>before after. t = before @ after \<and> ready_to_accept k ttl before)) \<and>
     (status = PV_OK \<longrightarrow> \<not> unaccepted k t)"

lemma unaccepted_append [simp]: "unaccepted k (t @ u) \<longleftrightarrow> unaccepted k t \<and> unaccepted k u"
  by (simp add: unaccepted_def)

lemma ready_to_accept_more: "unaccepted k t \<Longrightarrow> ready_to_accept k ttl u \<Longrightarrow> ready_to_accept k ttl (t @ u)"
  by (auto simp: ready_to_accept_def)

lemma accepts_armed_more:
  assumes t: "unaccepted k t" and u: "accepts_armed k ttl status u"
  shows "accepts_armed k ttl status (t @ u)"
proof -
  have "\<exists>before after. t @ u = before @ after \<and> ready_to_accept k ttl before" if "\<not> unaccepted k u"
  proof -
    from that u obtain b a where "u = b @ a" "ready_to_accept k ttl b" by (auto simp: accepts_armed_def)
    then show ?thesis using ready_to_accept_more [OF t] by (intro exI [of _ "t @ b"] exI [of _ a]) simp
  qed
  then show ?thesis using t u by (auto simp: accepts_armed_def)
qed

lemma accepts_armed_failed: "unaccepted k t \<Longrightarrow> status \<noteq> PV_OK \<Longrightarrow> accepts_armed k ttl status t"
  by (simp add: accepts_armed_def)

abbreviation mute :: "int \<Rightarrow> 'a act \<Rightarrow> bool" where
  "mute k m \<equiv> silent (\<lambda>c. \<forall>b. c \<noteq> Write k b) m"

lemma muteD: "mute k m \<Longrightarrow> traces m (\<lambda>_. unaccepted k)"
proof -
  have d: "delivered k t = []" if "\<forall>e \<in> set t. \<forall>b. fst e \<noteq> Write k b" for t
    using that
  proof (induction t)
    case (Cons e t)
    then show ?case by (cases e; cases "fst e"; cases "snd e") auto
  qed simp
  show "mute k m \<Longrightarrow> traces m (\<lambda>_. unaccepted k)"
    unfolding silent_def by (erule traces_weaken) (simp add: unaccepted_def d)
qed

lemma traces_other_message: "m \<noteq> PV_CLIP_MSG_ACCEPTED \<Longrightarrow> traces (send_control k m) (\<lambda>_. unaccepted k)"
  by (rule traces_weaken [OF traces_send_control]) (auto simp: one_message_def unaccepted_def)

lemma traces_before:
  assumes "traces m (\<lambda>_. unaccepted k)" and "\<And>x. traces (f x) (accepts_armed k ttl)"
  shows "traces (State_Monad.bind m f) (accepts_armed k ttl)"
  by (rule traces_bind [OF assms(1)]) (rule traces_weaken [OF assms(2)], rule accepts_armed_more)

lemma traces_cleanup_armed: "status \<noteq> PV_OK \<Longrightarrow> traces (worker_cleanup pid f fds status) (accepts_armed k ttl)"
  by (rule traces_weaken [OF traces_conj [OF traces_cleanup muteD]])
    (auto intro!: traced accepts_armed_failed)

lemma traces_fails_armed: "status \<noteq> PV_OK \<Longrightarrow> traces (worker_fails k pid f fds status) (accepts_armed k ttl)"
  unfolding worker_fails_def by (rule traces_before [OF traces_other_message traces_cleanup_armed]) simp_all

lemma mute_hold: "mute k (worker_hold c pid f t)"
  unfolding worker_hold_def by (auto intro!: traced)

lemma traces_accept:
  assumes before: "ready_to_accept k ttl before"
  shows "traces (State_Monad.bind (send_control k PV_CLIP_MSG_ACCEPTED) (\<lambda>accepted.
      if \<not> accepted then worker_cleanup pid f fds PV_ERR_IO else worker_hold k pid f t))
    (\<lambda>status u. accepts_armed k ttl status (before @ u))"
proof (rule traces_bind [OF traces_send_control], rule traces_if)
  fix accepted u assume u: "one_message k PV_CLIP_MSG_ACCEPTED accepted u"
  show "traces (worker_cleanup pid f fds PV_ERR_IO) (\<lambda>status v. accepts_armed k ttl status (before @ (u @ v)))"
    by (rule traces_weaken [OF traces_cleanup]) (use before in \<open>auto simp: accepts_armed_def\<close>)
  assume "\<not> \<not> accepted"
  then have "\<not> unaccepted k u" using u by (simp add: one_message_def unaccepted_def)
  then show "traces (worker_hold k pid f t) (\<lambda>status v. accepts_armed k ttl status (before @ (u @ v)))"
    using before by (intro traces_weaken [OF muteD [OF mute_hold]]) (auto simp: accepts_armed_def)
qed

lemma traces_serve_armed: "traces (worker_serve k pid f t ttl) (accepts_armed k ttl)"
  unfolding worker_serve_def Let_def
proof (rule traces_before [OF traces_other_message], simp, rule traces_if)
  fix sent
  show "traces (worker_cleanup pid f [t, f, k] PV_ERR_IO) (accepts_armed k ttl)" by (simp add: traces_cleanup_armed)
  let ?accept = "State_Monad.bind (send_control k PV_CLIP_MSG_ACCEPTED) (\<lambda>accepted.
      if \<not> accepted then worker_cleanup pid f [t, f, k] PV_ERR_IO else worker_hold k pid f t)"
  let ?check = "State_Monad.bind State_Monad.get (\<lambda>w.
      State_Monad.bind (if c_stop w then State_Monad.return True else owner_has_exited pid) (\<lambda>gone.
        if gone then worker_fails k pid f [t, f, k] PV_ERR_EXTERNAL else ?accept))"
  let ?arm = "State_Monad.bind (call_ok (Timerfd_settime ttl)) (\<lambda>armed.
      if \<not> armed then worker_fails k pid f [t, f, k] PV_ERR_IO else ?check)"
  have waited: "traces (wait_for_done k pid f) (\<lambda>r u. (r \<longrightarrow> PV_CLIP_MSG_DONE \<in> set (received k u)) \<and> unaccepted k u)"
    by (intro traces_conj traces_wait_for_done muteD) (auto intro!: traced)
  have stop: "traces (worker_fails k pid f [t, f, k] status) (\<lambda>r v. accepts_armed k ttl r (u @ v))"
    if "unaccepted k u" "status \<noteq> PV_OK" for u status
    using that by (intro traces_weaken [OF traces_fails_armed]) (auto intro: accepts_armed_more)
  show "traces (State_Monad.bind (wait_for_done k pid f) (\<lambda>finished.
      if \<not> finished then worker_fails k pid f [t, f, k] PV_ERR_EXTERNAL else ?arm)) (accepts_armed k ttl)"
  proof (rule traces_bind [OF waited], rule traces_if, elim conjE)
    fix finished u assume "unaccepted k u"
    then show "traces (worker_fails k pid f [t, f, k] PV_ERR_EXTERNAL) (\<lambda>r v. accepts_armed k ttl r (u @ v))" by (simp add: stop)
  next
    fix finished u
    assume u: "(finished \<longrightarrow> PV_CLIP_MSG_DONE \<in> set (received k u)) \<and> unaccepted k u" and "\<not> \<not> finished"
    have settime: "traces (call_ok (Timerfd_settime ttl)) (\<lambda>r v. \<exists>a. v = [(Timerfd_settime ttl, a)] \<and> r = (\<not> call_failed a))"
      unfolding call_ok_def by (intro traces_bind [OF traces_syscall] traces_return) simp
    show "traces ?arm (\<lambda>r v. accepts_armed k ttl r (u @ v))"
    proof (rule traces_bind [OF settime], rule traces_if)
      fix armed v assume v: "\<exists>a. v = [(Timerfd_settime ttl, a)] \<and> armed = (\<not> call_failed a)"
      then have "unaccepted k (u @ v)" using u by (auto simp: unaccepted_def)
      from stop [OF this, of PV_ERR_IO]
      show "traces (worker_fails k pid f [t, f, k] PV_ERR_IO) (\<lambda>r x. accepts_armed k ttl r (u @ (v @ x)))" by simp
      assume "\<not> \<not> armed"
      then have before: "ready_to_accept k ttl (u @ v @ x)" if "unaccepted k x" for x
        using u v \<open>\<not> \<not> finished\<close> that by (auto simp: ready_to_accept_def unaccepted_def)
      have exited: "traces (if c_stop w then State_Monad.return True else owner_has_exited pid) (\<lambda>_. unaccepted k)" for w
        by (rule muteD) (auto intro!: traced)
      have inner: "traces (State_Monad.bind (if c_stop w then State_Monad.return True else owner_has_exited pid) (\<lambda>gone.
          if gone then worker_fails k pid f [t, f, k] PV_ERR_EXTERNAL else ?accept)) (\<lambda>r x. accepts_armed k ttl r ((u @ v) @ x))" for w
      proof (rule traces_bind [OF exited], rule traces_if)
        fix x assume "unaccepted k x"
        note b = before [OF this]
        show "traces (worker_fails k pid f [t, f, k] PV_ERR_EXTERNAL) (\<lambda>r y. accepts_armed k ttl r ((u @ v) @ (x @ y)))"
          using stop [of "u @ v @ x" PV_ERR_EXTERNAL] b by (simp add: ready_to_accept_def)
        show "traces ?accept (\<lambda>r y. accepts_armed k ttl r ((u @ v) @ (x @ y)))"
          using traces_accept [OF b] by simp
      qed
      show "traces ?check (\<lambda>r x. accepts_armed k ttl r (u @ (v @ x)))"
        by (rule traces_bind [OF traces_get [of "\<lambda>_ y. y = []"]], simp, rule traces_weaken [OF inner], simp)
    qed
  qed
qed

lemma traces_own_armed: "traces (worker_own d k pid ttl) (accepts_armed k ttl)"
proof -
  have timer: "traces (case timer of Ret t \<Rightarrow> worker_serve k pid f t ttl | _ \<Rightarrow> worker_fails k pid f [f, k] PV_ERR_IO)
      (accepts_armed k ttl)" for timer f
    by (cases timer) (auto intro: traces_serve_armed traces_fails_armed)
  show ?thesis
    unfolding worker_own_def by (intro traces_before muteD timer) (auto intro!: traced)
qed

lemma silent_clear_stop [traced]: "silent P clear_stop"
  unfolding clear_stop_def by (rule silent_State) auto

lemma silent_spawn [traced]:
  assumes "P Pipe2" "P Fork" "\<And>fd. P (Close fd)" "\<And>fd n. P (Read fd n)" "\<And>pid b. P (Waitpid pid b)"
  shows "silent P (spawn_owner d)"
proof -
  have "silent P (case child of
         Ret owner \<Rightarrow> State_Monad.bind (close_if_open e1) (\<lambda>_. State_Monad.bind (retry False (Read e0 4)) (\<lambda>received.
           State_Monad.bind (close_if_open e0) (\<lambda>_. if received = Data [] then State_Monad.return owner
             else State_Monad.bind (waitpid_nointr owner False) (\<lambda>_. State_Monad.return (- 1)))))
       | _ \<Rightarrow> State_Monad.bind (close_if_open e0) (\<lambda>_. State_Monad.bind (close_if_open e1) (\<lambda>_. State_Monad.return (- 1))))"
    for child e0 e1
    using assms by (cases child) (auto intro!: traced)
  then have "silent P (case p of Fds e0 e1 \<Rightarrow> State_Monad.bind (syscall Fork) (\<lambda>child. case child of
         Ret owner \<Rightarrow> State_Monad.bind (close_if_open e1) (\<lambda>_. State_Monad.bind (retry False (Read e0 4)) (\<lambda>received.
           State_Monad.bind (close_if_open e0) (\<lambda>_. if received = Data [] then State_Monad.return owner
             else State_Monad.bind (waitpid_nointr owner False) (\<lambda>_. State_Monad.return (- 1)))))
       | _ \<Rightarrow> State_Monad.bind (close_if_open e0) (\<lambda>_. State_Monad.bind (close_if_open e1) (\<lambda>_. State_Monad.return (- 1))))
       | _ \<Rightarrow> State_Monad.return (- 1))" for p
    using assms by (cases p) (auto intro!: traced)
  then show ?thesis unfolding spawn_owner_def using assms by (intro traced) auto
qed

lemma traces_worker_armed:
  assumes "setup_fd \<noteq> k"
  shows "traces (worker_loop d k setup_fd ttl) (accepts_armed k ttl)"
  unfolding worker_loop_def Let_def
  by (intro traces_before traces_if traces_cleanup_armed traces_fails_armed traces_own_armed muteD)
    (use assms in \<open>auto intro!: traced split: if_splits\<close>)

lemma forks_end_gone:
  assumes "forks_end owner t" "no_fork u" "owner > 0 \<longrightarrow> gone owner u"
  shows "forks_end (- 1) (t @ u)"
  using assms by (auto simp: forks_end_def)

lemma traces_forkless:
  assumes "forkless m" and "\<And>x. traces (f x) (\<lambda>_. forks_end (- 1))"
  shows "traces (State_Monad.bind m f) (\<lambda>_. forks_end (- 1))"
  by (rule traces_bind [OF forklessD [OF assms(1)]]) (rule traces_weaken [OF assms(2)], rule forks_end_quiet)

lemma forkless_ends: "forkless m \<Longrightarrow> traces m (\<lambda>_. forks_end (- 1))"
  by (rule traces_weaken [OF forklessD]) (auto simp: forks_end_def)

lemma traces_spawn_own: "traces (State_Monad.bind (spawn_owner d) (\<lambda>owner.
    if owner < 0 then worker_fails k (- 1) (- 1) [k, d] PV_ERR_EXTERNAL else worker_own d k owner ttl)) (\<lambda>_. forks_end (- 1))"
proof (rule traces_bind [OF traces_spawn], rule traces_if)
  fix owner t assume t: "forks_end owner t"
  have "traces (worker_fails k (- 1) (- 1) [k, d] PV_ERR_EXTERNAL) (\<lambda>_. no_fork)"
    by (rule forklessD) (auto intro!: traced)
  then show "owner < 0 \<Longrightarrow> traces (worker_fails k (- 1) (- 1) [k, d] PV_ERR_EXTERNAL) (\<lambda>_ u. forks_end (- 1) (t @ u))"
    by (rule traces_weaken) (use forks_end_gone [OF t] in auto)
  show "traces (worker_own d k owner ttl) (\<lambda>_ u. forks_end (- 1) (t @ u))"
    by (rule traces_weaken [OF traces_conj [OF forklessD [OF forkless_own] traces_own_gone]]) (use forks_end_gone [OF t] in auto)
qed

lemma traces_worker_forks: "traces (worker_loop d k setup_fd ttl) (\<lambda>_. forks_end (- 1))"
  unfolding worker_loop_def Let_def
  by (intro traces_forkless traces_if traces_spawn_own forkless_ends) (auto intro!: traced)


definition idle :: revents where
  "idle = \<lparr>re_in = False, re_hup = False, re_err = False\<rparr>"

definition demo_helper :: clip where
  "demo_helper = \<lparr>c_answers = map (\<lambda>a. (False, a))
      (replicate 21 (Ret 0) @ [Ret 16, Ret 0, Data [PV_CLIP_MSG_START_TEXT], Fds 10 11, Ret 77, Ret 0, Data [], Ret 0, Ret 0,
        Ret 12, Ret 13, Ret 0, Ret 0, Ret 0, Ret 0, Ret 1, Ret 0, Events [readable, idle], Data [PV_CLIP_MSG_DONE], Ret 0, Ret 0,
        Ret 0, Ret 0, Ret 0, Ret 0, Ret 1, Ret 0, Ret 0, Events [readable, idle], Data (replicate 8 1), Ret 77]),
     c_stop = False, c_trace = [], c_environ = [ascii ''XDG_SESSION_TYPE=x11'', ascii ''DISPLAY=:0''], c_pid = 41\<rparr>"

lemma demo_work: "fst (run_state (worker_loop 3 4 5 10) demo_helper) = PV_OK"
  by code_simp


section \<open>The two programs understand each other\<close>

lemma build_owner_environment_allowed:
  "set (build_owner_environment es room) \<subseteq> {e \<in> set es. env_key_is_allowed e} \<and>
     length (build_owner_environment es room) \<le> room - 1"
  by (induction es room rule: build_owner_environment.induct) auto

lemma status_index_nth: "status \<in> set ss \<Longrightarrow> status_index ss status < length ss \<and> ss ! status_index ss status = status"
  by (induction ss) auto

lemma all_statuses: "status \<in> set pv_statuses"
  by (cases status) (simp_all add: pv_statuses_def)

lemma sint_small:
  assumes "0 \<le> n" "n < 2 ^ (LENGTH('a::len) - 1)"
  shows "sint (word_of_int n :: 'a word) = n"
  using assms by (simp add: signed_of_int signed_take_bit_int_eq_self)

lemma decode_setup_result:
  assumes "1 < pid" "pid \<le> 2147483647"
  shows "decode_setup (pv_clip_setup_result status pid) = (if status = PV_OK then Inr pid else Inl status)"
proof -
  let ?i = "status_index pv_statuses status"
  have i: "?i < 15" "pv_statuses ! ?i = status"
    using status_index_nth [OF all_statuses, of status] by (simp_all add: pv_statuses_def)
  have s: "sint (word_of_nat ?i :: u32) = int ?i"
    using sint_small [where 'a = 32, of "int ?i"] i(1) by simp
  have p: "sint (word_of_int pid :: u64) = pid" using sint_small [where 'a = 64, of pid] assms by simp
  have parts: "get_u32_le (take 4 (pv_clip_setup_result status pid)) = PV_CLIP_SETUP_MAGIC"
    "get_u32_le (take 4 (drop 4 (pv_clip_setup_result status pid))) = word_of_nat ?i"
    "get_u64_le (take 8 (drop 8 (pv_clip_setup_result status pid))) = word_of_int pid"
    using u64.get_front [of "word_of_int pid" "[]"]
    by (simp_all add: pv_clip_setup_result_def u32.get_put u32.length_put)
  have ok: "?i = 0 \<longleftrightarrow> status = PV_OK" by (simp add: pv_statuses_def)
  have "length pv_statuses = 15" by (simp add: pv_statuses_def)
  then show ?thesis
    unfolding decode_setup_def Let_def parts s p using i assms ok by auto
qed

lemma digits_value_snoc: "digits_value (ds @ [d]) = digits_value ds * 10 + unat (d - 0x30)"
  by (simp add: digits_value_def)

lemma digit_facts: "n < 10 \<Longrightarrow> is_digit (decimal_digit n) \<and> unat (decimal_digit n - 0x30) = n"
  by (auto simp: is_digit_def decimal_digit_def word_le_nat_alt unat_word_ariths unat_of_nat)

lemma print_decimal_digits:
  "print_decimal n \<noteq> [] \<and> list_all is_digit (print_decimal n) \<and> digits_value (print_decimal n) = n"
proof (induction n rule: print_decimal.induct)
  case (1 n)
  show ?case
  proof (cases "n < 10")
    case True
    then show ?thesis
      using digit_facts by (subst print_decimal.simps, subst print_decimal.simps, subst print_decimal.simps) (simp add: digits_value_def)
  next
    case False
    then have "print_decimal n = print_decimal (n div 10) @ [decimal_digit (n mod 10)]" by (subst print_decimal.simps) simp
    then show ?thesis using "1.IH" [OF False] digit_facts [of "n mod 10"] by (simp add: digits_value_snoc)
  qed
qed

lemma strtoul_digits:
  assumes "v \<noteq> []" "list_all is_digit v" "digits_value v < 2 ^ 64"
  shows "strtoul v = (word_of_nat (digits_value v), [], False)"
proof -
  have hd: "\<not> ascii_space (hd v)" "hd v \<noteq> 0x2d" "hd v \<noteq> 0x2b"
    using assms by (cases v; auto simp: is_digit_def ascii_space_def)+
  have tw: "takeWhile is_digit v = v" "dropWhile is_digit v = []"
    using assms(2) by (simp_all add: list_all_iff)
  have dw: "dropWhile ascii_space v = v" using hd(1) assms(1) by (cases v) auto
  show ?thesis unfolding strtoul_def Let_def dw using hd(2,3) assms by (simp add: tw)
qed

lemma parse_ttl_print:
  assumes "0 < ttl" "ttl \<le> PV_CLIP_MAX_TTL_SECONDS"
  shows "parse_ttl_argument (print_decimal ttl) = Some ttl"
proof -
  have u: "unat (word_of_nat ttl :: u64) = ttl" using assms by (simp add: unat_of_nat)
  then have "(word_of_nat ttl :: u64) \<noteq> 0" using assms by (metis unat_0 less_irrefl)
  with u show ?thesis
    using strtoul_digits [of "print_decimal ttl"] print_decimal_digits [of ttl] assms
    by (simp add: parse_ttl_argument_def eq_commute [of "[]"])
qed



end
