(* ===== verification/Spec2Isabelle.thy ===== *)
theory Spec2Isabelle
  imports Pv_Recovery_File Pv_Tty Pv_Ui Pv_Clipboard
begin

text \<open>
  Verification of pvault, a password manager written in C.

  \<^bold>\<open>The program.\<close> A vault is a list of records kept in guarded memory. Opening reads the
  vault file, unwraps the master key with the password or the recovery key, decrypts the body and
  decodes it into an arena; a command changes the records; saving encodes and encrypts them, keeps
  the old file as an automatic backup, replaces the file atomically and prunes old backups. Secrets
  are typed at the terminal, a record can be picked on a curses screen, and a recovery key can be
  kept in a file.

  \<^bold>\<open>Theories and sources.\<close>
  \<^item> \<^verbatim>\<open>Pv_Prelude\<close>: machine types, status codes, slices, words, loops, regions.
  \<^item> \<^verbatim>\<open>Pv_Error\<close> (\<^verbatim>\<open>src/error.c\<close>), \<^verbatim>\<open>Pv_Util\<close> (\<^verbatim>\<open>src/util.c\<close>): messages, UTF-8, sanitising,
    checked arithmetic, hexadecimal text, search.
  \<^item> \<^verbatim>\<open>Pv_Arena\<close> (\<^verbatim>\<open>src/arena.c\<close>): the arena is a record with its memory as a function from offsets
    to bytes; a slice is an offset and a length.
  \<^item> \<^verbatim>\<open>Pv_Model\<close> (\<^verbatim>\<open>src/model.c\<close>): records and vaults; \<open>vault_view\<close> is the abstract list of records.
  \<^item> \<^verbatim>\<open>Pv_Cbor\<close> (\<^verbatim>\<open>src/cbor_codec.c\<close>): writer and reader of the body.
  \<^item> \<^verbatim>\<open>Pv_Crypto\<close> (\<^verbatim>\<open>src/crypto.c\<close>): file header, key slots, body encryption.
  \<^item> \<^verbatim>\<open>Pv_Recovery\<close>, \<^verbatim>\<open>Pv_Recovery_File\<close> (\<^verbatim>\<open>src/recovery.c\<close>): recovery keys as text and on a file.
  \<^item> \<^verbatim>\<open>Pv_Secure\<close> (\<^verbatim>\<open>src/secure.c\<close>): guarded buffers, process start-up, password policy, reading a secret.
  \<^item> \<^verbatim>\<open>Pv_Config\<close> (\<^verbatim>\<open>src/config.c\<close>): the configuration file.
  \<^item> \<^verbatim>\<open>Pv_Posix\<close>: the file system and the system calls the store uses, with a schedule of faults and,
    for every name, what a power failure may leave there; the frame logic of the proofs.
  \<^item> \<^verbatim>\<open>Pv_Disk\<close>, \<^verbatim>\<open>Pv_Backup\<close>, \<^verbatim>\<open>Pv_Store\<close>, \<^verbatim>\<open>Pv_Open\<close> (\<^verbatim>\<open>src/store.c\<close>): files and locks, automatic
    backups, the operations of the store, and what opening returns.
  \<^item> \<^verbatim>\<open>Pv_Tty\<close> (\<^verbatim>\<open>src/tty.c\<close>), \<^verbatim>\<open>Pv_Ui\<close> (\<^verbatim>\<open>src/ui.c\<close>): the dialogue at the terminal and the picker.
  \<^item> \<^verbatim>\<open>Pv_Clipboard\<close> (\<^verbatim>\<open>src/clipboard.c\<close>, \<^verbatim>\<open>src/clip_main.c\<close>): the client, its detached helper and the
    owner of the selection, as programs over recorded system calls with scripted answers.

  \<^bold>\<open>Conventions.\<close> A C function that returns a status and fills an output is a function into
  \<open>pv_result\<close>; state is passed explicitly or in a state monad. A pointer argument is the value
  it points to, so tests for NULL have no counterpart unless NULL is a value the callers pass.
  Outcomes of allocations, of libsodium, libcbor and curses and answers of the kernel are arguments,
  scripts in the state or the fault schedule. The assumptions on libsodium are \<open>sodium_ok\<close>
  (decryption inverts encryption and lengths are as documented), those on libcbor
  \<open>decodes_items\<close>.

  \<^bold>\<open>What is shown.\<close>
  \<^item> Durability: whatever calls fail and whenever power fails, a file that is replaced is the old or
    the new one, completely, and the status says which; a failed save returns the vault unchanged;
    pruning removes only authenticated backups that have enough newer ones.
  \<^item> Opening: a sealed file opens as the vault it was sealed from, with either credential.
  \<^item> Records: insertion, deletion and cloning refine operations on the list of records; deletion
    erases every secret byte; search returns the first live match.
  \<^item> Formats: the body codec, the header, key slots, recovery texts, hexadecimal text and backup
    names round-trip, and what decoders accept is exactly the canonical encodings.
  \<^item> Terminal: signal dispositions and terminal settings are restored, only sanitised text is
    drawn, confirmation is exactly the answer y.
  \<^item> Clipboard: the secret goes only to the data pipe and only to a helper that is ready, success
    means it was taken completely; the helper outlives none of its children unnoticed and accepts
    only with its timer armed; both sides agree on arguments and reports.

  \<^bold>\<open>Bounds.\<close> Loops that consume a script end with it; a result \<open>None\<close> is a call that has not
  returned. The retries of a temporary name are the 32 of the code. Loops over transfers carry fuel
  that the length of the data and of the fault schedule bound; the lemmas on systems without faults
  show that the calls return their result.

  \<^bold>\<open>Not modelled.\<close> The clipboard code for Wayland is compiled only into experimental builds.
  The command line (\<^verbatim>\<open>src/cli.c\<close>), the shell
  (\<^verbatim>\<open>src/shell.c\<close>) and \<^verbatim>\<open>src/main.c\<close> are dialogue and printing around the parts above. The fuzz drivers
  and tests are no part of the program.
\<close>

end
